(* ===== verification/UniPoly.thy ===== *)
theory UniPoly
  imports Prelude
begin

text \<open>
  Crate \<^verbatim>\<open>akita-algebra\<close>, module \<^verbatim>\<open>uni_poly\<close>: dense univariate polynomials, the
  compressed sumcheck message that omits the linear coefficient, and Newton
  forward-difference interpolation.  A field type of the \<^verbatim>\<open>jolt-field\<close> package is a type
  variable of class \<open>field\<close>; \<open>from_u64\<close> is \<open>of_nat\<close> and \<open>inverse()\<close> is \<open>None\<close> at zero.
\<close>

subsection \<open>Definitions\<close>

datatype 'e uni_poly = UniPoly (coeffs: "'e list")

datatype 'e compressed_uni_poly =
  CompressedUniPoly (coeffs_except_linear_term: "'e list")

definition uni_degree :: "'e uni_poly \<Rightarrow> nat" where
  "uni_degree p = length (coeffs p) - 1"

definition evaluate :: "'e::field uni_poly \<Rightarrow> 'e \<Rightarrow> 'e" where
  "evaluate p x = foldl (\<lambda>acc c. acc * x + c) 0 (rev (coeffs p))"

definition compress :: "'e uni_poly \<Rightarrow> 'e compressed_uni_poly" where
  "compress p =
     (case coeffs p of
        [] \<Rightarrow> CompressedUniPoly []
      | [c] \<Rightarrow> CompressedUniPoly [c]
      | c0 # c1 # rest \<Rightarrow> CompressedUniPoly (c0 # rest))"

definition compressed_degree :: "'e compressed_uni_poly \<Rightarrow> nat" where
  "compressed_degree c =
     (let len = length (coeffs_except_linear_term c) in if len \<le> 1 then 0 else len)"

definition recover_linear_term :: "'e::field compressed_uni_poly \<Rightarrow> 'e \<Rightarrow> 'e" where
  "recover_linear_term c hint =
     (case coeffs_except_linear_term c of
        [] \<Rightarrow> 0
      | c0 # rest \<Rightarrow> foldl (\<lambda>linear ci. linear - ci) (hint - c0 - c0) rest)"

definition decompress :: "'e::field compressed_uni_poly \<Rightarrow> 'e \<Rightarrow> 'e uni_poly" where
  "decompress c hint =
     (case coeffs_except_linear_term c of
        [] \<Rightarrow> UniPoly []
      | c0 # rest \<Rightarrow> UniPoly (c0 # recover_linear_term c hint # rest))"

definition eval_from_hint :: "'e::field compressed_uni_poly \<Rightarrow> 'e \<Rightarrow> 'e \<Rightarrow> 'e" where
  "eval_from_hint c hint x =
     (case coeffs_except_linear_term c of
        [] \<Rightarrow> 0
      | c0 # rest \<Rightarrow>
          fst (foldl (\<lambda>(acc, pow) ci. (acc + ci * pow, pow * x))
                     (c0 + x * recover_linear_term c hint, x * x) rest))"

text \<open>
  \<open>from_evals\<close>: the difference table is updated in place from low to high index and
  loses its last entry in every pass; \<open>deltas\<close> collects the head of each table.
\<close>

definition difference_pass :: "'e::field list \<Rightarrow> 'e list" where
  "difference_pass table =
     butlast (foldl (\<lambda>t j. t[j := t ! Suc j - t ! j]) table [0..<length table - 1])"

fun forward_deltas :: "nat \<Rightarrow> 'e::field list \<Rightarrow> 'e list \<Rightarrow> 'e list" where
  "forward_deltas 0 table deltas = deltas"
| "forward_deltas (Suc n) table deltas =
     (let table' = difference_pass table in forward_deltas n table' (deltas @ [table' ! 0]))"

text \<open>\<open>None\<close> is the panic of \<open>expect\<close> on a factorial that vanishes in the field.\<close>

fun divided_differences :: "nat \<Rightarrow> 'e::field \<Rightarrow> 'e list \<Rightarrow> 'e list \<Rightarrow> 'e list option" where
  "divided_differences k factorial [] acc = Some acc"
| "divided_differences k factorial (delta # deltas) acc =
     (let factorial' = factorial * of_nat k in
        if factorial' = 0 then None
        else divided_differences (Suc k) factorial' deltas (acc @ [delta * inverse factorial']))"

definition newton_expand_step :: "'e::field list \<Rightarrow> nat \<Rightarrow> 'e list \<Rightarrow> 'e list" where
  "newton_expand_step divided_diffs k cs =
     (let shift = of_nat k;
          new_coeffs = (replicate (length cs + 1) 0)[0 := divided_diffs ! k]
      in foldl (\<lambda>nc i. let nc' = nc[Suc i := nc ! Suc i + cs ! i]
                        in nc'[i := nc' ! i - shift * cs ! i])
           new_coeffs [0..<length cs])"

fun trim_trailing_zeros_rev :: "'e::field list \<Rightarrow> 'e list" where
  "trim_trailing_zeros_rev (c # d # cs) =
     (if c = 0 then trim_trailing_zeros_rev (d # cs) else c # d # cs)"
| "trim_trailing_zeros_rev cs = cs"

text \<open>Remove trailing zeros, keeping at least one element.\<close>

definition trim_trailing_zeros :: "'e::field list \<Rightarrow> 'e list" where
  "trim_trailing_zeros cs = rev (trim_trailing_zeros_rev (rev cs))"

definition from_evals :: "'e::field list \<Rightarrow> 'e uni_poly option" where
  "from_evals evals =
     (let n = length evals in
      if n = 0 then Some (UniPoly [])
      else if n = 1 then Some (UniPoly [evals ! 0])
      else let deltas = forward_deltas (n - 1) evals [evals ! 0] in
        map_option
          (\<lambda>divided_diffs.
             UniPoly (trim_trailing_zeros
               (foldl (\<lambda>cs k. newton_expand_step divided_diffs k cs)
                  [divided_diffs ! (n - 1)] (rev [0..<n - 1]))))
          (divided_differences 1 1 (tl deltas) [deltas ! 0]))"

subsection \<open>Evaluation of coefficient lists\<close>

fun horner :: "'e::comm_ring_1 list \<Rightarrow> 'e \<Rightarrow> 'e" where
  "horner [] x = 0"
| "horner (c # cs) x = c + x * horner cs x"

lemma evaluate_horner [poly_simps]: "evaluate p x = horner (coeffs p) x"
proof -
  have "foldr (\<lambda>c acc. acc * x + c) cs 0 = horner cs x" for cs
    by (induction cs) (simp_all add: algebra_simps)
  then show ?thesis by (simp add: evaluate_def foldl_conv_foldr)
qed

lemma horner_append [poly_simps]: "horner (xs @ ys) x = horner xs x + x ^ length xs * horner ys x"
  by (induction xs) (simp_all add: algebra_simps)

lemma horner_sum: "horner cs x = (\<Sum>i < length cs. cs ! i * x ^ i)"
proof (induction cs)
  case (Cons c cs)
  then show ?case
    by (simp add: sum.lessThan_Suc_shift sum_distrib_left algebra_simps del: sum.lessThan_Suc)
qed simp

lemma horner_0: "horner cs 0 = (case cs of [] \<Rightarrow> 0 | c # _ \<Rightarrow> c)"
  by (cases cs) simp_all

lemma horner_1: "horner cs 1 = sum_list cs"
  by (induction cs) simp_all

lemma horner_replicate_zero [simp]: "horner (replicate n 0) x = 0"
  by (induction n) simp_all

lemma horner_update:
  "i < length cs \<Longrightarrow> horner (cs[i := v]) x = horner cs x + (v - cs ! i) * x ^ i"
proof (induction cs arbitrary: i)
  case (Cons c cs)
  show ?case
  proof (cases i)
    case (Suc j)
    with Cons.prems have "horner (cs[j := v]) x = horner cs x + (v - cs ! j) * x ^ j"
      by (intro Cons.IH) simp
    with Suc show ?thesis by (simp add: distrib_left mult.left_commute)
  qed simp
qed simp

subsection \<open>The compressed message\<close>

lemma foldl_minus_sum: "foldl (\<lambda>l c. l - c) (z :: 'e::comm_ring_1) cs = z - sum_list cs"
  by (induction cs arbitrary: z) (simp_all add: algebra_simps)

lemma foldl_power_accumulate:
  "foldl (\<lambda>(acc, pow) ci. (acc + ci * pow, pow * x)) (a, p) cs
     = (a + p * horner cs x, p * x ^ length cs)" for x :: "'e::comm_ring_1"
  by (induction cs arbitrary: a p) (simp_all add: algebra_simps)

lemma recover_linear_term_Cons [simp]:
  "recover_linear_term (CompressedUniPoly (c0 # rest)) hint = hint - c0 - c0 - sum_list rest"
  by (simp add: recover_linear_term_def foldl_minus_sum)

lemma eval_from_hint_decompress: "eval_from_hint c hint x = evaluate (decompress c hint) x"
  by (cases "coeffs_except_linear_term c")
     (simp_all add: eval_from_hint_def decompress_def evaluate_horner foldl_power_accumulate
        distrib_left mult.assoc add.assoc)

lemma decompress_sum:
  assumes "coeffs_except_linear_term c \<noteq> []"
  shows "evaluate (decompress c hint) 0 + evaluate (decompress c hint) 1 = hint"
proof (cases c)
  case (CompressedUniPoly cs)
  with assms obtain c0 rest where "cs = c0 # rest" by (cases cs) auto
  with CompressedUniPoly show ?thesis
    by (simp add: decompress_def evaluate_horner horner_0 horner_1)
qed

lemma eval_from_hint_Nil: "eval_from_hint (CompressedUniPoly []) hint x = 0"
  by (simp add: eval_from_hint_def)

lemma eval_from_hint_compress:
  assumes "evaluate g 0 + evaluate g 1 = hint"
  shows "eval_from_hint (compress g) hint x = evaluate g x"
proof (cases g)
  case (UniPoly cs)
  consider "cs = []" | c where "cs = [c]" | c0 c1 rest where "cs = c0 # c1 # rest"
    by (metis list.exhaust)
  then show ?thesis
    using UniPoly assms [symmetric]
    by cases (simp_all add: eval_from_hint_decompress compress_def decompress_def
                evaluate_horner horner_0 horner_1 algebra_simps)
qed

lemma decompress_compress:
  assumes "evaluate g 0 + evaluate g 1 = hint" and "2 \<le> length (coeffs g)"
  shows "decompress (compress g) hint = g"
proof (cases g)
  case (UniPoly cs)
  with assms(2) obtain c0 c1 rest where "cs = c0 # c1 # rest"
    by (cases cs; cases "tl cs") auto
  with assms UniPoly show ?thesis
    by (simp add: compress_def decompress_def evaluate_horner horner_0 horner_1 algebra_simps)
qed

lemma compressed_degree_compress:
  "compressed_degree (compress g) \<le> uni_degree g"
  by (cases g) (auto simp: compressed_degree_def compress_def uni_degree_def Let_def
                  split: list.splits)

lemma uni_degree_decompress:
  "uni_degree (decompress c hint) \<le> max 1 (compressed_degree c)"
  by (auto simp: compressed_degree_def decompress_def uni_degree_def Let_def split: list.splits)

subsection \<open>Interpolation\<close>

definition delta :: "(nat \<Rightarrow> 'e::comm_ring_1) \<Rightarrow> nat \<Rightarrow> 'e" where
  "delta f i = f (Suc i) - f i"

lemma difference_pass_prefix:
  assumes "m < length t"
  shows "foldl (\<lambda>t j. t[j := t ! Suc j - t ! j]) t [0..<m]
           = map (\<lambda>j. t ! Suc j - t ! j) [0..<m] @ drop m t"
  using assms
proof (induction m)
  case (Suc m)
  then have "drop m t = t ! m # t ! Suc m # drop (Suc (Suc m)) t"
    by (metis Cons_nth_drop_Suc Suc_lessD)
  moreover have "drop (Suc m) t = t ! Suc m # drop (Suc (Suc m)) t"
    using Suc.prems by (simp add: Cons_nth_drop_Suc)
  ultimately show ?case using Suc by (simp add: nth_append list_update_append)
qed simp

lemma difference_pass_map:
  "difference_pass (map f [0..<Suc n]) = map (delta f) [0..<n]"
proof -
  have "foldl (\<lambda>t j. t[j := t ! Suc j - t ! j]) (map f [0..<Suc n]) [0..<n]
          = map (delta f) [0..<n] @ [f n]"
    by (subst difference_pass_prefix) (auto simp: delta_def nth_append intro!: arg_cong [of _ _ f])
  then show ?thesis by (simp add: difference_pass_def del: upt_Suc)
qed

lemma forward_deltas_map:
  "k < n \<Longrightarrow> forward_deltas k (map f [0..<n]) ds
              = ds @ map (\<lambda>j. (delta ^^ Suc j) f 0) [0..<k]"
proof (induction k arbitrary: f n ds)
  case (Suc k)
  then obtain m where n: "n = Suc m" and m: "0 < m" "k < m" by (cases n) auto
  have "forward_deltas (Suc k) (map f [0..<n]) ds
          = forward_deltas k (map (delta f) [0..<m]) (ds @ [delta f 0])"
    using m by (simp add: n difference_pass_map Let_def del: upt_Suc)
  also have "\<dots> = (ds @ [delta f 0]) @ map (\<lambda>j. (delta ^^ Suc j) (delta f) 0) [0..<k]"
    by (rule Suc.IH [OF m(2)])
  also have "\<dots> = ds @ map (\<lambda>j. (delta ^^ Suc j) f 0) [0..<Suc k]"
    by (simp add: map_upt_Suc funpow_swap1 del: upt_Suc)
  finally show ?case .
qed simp

lemma divided_differences_Some:
  assumes "\<forall>j < length ds. of_nat (fact (k + j)) \<noteq> (0 :: 'e::field)" and "0 < k"
  shows "divided_differences k (of_nat (fact (k - 1))) ds acc =
           Some (acc @ map (\<lambda>j. ds ! j * inverse (of_nat (fact (k + j)) :: 'e)) [0..<length ds])"
  using assms
proof (induction ds arbitrary: k acc)
  case (Cons d ds)
  obtain k' where k': "k = Suc k'" using Cons.prems(2) by (cases k) auto
  have fact: "of_nat (fact (k - 1)) * of_nat k = (of_nat (fact k) :: 'e)"
    by (simp add: k' algebra_simps flip: of_nat_mult)
  have nz: "of_nat (fact k) \<noteq> (0 :: 'e)" using Cons.prems(1) by force
  have tail: "\<forall>j < length ds. of_nat (fact (Suc k + j)) \<noteq> (0 :: 'e)"
    using Cons.prems(1) by force
  show ?case
    unfolding divided_differences.simps Let_def fact
    using nz Cons.IH [OF tail] by (simp add: map_upt_Suc del: upt_Suc fact_Suc)
qed simp

lemma length_newton_expand_step [simp]:
  "length (newton_expand_step dd k cs) = Suc (length cs)"
proof -
  have "length (foldl (\<lambda>nc i. let nc' = nc[Suc i := nc ! Suc i + cs ! i]
                        in nc'[i := nc' ! i - s * cs ! i]) nc is) = length nc" for nc "is" s
    by (induction "is" arbitrary: nc) (simp_all add: Let_def)
  then show ?thesis by (simp add: newton_expand_step_def Let_def)
qed

lemma horner_newton_expand_step:
  "horner (newton_expand_step dd k cs) x = dd ! k + (x - of_nat k) * horner cs x"
proof -
  let ?body = "\<lambda>nc i. let nc' = nc[Suc i := nc ! Suc i + cs ! i] in nc'[i := nc' ! i - of_nat k * cs ! i]"
  let ?z = "(replicate (length cs + 1) 0)[0 := dd ! k]"
  have "length (foldl ?body ?z [0..<m]) = Suc (length cs) \<and>
        horner (foldl ?body ?z [0..<m]) x = dd ! k + (x - of_nat k) * horner (take m cs) x"
    if "m \<le> length cs" for m
    using that
  proof (induction m)
    case 0
    then show ?case by (simp add: horner_update)
  next
    case (Suc m)
    then show ?case
      by (simp add: horner_update Let_def take_Suc_conv_app_nth horner_append algebra_simps)
  qed
  from this [of "length cs"] show ?thesis by (simp add: newton_expand_step_def Let_def)
qed

lemma foldl_newton_expand:
  "horner (foldl (\<lambda>cs k. newton_expand_step dd k cs) cs (rev [0..<n])) x
     = (\<Sum>k < n. dd ! k * (\<Prod>j < k. x - of_nat j)) + (\<Prod>j < n. x - of_nat j) * horner cs x"
proof (induction n arbitrary: cs)
  case (Suc n)
  show ?case
    by (simp add: Suc.IH horner_newton_expand_step algebra_simps)
qed simp

lemma horner_trim_trailing_zeros [simp]: "horner (trim_trailing_zeros cs) x = horner cs x"
proof -
  have "horner (rev (trim_trailing_zeros_rev ds)) x = horner (rev ds) x" for ds
    by (induction ds rule: trim_trailing_zeros_rev.induct) (simp_all add: horner_append)
  from this [of "rev cs"] show ?thesis by (simp add: trim_trailing_zeros_def)
qed

lemma newton_forward:
  "f i = (\<Sum>k \<le> i. of_nat (i choose k) * (delta ^^ k) f 0)" for f :: "nat \<Rightarrow> 'e::comm_ring_1"
proof (induction i arbitrary: f)
  case (Suc i)
  have step: "(delta ^^ k) (\<lambda>a. f (Suc a)) 0 = (delta ^^ k) f 0 + (delta ^^ Suc k) f 0" for k
  proof -
    have "(delta ^^ k) (\<lambda>a. g (Suc a)) j = (delta ^^ k) g (Suc j)" for g :: "nat \<Rightarrow> 'e" and j
    proof (induction k arbitrary: g)
      case (Suc k)
      have "delta (\<lambda>a. g (Suc a)) = (\<lambda>a. delta g (Suc a))" by (auto simp: delta_def)
      with Suc.IH [of "delta g"] show ?case by (simp only: funpow_Suc_right comp_apply)
    qed simp
    then show ?thesis by (simp add: delta_def)
  qed
  have "f (Suc i) = (\<Sum>k \<le> i. of_nat (i choose k) * (delta ^^ k) (\<lambda>a. f (Suc a)) 0)"
    using Suc.IH [of "\<lambda>a. f (Suc a)"] by simp
  also have "\<dots> = (\<Sum>k \<le> i. of_nat (i choose k) * (delta ^^ k) f 0)
               + (\<Sum>k \<le> i. of_nat (i choose k) * (delta ^^ Suc k) f 0)"
    by (simp add: step distrib_left sum.distrib del: funpow.simps)
  also have "(\<Sum>k \<le> i. of_nat (i choose k) * (delta ^^ k) f 0)
               = f 0 + (\<Sum>k \<le> i. of_nat (i choose Suc k) * (delta ^^ Suc k) f 0)"
    using sum.atMost_Suc_shift [of "\<lambda>k. of_nat (i choose k) * (delta ^^ k) f 0" i]
    by (simp add: binomial_eq_0)
  also have "f 0 + (\<Sum>k \<le> i. of_nat (i choose Suc k) * (delta ^^ Suc k) f 0)
               + (\<Sum>k \<le> i. of_nat (i choose k) * (delta ^^ Suc k) f 0)
             = (\<Sum>k \<le> Suc i. of_nat (Suc i choose k) * (delta ^^ k) f 0)"
    by (subst sum.atMost_Suc_shift) (simp add: sum.distrib distrib_right add.commute del: funpow.simps)
  finally show ?case .
qed simp

lemma prod_falling:
  "(\<Prod>j < k. of_nat i - of_nat j) = (of_nat (fact k * (i choose k)) :: 'e::comm_ring_1)"
proof (induction k)
  case (Suc k)
  have "(of_nat i - of_nat k) * of_nat (fact k * (i choose k))
          = (of_nat (fact (Suc k) * (i choose Suc k)) :: 'e)"
  proof (cases "k \<le> i")
    case True
    have "(i - k) * (fact k * (i choose k)) = fact (Suc k) * (i choose Suc k)"
      using binomial_absorb_comp [of i k] binomial_absorption [of k i]
      by (metis (no_types, opaque_lifting) Suc_times_binomial_add binomial_absorb_comp
            fact_Suc mult.assoc mult.commute of_nat_id)
    with True show ?thesis by (metis of_nat_diff of_nat_mult)
  qed (simp add: binomial_eq_0)
  with Suc show ?case by (simp add: mult.commute)
qed simp

lemma fact_nonzero_le:
  assumes "of_nat (fact n) \<noteq> (0 :: 'e::field)" and "k \<le> n"
  shows "of_nat (fact k) \<noteq> (0 :: 'e)"
proof -
  obtain m where "(fact n :: nat) = fact k * m"
    using fact_dvd [OF assms(2), where 'a = nat] by (elim dvdE)
  with assms(1) show ?thesis by auto
qed

lemma from_evals_eq:
  fixes evals :: "'e::field list"
  assumes nz: "of_nat (fact (length evals - 1)) \<noteq> (0 :: 'e)" and n: "length evals = Suc (Suc m)"
  defines "dd \<equiv> map (\<lambda>k. (delta ^^ k) ((!) evals) 0 * inverse (of_nat (fact k))) [0..<Suc (Suc m)]"
  shows "from_evals evals = Some (UniPoly (trim_trailing_zeros
           (foldl (\<lambda>cs k. newton_expand_step dd k cs) [dd ! Suc m] (rev [0..<Suc m]))))"
proof -
  have table: "evals = map ((!) evals) [0..<Suc (Suc m)]" by (metis map_nth n)
  let ?ds = "map (\<lambda>j. (delta ^^ Suc j) ((!) evals) 0) [0..<Suc m]"
  have deltas: "forward_deltas (Suc m) evals [evals ! 0] = (evals ! 0) # ?ds"
    by (subst table, subst forward_deltas_map) simp_all
  have "\<forall>j < length ?ds. of_nat (fact (1 + j)) \<noteq> (0 :: 'e)"
    using fact_nonzero_le [OF nz] n by (simp del: fact_Suc)
  from divided_differences_Some [OF this, of "[evals ! 0]"]
  have "divided_differences 1 1 ?ds [evals ! 0]
          = Some ([evals ! 0] @ map (\<lambda>j. ?ds ! j * inverse (of_nat (fact (1 + j)))) [0..<Suc m])"
    by simp
  also have "[evals ! 0] @ map (\<lambda>j. ?ds ! j * inverse (of_nat (fact (1 + j)))) [0..<Suc m] = dd"
    by (auto simp: dd_def map_upt_Suc [of _ "Suc m"] simp del: upt_Suc fact_Suc funpow.simps
             intro!: map_cong)
  finally show ?thesis
    by (simp add: from_evals_def n deltas Let_def
             del: upt_Suc forward_deltas.simps funpow.simps)
qed

lemma from_evals_Some:
  fixes evals :: "'e::field list"
  assumes nz: "of_nat (fact (length evals - 1)) \<noteq> (0 :: 'e)"
  shows "\<exists>p. from_evals evals = Some p \<and> (\<forall>i < length evals. evaluate p (of_nat i) = evals ! i)"
proof -
  consider "length evals = 0" | "length evals = 1" | m where "length evals = Suc (Suc m)"
    by (metis One_nat_def not0_implies_Suc)
  then show ?thesis
  proof cases
    case (3 m)
    define dd where
      "dd = map (\<lambda>k. (delta ^^ k) ((!) evals) 0 * inverse (of_nat (fact k) :: 'e)) [0..<Suc (Suc m)]"
    have "horner (foldl (\<lambda>cs k. newton_expand_step dd k cs) [dd ! Suc m] (rev [0..<Suc m])) (of_nat i)
            = evals ! i" if i: "i < Suc (Suc m)" for i
    proof -
      have dd_nth: "dd ! k * of_nat (fact k * (i choose k))
                      = of_nat (i choose k) * (delta ^^ k) ((!) evals) 0" if "k < Suc (Suc m)" for k
        using that fact_nonzero_le [OF nz, of k] 3
        by (simp add: dd_def field_simps del: upt_Suc fact_Suc)
      have "horner (foldl (\<lambda>cs k. newton_expand_step dd k cs) [dd ! Suc m] (rev [0..<Suc m])) (of_nat i)
              = (\<Sum>k < Suc (Suc m). dd ! k * of_nat (fact k * (i choose k)))"
        by (simp only: foldl_newton_expand prod_falling) (simp add: algebra_simps)
      also have "\<dots> = (\<Sum>k < Suc (Suc m). of_nat (i choose k) * (delta ^^ k) ((!) evals) 0)"
        by (rule sum.cong) (simp_all only: dd_nth lessThan_iff)
      also have "\<dots> = (\<Sum>k \<le> i. of_nat (i choose k) * (delta ^^ k) ((!) evals) 0)"
        using i by (intro sum.mono_neutral_right) (auto simp: binomial_eq_0)
      also have "\<dots> = evals ! i" by (rule newton_forward [symmetric])
      finally show ?thesis .
    qed
    with from_evals_eq [OF nz 3, folded dd_def] 3 show ?thesis
      by (simp add: evaluate_horner)
  qed (auto simp: from_evals_def evaluate_horner)
qed

text \<open>
  C10: Interpolation, compression and the verifier's evaluation agree.  Whenever the field
  has room for the nodes \<open>0, \<dots>, n - 1\<close>, \<open>from_evals\<close> returns a polynomial through the
  given values, compressing it drops no information that the hint \<open>g(0) + g(1)\<close> does not
  restore, and \<open>eval_from_hint\<close> on the compressed message evaluates that polynomial at
  every point.
\<close>

theorem interpolate_compress_evaluate:
  fixes ys :: "'e::field list"
  assumes "of_nat (fact (length ys - 1)) \<noteq> (0 :: 'e)" and "2 \<le> length ys"
  shows "\<exists>p. from_evals ys = Some p
           \<and> (\<forall>i < length ys. evaluate p (of_nat i) = ys ! i)
           \<and> (\<forall>x. eval_from_hint (compress p) (ys ! 0 + ys ! 1) x = evaluate p x)"
proof -
  obtain p where p: "from_evals ys = Some p" "\<forall>i < length ys. evaluate p (of_nat i) = ys ! i"
    using from_evals_Some [OF assms(1)] by blast
  have "0 < length ys" "1 < length ys" using assms(2) by linarith+
  with p(2) have "evaluate p (of_nat 0) = ys ! 0" "evaluate p (of_nat 1) = ys ! 1" by blast+
  then have "eval_from_hint (compress p) (ys ! 0 + ys ! 1) x = evaluate p x" for x
    by (intro eval_from_hint_compress) simp
  with p show ?thesis by blast
qed

theorem interpolate_compress_evaluate_witness:
  "\<exists>p. from_evals [1, 4, 9 :: rat] = Some p \<and> eval_from_hint (compress p) 5 2 = 9"
proof -
  obtain p where p: "from_evals [1, 4, 9 :: rat] = Some p"
      "\<forall>i < 3. evaluate p (of_nat i) = [1, 4, 9 :: rat] ! i"
      "\<forall>x. eval_from_hint (compress p) 5 x = evaluate p x"
    using interpolate_compress_evaluate [of "[1, 4, 9 :: rat]"] by (auto simp: numeral_3_eq_3)
  from p(2) have "evaluate p (of_nat 2) = 9" by (auto simp del: of_nat_numeral)
  with p show ?thesis by auto
qed

end
