(* ===== verification/Checked.thy ===== *)
theory Checked
  imports Prelude
begin

text \<open>
  Crate \<^verbatim>\<open>akita-error\<close>, module \<^verbatim>\<open>checked\<close>: exact \<open>usize\<close> formulas.  A \<open>usize\<close> is a
  natural number below \<open>2 ^ 64\<close>; every operation returns \<open>None\<close> exactly when its
  mathematical value leaves that range or is undefined.
\<close>

subsection \<open>The \<open>usize\<close> primitives of the standard library\<close>

definition usize_bits :: nat where
  "usize_bits = 64"

definition usize_max :: nat where
  "usize_max = 2 ^ 64 - 1"

definition checked_add :: "nat \<Rightarrow> nat \<Rightarrow> nat option" where
  "checked_add a b = (if a + b \<le> usize_max then Some (a + b) else None)"

definition checked_sub :: "nat \<Rightarrow> nat \<Rightarrow> nat option" where
  "checked_sub a b = (if b \<le> a then Some (a - b) else None)"

definition checked_mul :: "nat \<Rightarrow> nat \<Rightarrow> nat option" where
  "checked_mul a b = (if a * b \<le> usize_max then Some (a * b) else None)"

definition checked_div :: "nat \<Rightarrow> nat \<Rightarrow> nat option" where
  "checked_div a b = (if b = 0 then None else Some (a div b))"

definition saturating_mul :: "nat \<Rightarrow> nat \<Rightarrow> nat" where
  "saturating_mul a b = min (a * b) usize_max"

definition saturating_add :: "nat \<Rightarrow> nat \<Rightarrow> nat" where
  "saturating_add a b = min (a + b) usize_max"

text \<open>\<open>usize::is_power_of_two\<close>: exactly one bit is set.\<close>

fun is_power_of_two :: "nat \<Rightarrow> bool" where
  "is_power_of_two n =
     (if n = 0 then False else if n = 1 then True else even n \<and> is_power_of_two (n div 2))"

declare is_power_of_two.simps [simp del]

text \<open>
  \<open>usize::checked_next_power_of_two\<close> and \<open>trailing_zeros\<close>, by doubling and halving.
\<close>

function next_pow2_from :: "nat \<Rightarrow> nat \<Rightarrow> nat" where
  "next_pow2_from p n = (if 0 < p \<and> p < n then next_pow2_from (2 * p) n else p)"
  by pat_completeness auto
termination
  by (relation "measure (\<lambda>(p, n). n - p)") auto

declare next_pow2_from.simps [simp del]

definition checked_next_power_of_two :: "nat \<Rightarrow> nat option" where
  "checked_next_power_of_two n =
     (let p = next_pow2_from 1 n in if p \<le> usize_max then Some p else None)"

fun trailing_zeros :: "nat \<Rightarrow> nat" where
  "trailing_zeros n =
     (if n = 0 then usize_bits else if even n then Suc (trailing_zeros (n div 2)) else 0)"

declare trailing_zeros.simps [simp del]

subsection \<open>The formulas of the module\<close>

definition sum_checked :: "nat list \<Rightarrow> nat option" where
  "sum_checked values = try_fold_option checked_add 0 values"

definition product_checked :: "nat list \<Rightarrow> nat option" where
  "product_checked factors = try_fold_option checked_mul 1 factors"

definition mul_add :: "nat \<Rightarrow> nat \<Rightarrow> nat \<Rightarrow> nat option" where
  "mul_add lhs rhs addend =
     Option.bind (checked_mul lhs rhs) (\<lambda>p. checked_add p addend)"

definition pow2 :: "nat \<Rightarrow> nat option" where
  "pow2 exponent =
     (if exponent < 2 ^ 32 then
        (if exponent < usize_bits then Some (2 ^ exponent) else None)
      else None)"

definition ceil_log2 :: "nat \<Rightarrow> nat option" where
  "ceil_log2 value =
     (if value = 0 then None
      else map_option trailing_zeros (checked_next_power_of_two value))"

definition range_checked :: "nat \<Rightarrow> nat \<Rightarrow> (nat \<times> nat) option" where
  "range_checked start len = map_option (\<lambda>e. (start, e)) (checked_add start len)"

definition align_up :: "nat \<Rightarrow> nat \<Rightarrow> nat option" where
  "align_up value alignment =
     (if \<not> is_power_of_two alignment then None
      else let remainder = value mod alignment in
        if remainder = 0 then Some value
        else checked_add value (alignment - remainder))"

definition div_ceil :: "nat \<Rightarrow> nat \<Rightarrow> nat option" where
  "div_ceil value divisor =
     Option.bind (checked_div value divisor)
       (\<lambda>quotient. checked_add quotient (if value mod divisor = 0 then 0 else 1))"

definition exact_div :: "nat \<Rightarrow> nat \<Rightarrow> nat option" where
  "exact_div value divisor =
     Option.bind (checked_div value divisor)
       (\<lambda>quotient. if value mod divisor = 0 then Some quotient else None)"

subsection \<open>Exactness\<close>

lemma is_power_of_two_iff: "is_power_of_two n \<longleftrightarrow> (\<exists>k. n = 2 ^ k)"
proof (induction n rule: is_power_of_two.induct)
  case (1 n)
  consider "n = 0" | "n = 1" | "1 < n" "odd n" | "1 < n" "even n" by linarith
  then show ?case
  proof cases
    case 2
    then show ?thesis by (auto simp: is_power_of_two.simps intro: exI [of _ 0])
  next
    case 3
    then have "n \<noteq> 2 ^ k" for k by (cases k) auto
    with 3 show ?thesis by (auto simp: is_power_of_two.simps)
  next
    case 4
    then have "is_power_of_two n \<longleftrightarrow> (\<exists>k. n div 2 = 2 ^ k)"
      using 1 by (subst is_power_of_two.simps) auto
    also have "\<dots> \<longleftrightarrow> (\<exists>k. n = 2 ^ k)"
    proof
      assume "\<exists>k. n div 2 = 2 ^ k"
      then obtain k where "n div 2 = 2 ^ k" ..
      with 4 have "n = 2 ^ Suc k" by auto
      then show "\<exists>k. n = 2 ^ k" ..
    next
      assume "\<exists>k. n = 2 ^ k"
      then obtain k where "n = 2 ^ k" ..
      with 4 have "n div 2 = 2 ^ (k - 1)" by (cases k) auto
      then show "\<exists>k. n div 2 = 2 ^ k" ..
    qed
    finally show ?thesis .
  qed (simp add: is_power_of_two.simps)
qed

lemma try_fold_option_add:
  "s \<le> usize_max \<Longrightarrow>
   try_fold_option checked_add s xs =
     (if s + sum_list xs \<le> usize_max then Some (s + sum_list xs) else None)"
proof (induction xs arbitrary: s)
  case (Cons x xs)
  then show ?case by (auto simp: checked_add_def add.assoc)
qed simp

lemma next_pow2_from_pow:
  "\<exists>k. next_pow2_from (2 ^ i) n = 2 ^ k \<and> n \<le> 2 ^ k \<and> (i < k \<longrightarrow> 2 ^ (k - 1) < n)"
proof (induction "n - 2 ^ i" arbitrary: i rule: less_induct)
  case less
  show ?case
  proof (cases "(2::nat) ^ i < n")
    case True
    moreover have "(2::nat) ^ i < 2 ^ Suc i" by simp
    ultimately have "n - 2 ^ Suc i < n - 2 ^ i" by linarith
    from less [OF this] obtain k where
      k: "next_pow2_from (2 ^ Suc i) n = 2 ^ k" "n \<le> 2 ^ k" "Suc i < k \<longrightarrow> 2 ^ (k - 1) < n"
      by blast
    have "i < k" using True k(2) power_increasing [of k i "2::nat"] by (metis le_trans linorder_not_le one_le_numeral)
    have "2 ^ (k - 1) < n"
      using k(3) True \<open>i < k\<close> by (cases "Suc i = k") auto
    with True k show ?thesis by (subst next_pow2_from.simps) auto
  next
    case False
    then show ?thesis by (subst next_pow2_from.simps) (auto intro: exI [of _ i])
  qed
qed

lemma trailing_zeros_pow2 [simp]: "trailing_zeros (2 ^ k) = k"
  by (induction k) (simp_all add: trailing_zeros.simps)

lemma sum_checked_exact:
  "sum_checked xs = (if sum_list xs \<le> usize_max then Some (sum_list xs) else None)"
  by (simp add: sum_checked_def try_fold_option_add)

text \<open>
  A product overflows as soon as a prefix does, so the exact statement needs nonzero
  factors: a zero after an overflowing prefix does not rescue it.
\<close>

lemma try_fold_option_mul:
  "0 \<notin> set xs \<Longrightarrow> 0 < s \<Longrightarrow> s \<le> usize_max \<Longrightarrow>
   try_fold_option checked_mul s xs =
     (if s * prod_list xs \<le> usize_max then Some (s * prod_list xs) else None)"
proof (induction xs arbitrary: s)
  case (Cons x xs)
  then have "0 < prod_list xs" using prod_list_zero_iff [of xs] by auto
  then have "usize_max < s * x \<Longrightarrow> usize_max < s * (x * prod_list xs)"
    using mult_le_mono2 [of 1 "prod_list xs" "s * x"] by (simp only: mult.assoc mult_1_right) linarith
  then show ?case using Cons by (auto simp: checked_mul_def mult.assoc)
qed simp

lemma product_checked_exact:
  "0 \<notin> set xs \<Longrightarrow>
   product_checked xs = (if prod_list xs \<le> usize_max then Some (prod_list xs) else None)"
  by (simp add: product_checked_def try_fold_option_mul usize_max_def)

lemma product_checked_zero_after_overflow:
  "product_checked [usize_max, 2, 0] = None" and "product_checked [0, usize_max, 2] = Some 0"
  by (simp_all add: product_checked_def checked_mul_def usize_max_def)

lemma pow2_exact: "pow2 e = (if (2::nat) ^ e \<le> usize_max then Some (2 ^ e) else None)"
proof (cases "e < 64")
  case True
  then have "(2::nat) ^ e \<le> 2 ^ 63" by (intro power_increasing) auto
  with True show ?thesis by (simp add: pow2_def usize_bits_def usize_max_def)
next
  case False
  then have "(2::nat) ^ 64 \<le> 2 ^ e" by (intro power_increasing) auto
  with False show ?thesis by (simp add: pow2_def usize_bits_def usize_max_def)
qed

lemma next_multiple:
  fixes v a :: nat
  assumes "0 < a" and "v mod a \<noteq> 0"
  shows "a dvd w \<and> v \<le> w \<and> w < v + a \<longleftrightarrow> w = v + (a - v mod a)"
proof -
  have less: "v mod a < a" using assms(1) by simp
  have "v + (a - v mod a) = a * (v div a + 1)"
    using less mult_div_mod_eq [of a v] by (simp only: distrib_left mult_1_right)
  then have dvd: "a dvd v + (a - v mod a)" by simp
  have "w = v + (a - v mod a)" if w: "a dvd w" "v \<le> w" "w < v + a"
  proof -
    from w(1) obtain k where k: "w = a * k" ..
    have "a * (v div a) < a * k" using w(2) k assms(2) mult_div_mod_eq [of a v] by linarith
    moreover have "a * k < a * (v div a + 2)"
      using w(3) k less mult_div_mod_eq [of a v] by (simp only: distrib_left)
    ultimately have "v div a < k" "k < v div a + 2" by (simp_all only: mult_less_cancel1)
    then have "k = v div a + 1" by simp
    with k \<open>v + (a - v mod a) = a * (v div a + 1)\<close> show ?thesis by simp
  qed
  with dvd less assms(2) show ?thesis by auto
qed

lemma align_up_exact:
  assumes "v \<le> usize_max"
  shows "align_up v a = Some w \<longleftrightarrow>
     (\<exists>k. a = 2 ^ k) \<and> a dvd w \<and> v \<le> w \<and> w < v + a \<and> w \<le> usize_max"
proof (cases "\<exists>k. a = 2 ^ k")
  case True
  then have "0 < a" by auto
  have "w = v" if "a dvd v" "a dvd w" "v \<le> w" "w < v + a"
  proof -
    from that(1,2) have "a dvd w - v" by (rule dvd_diff_nat [rotated])
    with that(4) show ?thesis using that(3) \<open>0 < a\<close> by (auto dest: dvd_imp_le)
  qed
  with True assms next_multiple [OF \<open>0 < a\<close>, of v w] \<open>0 < a\<close> show ?thesis
    by (auto simp: align_up_def is_power_of_two_iff Let_def checked_add_def mod_eq_0_iff_dvd)
qed (auto simp: align_up_def is_power_of_two_iff)

lemma least_unique:
  fixes f :: "nat \<Rightarrow> nat"
  assumes "v \<le> f c" and "\<And>p. p < c \<Longrightarrow> f p < v"
  shows "v \<le> f q \<and> (\<forall>p < q. f p < v) \<longleftrightarrow> q = c"
  using assms by (metis linorder_neqE_nat linorder_not_le)

lemma ceil_log2_exact:
  assumes "v \<le> usize_max"
  shows "ceil_log2 v = Some k \<longleftrightarrow> 0 < v \<and> v \<le> 2 ^ k \<and> (\<forall>j < k. 2 ^ j < v) \<and> 2 ^ k \<le> usize_max"
proof (cases "v = 0")
  case False
  obtain i where i: "next_pow2_from 1 v = 2 ^ i" "v \<le> 2 ^ i" "0 < i \<longrightarrow> 2 ^ (i - 1) < v"
    using next_pow2_from_pow [of 0 v] by auto
  have below: "2 ^ j < v" if "j < i" for j
  proof -
    have "(2::nat) ^ j \<le> 2 ^ (i - 1)" using that by (intro power_increasing) simp_all
    with that i(3) show ?thesis by linarith
  qed
  have "v \<le> 2 ^ k \<and> (\<forall>j < k. 2 ^ j < v) \<longleftrightarrow> k = i"
    by (rule least_unique [where f = "\<lambda>i. 2 ^ i", OF i(2)]) (rule below)
  then show ?thesis
    using False i(1) by (auto simp: ceil_log2_def checked_next_power_of_two_def Let_def)
qed (simp add: ceil_log2_def)

lemma div_ceil_exact:
  assumes "v \<le> usize_max"
  shows "div_ceil v d = Some q \<longleftrightarrow> 0 < d \<and> v \<le> q * d \<and> (\<forall>p < q. p * d < v)"
proof (cases "d = 0")
  case False
  let ?c = "v div d + (if v mod d = 0 then 0 else 1)"
  have bound: "?c \<le> usize_max"
  proof (cases "v mod d = 0")
    case True
    with le_trans [OF div_le_dividend assms] show ?thesis by simp
  next
    case rem: False
    with False have "1 < d" by (cases "d = 1") auto
    with rem have "v div d < v" by (intro div_less_dividend) (auto intro: gr0I)
    with assms rem show ?thesis by simp
  qed
  have v: "v = v div d * d + v mod d" and less: "v mod d < d" using False by simp_all
  have up: "v \<le> ?c * d"
  proof (cases "v mod d = 0")
    case rem: False
    from v less have "v \<le> v div d * d + d" by linarith
    with rem show ?thesis by (simp add: algebra_simps)
  next
    case True
    with v show ?thesis by simp
  qed
  have below: "p * d < v" if "p < ?c" for p
  proof -
    have "p * d \<le> (?c - 1) * d" using that by (intro mult_le_mono1) simp
    also have "\<dots> < v"
    proof (cases "v mod d = 0")
      case True
      with that have "0 < v div d" by simp
      with True v \<open>d \<noteq> 0\<close> have "d \<le> v" "0 < d" by (simp_all add: div_greater_zero_iff)
      with True v show ?thesis by (simp add: diff_mult_distrib)
    next
      case rem: False
      with v have "v div d * d < v" by linarith
      with rem show ?thesis by simp
    qed
    finally show ?thesis .
  qed
  have "v \<le> q * d \<and> (\<forall>p < q. p * d < v) \<longleftrightarrow> q = ?c"
    by (rule least_unique [where f = "\<lambda>q. q * d", OF up]) (rule below)
  moreover have "div_ceil v d = Some ?c"
    using False bound by (simp only: div_ceil_def checked_div_def checked_add_def) simp
  moreover have "0 < d" using False by simp
  ultimately show ?thesis by (simp only: option.inject simp_thms eq_commute [of q])
qed (simp add: div_ceil_def checked_div_def)

text \<open>
  C9: The layout arithmetic is exact.  On \<open>usize\<close> arguments a sum is returned exactly when
  it fits; \<open>align_up\<close> returns the least multiple of a power-of-two alignment that is at least
  the value, and fails exactly when the alignment is no power of two or that multiple does
  not fit; \<open>ceil_log2\<close> returns the least exponent whose power covers a nonzero value;
  \<open>div_ceil\<close> the least quotient that covers the value, and it never overflows.
\<close>

theorem layout_arithmetic_exact:
  assumes "v \<le> usize_max"
  shows "(sum_checked xs = Some n \<longleftrightarrow> n = sum_list xs \<and> n \<le> usize_max)
    \<and> (align_up v a = Some w \<longleftrightarrow>
           (\<exists>k. a = 2 ^ k) \<and> a dvd w \<and> v \<le> w \<and> w < v + a \<and> w \<le> usize_max)
    \<and> (ceil_log2 v = Some k \<longleftrightarrow>
           0 < v \<and> v \<le> 2 ^ k \<and> (\<forall>j < k. 2 ^ j < v) \<and> 2 ^ k \<le> usize_max)
    \<and> (div_ceil v d = Some q \<longleftrightarrow> 0 < d \<and> v \<le> q * d \<and> (\<forall>p < q. p * d < v))"
  by (intro conjI align_up_exact [OF assms] ceil_log2_exact [OF assms] div_ceil_exact [OF assms])
     (auto simp: sum_checked_exact)

theorem layout_arithmetic_exact_witness:
  "\<not> align_up usize_max 8 = Some usize_max \<and> align_up 13 8 = Some 16"
proof
  have "\<not> 8 dvd usize_max" by (simp add: usize_max_def)
  then show "\<not> align_up usize_max 8 = Some usize_max"
    using layout_arithmetic_exact [where v = usize_max and a = 8 and w = usize_max] by simp
  have "\<exists>k. (8::nat) = 2 ^ k" by (rule exI [of _ 3]) simp
  then show "align_up 13 8 = Some 16"
    using layout_arithmetic_exact [where v = 13 and a = 8 and w = 16] by (simp add: usize_max_def)
qed

end
