(* ===== verification/Serialization.thy ===== *)
theory Serialization
  imports UniPoly Checked
begin

text \<open>
  Crate \<^verbatim>\<open>akita-serialization\<close> (\<^verbatim>\<open>lib.rs\<close>, \<^verbatim>\<open>field_impls.rs\<close>) and the headerless round
  messages of \<^verbatim>\<open>akita-algebra/src/uni_poly.rs\<close> and \<^verbatim>\<open>akita-sumcheck/src/types.rs\<close>.  An
  implementation of the \<^verbatim>\<open>Valid\<close>, \<^verbatim>\<open>AkitaSerialize\<close> and \<^verbatim>\<open>AkitaDeserialize\<close> traits is a value
  of the record \<open>codec\<close>; a writer is an in-memory buffer, so writing cannot fail, and a
  reader is the list of the bytes still to be read.
\<close>

subsection \<open>The traits\<close>

datatype compress_mode = CompressYes | CompressNo

datatype validate_mode = ValidateYes | ValidateNo

datatype serialization_error =
    IoError
  | InvalidData string
  | UnexpectedData
  | LengthLimitExceeded nat nat

type_synonym 'a decoded = "serialization_error + ('a \<times> byte list)"

record ('a, 'c) codec =
  check :: "'a \<Rightarrow> serialization_error + unit"
  serialize_with_mode :: "'a \<Rightarrow> compress_mode \<Rightarrow> byte list"
  serialized_size :: "'a \<Rightarrow> compress_mode \<Rightarrow> nat"
  deserialize_with_mode :: "compress_mode \<Rightarrow> validate_mode \<Rightarrow> 'c \<Rightarrow> byte list \<Rightarrow> 'a decoded"

definition serialize_compressed :: "('a, 'c) codec \<Rightarrow> 'a \<Rightarrow> byte list" where
  "serialize_compressed C x = serialize_with_mode C x CompressYes"

definition deserialize_exact_with_mode ::
  "('a, 'c) codec \<Rightarrow> byte list \<Rightarrow> compress_mode \<Rightarrow> validate_mode \<Rightarrow> 'c \<Rightarrow> serialization_error + 'a"
where
  "deserialize_exact_with_mode C bytes cm validate ctx =
     bindE (deserialize_with_mode C cm validate ctx bytes)
       (\<lambda>(value, rest). if rest \<noteq> [] then Inl UnexpectedData else Inr value)"

definition deserialize_compressed_exact ::
  "('a, 'c) codec \<Rightarrow> byte list \<Rightarrow> 'c \<Rightarrow> serialization_error + 'a" where
  "deserialize_compressed_exact C bytes ctx =
     deserialize_exact_with_mode C bytes CompressYes ValidateYes ctx"

text \<open>\<open>Valid::batch_check\<close> and the loop of \<open>Vec::check\<close>.\<close>

fun check_each :: "('a \<Rightarrow> serialization_error + unit) \<Rightarrow> 'a list \<Rightarrow> serialization_error + unit" where
  "check_each chk [] = Inr ()"
| "check_each chk (x # xs) = bindE (chk x) (\<lambda>_. check_each chk xs)"

text \<open>The decoding loop of the sequence types: one item per entry of the shape.\<close>

fun deserialize_each :: "('c \<Rightarrow> byte list \<Rightarrow> 'a decoded) \<Rightarrow> 'c list \<Rightarrow> byte list \<Rightarrow> 'a list decoded" where
  "deserialize_each f [] bytes = Inr ([], bytes)"
| "deserialize_each f (c # cs) bytes =
     bindE (f c bytes)
       (\<lambda>(x, bytes'). bindE (deserialize_each f cs bytes') (\<lambda>(xs, rest). Inr (x # xs, rest)))"

definition read_exact :: "nat \<Rightarrow> byte list \<Rightarrow> byte list decoded" where
  "read_exact n bytes =
     (if length bytes < n then Inl IoError else Inr (take n bytes, drop n bytes))"

subsection \<open>Primitive integers, booleans and vectors\<close>

primrec le_bytes :: "nat \<Rightarrow> nat \<Rightarrow> byte list" where
  "le_bytes 0 v = []"
| "le_bytes (Suc n) v = of_nat (v mod 256) # le_bytes n (v div 256)"

fun le_value :: "byte list \<Rightarrow> nat" where
  "le_value [] = 0"
| "le_value (b # bs) = unat b + 256 * le_value bs"

definition to_le_bytes :: "nat \<Rightarrow> 'w::len word \<Rightarrow> byte list" where
  "to_le_bytes nb w = le_bytes nb (unat w)"

definition from_le_bytes :: "byte list \<Rightarrow> 'w::len word" where
  "from_le_bytes bs = of_nat (le_value bs)"

text \<open>
  \<open>impl_primitive_serialization!(t, nb)\<close>; a signed integer is its two's complement word.
\<close>

definition primitive_codec :: "nat \<Rightarrow> ('w::len word, unit) codec" where
  "primitive_codec nb =
     \<lparr>check = (\<lambda>_. Inr ()),
      serialize_with_mode = (\<lambda>w _. to_le_bytes nb w),
      serialized_size = (\<lambda>_ _. nb),
      deserialize_with_mode = (\<lambda>_ _ _ bytes.
        bindE (read_exact nb bytes) (\<lambda>(bs, rest). Inr (from_le_bytes bs, rest)))\<rparr>"

definition u64_codec :: "(64 word, unit) codec" where
  "u64_codec = primitive_codec 8"

text \<open>On a 64-bit target every \<open>u64\<close> is a \<open>usize\<close>, so the conversion below always succeeds.\<close>

definition usize_try_from :: "64 word \<Rightarrow> nat option" where
  "usize_try_from v = (if unat v \<le> usize_max then Some (unat v) else None)"

definition usize_codec :: "(nat, unit) codec" where
  "usize_codec =
     \<lparr>check = (\<lambda>_. Inr ()),
      serialize_with_mode = (\<lambda>n c. serialize_with_mode u64_codec (of_nat n) c),
      serialized_size = (\<lambda>_ _. 8),
      deserialize_with_mode = (\<lambda>cm validate _ bytes.
        bindE (deserialize_with_mode u64_codec cm validate () bytes)
          (\<lambda>(v, rest). case usize_try_from v of
               None \<Rightarrow> Inl (LengthLimitExceeded (unat v) usize_max)
             | Some n \<Rightarrow> Inr (n, rest)))\<rparr>"

definition bool_codec :: "(bool, unit) codec" where
  "bool_codec =
     \<lparr>check = (\<lambda>_. Inr ()),
      serialize_with_mode = (\<lambda>b _. [if b then 1 else 0]),
      serialized_size = (\<lambda>_ _. 1),
      deserialize_with_mode = (\<lambda>_ _ _ bytes.
        bindE (read_exact 1 bytes)
          (\<lambda>(bs, rest). if bs ! 0 = 0 then Inr (False, rest)
             else if bs ! 0 = 1 then Inr (True, rest)
             else Inl (InvalidData ''Invalid bool value'')))\<rparr>"

definition checked_vec_len :: "64 word \<Rightarrow> validate_mode \<Rightarrow> serialization_error + nat" where
  "checked_vec_len len validate =
     (case usize_try_from len of
        None \<Rightarrow> Inl (LengthLimitExceeded (unat len) usize_max)
      | Some n \<Rightarrow>
          if validate = ValidateYes \<and> DEFAULT_MAX_SEQUENCE_LEN < n
          then Inl (LengthLimitExceeded (unat len) DEFAULT_MAX_SEQUENCE_LEN)
          else Inr n)"

definition vec_codec :: "('a, unit) codec \<Rightarrow> ('a list, unit) codec" where
  "vec_codec C =
     \<lparr>check = check_each (check C),
      serialize_with_mode = (\<lambda>xs cm.
        serialize_with_mode u64_codec (of_nat (length xs)) cm
          @ concat (map (\<lambda>x. serialize_with_mode C x cm) xs)),
      serialized_size = (\<lambda>xs cm. 8 + sum_list (map (\<lambda>x. serialized_size C x cm) xs)),
      deserialize_with_mode = (\<lambda>cm validate _ bytes.
        bindE (deserialize_with_mode u64_codec cm validate () bytes)
          (\<lambda>(encoded_len, bytes'). bindE (checked_vec_len encoded_len validate)
             (\<lambda>len. deserialize_each (deserialize_with_mode C cm validate)
                       (replicate len ()) bytes')))\<rparr>"

subsection \<open>Field elements\<close>

text \<open>
  \<open>impl_prime_serialization!\<close>.  The representation of a prime-field element belongs to
  the \<^verbatim>\<open>jolt-field\<close> package: \<open>to_canonical\<close>, \<open>from_u128_checked\<close> and
  \<open>from_u128_reduced\<close> are arguments.
\<close>

record (overloaded) ('f, 'w::len) field_encoding =
  field_name :: string
  modulus :: "'w word"
  to_canonical :: "'f \<Rightarrow> 'w word"
  from_u128_checked :: "128 word \<Rightarrow> 'f option"
  from_u128_reduced :: "128 word \<Rightarrow> 'f"

definition out_of_range :: "('f, 'w::len) field_encoding \<Rightarrow> serialization_error" where
  "out_of_range K = InvalidData (field_name K @ '' out of range'')"

definition prime_codec :: "nat \<Rightarrow> ('f, 'w::len) field_encoding \<Rightarrow> ('f, unit) codec" where
  "prime_codec nb K =
     \<lparr>check = (\<lambda>x. if (ucast (to_canonical K x) :: 128 word) < ucast (modulus K) then Inr ()
                   else Inl (out_of_range K)),
      serialize_with_mode = (\<lambda>x _.
        serialize_with_mode (primitive_codec nb) (to_canonical K x) CompressNo),
      serialized_size = (\<lambda>_ _. nb),
      deserialize_with_mode = (\<lambda>_ validate _ bytes.
        bindE (deserialize_with_mode (primitive_codec nb :: ('w word, unit) codec)
                 CompressNo validate () bytes)
          (\<lambda>(v, rest).
             if validate = ValidateYes \<and> modulus K \<le> v then Inl (out_of_range K)
             else if validate = ValidateYes
             then (case from_u128_checked K (ucast v) of
                     None \<Rightarrow> Inl (out_of_range K)
                   | Some x \<Rightarrow> Inr (x, rest))
             else Inr (from_u128_reduced K (ucast v), rest)))\<rparr>"

text \<open>
  \<open>impl_extension_serialization!(t, degree)\<close> and \<open>FpExt2\<close>: the coefficient array, in order,
  without a header.
\<close>

definition extension_codec :: "nat \<Rightarrow> ('f, unit) codec \<Rightarrow> ('f list, unit) codec" where
  "extension_codec degree C =
     \<lparr>check = check_each (check C),
      serialize_with_mode = (\<lambda>xs cm.
        concat (map (\<lambda>x. serialize_with_mode C x cm) xs)),
      serialized_size = (\<lambda>xs cm. sum_list (map (\<lambda>x. serialized_size C x cm) xs)),
      deserialize_with_mode = (\<lambda>cm validate _ bytes.
        bindE (deserialize_each (deserialize_with_mode C cm validate)
                 (replicate degree ()) bytes)
          (\<lambda>(xs, rest).
             bindE (if validate = ValidateYes then check_each (check C) xs else Inr ())
               (\<lambda>_. Inr (xs, rest))))\<rparr>"

text \<open>\<open>Poly<F, D>\<close> is encoded as its coefficient array, like an extension-field element.\<close>

definition poly_codec :: "nat \<Rightarrow> ('f, unit) codec \<Rightarrow> ('f list, unit) codec" where
  "poly_codec D C = extension_codec D C"

definition uni_poly_codec :: "('e, unit) codec \<Rightarrow> ('e uni_poly, unit) codec" where
  "uni_poly_codec C =
     \<lparr>check = (\<lambda>p. check (vec_codec C) (coeffs p)),
      serialize_with_mode = (\<lambda>p cm. serialize_with_mode (vec_codec C) (coeffs p) cm),
      serialized_size = (\<lambda>p cm. serialized_size (vec_codec C) (coeffs p) cm),
      deserialize_with_mode = (\<lambda>cm validate _ bytes.
        bindE (deserialize_with_mode (vec_codec C) cm validate () bytes)
          (\<lambda>(cs, rest).
             bindE (if validate = ValidateYes then check (vec_codec C) cs else Inr ())
               (\<lambda>_. Inr (UniPoly cs, rest))))\<rparr>"

subsection \<open>Round messages and sumcheck proofs\<close>

text \<open>
  The headerless coefficient lists.  \<open>reserve n\<close> says whether \<open>Vec::try_reserve_exact(n)\<close>
  succeeds; \<open>msg\<close> is the text of the allocation error.
\<close>

definition headerless_codec ::
  "(nat \<Rightarrow> bool) \<Rightarrow> string \<Rightarrow> ('a \<Rightarrow> 'e list) \<Rightarrow> ('e list \<Rightarrow> 'a) \<Rightarrow> ('e, 'c) codec
    \<Rightarrow> ('d \<Rightarrow> 'c list) \<Rightarrow> ('a, 'd) codec" where
  "headerless_codec reserve msg items mk C shape =
     \<lparr>check = (\<lambda>x. check_each (check C) (items x)),
      serialize_with_mode = (\<lambda>x cm.
        concat (map (\<lambda>e. serialize_with_mode C e cm) (items x))),
      serialized_size = (\<lambda>x cm.
        sum_list (map (\<lambda>e. serialized_size C e cm) (items x))),
      deserialize_with_mode = (\<lambda>cm validate ctx bytes.
        if \<not> reserve (length (shape ctx)) then Inl (InvalidData msg)
        else bindE (deserialize_each (deserialize_with_mode C cm validate)
                      (shape ctx) bytes)
               (\<lambda>(es, rest).
                  bindE (if validate = ValidateYes then check_each (check C) es else Inr ())
                    (\<lambda>_. Inr (mk es, rest))))\<rparr>"

definition compressed_uni_poly_codec ::
  "(nat \<Rightarrow> bool) \<Rightarrow> ('e, unit) codec \<Rightarrow> ('e compressed_uni_poly, nat) codec" where
  "compressed_uni_poly_codec reserve C =
     headerless_codec reserve ''compressed polynomial allocation failed''
       coeffs_except_linear_term CompressedUniPoly C (\<lambda>degree. replicate degree ())"

datatype 'e eq_factored_uni_poly = EqFactoredUniPoly (coeffs_except_constant_term: "'e list")

definition eq_factored_uni_poly_codec ::
  "(nat \<Rightarrow> bool) \<Rightarrow> ('e, unit) codec \<Rightarrow> ('e eq_factored_uni_poly, nat) codec" where
  "eq_factored_uni_poly_codec reserve C =
     headerless_codec reserve ''eq-factored polynomial allocation failed''
       coeffs_except_constant_term EqFactoredUniPoly C (\<lambda>degree. replicate degree ())"

datatype 'e sumcheck_proof = SumcheckProof (round_polys: "'e compressed_uni_poly list")

definition uniform_sumcheck_shape :: "nat \<Rightarrow> nat \<Rightarrow> nat list" where
  "uniform_sumcheck_shape num_rounds degree = replicate num_rounds degree"

definition sumcheck_proof_codec ::
  "(nat \<Rightarrow> bool) \<Rightarrow> ('e, unit) codec \<Rightarrow> ('e sumcheck_proof, nat list) codec" where
  "sumcheck_proof_codec reserve C =
     headerless_codec reserve ''sumcheck proof allocation failed''
       round_polys SumcheckProof (compressed_uni_poly_codec reserve C) (\<lambda>ctx. ctx)"

datatype 'e eq_factored_sumcheck_proof =
  EqFactoredSumcheckProof (eq_round_polys: "'e eq_factored_uni_poly list")

definition eq_factored_sumcheck_proof_codec ::
  "(nat \<Rightarrow> bool) \<Rightarrow> ('e, unit) codec \<Rightarrow> ('e eq_factored_sumcheck_proof, nat \<times> nat) codec" where
  "eq_factored_sumcheck_proof_codec reserve C =
     headerless_codec reserve ''eq-factored sumcheck proof allocation failed''
       eq_round_polys EqFactoredSumcheckProof (eq_factored_uni_poly_codec reserve C)
       (\<lambda>(num_rounds, degree). replicate num_rounds degree)"

subsection \<open>The codec contract\<close>

text \<open>
  What a codec promises: the values that \<open>fits\<close> a context are encoded into exactly
  \<open>serialized_size\<close> bytes that decode back, and validated decoding accepts nothing else.
\<close>

locale akita_codec =
  fixes C :: "('a, 'c) codec" and fits :: "'c \<Rightarrow> 'a \<Rightarrow> bool"
  assumes size_law: "serialized_size C x cm = length (serialize_with_mode C x cm)"
    and check_law: "fits c x \<Longrightarrow> check C x = Inr ()"
    and roundtrip_law:
      "fits c x \<Longrightarrow> deserialize_with_mode C cm v c (serialize_with_mode C x cm @ rest) = Inr (x, rest)"
    and canonical_law:
      "deserialize_with_mode C cm ValidateYes c bytes = Inr (x, rest) \<Longrightarrow>
         fits c x \<and> bytes = serialize_with_mode C x cm @ rest"
begin

lemma exact_accepts_iff:
  "deserialize_exact_with_mode C bytes cm ValidateYes c = Inr x
     \<longleftrightarrow> fits c x \<and> bytes = serialize_with_mode C x cm"
proof
  assume "deserialize_exact_with_mode C bytes cm ValidateYes c = Inr x"
  then have "deserialize_with_mode C cm ValidateYes c bytes = Inr (x, [])"
    by (auto simp: deserialize_exact_with_mode_def bindE_Inr_iff split: if_splits)
  then show "fits c x \<and> bytes = serialize_with_mode C x cm"
    using canonical_law [of cm c bytes x "[]"] by simp
next
  assume "fits c x \<and> bytes = serialize_with_mode C x cm"
  then show "deserialize_exact_with_mode C bytes cm ValidateYes c = Inr x"
    using roundtrip_law [of c x cm ValidateYes "[]"] by (simp add: deserialize_exact_with_mode_def)
qed

lemma exact_rejects_trailing:
  assumes "fits c x" and "rest \<noteq> []"
  shows "deserialize_exact_with_mode C (serialize_with_mode C x cm @ rest) cm v c = Inl UnexpectedData"
  using assms roundtrip_law [of c x cm v rest] by (simp add: deserialize_exact_with_mode_def)

lemma serialize_prefix_free:
  assumes "fits c x" and "fits c y"
    and "serialize_with_mode C x cm @ r = serialize_with_mode C y cm @ s"
  shows "x = y \<and> r = s"
proof -
  have "Inr (x, r) = (Inr (y, s) :: 'a decoded)"
    using roundtrip_law [OF assms(1), of cm ValidateYes r]
      roundtrip_law [OF assms(2), of cm ValidateYes s] by (simp only: assms(3))
  then show ?thesis by simp
qed

end

subsection \<open>Little-endian bytes\<close>

lemma length_le_bytes [simp]: "length (le_bytes n v) = n"
  by (induction n arbitrary: v) simp_all

lemma le_bytes_numeral [simp]:
  "le_bytes (numeral k) v = of_nat (v mod 256) # le_bytes (pred_numeral k) (v div 256)"
  by (simp only: numeral_eq_Suc [of k] le_bytes.simps)

lemma le_value_le_bytes: "v < 256 ^ n \<Longrightarrow> le_value (le_bytes n v) = v"
proof (induction n arbitrary: v)
  case (Suc n)
  then have "v div 256 < 256 ^ n" by (simp add: less_mult_imp_div_less mult.commute)
  with Suc.IH show ?case by (simp add: unat_of_nat)
qed simp

lemma le_value_bound: "le_value bs < 256 ^ length bs"
proof (induction bs)
  case (Cons b bs)
  have "unat b < 256" using unat_lt2p [of b] by simp
  with Cons show ?case by simp
qed simp

lemma le_bytes_le_value: "le_bytes (length bs) (le_value bs) = bs"
proof (induction bs)
  case (Cons b bs)
  have "unat b < 256" using unat_lt2p [of b] by simp
  with Cons show ?case by simp
qed simp

lemma from_to_le_bytes:
  assumes "8 * nb = LENGTH('w)"
  shows "from_le_bytes (to_le_bytes nb w) = (w :: 'w::len word)"
proof -
  have "unat w < 2 ^ (8 * nb)" using assms unat_lt2p [of w] by simp
  then show ?thesis by (simp add: from_le_bytes_def to_le_bytes_def le_value_le_bytes power_mult)
qed

lemma to_from_le_bytes:
  assumes "8 * length bs = LENGTH('w)"
  shows "to_le_bytes (length bs) (from_le_bytes bs :: 'w::len word) = bs"
proof -
  have "le_value bs < 2 ^ (8 * length bs)" using le_value_bound [of bs] by (simp add: power_mult)
  then have "unat (from_le_bytes bs :: 'w word) = le_value bs"
    using assms by (simp add: from_le_bytes_def unat_of_nat)
  then show ?thesis by (simp add: to_le_bytes_def le_bytes_le_value)
qed

lemma length_to_le_bytes [simp]: "length (to_le_bytes n w) = n"
  by (simp add: to_le_bytes_def)

lemma read_exact_append [simp]: "length bs = n \<Longrightarrow> read_exact n (bs @ rest) = Inr (bs, rest)"
  by (simp add: read_exact_def)

lemma read_exact_Inr:
  "read_exact n bytes = Inr (bs, rest) \<longleftrightarrow> length bs = n \<and> bytes = bs @ rest"
  by (auto simp: read_exact_def)

subsection \<open>The codecs satisfy the contract\<close>

lemma primitive_codec_ok:
  assumes "8 * nb = LENGTH('w)"
  shows "akita_codec (primitive_codec nb :: ('w::len word, unit) codec) (\<lambda>_ _. True)"
proof
  fix cm v c and w :: "'w word" and rest bytes
  show "serialized_size (primitive_codec nb) w cm
      = length (serialize_with_mode (primitive_codec nb) w cm)"
    by (simp add: primitive_codec_def)
  show "check (primitive_codec nb) w = Inr ()" by (simp add: primitive_codec_def)
  show "deserialize_with_mode (primitive_codec nb) cm v c
      (serialize_with_mode (primitive_codec nb) w cm @ rest) = Inr (w, rest)"
    by (simp add: primitive_codec_def from_to_le_bytes assms)
  show "deserialize_with_mode (primitive_codec nb) cm ValidateYes c bytes = Inr (w, rest) \<Longrightarrow>
      True \<and> bytes = serialize_with_mode (primitive_codec nb) w cm @ rest"
    using assms to_from_le_bytes [where 'w = 'w]
    by (auto simp: primitive_codec_def bindE_Inr_iff read_exact_Inr)
qed

interpretation u8: akita_codec "primitive_codec 1 :: (8 word, unit) codec" "\<lambda>_ _. True"
  by (rule primitive_codec_ok) simp

interpretation u16: akita_codec "primitive_codec 2 :: (16 word, unit) codec" "\<lambda>_ _. True"
  by (rule primitive_codec_ok) simp

interpretation u32: akita_codec "primitive_codec 4 :: (32 word, unit) codec" "\<lambda>_ _. True"
  by (rule primitive_codec_ok) simp

interpretation u64: akita_codec u64_codec "\<lambda>_ _. True"
  unfolding u64_codec_def by (rule primitive_codec_ok) simp

interpretation u128: akita_codec "primitive_codec 16 :: (128 word, unit) codec" "\<lambda>_ _. True"
  by (rule primitive_codec_ok) simp

lemma usize_try_from_Some [simp]: "usize_try_from v = Some (unat v)"
  using unat_lt2p [of v] by (simp add: usize_try_from_def usize_max_def)

interpretation usize: akita_codec usize_codec "\<lambda>_ n. n \<le> usize_max"
proof
  fix cm v c and n :: nat and rest bytes
  show "serialized_size usize_codec n cm = length (serialize_with_mode usize_codec n cm)"
    using u64.size_law [of "of_nat n" cm]
    by (simp add: usize_codec_def u64_codec_def primitive_codec_def)
  show "check usize_codec n = Inr ()" by (simp add: usize_codec_def)
  have "n \<le> usize_max \<Longrightarrow> unat (of_nat n :: 64 word) = n"
    by (simp add: usize_max_def unat_of_nat)
  then show "n \<le> usize_max \<Longrightarrow> deserialize_with_mode usize_codec cm v c
      (serialize_with_mode usize_codec n cm @ rest) = Inr (n, rest)"
    by (simp add: usize_codec_def u64.roundtrip_law)
  show "deserialize_with_mode usize_codec cm ValidateYes c bytes = Inr (n, rest) \<Longrightarrow>
      n \<le> usize_max \<and> bytes = serialize_with_mode usize_codec n cm @ rest"
  proof (clarsimp simp: usize_codec_def bindE_Inr_iff)
    fix v
    assume "deserialize_with_mode u64_codec cm ValidateYes () bytes = Inr (v, rest)"
    from u64.canonical_law [OF this]
    show "unat v \<le> usize_max \<and> bytes = serialize_with_mode u64_codec v cm @ rest"
      using unat_lt2p [of v] by (simp add: usize_max_def)
  qed
qed

interpretation bool: akita_codec bool_codec "\<lambda>_ _. True"
proof
  fix cm v c b rest bytes
  show "deserialize_with_mode bool_codec cm ValidateYes c bytes = Inr (b, rest) \<Longrightarrow>
      True \<and> bytes = serialize_with_mode bool_codec b cm @ rest"
    by (auto simp: bool_codec_def bindE_Inr_iff read_exact_Inr length_Suc_conv split: if_splits)
qed (simp_all add: bool_codec_def read_exact_def)

subsection \<open>Sequence codecs inherit the contract\<close>

lemma check_each_ok: "(\<And>x. x \<in> set xs \<Longrightarrow> chk x = Inr ()) \<Longrightarrow> check_each chk xs = Inr ()"
  by (induction xs) simp_all

lemma deserialize_each_roundtrip:
  assumes "akita_codec C fits" and "list_all2 fits cs xs"
  shows "deserialize_each (deserialize_with_mode C cm v) cs
           (concat (map (\<lambda>x. serialize_with_mode C x cm) xs) @ rest) = Inr (xs, rest)"
  using assms(2)
  by (induction rule: list_all2_induct) (simp_all add: akita_codec.roundtrip_law [OF assms(1)])

lemma deserialize_each_canonical:
  assumes "akita_codec C fits"
    and "deserialize_each (deserialize_with_mode C cm ValidateYes) cs bytes = Inr (xs, rest)"
  shows "list_all2 fits cs xs \<and> bytes = concat (map (\<lambda>x. serialize_with_mode C x cm) xs) @ rest"
  using assms(2)
proof (induction cs arbitrary: bytes xs)
  case (Cons c cs)
  from Cons.prems obtain x bytes' ys where
    step: "deserialize_with_mode C cm ValidateYes c bytes = Inr (x, bytes')"
      "deserialize_each (deserialize_with_mode C cm ValidateYes) cs bytes' = Inr (ys, rest)" "xs = x # ys"
    by (auto simp: bindE_Inr_iff)
  from Cons.IH [OF step(2)] akita_codec.canonical_law [OF assms(1) step(1)] step(3)
  show ?case by simp
qed simp

lemma list_all2_replicate_unit:
  "list_all2 fits (replicate n ()) xs \<longleftrightarrow> length xs = n \<and> (\<forall>x \<in> set xs. fits () x)"
  by (induction n arbitrary: xs) (auto simp: list_all2_Cons1 length_Suc_conv)

lemma check_each_fits:
  assumes "akita_codec C fits" and "list_all2 fits cs xs"
  shows "check_each (check C) xs = Inr ()"
  using assms(2)
  by (induction rule: list_all2_induct) (simp_all add: akita_codec.check_law [OF assms(1)])

lemma size_concat:
  assumes "akita_codec C fits"
  shows "sum_list (map (\<lambda>x. serialized_size C x cm) xs)
           = length (concat (map (\<lambda>x. serialize_with_mode C x cm) xs))"
  by (induction xs) (simp_all add: akita_codec.size_law [OF assms])

lemma headerless_codec_ok:
  assumes C: "akita_codec C fits" and mk: "\<And>es. items (mk es) = es" "\<And>x. mk (items x) = x"
  shows "akita_codec (headerless_codec reserve msg items mk C shape)
           (\<lambda>ctx x. reserve (length (shape ctx)) \<and> list_all2 fits (shape ctx) (items x))"
    (is "akita_codec ?H ?fits")
proof
  fix cm v c x rest bytes
  show "serialized_size ?H x cm = length (serialize_with_mode ?H x cm)"
    by (simp add: headerless_codec_def size_concat [OF C])
  show "?fits c x \<Longrightarrow> check ?H x = Inr ()"
    using check_each_fits [OF C, of "shape c" "items x"] by (simp add: headerless_codec_def)
  show "?fits c x \<Longrightarrow> deserialize_with_mode ?H cm v c (serialize_with_mode ?H x cm @ rest) = Inr (x, rest)"
    using check_each_fits [OF C, of "shape c" "items x"]
      deserialize_each_roundtrip [OF C, of "shape c" "items x" cm v rest]
    by (simp add: headerless_codec_def mk)
  assume "deserialize_with_mode ?H cm ValidateYes c bytes = Inr (x, rest)"
  then obtain es where es: "reserve (length (shape c))" "x = mk es"
      "deserialize_each (deserialize_with_mode C cm ValidateYes) (shape c) bytes = Inr (es, rest)"
    by (auto simp: headerless_codec_def bindE_Inr_iff split: if_splits)
  with deserialize_each_canonical [OF C es(3)]
  show "?fits c x \<and> bytes = serialize_with_mode ?H x cm @ rest"
    by (simp add: headerless_codec_def mk)
qed

lemma vec_codec_ok:
  assumes C: "akita_codec C (\<lambda>_. fits)"
  shows "akita_codec (vec_codec C) (\<lambda>_ xs. length xs \<le> DEFAULT_MAX_SEQUENCE_LEN \<and> (\<forall>x \<in> set xs. fits x))"
    (is "akita_codec ?V ?fits")
proof
  fix cm v c x rest bytes
  have u64_len: "length xs \<le> DEFAULT_MAX_SEQUENCE_LEN \<Longrightarrow> unat (of_nat (length xs) :: 64 word) = length xs"
    for xs :: "'a list"
    by (simp add: DEFAULT_MAX_SEQUENCE_LEN_def unat_of_nat)
  show "serialized_size ?V x cm = length (serialize_with_mode ?V x cm)"
    using u64.size_law [of "of_nat (length x)" cm]
    by (simp add: vec_codec_def size_concat [OF C] u64_codec_def primitive_codec_def)
  show "?fits c x \<Longrightarrow> check ?V x = Inr ()"
    by (auto simp: vec_codec_def akita_codec.check_law [OF C] intro!: check_each_ok)
  show "?fits c x \<Longrightarrow> deserialize_with_mode ?V cm v c (serialize_with_mode ?V x cm @ rest) = Inr (x, rest)"
    using deserialize_each_roundtrip [OF C, of "replicate (length x) ()" x cm v rest]
    by (simp add: vec_codec_def u64.roundtrip_law checked_vec_len_def u64_len list_all2_replicate_unit)
  assume "deserialize_with_mode ?V cm ValidateYes c bytes = Inr (x, rest)"
  then obtain len bytes' where len: "deserialize_with_mode u64_codec cm ValidateYes () bytes = Inr (len, bytes')"
      "unat len \<le> DEFAULT_MAX_SEQUENCE_LEN"
      "deserialize_each (deserialize_with_mode C cm ValidateYes) (replicate (unat len) ()) bytes' = Inr (x, rest)"
    by (auto simp: vec_codec_def bindE_Inr_iff checked_vec_len_def split: if_splits)
  from u64.canonical_law [OF len(1)] deserialize_each_canonical [OF C len(3)] len(2)
  show "?fits c x \<and> bytes = serialize_with_mode ?V x cm @ rest"
    by (auto simp: vec_codec_def list_all2_replicate_unit)
qed

lemma extension_codec_ok:
  assumes C: "akita_codec C (\<lambda>_. fits)"
  shows "akita_codec (extension_codec degree C) (\<lambda>_ xs. length xs = degree \<and> (\<forall>x \<in> set xs. fits x))"
proof -
  have eq: "extension_codec degree C
      = headerless_codec (\<lambda>_. True) [] (\<lambda>xs. xs) (\<lambda>xs. xs) C (\<lambda>_. replicate degree ())"
    by (simp add: extension_codec_def headerless_codec_def)
  have "akita_codec (extension_codec degree C)
      (\<lambda>_ xs. True \<and> list_all2 (\<lambda>_. fits) (replicate degree ()) xs)"
    unfolding eq by (rule headerless_codec_ok [OF C]) simp_all
  then show ?thesis by (simp only: list_all2_replicate_unit simp_thms)
qed

subsection \<open>Prime fields and proof messages\<close>

text \<open>
  What the code relies on of the \<^verbatim>\<open>jolt-field\<close> encodings: \<open>to_canonical\<close> is the unique
  representative below the modulus, and the two constructors invert it.
\<close>

definition canonical_field_encoding :: "('f, 'w::len) field_encoding \<Rightarrow> bool" where
  "canonical_field_encoding K \<longleftrightarrow>
     LENGTH('w) \<le> 128 \<and>
     (\<forall>x. to_canonical K x < modulus K) \<and>
     (\<forall>x. from_u128_checked K (ucast (to_canonical K x)) = Some x) \<and>
     (\<forall>v x. from_u128_checked K v = Some x \<longrightarrow> v = ucast (to_canonical K x)) \<and>
     (\<forall>x. from_u128_reduced K (ucast (to_canonical K x)) = x)"

lemma unat_ucast_128: "LENGTH('w) \<le> 128 \<Longrightarrow> unat (ucast (a :: 'w::len word) :: 128 word) = unat a"
proof -
  assume "LENGTH('w) \<le> 128"
  then have "(2::nat) ^ LENGTH('w) \<le> 2 ^ 128" by (rule power_increasing) simp
  with unat_lt2p [of a] have "unat a < 2 ^ 128" by (rule order.strict_trans2)
  then show ?thesis by (simp add: unsigned_ucast_eq take_bit_nat_eq_self)
qed

lemma ucast_128_less:
  "LENGTH('w) \<le> 128 \<Longrightarrow> (ucast (a :: 'w::len word) :: 128 word) < ucast b \<longleftrightarrow> a < b"
  by (simp add: word_less_nat_alt unat_ucast_128)

lemma ucast_128_inj:
  "LENGTH('w) \<le> 128 \<Longrightarrow> (ucast (a :: 'w::len word) :: 128 word) = ucast b \<longleftrightarrow> a = b"
  by (metis unat_ucast_128 word_unat_eq_iff)

lemma prime_codec_ok:
  assumes K: "canonical_field_encoding (K :: ('f, 'w::len) field_encoding)"
    and nb: "8 * nb = LENGTH('w)"
  shows "akita_codec (prime_codec nb K) (\<lambda>_ _. True)"
proof -
  note prim = primitive_codec_ok [where 'w = 'w, OF nb]
  note laws = K [unfolded canonical_field_encoding_def]
  show ?thesis
  proof
    fix cm v c x rest bytes
    show "serialized_size (prime_codec nb K) x cm = length (serialize_with_mode (prime_codec nb K) x cm)"
      by (simp add: prime_codec_def primitive_codec_def)
    show "check (prime_codec nb K) x = Inr ()"
      using laws by (simp add: prime_codec_def ucast_128_less)
    have "\<not> modulus K \<le> to_canonical K x" using laws by (simp add: not_le)
    then show "deserialize_with_mode (prime_codec nb K) cm v c
        (serialize_with_mode (prime_codec nb K) x cm @ rest) = Inr (x, rest)"
      using laws by (simp add: prime_codec_def akita_codec.roundtrip_law [OF prim])
    assume "deserialize_with_mode (prime_codec nb K) cm ValidateYes c bytes = Inr (x, rest)"
    then obtain w where w: "deserialize_with_mode (primitive_codec nb :: ('w word, unit) codec)
          CompressNo ValidateYes () bytes = Inr (w, rest)"
        "from_u128_checked K (ucast w) = Some x"
      by (auto simp: prime_codec_def bindE_Inr_iff split: if_splits option.splits)
    have "w = to_canonical K x" using laws w(2) ucast_128_inj by blast
    with akita_codec.canonical_law [OF prim w(1)]
    show "True \<and> bytes = serialize_with_mode (prime_codec nb K) x cm @ rest"
      by (simp add: prime_codec_def primitive_codec_def)
  qed
qed

interpretation vec_u8: akita_codec "vec_codec (primitive_codec 1 :: (8 word, unit) codec)"
  "\<lambda>_ xs. length xs \<le> DEFAULT_MAX_SEQUENCE_LEN \<and> (\<forall>x \<in> set xs. True)"
  by (rule vec_codec_ok) (rule primitive_codec_ok, simp)

text \<open>The values a shape admits: \<open>compressed_shape\<close> for one message, \<open>proof_shape\<close> for a proof.\<close>

definition compressed_shape :: "(nat \<Rightarrow> bool) \<Rightarrow> nat \<Rightarrow> 'e compressed_uni_poly \<Rightarrow> bool" where
  "compressed_shape reserve degree p \<longleftrightarrow>
     reserve degree \<and> length (coeffs_except_linear_term p) = degree"

definition proof_shape :: "(nat \<Rightarrow> bool) \<Rightarrow> nat list \<Rightarrow> 'e sumcheck_proof \<Rightarrow> bool" where
  "proof_shape reserve ctx p \<longleftrightarrow>
     reserve (length ctx) \<and> list_all2 (compressed_shape reserve) ctx (round_polys p)"

definition eq_factored_shape :: "(nat \<Rightarrow> bool) \<Rightarrow> nat \<Rightarrow> 'e eq_factored_uni_poly \<Rightarrow> bool" where
  "eq_factored_shape reserve degree p \<longleftrightarrow>
     reserve degree \<and> length (coeffs_except_constant_term p) = degree"

definition eq_factored_proof_shape ::
  "(nat \<Rightarrow> bool) \<Rightarrow> nat \<times> nat \<Rightarrow> 'e eq_factored_sumcheck_proof \<Rightarrow> bool" where
  "eq_factored_proof_shape reserve ctx p \<longleftrightarrow>
     reserve (fst ctx) \<and>
     list_all2 (eq_factored_shape reserve) (replicate (fst ctx) (snd ctx)) (eq_round_polys p)"

lemma compressed_uni_poly_codec_ok:
  assumes C: "akita_codec C (\<lambda>_ _. True)"
  shows "akita_codec (compressed_uni_poly_codec reserve C) (compressed_shape reserve)"
proof -
  have "akita_codec (compressed_uni_poly_codec reserve C)
      (\<lambda>degree p. reserve (length (replicate degree ()))
         \<and> list_all2 (\<lambda>_ _. True) (replicate degree ()) (coeffs_except_linear_term p))"
    unfolding compressed_uni_poly_codec_def by (rule headerless_codec_ok [OF C]) simp_all
  then show ?thesis
    by (simp add: compressed_shape_def [abs_def] list_all2_replicate_unit)
qed

lemma eq_factored_uni_poly_codec_ok:
  assumes C: "akita_codec C (\<lambda>_ _. True)"
  shows "akita_codec (eq_factored_uni_poly_codec reserve C) (eq_factored_shape reserve)"
proof -
  have "akita_codec (eq_factored_uni_poly_codec reserve C)
      (\<lambda>degree p. reserve (length (replicate degree ()))
         \<and> list_all2 (\<lambda>_ _. True) (replicate degree ()) (coeffs_except_constant_term p))"
    unfolding eq_factored_uni_poly_codec_def by (rule headerless_codec_ok [OF C]) simp_all
  then show ?thesis
    by (simp add: eq_factored_shape_def [abs_def] list_all2_replicate_unit)
qed

lemma sumcheck_proof_codec_ok:
  assumes C: "akita_codec C (\<lambda>_ _. True)"
  shows "akita_codec (sumcheck_proof_codec reserve C) (proof_shape reserve)"
  unfolding sumcheck_proof_codec_def proof_shape_def [abs_def]
  by (rule headerless_codec_ok [OF compressed_uni_poly_codec_ok [OF C]]) simp_all

lemma eq_factored_sumcheck_proof_codec_ok:
  assumes C: "akita_codec C (\<lambda>_ _. True)"
  shows "akita_codec (eq_factored_sumcheck_proof_codec reserve C) (eq_factored_proof_shape reserve)"
proof -
  have "akita_codec (eq_factored_sumcheck_proof_codec reserve C)
      (\<lambda>ctx p. reserve (length (case ctx of (n, d) \<Rightarrow> replicate n d))
         \<and> list_all2 (eq_factored_shape reserve) (case ctx of (n, d) \<Rightarrow> replicate n d) (eq_round_polys p))"
    unfolding eq_factored_sumcheck_proof_codec_def
    by (rule headerless_codec_ok [OF eq_factored_uni_poly_codec_ok [OF C]]) simp_all
  then show ?thesis
    by (simp add: eq_factored_proof_shape_def [abs_def] case_prod_beta)
qed

lemma uni_poly_codec_ok:
  assumes C: "akita_codec C (\<lambda>_ _. True)"
  shows "akita_codec (uni_poly_codec C) (\<lambda>_ p. length (coeffs p) \<le> DEFAULT_MAX_SEQUENCE_LEN)"
proof -
  have V: "akita_codec (vec_codec C) (\<lambda>_ xs. length xs \<le> DEFAULT_MAX_SEQUENCE_LEN)"
    using vec_codec_ok [OF C] by simp
  note laws = akita_codec.size_law [OF V] akita_codec.check_law [OF V] akita_codec.roundtrip_law [OF V]
  show ?thesis
  proof
    fix cm v c p rest bytes
    show "serialized_size (uni_poly_codec C) p cm = length (serialize_with_mode (uni_poly_codec C) p cm)"
      by (simp add: uni_poly_codec_def laws)
    assume "length (coeffs p) \<le> DEFAULT_MAX_SEQUENCE_LEN"
    then show "check (uni_poly_codec C) p = Inr ()"
        "deserialize_with_mode (uni_poly_codec C) cm v c
           (serialize_with_mode (uni_poly_codec C) p cm @ rest) = Inr (p, rest)"
      by (simp_all add: uni_poly_codec_def laws)
  next
    fix cm c p rest bytes
    assume "deserialize_with_mode (uni_poly_codec C) cm ValidateYes c bytes = Inr (p, rest)"
    then have "deserialize_with_mode (vec_codec C) cm ValidateYes () bytes = Inr (coeffs p, rest)"
      by (auto simp: uni_poly_codec_def bindE_Inr_iff)
    from akita_codec.canonical_law [OF V this]
    show "length (coeffs p) \<le> DEFAULT_MAX_SEQUENCE_LEN
        \<and> bytes = serialize_with_mode (uni_poly_codec C) p cm @ rest"
      by (simp add: uni_poly_codec_def)
  qed
qed

text \<open>A concrete field of two elements with a 32-bit encoding, for the examples below.\<close>

definition two_element_encoding :: "(bool, 32) field_encoding" where
  "two_element_encoding =
     \<lparr>field_name = ''Fp32'', modulus = 2, to_canonical = (\<lambda>b. if b then 1 else 0),
      from_u128_checked = (\<lambda>v. if v = 0 then Some False else if v = 1 then Some True else None),
      from_u128_reduced = (\<lambda>v. v = 1)\<rparr>"

lemma two_element_encoding_ok: "canonical_field_encoding two_element_encoding"
  by (auto simp: canonical_field_encoding_def two_element_encoding_def split: if_splits)

text \<open>
  C4: The wire format of a sumcheck proof over a prime field is canonical.  Decoding the
  whole artifact against a schedule-given shape accepts exactly the compressed encodings of
  the proofs of that shape, so every accepted byte string re-encodes to itself, no two byte
  strings decode to the same proof, and trailing bytes are refused.
\<close>

theorem sumcheck_proof_wire_exact:
  assumes "canonical_field_encoding (K :: ('f, 'w::len) field_encoding)" and "8 * nb = LENGTH('w)"
  shows "deserialize_compressed_exact (sumcheck_proof_codec reserve (prime_codec nb K)) bytes ctx = Inr p
     \<longleftrightarrow> proof_shape reserve ctx p
        \<and> bytes = serialize_compressed (sumcheck_proof_codec reserve (prime_codec nb K)) p"
  unfolding deserialize_compressed_exact_def serialize_compressed_def
  by (rule akita_codec.exact_accepts_iff [OF sumcheck_proof_codec_ok [OF prime_codec_ok [OF assms]]])

theorem sumcheck_proof_wire_exact_witness:
  "deserialize_compressed_exact (sumcheck_proof_codec (\<lambda>_. True) (prime_codec 4 two_element_encoding))
     [1, 0, 0, 0, 0, 0, 0, 0] [2] = Inr (SumcheckProof [CompressedUniPoly [True, False]])"
proof -
  let ?C = "sumcheck_proof_codec (\<lambda>_. True) (prime_codec 4 two_element_encoding)"
  let ?p = "SumcheckProof [CompressedUniPoly [True, False]]"
  have "serialize_compressed ?C ?p = [1, 0, 0, 0, 0, 0, 0, 0]"
    by (simp add: serialize_compressed_def sumcheck_proof_codec_def headerless_codec_def
        compressed_uni_poly_codec_def prime_codec_def primitive_codec_def to_le_bytes_def
        two_element_encoding_def)
  moreover have "proof_shape (\<lambda>_. True) [2] ?p"
    by (simp add: proof_shape_def compressed_shape_def)
  moreover have "8 * 4 = LENGTH(32)" by simp
  ultimately show ?thesis
    using sumcheck_proof_wire_exact [OF two_element_encoding_ok, of 4 "\<lambda>_. True"
        "[1, 0, 0, 0, 0, 0, 0, 0]" "[2]" ?p] by simp
qed

lemma vec_codec_over_limit:
  assumes "length xs < 2 ^ 64" and "DEFAULT_MAX_SEQUENCE_LEN < length xs"
  shows "deserialize_with_mode (vec_codec C) cm ValidateYes c (serialize_with_mode (vec_codec C) xs cm @ rest)
           = Inl (LengthLimitExceeded (length xs) DEFAULT_MAX_SEQUENCE_LEN)"
proof -
  have "unat (of_nat (length xs) :: 64 word) = length xs" using assms(1) by (simp add: unat_of_nat)
  then have "checked_vec_len (of_nat (length xs)) ValidateYes
      = Inl (LengthLimitExceeded (length xs) DEFAULT_MAX_SEQUENCE_LEN)"
    using assms(2) by (simp add: checked_vec_len_def)
  moreover have "deserialize_with_mode u64_codec cm ValidateYes ()
      (serialize_with_mode u64_codec (of_nat (length xs)) cm @ ys) = Inr (of_nat (length xs), ys)" for ys
    by (rule u64.roundtrip_law) simp
  ultimately show ?thesis by (simp add: vec_codec_def)
qed



end
