(* ===== verification/EqPoly.thy ===== *)
theory EqPoly
  imports Checked
begin

text \<open>
  Crate \<^verbatim>\<open>akita-algebra\<close>, module \<^verbatim>\<open>eq_poly\<close>: evaluation tables of the equality polynomial
  in little-endian order, built serially in place, in parallel halves, in slabs, with
  cached suffix layers, or as a split product of two half tables, and their prefix sums.

  Parameters of the definitions: \<open>elem_size\<close> is \<open>size_of\<close> of the field type, \<open>parallel\<close>
  says whether the crate feature of that name is on, \<open>threads\<close> is the size of the rayon
  pool.  Parallel loops over disjoint slots are maps.  Vector allocation succeeds.
\<close>

subsection \<open>Definitions\<close>

definition MAX_MATERIALIZED_EQ_TABLE_BYTES :: nat where
  "MAX_MATERIALIZED_EQ_TABLE_BYTES = 2 ^ 30"

definition split_lagrange_parent :: "'e::field \<Rightarrow> 'e \<Rightarrow> 'e \<times> 'e" where
  "split_lagrange_parent value coordinate =
     (let right = value * coordinate; left = value - right in (left, right))"

definition table_len :: "nat \<Rightarrow> nat result" where
  "table_len num_vars = ok_or (pow2 num_vars) (InvalidInput ''eq table dimension overflow'')"

definition check_element_budget :: "nat \<Rightarrow> string \<Rightarrow> nat \<Rightarrow> unit result" where
  "check_element_budget elem_size label len =
     bindE (ok_or (checked_mul len (max elem_size 1))
              (InvalidInput (label @ '' byte-size overflow for '' @ show_nat len @ '' elements'')))
       (\<lambda>bytes.
          if bytes > MAX_MATERIALIZED_EQ_TABLE_BYTES then
            Inl (InvalidInput (label @ '' requires '' @ show_nat bytes @ '' bytes for ''
                   @ show_nat len @ '' elements, exceeding equality-table budget of ''
                   @ show_nat MAX_MATERIALIZED_EQ_TABLE_BYTES @ '' bytes''))
          else Inr ())"

definition materialized_table_len :: "nat \<Rightarrow> string \<Rightarrow> nat \<Rightarrow> nat result" where
  "materialized_table_len elem_size label num_vars =
     bindE (table_len num_vars)
       (\<lambda>len. bindE (check_element_budget elem_size label len) (\<lambda>_. Inr len))"

definition zero_vec :: "nat \<Rightarrow> 'e::field list" where
  "zero_vec len = replicate len 0"

definition mle :: "'e::field list \<Rightarrow> 'e list \<Rightarrow> 'e result" where
  "mle x y =
     (if length x \<noteq> length y then Inl (InvalidSize (length x) (length y))
      else Inr (foldl (\<lambda>acc v. acc * v) 1
             (map (\<lambda>(x_i, y_i). x_i * y_i + (1 - x_i) * (1 - y_i)) (zip x y))))"

definition zero_selector :: "'e::field list \<Rightarrow> 'e" where
  "zero_selector r = foldl (\<lambda>acc r_i. acc * (1 - r_i)) 1 r"

text \<open>
  One in-place layer: parents are visited from high to low index, and the children of
  \<open>parent\<close> are written to \<open>2 * parent\<close> and \<open>2 * parent + 1\<close> through \<open>post\<close>.
\<close>

definition fill_layer :: "('e::field \<Rightarrow> 'e) \<Rightarrow> 'e \<Rightarrow> nat \<Rightarrow> 'e list \<Rightarrow> 'e list" where
  "fill_layer post coordinate len evals =
     foldl (\<lambda>ev parent.
              let (left, right) = split_lagrange_parent (ev ! parent) coordinate
              in (ev[2 * parent := post left])[2 * parent + 1 := post right])
       evals (rev [0..<len])"

definition fill_serial_with_final_map ::
  "'e::field list \<Rightarrow> 'e list \<Rightarrow> 'e \<Rightarrow> ('e \<Rightarrow> 'e) \<Rightarrow> 'e list" where
  "fill_serial_with_final_map evals r initial final_map =
     (case r of
        [] \<Rightarrow> evals[0 := final_map initial]
      | r0 # rest \<Rightarrow>
          (let (evals', len) =
             foldl (\<lambda>(ev, len) coordinate. (fill_layer (\<lambda>v. v) coordinate len ev, len * 2))
               (evals[0 := initial], 1) (rev rest)
           in fill_layer final_map r0 len evals'))"

definition evals_serial_with_final_map ::
  "nat \<Rightarrow> string \<Rightarrow> 'e::field list \<Rightarrow> 'e \<Rightarrow> ('e \<Rightarrow> 'e) \<Rightarrow> 'e list result" where
  "evals_serial_with_final_map elem_size label r initial final_map =
     bindE (materialized_table_len elem_size label (length r))
       (\<lambda>size. Inr (fill_serial_with_final_map (zero_vec size) r initial final_map))"

definition evals_serial :: "nat \<Rightarrow> 'e::field list \<Rightarrow> 'e option \<Rightarrow> 'e list result" where
  "evals_serial elem_size r scaling_factor =
     evals_serial_with_final_map elem_size ''eq evaluation table'' r
       (case scaling_factor of None \<Rightarrow> 1 | Some s \<Rightarrow> s) (\<lambda>value. value)"

text \<open>
  The parallel builder: each pass splits the first \<open>size\<close> entries in place and writes the
  right children to the next \<open>size\<close> entries.
\<close>

definition parallel_pass :: "'e::field list \<times> nat \<Rightarrow> 'e \<Rightarrow> 'e list \<times> nat" where
  "parallel_pass = (\<lambda>(evals, size) r_i.
     (map (\<lambda>x. fst (split_lagrange_parent x r_i)) (take size evals)
        @ map (\<lambda>x. snd (split_lagrange_parent x r_i)) (take size evals)
        @ drop (2 * size) evals, size * 2))"

definition evals_parallel :: "nat \<Rightarrow> 'e::field list \<Rightarrow> 'e option \<Rightarrow> 'e list result" where
  "evals_parallel elem_size r scaling_factor =
     bindE (materialized_table_len elem_size ''eq evaluation table'' (length r))
       (\<lambda>final_size.
          Inr (fst (foldl parallel_pass
            ((zero_vec final_size)[0 := (case scaling_factor of None \<Rightarrow> 1 | Some s \<Rightarrow> s)], 1) r)))"

definition evals_with_scaling ::
  "bool \<Rightarrow> nat \<Rightarrow> 'e::field list \<Rightarrow> 'e option \<Rightarrow> 'e list result" where
  "evals_with_scaling parallel elem_size r scaling_factor =
     (if parallel \<and> length r > 16 then evals_parallel elem_size r scaling_factor
      else evals_serial elem_size r scaling_factor)"

definition evals :: "bool \<Rightarrow> nat \<Rightarrow> 'e::field list \<Rightarrow> 'e list result" where
  "evals parallel elem_size r = evals_with_scaling parallel elem_size r None"

text \<open>\<open>ilog2\<close> of a positive number.\<close>

fun ilog2 :: "nat \<Rightarrow> nat" where
  "ilog2 n = (if n \<le> 1 then 0 else Suc (ilog2 (n div 2)))"

declare ilog2.simps [simp del]

definition evals_mapped_parallel_slabs ::
  "nat \<Rightarrow> nat \<Rightarrow> 'e::field list \<Rightarrow> ('e \<Rightarrow> 'e) \<Rightarrow> 'e list result" where
  "evals_mapped_parallel_slabs threads elem_size r final_map =
     bindE (materialized_table_len elem_size ''mapped eq evaluation table'' (length r))
       (\<lambda>final_size.
          let target_tasks = max (saturating_mul threads 4) 1;
              target_outer_vars = ilog2 target_tasks;
              outer_vars = min target_outer_vars (length r - 8);
              low_vars = length r - outer_vars;
              slab_len = 2 ^ low_vars
          in bindE (evals_serial elem_size (drop low_vars r) None)
               (\<lambda>outer. Inr (concat (map (\<lambda>initial.
                  fill_serial_with_final_map (zero_vec slab_len) (take low_vars r) initial final_map)
                  outer))))"

definition evals_mapped ::
  "bool \<Rightarrow> nat \<Rightarrow> nat \<Rightarrow> 'e::field list \<Rightarrow> ('e \<Rightarrow> 'e) \<Rightarrow> 'e list result" where
  "evals_mapped parallel threads elem_size r final_map =
     (if parallel \<and> threads > 1 then
        (if length r < 14 then
           evals_serial_with_final_map elem_size ''mapped eq evaluation table'' r 1 final_map
         else if length r \<le> 16 then evals_mapped_parallel_slabs threads elem_size r final_map
         else bindE (evals parallel elem_size r) (\<lambda>out. Inr (map final_map out)))
      else evals_serial_with_final_map elem_size ''mapped eq evaluation table'' r 1 final_map)"

definition prefix_loop :: "'e::field list \<Rightarrow> nat \<Rightarrow> 'e \<times> 'e" where
  "prefix_loop r len = foldl
     (\<lambda>(below, equal_prefix) bit.
        let (left, right) = split_lagrange_parent equal_prefix (r ! bit)
        in if odd (len div 2 ^ bit) then (below + left, right) else (below, left))
     (0, 1) (rev [0..<length r])"

definition prefix_sum :: "'e::field list \<Rightarrow> nat \<Rightarrow> 'e result" where
  "prefix_sum r len =
     bindE (table_len (length r))
       (\<lambda>table_len'.
          if len > table_len' then Inl (InvalidSize table_len' len)
          else if len = table_len' then Inr 1
          else Inr (fst (prefix_loop r len)))"

text \<open>
  Cached layers: layer \<open>j + 1\<close> expands layer \<open>j\<close> by the coordinate \<open>r[n - 1 - j]\<close>.
\<close>

definition cached_layer :: "'e::field list \<Rightarrow> 'e \<Rightarrow> 'e list" where
  "cached_layer prev t =
     foldl (\<lambda>layer i.
              let (left, right) = split_lagrange_parent (prev ! i) t
              in (layer[2 * i := left])[2 * i + 1 := right])
       (zero_vec (2 * length prev)) (rev [0..<length prev])"

fun cached_layers :: "'e::field list \<Rightarrow> 'e list \<Rightarrow> 'e list list" where
  "cached_layers layer [] = [layer]"
| "cached_layers layer (t # ts) = layer # cached_layers (cached_layer layer t) ts"

definition evals_cached_with_scaling ::
  "nat \<Rightarrow> 'e::field list \<Rightarrow> 'e option \<Rightarrow> 'e list list result" where
  "evals_cached_with_scaling elem_size r scaling_factor =
     bindE (table_len (length r))
       (\<lambda>final_len.
          bindE (ok_or (Option.bind (checked_mul final_len 2) (\<lambda>len. checked_sub len 1))
                   (InvalidInput ''cached eq table total length overflow''))
            (\<lambda>total_len.
               bindE (check_element_budget elem_size ''cached eq tables'' total_len)
                 (\<lambda>_. Inr (cached_layers
                    [case scaling_factor of None \<Rightarrow> 1 | Some s \<Rightarrow> s] (rev r)))))"

definition evals_cached :: "nat \<Rightarrow> 'e::field list \<Rightarrow> 'e list list result" where
  "evals_cached elem_size r = evals_cached_with_scaling elem_size r None"

record 'e split_eq_evals =
  e_out :: "'e list"
  e_in :: "'e list"

definition split_new :: "bool \<Rightarrow> nat \<Rightarrow> 'e::field list \<Rightarrow> 'e split_eq_evals result" where
  "split_new parallel elem_size point =
     (let m = length point div 2 in
      bindE (evals parallel elem_size (take m point))
        (\<lambda>inn. bindE (evals parallel elem_size (drop m point))
           (\<lambda>out. Inr \<lparr>e_out = out, e_in = inn\<rparr>)))"

definition split_len :: "'e split_eq_evals \<Rightarrow> nat" where
  "split_len s = length (e_in s) * length (e_out s)"

definition split_is_empty :: "'e split_eq_evals \<Rightarrow> bool" where
  "split_is_empty s \<longleftrightarrow> e_in s = [] \<or> e_out s = []"

definition split_eval_at :: "'e::field split_eq_evals \<Rightarrow> nat \<Rightarrow> 'e result" where
  "split_eval_at s index =
     (if index \<ge> split_len s then
        Inl (InvalidInput (''split equality index '' @ show_nat index
               @ '' is outside table length '' @ show_nat (split_len s)))
      else let in_len = length (e_in s) in
        Inr (e_out s ! (index div in_len) * e_in s ! (index mod in_len)))"

definition evals_prefix :: "bool \<Rightarrow> nat \<Rightarrow> 'e::field list \<Rightarrow> nat \<Rightarrow> 'e list result" where
  "evals_prefix parallel elem_size r len =
     bindE (split_new parallel elem_size r)
       (\<lambda>split. if len > split_len split then Inl (InvalidSize (split_len split) len)
                 else collect_result (map (split_eval_at split) [0..<len]))"

subsection \<open>The equality polynomial on the hypercube\<close>

text \<open>\<open>eq_weight r b\<close> is \<open>eq(r, bits of b)\<close>, bit \<open>k\<close> of \<open>b\<close> selecting \<open>r[k]\<close>.\<close>

fun eq_weight :: "'e::field list \<Rightarrow> nat \<Rightarrow> 'e" where
  "eq_weight [] b = 1"
| "eq_weight (c # cs) b = (if odd b then c else 1 - c) * eq_weight cs (b div 2)"

definition bits_of :: "nat \<Rightarrow> nat \<Rightarrow> 'e::field list" where
  "bits_of n b = map (\<lambda>k. if odd (b div 2 ^ k) then 1 else 0) [0..<n]"

definition expand_layer :: "('e::field \<Rightarrow> 'e) \<Rightarrow> 'e \<Rightarrow> 'e list \<Rightarrow> 'e list" where
  "expand_layer post c vs = concat (map (\<lambda>v. [post (v - v * c), post (v * c)]) vs)"

definition eq_table :: "'e::field list \<Rightarrow> 'e \<Rightarrow> 'e list" where
  "eq_table r s = foldr (expand_layer (\<lambda>v. v)) r [s]"

lemma length_expand_layer [simp]: "length (expand_layer post c vs) = 2 * length vs"
  by (simp add: expand_layer_def)

lemma length_eq_table [simp]: "length (eq_table r s) = 2 ^ length r"
  by (induction r) (simp_all add: eq_table_def)

lemma nth_expand_layer:
  "b < 2 * length vs \<Longrightarrow>
     expand_layer post c vs ! b = post (vs ! (b div 2) * (if odd b then c else 1 - c))"
  using nth_concat_pairs [of "b div 2" vs "\<lambda>v. post (v - v * c)" "\<lambda>v. post (v * c)"]
  by (cases "odd b") (auto simp: expand_layer_def algebra_simps elim!: oddE evenE)

lemma nth_eq_table: "b < 2 ^ length r \<Longrightarrow> eq_table r s ! b = s * eq_weight r b"
proof (induction r arbitrary: b)
  case (Cons c r)
  then have "b div 2 < 2 ^ length r" by auto
  with Cons show ?case
    by (simp add: eq_table_def nth_expand_layer foldr_Cons o_def)
       (simp add: eq_table_def [symmetric] nth_expand_layer algebra_simps)
qed (simp add: eq_table_def)

subsection \<open>The in-place and the parallel builders\<close>

lemma fill_layer_correct:
  assumes "2 * len \<le> length ev"
  shows "length (fill_layer post c len ev) = length ev
       \<and> take (2 * len) (fill_layer post c len ev) = expand_layer post c (take len ev)
       \<and> drop (2 * len) (fill_layer post c len ev) = drop (2 * len) ev"
  using assms
proof (induction len arbitrary: ev)
  case 0
  then show ?case by (simp add: fill_layer_def expand_layer_def)
next
  case (Suc len)
  define ev' where "ev' = (ev[2 * len := post (ev ! len - ev ! len * c)])[2 * len + 1 := post (ev ! len * c)]"
  let ?out = "fill_layer post c len ev'"
  have step: "fill_layer post c (Suc len) ev = ?out"
    by (simp add: fill_layer_def ev'_def split_lagrange_parent_def Let_def)
  have len': "length ev' = length ev" by (simp add: ev'_def)
  have IH: "length ?out = length ev'" "take (2 * len) ?out = expand_layer post c (take len ev')"
    "drop (2 * len) ?out = drop (2 * len) ev'"
    using Suc.IH [of ev'] Suc.prems len' by auto
  have low: "take len ev' = take len ev" by (simp add: ev'_def)
  have two: "drop (2 * len) ev' = post (ev ! len - ev ! len * c) # post (ev ! len * c) # drop (2 * len + 2) ev"
    using Suc.prems
    by (intro nth_equalityI)
       (auto simp: ev'_def nth_Cons nth_list_update numeral_2_eq_2 split: nat.splits)
  have "?out = expand_layer post c (take len ev) @ drop (2 * len) ev'"
    by (metis IH(2,3) append_take_drop_id low)
  moreover have "expand_layer post c (take (Suc len) ev)
      = expand_layer post c (take len ev) @ [post (ev ! len - ev ! len * c), post (ev ! len * c)]"
    using Suc.prems by (simp add: expand_layer_def take_Suc_conv_app_nth)
  ultimately show ?case
    using IH(1) len' two Suc.prems by (simp add: step)
qed

lemma fill_layer_full:
  assumes "length ev = 2 * len"
  shows "fill_layer post c len ev = expand_layer post c (take len ev)"
  using fill_layer_correct [of len ev post c] assms by (metis order_refl take_all)

lemma foldl_fill_layer:
  assumes "2 ^ length cs * len \<le> length ev" and "0 < len"
  shows "\<exists>ev'. foldl (\<lambda>(ev, len) c. (fill_layer (\<lambda>v. v) c len ev, len * 2)) (ev, len) cs
               = (ev', 2 ^ length cs * len)
           \<and> length ev' = length ev
           \<and> take (2 ^ length cs * len) ev' = foldl (\<lambda>vs c. expand_layer (\<lambda>v. v) c vs) (take len ev) cs"
  using assms
proof (induction cs arbitrary: ev len)
  case (Cons c cs)
  let ?ev = "fill_layer (\<lambda>v. v) c len ev"
  have "2 * len \<le> 2 ^ length (c # cs) * len" by simp
  then have le: "2 * len \<le> length ev" using Cons.prems(1) by linarith
  note layer = fill_layer_correct [OF le, of "\<lambda>v. v" c]
  from Cons.IH [of "2 * len" ?ev] layer Cons.prems show ?case
    by (simp add: ac_simps)
qed simp

lemma map_expand_layer: "expand_layer post c vs = map post (expand_layer (\<lambda>v. v) c vs)"
  by (simp add: expand_layer_def map_concat o_def)

lemma fill_serial_correct:
  assumes "length ev = 2 ^ length r"
  shows "fill_serial_with_final_map ev r initial f = map f (eq_table r initial)"
proof (cases r)
  case Nil
  with assms show ?thesis
    by (simp add: fill_serial_with_final_map_def eq_table_def length_Suc_conv split: list.splits)
       (auto simp: length_Suc_conv)
next
  case (Cons r0 rest)
  let ?ev = "ev[0 := initial]"
  have len: "length ?ev = 2 * 2 ^ length rest" using assms Cons by simp
  have "\<exists>ev'. foldl (\<lambda>(ev, len) c. (fill_layer (\<lambda>v. v) c len ev, len * 2)) (?ev, 1) (rev rest)
               = (ev', 2 ^ length rest)
           \<and> length ev' = length ?ev
           \<and> take (2 ^ length rest) ev' = foldl (\<lambda>vs c. expand_layer (\<lambda>v. v) c vs) (take 1 ?ev) (rev rest)"
    using foldl_fill_layer [of "rev rest" 1 ?ev] len by simp
  then obtain ev' where ev':
    "foldl (\<lambda>(ev, len) c. (fill_layer (\<lambda>v. v) c len ev, len * 2)) (?ev, 1) (rev rest) = (ev', 2 ^ length rest)"
    "length ev' = 2 * 2 ^ length rest"
    "take (2 ^ length rest) ev' = foldl (\<lambda>vs c. expand_layer (\<lambda>v. v) c vs) (take 1 ?ev) (rev rest)"
    using len by auto
  have "take 1 ?ev = [initial]" using assms Cons by (cases ev) simp_all
  then have "take (2 ^ length rest) ev' = eq_table rest initial"
    using ev'(3) by (simp add: eq_table_def foldr_conv_foldl)
  then show ?thesis
    using Cons ev'(1) fill_layer_full [OF ev'(2), of f r0]
    by (simp add: fill_serial_with_final_map_def map_expand_layer [of f] eq_table_def)
qed

lemma foldr_expand_append:
  "foldr (expand_layer (\<lambda>v. v)) cs (xs @ ys)
     = foldr (expand_layer (\<lambda>v. v)) cs xs @ foldr (expand_layer (\<lambda>v. v)) cs ys"
  by (induction cs) (simp_all add: expand_layer_def)

lemma foldr_expand_concat:
  "foldr (expand_layer (\<lambda>v. v)) cs vs = concat (map (eq_table cs) vs)"
proof (induction vs)
  case Nil
  show ?case by (induction cs) (simp_all add: expand_layer_def)
next
  case (Cons v vs)
  then show ?case using foldr_expand_append [of cs "[v]" vs] by (simp add: eq_table_def)
qed

lemma eq_table_append: "eq_table (xs @ ys) s = concat (map (eq_table xs) (eq_table ys s))"
  unfolding eq_table_def [of "xs @ ys"] by (simp add: foldr_expand_concat)

lemma map_eq_table: "map (\<lambda>x. x * k) (eq_table cs s) = eq_table cs (s * k)"
  by (rule nth_equalityI) (simp_all add: nth_eq_table algebra_simps)

lemma eq_table_snoc:
  "eq_table (cs @ [c]) s = map (\<lambda>x. x - x * c) (eq_table cs s) @ map (\<lambda>x. x * c) (eq_table cs s)"
proof -
  have "map (\<lambda>x. x - x * c) (eq_table cs s) = eq_table cs (s - s * c)"
    using map_eq_table [of "1 - c" cs s] by (simp add: algebra_simps)
  then show ?thesis
    by (simp add: eq_table_append map_eq_table) (simp add: eq_table_def expand_layer_def)
qed

lemma foldl_parallel_pass:
  assumes "length ev = 2 ^ (length pre + length todo)"
    and "take (2 ^ length pre) ev = eq_table pre s"
  shows "fst (foldl parallel_pass (ev, 2 ^ length pre) todo) = eq_table (pre @ todo) s"
  using assms
proof (induction todo arbitrary: ev pre)
  case (Cons c todo)
  obtain ev' where ev': "parallel_pass (ev, 2 ^ length pre) c = (ev', 2 ^ length (pre @ [c]))"
    and head: "ev' = eq_table (pre @ [c]) s @ drop (2 * 2 ^ length pre) ev"
    using Cons.prems by (simp add: parallel_pass_def split_lagrange_parent_def Let_def eq_table_snoc)
  have "(2::nat) * 2 ^ length pre \<le> length ev"
    using Cons.prems(1) by (simp add: power_add)
  with head Cons.prems(1) have "length ev' = 2 ^ (length (pre @ [c]) + length todo)"
    by simp
  moreover have "take (2 ^ length (pre @ [c])) ev' = eq_table (pre @ [c]) s"
    using head by simp
  ultimately have "fst (foldl parallel_pass (ev', 2 ^ length (pre @ [c])) todo)
      = eq_table ((pre @ [c]) @ todo) s" by (rule Cons.IH)
  then show ?case using ev' by simp
qed simp

subsection \<open>Table sizes and the budget\<close>

definition eq_budget_ok :: "nat \<Rightarrow> nat \<Rightarrow> bool" where
  "eq_budget_ok elem_size n \<longleftrightarrow> 2 ^ n * max elem_size 1 \<le> MAX_MATERIALIZED_EQ_TABLE_BYTES"

lemma materialized_table_len_cases:
  "materialized_table_len sz label n =
     (if eq_budget_ok sz n then Inr (2 ^ n) else materialized_table_len sz label n)"
  "\<not> eq_budget_ok sz n \<Longrightarrow> \<not> is_ok (materialized_table_len sz label n)"
proof -
  have "(2::nat) ^ n \<le> 2 ^ n * max sz 1" by simp
  moreover have "MAX_MATERIALIZED_EQ_TABLE_BYTES \<le> usize_max"
    by (simp add: MAX_MATERIALIZED_EQ_TABLE_BYTES_def usize_max_def)
  ultimately have "eq_budget_ok sz n \<Longrightarrow> 2 ^ n \<le> usize_max \<and> 2 ^ n * max sz 1 \<le> usize_max"
    unfolding eq_budget_ok_def by (meson order_trans)
  then show "materialized_table_len sz label n =
     (if eq_budget_ok sz n then Inr (2 ^ n) else materialized_table_len sz label n)"
    by (auto simp: materialized_table_len_def table_len_def pow2_exact check_element_budget_def
               checked_mul_def eq_budget_ok_def)
  show "\<not> eq_budget_ok sz n \<Longrightarrow> \<not> is_ok (materialized_table_len sz label n)"
    by (auto simp: materialized_table_len_def table_len_def pow2_exact check_element_budget_def
               checked_mul_def eq_budget_ok_def)
qed

lemma materialized_table_len_ok [simp]:
  "eq_budget_ok sz n \<Longrightarrow> materialized_table_len sz label n = Inr (2 ^ n)"
  using materialized_table_len_cases(1) by presburger

lemma materialized_table_len_Inr_iff:
  "materialized_table_len sz label n = Inr m \<longleftrightarrow> eq_budget_ok sz n \<and> m = 2 ^ n"
  using materialized_table_len_cases(2) [of sz n label] by (cases "eq_budget_ok sz n") (auto simp: is_ok_iff)

lemma eq_budget_ok_mono: "eq_budget_ok sz n \<Longrightarrow> m \<le> n \<Longrightarrow> eq_budget_ok sz m"
  unfolding eq_budget_ok_def
  by (meson le_trans mult_le_mono1 one_le_numeral power_increasing)

lemma evals_serial_Inr_iff:
  "evals_serial_with_final_map sz label r s f = Inr t
     \<longleftrightarrow> eq_budget_ok sz (length r) \<and> t = map f (eq_table r s)"
  by (auto simp: evals_serial_with_final_map_def bindE_Inr_iff materialized_table_len_Inr_iff
             fill_serial_correct zero_vec_def)

lemma take_one_update: "xs \<noteq> [] \<Longrightarrow> take (Suc 0) (xs[0 := x]) = [x]"
  by (cases xs) simp_all

lemma evals_parallel_serial: "evals_parallel sz r scaling = evals_serial sz r scaling"
proof (cases "eq_budget_ok sz (length r)")
  case True
  let ?s = "case scaling of None \<Rightarrow> 1 | Some s \<Rightarrow> s"
  have "fst (foldl parallel_pass ((zero_vec (2 ^ length r))[0 := ?s], 2 ^ length ([] :: 'a list)) r)
          = eq_table ([] @ r) ?s"
    by (rule foldl_parallel_pass) (simp_all add: zero_vec_def take_one_update eq_table_def)
  with True show ?thesis
    by (simp add: evals_parallel_def evals_serial_def evals_serial_with_final_map_def
          fill_serial_correct zero_vec_def)
next
  case False
  then show ?thesis
    using materialized_table_len_cases(2) [of sz "length r" "''eq evaluation table''"]
    by (auto simp: evals_parallel_def evals_serial_def evals_serial_with_final_map_def is_ok_def
             split: sum.splits)
qed

lemma evals_with_scaling_Inr_iff:
  "evals_with_scaling par sz r scaling = Inr t
     \<longleftrightarrow> eq_budget_ok sz (length r)
       \<and> t = eq_table r (case scaling of None \<Rightarrow> 1 | Some s \<Rightarrow> s)"
  by (simp add: evals_with_scaling_def evals_parallel_serial evals_serial_def evals_serial_Inr_iff)

lemma evals_Inr_iff:
  "evals par sz r = Inr t \<longleftrightarrow> eq_budget_ok sz (length r) \<and> t = eq_table r 1"
  by (simp add: evals_def evals_with_scaling_Inr_iff)

lemma evals_mapped_slabs_Inr_iff:
  "evals_mapped_parallel_slabs threads sz r f = Inr t
     \<longleftrightarrow> eq_budget_ok sz (length r) \<and> t = map f (eq_table r 1)"
proof -
  define low where "low = length r - min (ilog2 (max (saturating_mul threads 4) 1)) (length r - 8)"
  have low: "low \<le> length r" by (simp add: low_def)
  have "map f (eq_table r 1)
          = concat (map (\<lambda>initial. map f (eq_table (take low r) initial)) (eq_table (drop low r) 1))"
    using eq_table_append [of "take low r" "drop low r" 1] by (simp add: map_concat o_def)
  moreover have "evals_mapped_parallel_slabs threads sz r f =
      bindE (materialized_table_len sz ''mapped eq evaluation table'' (length r))
        (\<lambda>_. bindE (evals_serial sz (drop low r) None)
           (\<lambda>outer. Inr (concat (map (\<lambda>initial.
              fill_serial_with_final_map (zero_vec (2 ^ low)) (take low r) initial f) outer))))"
    by (simp only: evals_mapped_parallel_slabs_def Let_def low_def)
  ultimately show ?thesis
    using low eq_budget_ok_mono [of sz "length r" "length r - low"]
    by (auto simp: bindE_Inr_iff materialized_table_len_Inr_iff evals_serial_def
          evals_serial_Inr_iff fill_serial_correct zero_vec_def)
qed

lemma evals_mapped_Inr_iff:
  "evals_mapped par threads sz r f = Inr t
     \<longleftrightarrow> eq_budget_ok sz (length r) \<and> t = map f (eq_table r 1)"
  by (auto simp: evals_mapped_def evals_serial_Inr_iff evals_mapped_slabs_Inr_iff bindE_Inr_iff
        evals_Inr_iff)

subsection \<open>Products, prefix sums, cached layers and split tables\<close>

lemma foldl_times: "foldl (\<lambda>acc v. acc * v) z vs = z * prod_list (vs :: 'e::comm_monoid_mult list)"
  by (induction vs arbitrary: z) (simp_all add: mult.assoc)

lemma bits_of_Suc: "bits_of (Suc n) b = (if odd b then 1 else 0) # bits_of n (b div 2)"
  by (simp add: bits_of_def map_upt_Suc div_mult2_eq del: upt_Suc)

lemma prod_list_eq_weight:
  "prod_list (map (\<lambda>(x, y). x * y + (1 - x) * (1 - y)) (zip r (bits_of (length r) b))) = eq_weight r b"
  by (induction r arbitrary: b) (simp_all add: bits_of_Suc)

lemma mle_bits: "mle r (bits_of (length r) b) = Inr (eq_weight r b)"
  by (simp add: mle_def foldl_times prod_list_eq_weight) (simp add: bits_of_def)

lemma zero_selector_eq: "zero_selector r = eq_weight r 0"
proof -
  have "foldl (\<lambda>acc r_i. acc * (1 - r_i)) z r = z * eq_weight r 0" for z
    by (induction r arbitrary: z) (simp_all add: mult.assoc)
  then show ?thesis by (simp add: zero_selector_def)
qed

lemma eq_weight_append:
  "eq_weight (xs @ ys) b = eq_weight xs b * eq_weight ys (b div 2 ^ length xs)"
  by (induction xs arbitrary: b) (simp_all add: div_mult2_eq mult.assoc)

lemma eq_weight_mod: "eq_weight xs (b mod 2 ^ length xs) = eq_weight xs b"
proof (induction xs arbitrary: b)
  case (Cons x xs)
  have "b mod 2 ^ length (x # xs) div 2 = b div 2 mod 2 ^ length xs"
    by (simp add: mod_mult2_eq)
  moreover have "odd (b mod 2 ^ length (x # xs)) = odd b" by (simp add: even_mod_exp_div_exp_iff mod2_eq_if dvd_mod_iff)
  ultimately show ?case using Cons.IH [of "b div 2"] by simp
qed simp

lemma prefix_loop_Cons:
  "prefix_loop (c # cs) len =
     (let (below, equal_prefix) = prefix_loop cs (len div 2);
          (left, right) = split_lagrange_parent equal_prefix c
      in if odd len then (below + left, right) else (below, left))"
proof -
  have "rev [0..<length (c # cs)] = map Suc (rev [0..<length cs]) @ [0]"
    by (simp add: map_Suc_upt upt_conv_Cons rev_map [symmetric] del: upt_Suc)
  then show ?thesis
    by (simp add: prefix_loop_def foldl_map div_mult2_eq split_def Let_def
             cong: if_cong del: upt_Suc)
qed

lemma prefix_loop_correct:
  "len < 2 ^ length r \<Longrightarrow> prefix_loop r len = ((\<Sum>b < len. eq_weight r b), eq_weight r len)"
proof (induction r arbitrary: len)
  case (Cons c cs)
  define m where "m = len div 2"
  have IH: "prefix_loop cs m = ((\<Sum>b < m. eq_weight cs b), eq_weight cs m)"
    using Cons.prems by (intro Cons.IH) (auto simp: m_def)
  have even_part: "(\<Sum>b < 2 * m. eq_weight (c # cs) b) = (\<Sum>b < m. eq_weight cs b)"
    by (subst sum_lessThan_double) (simp add: algebra_simps)
  show ?case
  proof (cases "odd len")
    case True
    then have "len = Suc (2 * m)" by (simp add: m_def)
    with IH even_part True show ?thesis
      by (simp add: prefix_loop_Cons m_def [symmetric] split_lagrange_parent_def Let_def algebra_simps)
  next
    case False
    then have "len = 2 * m" by (simp add: m_def)
    with IH even_part False show ?thesis
      by (simp add: prefix_loop_Cons m_def [symmetric] split_lagrange_parent_def Let_def algebra_simps)
  qed
qed (simp add: prefix_loop_def)

lemma sum_eq_weight: "(\<Sum>b < 2 ^ length r. eq_weight r b) = 1"
  by (induction r) (simp_all add: sum_lessThan_double algebra_simps)

lemma prefix_sum_correct:
  assumes "2 ^ length r \<le> usize_max" and "len \<le> 2 ^ length r"
  shows "prefix_sum r len = Inr (\<Sum>b < len. eq_weight r b)"
  using assms prefix_loop_correct [of len r]
  by (auto simp: prefix_sum_def table_len_def pow2_exact sum_eq_weight)

lemma foldl_write_pairs:
  assumes "2 * n \<le> length L"
  shows "foldl (\<lambda>L i. (L[2 * i := f i])[2 * i + 1 := g i]) L (rev [0..<n])
           = concat (map (\<lambda>i. [f i, g i]) [0..<n]) @ drop (2 * n) L"
  using assms
proof (induction n arbitrary: L)
  case (Suc n)
  let ?L = "(L[2 * n := f n])[2 * n + 1 := g n]"
  have "drop (2 * n) ?L = f n # g n # drop (2 * n + 2) L"
    using Suc.prems
    by (intro nth_equalityI)
       (auto simp: nth_Cons nth_list_update numeral_2_eq_2 split: nat.splits)
  with Suc show ?case by simp
qed simp

lemma cached_layer_eq: "cached_layer prev t = expand_layer (\<lambda>v. v) t prev"
proof -
  have "cached_layer prev t
      = concat (map (\<lambda>i. [prev ! i - prev ! i * t, prev ! i * t]) [0..<length prev])"
    using foldl_write_pairs [of "length prev" "zero_vec (2 * length prev)"]
    by (simp add: cached_layer_def split_lagrange_parent_def Let_def zero_vec_def)
  also have "\<dots> = concat (map (\<lambda>v. [v - v * t, v * t]) (map ((!) prev) [0..<length prev]))"
    by (simp add: o_def)
  finally show ?thesis by (simp add: expand_layer_def map_nth)
qed

lemma nth_cached_layers:
  "j \<le> length ts \<Longrightarrow>
     cached_layers layer ts ! j = foldl (\<lambda>vs c. expand_layer (\<lambda>v. v) c vs) layer (take j ts)"
proof (induction ts arbitrary: layer j)
  case (Cons t ts)
  then show ?case by (cases j) (simp_all add: cached_layer_eq)
qed simp

lemma length_cached_layers [simp]: "length (cached_layers layer ts) = Suc (length ts)"
  by (induction ts arbitrary: layer) simp_all

lemma cached_layers_suffix:
  assumes "j \<le> length r"
  shows "cached_layers [s] (rev r) ! j = eq_table (drop (length r - j) r) s"
  using assms by (simp add: nth_cached_layers take_rev eq_table_def foldr_conv_foldl)

lemma evals_cached_Inr:
  "evals_cached_with_scaling sz r scaling = Inr layers \<Longrightarrow>
     layers = cached_layers [case scaling of None \<Rightarrow> 1 | Some s \<Rightarrow> s] (rev r)"
  by (auto simp: evals_cached_with_scaling_def bindE_Inr_iff)

lemma split_new_Inr_iff:
  "split_new par sz point = Inr s
     \<longleftrightarrow> eq_budget_ok sz (length point - length point div 2)
       \<and> s = \<lparr>e_out = eq_table (drop (length point div 2) point) 1,
              e_in = eq_table (take (length point div 2) point) 1\<rparr>"
proof -
  have "eq_budget_ok sz (length point - length point div 2) \<Longrightarrow> eq_budget_ok sz (length point div 2)"
    by (rule eq_budget_ok_mono) auto
  moreover have "length (take (length point div 2) point) = length point div 2" by simp
  ultimately show ?thesis
    by (auto simp only: split_new_def Let_def bindE_Inr_iff evals_Inr_iff length_drop sum.inject)
qed

lemma split_len_new:
  assumes "split_new par sz point = Inr s"
  shows "split_len s = 2 ^ length point"
proof -
  have "length point div 2 + (length point - length point div 2) = length point" by simp
  then show ?thesis
    using assms by (auto simp: split_new_Inr_iff split_len_def simp flip: power_add)
qed

lemma split_eval_at_correct:
  assumes new: "split_new par sz point = Inr s" and index: "index < 2 ^ length point"
  shows "split_eval_at s index = Inr (eq_weight point index)"
proof -
  define m where "m = length point div 2"
  have len: "length (take m point) = m" "length (drop m point) = length point - m"
    by (auto simp: m_def)
  have s: "s = \<lparr>e_out = eq_table (drop m point) 1, e_in = eq_table (take m point) 1\<rparr>"
    using new by (simp add: split_new_Inr_iff m_def)
  have "(2::nat) ^ length point = 2 ^ (length point - m) * 2 ^ m"
    by (simp add: m_def power_add [symmetric])
  then have "index div 2 ^ m < 2 ^ (length point - m)"
    using index by (simp add: less_mult_imp_div_less)
  moreover have "index mod 2 ^ m < 2 ^ m" by simp
  moreover have "eq_weight (take m point) (index mod 2 ^ m) = eq_weight (take m point) index"
    using eq_weight_mod [of "take m point" index] len by simp
  moreover have "eq_weight point index
      = eq_weight (take m point) index * eq_weight (drop m point) (index div 2 ^ m)"
    using eq_weight_append [of "take m point" "drop m point" index] len by simp
  ultimately show ?thesis
    using split_len_new [OF new] index len
    by (simp add: split_eval_at_def s nth_eq_table Let_def)
qed

subsection \<open>The public builders against the point-wise definition\<close>


text \<open>
  C12: The prefix operations agree: whenever the materialised prefix of length \<open>len\<close> exists,
  its entries are the equality weights in order, and the logarithmic-time \<open>prefix_sum\<close>
  returns their sum without a table.
\<close>

theorem prefix_sum_of_prefix:
  assumes "evals_prefix par sz r len = Inr t" and "2 ^ length r \<le> usize_max"
  shows "t = map (eq_weight r) [0..<len] \<and> prefix_sum r len = Inr (sum_list t)"
proof -
  obtain s where s: "split_new par sz r = Inr s" "len \<le> split_len s"
      "collect_result (map (split_eval_at s) [0..<len]) = Inr t"
    using assms(1) by (auto simp: evals_prefix_def bindE_Inr_iff split: if_splits)
  have len: "len \<le> 2 ^ length r" using s(2) split_len_new [OF s(1)] by simp
  then have "map (split_eval_at s) [0..<len] = map (\<lambda>b. Inr (eq_weight r b)) [0..<len]"
    using split_eval_at_correct [OF s(1)] by simp
  with s(3) have t: "t = map (eq_weight r) [0..<len]" by simp
  then show ?thesis
    using prefix_sum_correct [OF assms(2) len]
    by (simp add: interv_sum_list_conv_sum_set_nat atLeast0LessThan)
qed

theorem prefix_sum_of_prefix_witness:
  "evals_prefix False 16 [2, 3 :: rat] 3 = Inr [2, - 4, - 3] \<and> prefix_sum [2, 3 :: rat] 3 = Inr (- 5)"
proof -
  have budget: "eq_budget_ok 16 1" by (simp add: eq_budget_ok_def MAX_MATERIALIZED_EQ_TABLE_BYTES_def)
  have "split_new False 16 [2, 3 :: rat] = Inr \<lparr>e_out = eq_table [3] 1, e_in = eq_table [2] 1\<rparr>"
    using budget by (simp add: split_new_Inr_iff)
  then have "evals_prefix False 16 [2, 3 :: rat] 3 = Inr [2, - 4, - 3]"
    by (simp add: evals_prefix_def split_len_def split_eval_at_def eq_table_def expand_layer_def upt_rec)
  from this prefix_sum_of_prefix [OF this] show ?thesis by (simp add: usize_max_def)
qed

text \<open>
  C13: The cached tables are those of the suffixes of the point: layer \<open>j\<close> of
  \<open>evals_cached\<close> is the table \<open>evals\<close> builds for the last \<open>j\<close> coordinates (the
  comment above \<open>evals_cached\<close> says the first \<open>j\<close>).
\<close>

theorem evals_cached_layers_are_suffix_tables:
  assumes "evals_cached sz r = Inr layers"
  shows "length layers = Suc (length r)
       \<and> (\<forall>j \<le> length r. length (layers ! j) = 2 ^ j
            \<and> (eq_budget_ok sz j \<longrightarrow> evals par sz (drop (length r - j) r) = Inr (layers ! j)))"
proof -
  have "layers = cached_layers [1] (rev r)"
    using evals_cached_Inr [of sz r None] assms by (simp add: evals_cached_def)
  then show ?thesis by (auto simp: cached_layers_suffix evals_Inr_iff)
qed

theorem evals_cached_layers_are_suffix_tables_witness:
  "\<exists>layers. evals_cached 16 [2, 3 :: rat] = Inr layers \<and> evals False 16 [3 :: rat] = Inr (layers ! 1)
     \<and> evals False 16 [2 :: rat] \<noteq> Inr (layers ! 1)"
proof -
  have "evals_cached 16 [2, 3 :: rat] = Inr (cached_layers [1] [3, 2])"
    by (simp add: evals_cached_def evals_cached_with_scaling_def table_len_def pow2_exact
        checked_mul_def checked_sub_def check_element_budget_def usize_max_def
        MAX_MATERIALIZED_EQ_TABLE_BYTES_def)
  moreover from this have "evals False 16 [3 :: rat] = Inr (cached_layers [1] [3, 2 :: rat] ! 1)"
    using evals_cached_layers_are_suffix_tables [of 16 "[2, 3 :: rat]" _ False]
    by (fastforce simp: eq_budget_ok_def MAX_MATERIALIZED_EQ_TABLE_BYTES_def)
  moreover have "evals False 16 [2 :: rat] \<noteq> evals False 16 [3 :: rat]"
  proof -
    have "evals False 16 [c :: rat] = Inr (eq_table [c] 1)" for c
      by (simp add: evals_Inr_iff eq_budget_ok_def MAX_MATERIALIZED_EQ_TABLE_BYTES_def)
    then show ?thesis by (simp add: eq_table_def expand_layer_def)
  qed
  ultimately show ?thesis by auto
qed

end
