(* ===== verification/Multilinear.thy ===== *)
theory Multilinear
  imports UniPoly EqPoly
begin

text \<open>
  Crate \<^verbatim>\<open>akita-algebra\<close>, module \<^verbatim>\<open>poly\<close>: fixed-size polynomial containers, the
  range-check polynomial, multilinear evaluation by iterated folding or against an
  equality table, and the in-place fold of an evaluation prefix.  \<open>fold_one r left right\<close>
  is the \<^verbatim>\<open>jolt-field\<close> trait method of that name with its precomputed context.
\<close>

subsection \<open>Definitions\<close>

definition poly_zero :: "nat \<Rightarrow> 'f::field list" where
  "poly_zero D = replicate D 0"

definition poly_add :: "'f::field list \<Rightarrow> 'f list \<Rightarrow> 'f list" where
  "poly_add p q = map (\<lambda>(dst, src). dst + src) (zip p q)"

definition poly_sub :: "'f::field list \<Rightarrow> 'f list \<Rightarrow> 'f list" where
  "poly_sub p q = map (\<lambda>(dst, src). dst - src) (zip p q)"

definition poly_neg :: "'f::field list \<Rightarrow> 'f list" where
  "poly_neg p = map (\<lambda>c. - c) p"

definition range_check_eval :: "'e::field \<Rightarrow> nat \<Rightarrow> 'e" where
  "range_check_eval w b =
     (let half = int (b div 2)
      in foldl (\<lambda>acc k. acc * (w - of_int k)) 1 [- half..half - 1])"

function multilinear_eval_ref :: "'e::field list \<Rightarrow> 'e list \<Rightarrow> 'e" where
  "multilinear_eval_ref evs point =
     (if point = [] then evs ! 0
      else let r = last point; rest = butlast point; half = length evs div 2;
               lo = multilinear_eval_ref (take half evs) rest;
               hi = multilinear_eval_ref (drop half evs) rest
           in lo + r * (hi - lo))"
  by pat_completeness auto
termination
  by (relation "measure (\<lambda>(evs, point). length point)") auto

declare multilinear_eval_ref.simps [simp del]

definition multilinear_eval ::
  "bool \<Rightarrow> nat \<Rightarrow> 'e::field list \<Rightarrow> 'e list \<Rightarrow> 'e result" where
  "multilinear_eval parallel elem_size evs point =
     (if length point \<ge> 2 ^ 32 then Inl (InvalidSize usize_bits (length point))
      else if length point \<ge> usize_bits then Inl (InvalidSize usize_max (length evs))
      else let expected = 2 ^ length point in
        if \<not> is_power_of_two (length evs) then Inl (InvalidSize expected (length evs))
        else if length evs \<noteq> expected then Inl (InvalidSize expected (length evs))
        else if parallel \<and> length point > 14 \<and> length evs \<le> DEFAULT_MAX_SEQUENCE_LEN then
          bindE (evals_parallel elem_size point None)
            (\<lambda>table. Inr (foldl (\<lambda>acc (e, eq). acc + e * eq) 0 (zip evs table)))
        else Inr (multilinear_eval_ref evs point))"

text \<open>
  \<open>fold_evals_in_place\<close>: \<open>None\<close> is the panic on an empty prefix.  The serial loop reads
  entries \<open>2 * target\<close> and \<open>2 * target + 1\<close> of the vector it is overwriting.
\<close>

definition fold_evals_in_place ::
  "('e::field \<Rightarrow> 'e \<Rightarrow> 'e \<Rightarrow> 'e) \<Rightarrow> bool \<Rightarrow> 'e list \<Rightarrow> 'e \<Rightarrow> 'e list option" where
  "fold_evals_in_place fold_one parallel evs r =
     (if evs = [] then None
      else let next_len = (length evs + 1) div 2;
               get = (\<lambda>ev i. if i < length ev then ev ! i else 0) in
        if parallel \<and> next_len \<ge> 2 ^ 12 then
          Some (map (\<lambda>target. fold_one r (evs ! (2 * target)) (get evs (2 * target + 1))) [0..<next_len])
        else Some (take next_len
          (foldl (\<lambda>ev target.
             ev[target := fold_one r (ev ! (2 * target)) (get ev (2 * target + 1))])
             evs [0..<next_len])))"

subsection \<open>Evaluation as a sum over the hypercube\<close>

text \<open>The evaluation table padded with zeros, evaluated at a point.\<close>

definition padded :: "'e::field list \<Rightarrow> nat \<Rightarrow> 'e" where
  "padded evs b = (if b < length evs then evs ! b else 0)"

definition mle_at :: "'e::field list \<Rightarrow> 'e list \<Rightarrow> 'e" where
  "mle_at evs point = (\<Sum>b < 2 ^ length point. padded evs b * eq_weight point b)"

lemma eq_weight_snoc:
  assumes "b < 2 ^ length rest"
  shows "eq_weight (rest @ [r]) b = eq_weight rest b * (1 - r)"
    and "eq_weight (rest @ [r]) (2 ^ length rest + b) = eq_weight rest b * r"
proof -
  show "eq_weight (rest @ [r]) b = eq_weight rest b * (1 - r)"
    using assms by (simp add: eq_weight_append)
  have "eq_weight rest (2 ^ length rest + b) = eq_weight rest b"
    using eq_weight_mod [of rest "2 ^ length rest + b"] assms by simp
  with assms show "eq_weight (rest @ [r]) (2 ^ length rest + b) = eq_weight rest b * r"
    by (simp add: eq_weight_append div_add_self1)
qed

lemma multilinear_eval_ref_mle:
  "length evs = 2 ^ length point \<Longrightarrow> multilinear_eval_ref evs point = mle_at evs point"
proof (induction point arbitrary: evs rule: rev_induct)
  case Nil
  then show ?case by (simp add: multilinear_eval_ref.simps mle_at_def padded_def)
next
  case (snoc r rest)
  let ?h = "2 ^ length rest :: nat"
  let ?lo = "take ?h evs" and ?hi = "drop ?h evs"
  have len: "length ?lo = ?h" "length ?hi = ?h" using snoc.prems by auto
  have lo: "padded ?lo b = padded evs b" and hi: "padded ?hi b = padded evs (?h + b)"
    if "b < ?h" for b
    using that snoc.prems by (auto simp: padded_def)
  have "mle_at evs (rest @ [r])
      = (\<Sum>b < ?h + ?h. padded evs b * eq_weight (rest @ [r]) b)"
    by (simp add: mle_at_def mult_2)
  also have "\<dots> = (\<Sum>b < ?h. padded ?lo b * (eq_weight rest b * (1 - r)))
               + (\<Sum>b < ?h. padded ?hi b * (eq_weight rest b * r))"
    unfolding sum_lessThan_add by (simp add: lo hi eq_weight_snoc)
  also have "\<dots> = mle_at ?lo rest + r * (mle_at ?hi rest - mle_at ?lo rest)"
    by (simp add: mle_at_def sum_distrib_left algebra_simps flip: sum.distrib sum_subtractf)
  finally show ?case
    using snoc.IH [OF len(1)] snoc.IH [OF len(2)] snoc.prems
    by (subst multilinear_eval_ref.simps) (simp add: Let_def)
qed

lemma foldl_zip_sum:
  "length xs = length ys \<Longrightarrow>
     foldl (\<lambda>acc (x, y). acc + x * y) z (zip xs ys) = z + (\<Sum>i < length xs. xs ! i * ys ! i)"
  for z :: "'e::comm_ring_1"
proof (induction xs ys arbitrary: z rule: list_induct2)
  case (Cons x xs y ys)
  then show ?case
    by (simp add: sum.lessThan_Suc_shift add.assoc del: sum.lessThan_Suc)
qed simp

lemma multilinear_eval_correct:
  assumes "length evs = 2 ^ length point" and "length point < 64"
    and "parallel \<and> length point > 14 \<and> length point \<le> 25 \<Longrightarrow> eq_budget_ok sz (length point)"
  shows "multilinear_eval parallel sz evs point = Inr (mle_at evs point)"
proof -
  have "is_power_of_two (length evs)" using assms(1) by (auto simp: is_power_of_two_iff)
  moreover have "length evs \<le> DEFAULT_MAX_SEQUENCE_LEN \<longleftrightarrow> length point \<le> 25"
    unfolding DEFAULT_MAX_SEQUENCE_LEN_def assms(1) by (rule power_increasing_iff) simp
  moreover have "foldl (\<lambda>acc (e, eq). acc + e * eq) 0 (zip evs (eq_table point 1)) = mle_at evs point"
    using assms(1) by (simp add: foldl_zip_sum mle_at_def padded_def nth_eq_table)
  ultimately show ?thesis
    using assms multilinear_eval_ref_mle [OF assms(1)]
    by (auto simp: multilinear_eval_def Let_def usize_bits_def evals_parallel_serial
          evals_serial_def evals_serial_with_final_map_def fill_serial_correct zero_vec_def)
qed

subsection \<open>Folding\<close>

lemma fold_serial_prefix:
  assumes "m \<le> (length evs + 1) div 2"
  shows "foldl (\<lambda>ev t. ev[t := f (ev ! (2 * t)) (if 2 * t + 1 < length ev then ev ! (2 * t + 1) else 0)])
           evs [0..<m]
       = map (\<lambda>t. f (evs ! (2 * t)) (padded evs (2 * t + 1))) [0..<m] @ drop m evs"
  using assms
proof (induction m)
  case (Suc m)
  let ?pre = "map (\<lambda>t. f (evs ! (2 * t)) (padded evs (2 * t + 1))) [0..<m]"
  define L where "L = ?pre @ drop m evs"
  have m: "m < length evs" "2 * m < length evs" using Suc.prems by linarith+
  have nth: "L ! i = evs ! i" if "m \<le> i" "i < length evs" for i
    using that m by (simp add: L_def nth_append)
  have len: "length L = length evs" using m by (simp add: L_def)
  have read: "f (L ! (2 * m)) (if 2 * m + 1 < length L then L ! (2 * m + 1) else 0)
      = f (evs ! (2 * m)) (padded evs (2 * m + 1))"
    using m by (simp add: len nth padded_def)
  have "drop m evs = evs ! m # drop (Suc m) evs" using m by (simp add: Cons_nth_drop_Suc)
  then have upd: "L[m := v] = ?pre @ v # drop (Suc m) evs" for v
    by (simp add: L_def list_update_append)
  have IH: "foldl (\<lambda>ev t. ev[t := f (ev ! (2 * t)) (if 2 * t + 1 < length ev then ev ! (2 * t + 1) else 0)])
           evs [0..<m] = L"
    using Suc unfolding L_def by simp
  show ?case
    by (simp only: upt_Suc_append foldl_append foldl.simps IH read upd zero_le) simp
qed simp

lemma fold_evals_in_place_eq:
  assumes "evs \<noteq> []"
  shows "fold_evals_in_place fold_one parallel evs r =
     Some (map (\<lambda>t. fold_one r (evs ! (2 * t)) (padded evs (2 * t + 1))) [0..<(length evs + 1) div 2])"
  using assms fold_serial_prefix [of "(length evs + 1) div 2" evs "fold_one r"]
  by (auto simp: fold_evals_in_place_def Let_def padded_def)

lemma fold_binds_first_variable:
  assumes nonempty: "evs \<noteq> []"
    and fold_one: "\<And>l h. fold_one r l h = l + r * (h - l)"
  shows "\<exists>evs'. fold_evals_in_place fold_one parallel evs r = Some evs'
       \<and> length evs' = (length evs + 1) div 2
       \<and> mle_at evs' rest = mle_at evs (r # rest)"
proof -
  let ?evs = "map (\<lambda>t. fold_one r (evs ! (2 * t)) (padded evs (2 * t + 1))) [0..<(length evs + 1) div 2]"
  have pad: "padded ?evs t = padded evs (2 * t) * (1 - r) + padded evs (2 * t + 1) * r" for t
    by (auto simp: padded_def fold_one algebra_simps)
  have "mle_at evs (r # rest) =
      (\<Sum>t < 2 ^ length rest. padded evs (2 * t) * ((1 - r) * eq_weight rest t)
                            + padded evs (2 * t + 1) * (r * eq_weight rest t))"
    unfolding mle_at_def length_Cons power_Suc by (subst sum_lessThan_double) simp
  also have "\<dots> = mle_at ?evs rest"
    unfolding mle_at_def pad by (simp add: algebra_simps)
  finally show ?thesis using fold_evals_in_place_eq [OF nonempty] by simp
qed

subsection \<open>The range check\<close>

lemma foldl_prod_of_int:
  "foldl (\<lambda>acc k. acc * (w - of_int k)) z ks = z * prod_list (map (\<lambda>k. w - of_int k) ks)"
  for w :: "'e::comm_ring_1"
  by (induction ks arbitrary: z) (simp_all add: mult.assoc)

lemma range_check_zero_iff:
  "range_check_eval w b = 0 \<longleftrightarrow> (\<exists>k. - int (b div 2) \<le> k \<and> k < int (b div 2) \<and> w = of_int k)"
  by (auto simp: range_check_eval_def foldl_prod_of_int prod_list_zero_iff Let_def)

subsection \<open>Folding and evaluating\<close>

text \<open>
  C14: Folding the evaluation table at the first challenge and evaluating the shorter table
  at the rest is evaluating the whole table: the in-place fold never panics on a nonempty
  table, halves it, and commutes with \<open>multilinear_eval\<close>, whether either of the two runs
  serially or in parallel.
\<close>

theorem fold_then_evaluate:
  assumes "length evs = 2 ^ Suc (length rest)" and "Suc (length rest) < 64"
    and "\<And>l h. fold_one r l h = l + r * (h - l)"
    and "eq_budget_ok sz (Suc (length rest))"
  shows "\<exists>evs'. fold_evals_in_place fold_one par evs r = Some evs' \<and> length evs' = 2 ^ length rest
           \<and> multilinear_eval par' sz evs' rest = multilinear_eval par'' sz evs (r # rest)"
proof -
  have "evs \<noteq> []" using assms(1) by auto
  from fold_binds_first_variable [of evs fold_one r par rest, OF this assms(3)]
  obtain evs' where evs': "fold_evals_in_place fold_one par evs r = Some evs'"
      "length evs' = (length evs + 1) div 2" "mle_at evs' rest = mle_at evs (r # rest)"
    by blast
  from evs'(2) assms(1) have len: "length evs' = 2 ^ length rest" by simp
  have "multilinear_eval par' sz evs' rest = Inr (mle_at evs' rest)"
    using len assms(2) eq_budget_ok_mono [OF assms(4)] by (intro multilinear_eval_correct) simp_all
  moreover have "multilinear_eval par'' sz evs (r # rest) = Inr (mle_at evs (r # rest))"
    using assms by (intro multilinear_eval_correct) simp_all
  ultimately show ?thesis using evs' len by simp
qed

theorem fold_then_evaluate_witness:
  "\<exists>evs'. fold_evals_in_place (\<lambda>r l h. l + r * (h - l)) True [1, 2, 3, 5 :: rat] 7 = Some evs'
     \<and> multilinear_eval True 16 evs' [4] = multilinear_eval False 16 [1, 2, 3, 5] [7, 4]"
proof -
  have "eq_budget_ok 16 (Suc (length [4 :: rat]))"
    by (simp add: eq_budget_ok_def MAX_MATERIALIZED_EQ_TABLE_BYTES_def)
  then show ?thesis
    using fold_then_evaluate [of "[1, 2, 3, 5 :: rat]" "[4]" "\<lambda>r l h. l + r * (h - l)" 7 16 True True False]
    by auto
qed

text \<open>
  The range-check polynomial vanishes exactly on the balanced digit range: for an even
  base \<open>b\<close> its zeros are the field images of \<open>-b/2, \<dots>, b/2 - 1\<close>, and no other element.
\<close>

lemma range_check_accepts_digits:
  "range_check_eval w b = 0 \<longleftrightarrow> (\<exists>k \<in> {- int (b div 2)..<int (b div 2)}. w = of_int k)"
  by (auto simp: range_check_zero_iff)

end
