(* ===== verification/SplitEq.thy ===== *)
theory SplitEq
  imports Multilinear
begin

text \<open>
  Crate \<^verbatim>\<open>akita-algebra\<close>, module \<^verbatim>\<open>split_eq\<close>: the Gruen / Dao-Thaler split equality
  polynomial, a state machine that binds one variable per round while keeping a running
  scalar and two stacks of cached suffix tables.  \<open>None\<close> is an out-of-range index panic.
\<close>

subsection \<open>Definitions\<close>

record 'e gruen_split_eq =
  tau :: "'e list"
  current_round :: nat
  current_scalar :: 'e
  E_first :: "'e list list"
  E_second :: "'e list list"

definition with_initial_scalar :: "nat \<Rightarrow> 'e::field list \<Rightarrow> 'e \<Rightarrow> 'e gruen_split_eq result" where
  "with_initial_scalar elem_size t initial_scalar =
     (let n = length t in
      if n = 0 then Inl (InvalidSize 1 0)
      else let m = (n - 1) div 2; split = 1 + m;
               first_half = take m (drop 1 t); second_half = drop split t in
        bindE (evals_cached elem_size first_half)
          (\<lambda>first. bindE (evals_cached elem_size second_half)
             (\<lambda>second. Inr \<lparr>tau = t, current_round = 0, current_scalar = initial_scalar,
                            E_first = first, E_second = second\<rparr>)))"

definition gruen_new :: "nat \<Rightarrow> 'e::field list \<Rightarrow> 'e gruen_split_eq result" where
  "gruen_new elem_size t = with_initial_scalar elem_size t 1"

definition current_tau :: "'e gruen_split_eq \<Rightarrow> 'e option" where
  "current_tau g =
     (if current_round g < length (tau g) then Some (tau g ! current_round g) else None)"

definition remaining_eq_tables :: "'e gruen_split_eq \<Rightarrow> ('e list \<times> 'e list) option" where
  "remaining_eq_tables g =
     (if E_first g = [] \<or> E_second g = [] then None
      else Some (last (E_first g), last (E_second g)))"

definition gruen_bind :: "'e::field gruen_split_eq \<Rightarrow> 'e \<Rightarrow> 'e gruen_split_eq option" where
  "gruen_bind g r =
     Option.bind (current_tau g)
       (\<lambda>tau_k.
          let g' = g\<lparr>current_scalar := current_scalar g * (tau_k * r + (1 - tau_k) * (1 - r)),
                     current_round := current_round g + 1\<rparr>
          in Some (if length (E_first g') > 1 then g'\<lparr>E_first := butlast (E_first g')\<rparr>
                   else if length (E_second g') > 1 then g'\<lparr>E_second := butlast (E_second g')\<rparr>
                   else g'))"

definition linear_factor_evals :: "'e::field gruen_split_eq \<Rightarrow> ('e \<times> 'e) option" where
  "linear_factor_evals g =
     map_option (\<lambda>tau_k. let l_at_1 = current_scalar g * tau_k; l_at_0 = current_scalar g - l_at_1
                         in (l_at_0, l_at_1))
       (current_tau g)"

definition can_recover_linear_q_term_from_claim :: "'e::field gruen_split_eq \<Rightarrow> bool option" where
  "can_recover_linear_q_term_from_claim g =
     map_option (\<lambda>(_, l_at_1). l_at_1 \<noteq> 0) (linear_factor_evals g)"

definition mul_linear :: "'e::field \<times> 'e \<Rightarrow> 'e uni_poly \<Rightarrow> 'e uni_poly" where
  "mul_linear l q =
     (let (l_at_0, l_at_1) = l; slope = l_at_1 - l_at_0; cs = coeffs q in
      UniPoly (foldl (\<lambda>out i.
                 let out' = out[i := out ! i + cs ! i * l_at_0]
                 in out'[Suc i := out' ! Suc i + cs ! i * slope])
         (replicate (length cs + 1) 0) [0..<length cs]))"

definition gruen_mul :: "'e::field gruen_split_eq \<Rightarrow> 'e uni_poly \<Rightarrow> 'e uni_poly option" where
  "gruen_mul g q = map_option (\<lambda>l. mul_linear l q) (linear_factor_evals g)"

text \<open>The outer option is the panic, the inner one the function's own result.\<close>

definition try_gruen_poly_from_coeffs_except_linear ::
  "'e::field gruen_split_eq \<Rightarrow> 'e list \<Rightarrow> 'e \<Rightarrow> 'e uni_poly option option" where
  "try_gruen_poly_from_coeffs_except_linear g q_coeffs s_0_plus_s_1 =
     (case q_coeffs of
        [] \<Rightarrow> Some (Some (UniPoly [0]))
      | q_at_0 # rest \<Rightarrow>
          map_option
            (\<lambda>(l_at_0, l_at_1).
               if l_at_0 = 0 \<and> l_at_1 = 0 then Some (UniPoly [0])
               else if l_at_1 = 0 then None
               else let q_at_1 = (s_0_plus_s_1 - l_at_0 * q_at_0) * inverse l_at_1;
                        sum_except_linear = foldl (+) 0 q_coeffs;
                        q_linear = q_at_1 - sum_except_linear
                    in Some (mul_linear (l_at_0, l_at_1) (UniPoly (q_at_0 # q_linear # rest))))
            (linear_factor_evals g))"

definition try_gruen_poly_deg_3 ::
  "'e::field gruen_split_eq \<Rightarrow> 'e \<Rightarrow> 'e \<Rightarrow> 'e \<Rightarrow> 'e uni_poly option option" where
  "try_gruen_poly_deg_3 g q_constant q_quadratic_coeff s_0_plus_s_1 =
     Option.bind (linear_factor_evals g)
       (\<lambda>(l_at_0, l_at_1).
          if l_at_0 = 0 \<and> l_at_1 = 0 then Some (Some (UniPoly [0]))
          else if l_at_1 = 0 then Some None
          else let slope = l_at_1 - l_at_0; l_at_2 = l_at_1 + slope; l_at_3 = l_at_2 + slope;
                   q_at_0 = q_constant; s_at_0 = l_at_0 * q_at_0;
                   s_at_1 = s_0_plus_s_1 - s_at_0; q_at_1 = s_at_1 * inverse l_at_1;
                   twice = q_quadratic_coeff + q_quadratic_coeff;
                   q_at_2 = q_at_1 + q_at_1 - q_at_0 + twice;
                   q_at_3 = q_at_2 + q_at_1 - q_at_0 + twice + twice
               in map_option Some (from_evals [s_at_0, s_at_1, l_at_2 * q_at_2, l_at_3 * q_at_3]))"

text \<open>Binding a sequence of challenges, one per round.\<close>

fun gruen_bind_all :: "'e::field gruen_split_eq \<Rightarrow> 'e list \<Rightarrow> 'e gruen_split_eq option" where
  "gruen_bind_all g [] = Some g"
| "gruen_bind_all g (r # rs) = Option.bind (gruen_bind g r) (\<lambda>g'. gruen_bind_all g' rs)"

subsection \<open>The state invariant\<close>

definition eq_factor :: "'e::field \<Rightarrow> 'e \<Rightarrow> 'e" where
  "eq_factor t r = t * r + (1 - t) * (1 - r)"

fun bound_scalar :: "'e::field \<Rightarrow> 'e list \<Rightarrow> 'e list \<Rightarrow> 'e" where
  "bound_scalar c ts [] = c"
| "bound_scalar c [] rs = c"
| "bound_scalar c (t # ts) (r # rs) = bound_scalar (c * eq_factor t r) ts rs"

text \<open>
  After \<open>k\<close> bindings: the first stack holds the suffix tables of lengths
  \<open>0..m - k\<close> of the first half, the second those of lengths
  \<open>0..n - 1 - max m k\<close> of the second half.
\<close>

definition gruen_inv :: "'e::field list \<Rightarrow> nat \<Rightarrow> 'e gruen_split_eq \<Rightarrow> bool" where
  "gruen_inv t k g \<longleftrightarrow>
     (let n = length t; m = (n - 1) div 2 in
      k \<le> n \<and> 0 < n \<and> tau g = t \<and> current_round g = k
      \<and> E_first g = take (Suc (m - k)) (cached_layers [1] (rev (take m (drop 1 t))))
      \<and> E_second g = take (Suc (n - 1 - max m k)) (cached_layers [1] (rev (drop (1 + m) t))))"

lemma gruen_new_inv:
  assumes "with_initial_scalar sz t c = Inr g"
  shows "gruen_inv t 0 g" and "current_scalar g = c"
proof -
  have n: "0 < length t" using assms by (auto simp: with_initial_scalar_def)
  define m where "m = (length t - 1) div 2"
  have m: "m \<le> length t - 1" by (simp add: m_def)
  from assms n obtain layers1 layers2 where
    g: "evals_cached sz (take m (drop 1 t)) = Inr layers1"
       "evals_cached sz (drop (1 + m) t) = Inr layers2"
       "g = \<lparr>tau = t, current_round = 0, current_scalar = c, E_first = layers1, E_second = layers2\<rparr>"
    by (auto simp: with_initial_scalar_def Let_def bindE_Inr_iff m_def)
  then have "layers1 = cached_layers [1] (rev (take m (drop 1 t)))"
    "layers2 = cached_layers [1] (rev (drop (1 + m) t))"
    by (auto simp: evals_cached_def dest: evals_cached_Inr)
  with g(3) n m show "gruen_inv t 0 g" "current_scalar g = c"
    by (simp_all add: gruen_inv_def Let_def m_def)
qed

lemma take_butlast': "0 < i \<Longrightarrow> i \<le> length xs \<Longrightarrow> butlast (take i xs) = take (i - 1) xs"
  by (simp add: butlast_take)

lemma gruen_bind_inv:
  assumes inv: "gruen_inv t k g" and k: "k < length t"
  shows "\<exists>g'. gruen_bind g r = Some g' \<and> gruen_inv t (Suc k) g'
            \<and> current_scalar g' = current_scalar g * eq_factor (t ! k) r"
proof -
  define n m where "n = length t" and "m = (n - 1) div 2"
  have nm: "0 < n" "m \<le> n - 1" "k < n" using k by (auto simp: n_def m_def)
  let ?L1 = "cached_layers [1] (rev (take m (drop 1 t)))"
  let ?L2 = "cached_layers [1] (rev (drop (1 + m) t))"
  have len: "length ?L1 = Suc m" "length ?L2 = Suc (n - 1 - m)"
    using nm by (simp_all add: n_def)
  have g: "tau g = t" "current_round g = k" "E_first g = take (Suc (m - k)) ?L1"
    "E_second g = take (Suc (n - 1 - max m k)) ?L2"
    using inv by (simp_all add: gruen_inv_def Let_def n_def m_def)
  have lens: "length (E_first g) = Suc (m - k)" "length (E_second g) = Suc (n - 1 - max m k)"
    using g(3,4) len by auto
  let ?g = "g\<lparr>current_scalar := current_scalar g * eq_factor (t ! k) r, current_round := Suc k\<rparr>"
  have bind: "gruen_bind g r = Some (if k < m then ?g\<lparr>E_first := butlast (E_first g)\<rparr>
      else if max m k < n - 1 then ?g\<lparr>E_second := butlast (E_second g)\<rparr> else ?g)"
    using g(1,2) k lens by (auto simp: gruen_bind_def current_tau_def Let_def eq_factor_def)
  have first: "k < m \<Longrightarrow> butlast (E_first g) = take (Suc (m - Suc k)) ?L1"
    using len by (simp add: g(3) take_butlast' Suc_diff_Suc)
  have second: "max m k < n - 1 \<Longrightarrow> \<not> k < m
      \<Longrightarrow> butlast (E_second g) = take (Suc (n - 1 - max m (Suc k))) ?L2"
    using len by (simp add: g(4) take_butlast' max_def Suc_diff_Suc)
  have inv_iff: "gruen_inv t (Suc k) g' \<longleftrightarrow> tau g' = t \<and> current_round g' = Suc k
      \<and> E_first g' = take (Suc (m - Suc k)) ?L1 \<and> E_second g' = take (Suc (n - 1 - max m (Suc k))) ?L2"
    for g'
    using nm by (auto simp: gruen_inv_def Let_def n_def m_def)
  have "gruen_inv t (Suc k) (the (gruen_bind g r))"
  proof (cases "k < m")
    case True
    then have "max m (Suc k) = m" "max m k = m" by auto
    with True g nm first show ?thesis by (simp add: bind inv_iff)
  next
    case False
    then have "max m (Suc k) = Suc k" "max m k = k" "m - k = 0" "m - Suc k = 0" by auto
    with False g nm second show ?thesis by (auto simp: bind inv_iff)
  qed
  moreover have "current_scalar (the (gruen_bind g r)) = current_scalar g * eq_factor (t ! k) r"
    by (simp add: bind)
  ultimately show ?thesis using bind by (metis option.sel)
qed

lemma gruen_bind_all_inv:
  assumes "gruen_inv t k g" and "k + length rs \<le> length t"
  shows "\<exists>g'. gruen_bind_all g rs = Some g' \<and> gruen_inv t (k + length rs) g'
            \<and> current_scalar g' = bound_scalar (current_scalar g) (drop k t) rs"
  using assms
proof (induction rs arbitrary: k g)
  case (Cons r rs)
  then have k: "k < length t" by simp
  from gruen_bind_inv [OF Cons.prems(1) k] obtain g1 where
    g1: "gruen_bind g r = Some g1" "gruen_inv t (Suc k) g1"
        "current_scalar g1 = current_scalar g * eq_factor (t ! k) r" by blast
  from Cons.IH [OF g1(2)] Cons.prems(2) k g1 show ?case
    by (auto simp: Cons_nth_drop_Suc [symmetric])
qed simp

subsection \<open>Agreement with the folded equality table\<close>

text \<open>The reference: fold a whole evaluation table once per challenge.\<close>

fun fold_all ::
  "('e::field \<Rightarrow> 'e \<Rightarrow> 'e \<Rightarrow> 'e) \<Rightarrow> bool \<Rightarrow> 'e list \<Rightarrow> 'e list \<Rightarrow> 'e list option" where
  "fold_all fold_one parallel evs [] = Some evs"
| "fold_all fold_one parallel evs (r # rs) =
     Option.bind (fold_evals_in_place fold_one parallel evs r)
       (\<lambda>evs'. fold_all fold_one parallel evs' rs)"

lemma fold_eq_table:
  assumes fold_one: "\<And>l h. fold_one r l h = l + r * (h - l)"
  shows "fold_evals_in_place fold_one parallel (eq_table (t # ts) c) r
           = Some (eq_table ts (c * eq_factor t r))"
proof -
  let ?T = "eq_table (t # ts) c"
  have len: "length ?T = 2 * 2 ^ length ts" by simp
  have "fold_one r (?T ! (2 * i)) (padded ?T (2 * i + 1)) = eq_table ts (c * eq_factor t r) ! i"
    if "i < 2 ^ length ts" for i
    using that
    by (simp add: fold_one padded_def nth_eq_table eq_factor_def algebra_simps)
  then have "map (\<lambda>i. fold_one r (?T ! (2 * i)) (padded ?T (2 * i + 1))) [0..<2 ^ length ts]
      = eq_table ts (c * eq_factor t r)"
    by (intro nth_equalityI) simp_all
  moreover have "?T \<noteq> []" using len by (metis length_0_conv mult_eq_0_iff power_not_zero zero_neq_numeral)
  ultimately show ?thesis by (simp add: fold_evals_in_place_eq)
qed

lemma fold_all_eq_table:
  assumes "\<And>r l h. fold_one r l h = l + r * (h - l)" and "length rs \<le> length ts"
  shows "fold_all fold_one parallel (eq_table ts c) rs
           = Some (eq_table (drop (length rs) ts) (bound_scalar c ts rs))"
  using assms(2)
proof (induction rs arbitrary: ts c)
  case (Cons r rs)
  then obtain t ts' where "ts = t # ts'" by (cases ts) auto
  with Cons show ?case by (simp add: fold_eq_table [OF assms(1)])
qed simp

lemma last_take_Suc: "i < length xs \<Longrightarrow> last (take (Suc i) xs) = xs ! i"
  by (simp add: take_Suc_conv_app_nth)

lemma remaining_eq_tables_inv:
  assumes inv: "gruen_inv t k g" and k: "k < length t"
  defines "m \<equiv> (length t - 1) div 2"
  shows "remaining_eq_tables g =
     Some (eq_table (drop (min k m) (take m (drop 1 t))) 1, eq_table (drop (k - m) (drop (1 + m) t)) 1)"
proof -
  define n where "n = length t"
  let ?f = "take m (drop 1 t)" and ?s = "drop (1 + m) t"
  have nm: "0 < n" "m \<le> n - 1" using k by (auto simp: n_def m_def)
  have len: "length ?f = m" "length ?s = n - 1 - m" using nm by (auto simp: n_def)
  have g: "E_first g = take (Suc (m - k)) (cached_layers [1] (rev ?f))"
    "E_second g = take (Suc (n - 1 - max m k)) (cached_layers [1] (rev ?s))"
    using inv by (simp_all add: gruen_inv_def Let_def n_def m_def)
  have "last (E_first g) = eq_table (drop (m - (m - k)) ?f) 1"
    using len cached_layers_suffix [of "m - k" ?f 1] by (simp add: g last_take_Suc)
  moreover have "last (E_second g) = eq_table (drop ((n - 1 - m) - (n - 1 - max m k)) ?s) 1"
    using len cached_layers_suffix [of "n - 1 - max m k" ?s 1] by (simp add: g last_take_Suc)
  moreover have "m - (m - k) = min k m" by simp
  moreover have "(n - 1 - m) - (n - 1 - max m k) = k - m"
    using k nm by (auto simp: n_def max_def)
  moreover have "E_first g \<noteq> []" "E_second g \<noteq> []"
    using length_cached_layers by (auto simp: g dest!: arg_cong [where f = length])
  ultimately show ?thesis
    by (simp add: remaining_eq_tables_def)
qed

lemma remaining_product:
  assumes inv: "gruen_inv t k g" and k: "k < length t" and j: "j < 2 ^ (length t - Suc k)"
  shows "\<exists>first second. remaining_eq_tables g = Some (first, second)
      \<and> first ! (j mod length first) * second ! (j div length first) = eq_weight (drop (Suc k) t) j"
proof -
  define m where "m = (length t - 1) div 2"
  let ?a = "drop (min k m) (take m (drop 1 t))" and ?b = "drop (k - m) (drop (1 + m) t)"
  have m: "m \<le> length t - 1" by (simp add: m_def)
  have ab: "?a @ ?b = drop (Suc k) t"
  proof (cases "k \<le> m")
    case True
    have "length (take m (drop 1 t)) = m" using m by simp
    with True have "drop k (take m (drop 1 t) @ drop m (drop 1 t)) = ?a @ ?b"
      by (simp only: drop_append) (simp add: min_absorb1)
    moreover have "take m (drop 1 t) @ drop m (drop 1 t) = drop 1 t" by (rule append_take_drop_id)
    ultimately show ?thesis by (metis drop_drop plus_1_eq_Suc Suc_eq_plus1)
  next
    case False
    then show ?thesis using m by (simp add: drop_drop)
  qed
  have "length (?a @ ?b) = length t - Suc k" by (simp only: ab length_drop)
  then have "j < 2 ^ length ?a * 2 ^ length ?b" using j by (simp flip: power_add)
  then have high: "j div 2 ^ length ?a < 2 ^ length ?b"
    by (simp add: less_mult_imp_div_less mult.commute)
  have "eq_table ?a 1 ! (j mod 2 ^ length ?a) * eq_table ?b 1 ! (j div 2 ^ length ?a)
      = eq_weight (?a @ ?b) j"
    using high eq_weight_mod [of ?a j] by (simp add: nth_eq_table eq_weight_append del: length_drop)
  then show ?thesis
    using remaining_eq_tables_inv [OF inv k, folded m_def] by (simp only: ab length_eq_table) simp
qed

subsection \<open>The round polynomial\<close>

lemma evaluate_mul_linear:
  "evaluate (mul_linear (l0, l1) q) x = (l0 + x * (l1 - l0)) * evaluate q x"
proof -
  let ?cs = "coeffs q"
  let ?body = "\<lambda>out i. let out' = out[i := out ! i + ?cs ! i * l0]
                 in out'[Suc i := out' ! Suc i + ?cs ! i * (l1 - l0)]"
  let ?z = "replicate (length ?cs + 1) 0"
  have "length (foldl ?body ?z [0..<m]) = length ?z \<and>
        horner (foldl ?body ?z [0..<m]) x = (l0 + x * (l1 - l0)) * horner (take m ?cs) x"
    if "m \<le> length ?cs" for m
    using that
  proof (induction m)
    case (Suc m)
    then show ?case
      by (simp add: horner_update Let_def take_Suc_conv_app_nth horner_append algebra_simps)
  qed (simp del: replicate_Suc)
  from this [of "length ?cs"] show ?thesis by (simp add: mul_linear_def Let_def evaluate_horner)
qed

lemma linear_factor_evals_Some:
  "current_tau g = Some t \<Longrightarrow>
     linear_factor_evals g = Some (current_scalar g * (1 - t), current_scalar g * t)"
  by (simp add: linear_factor_evals_def Let_def algebra_simps)

lemma gruen_mul_correct:
  assumes "current_tau g = Some t"
  shows "\<exists>s. gruen_mul g q = Some s
           \<and> evaluate s x = current_scalar g * eq_factor t x * evaluate q x"
  using linear_factor_evals_Some [OF assms]
  by (simp add: gruen_mul_def evaluate_mul_linear eq_factor_def algebra_simps)

lemma foldl_plus_Cons: "foldl (+) (z :: 'e::comm_monoid_add) xs = z + sum_list xs"
  by (induction xs arbitrary: z) (simp_all add: add.assoc)

lemma try_gruen_recovers:
  assumes g: "current_tau g = Some t" and l1: "current_scalar g * t \<noteq> 0"
    and s: "gruen_mul g (UniPoly (q0 # q1 # rest)) = Some s"
  shows "try_gruen_poly_from_coeffs_except_linear g (q0 # rest) (evaluate s 0 + evaluate s 1)
           = Some (Some s)"
proof -
  let ?l0 = "current_scalar g * (1 - t)" and ?l1 = "current_scalar g * t"
  have l: "linear_factor_evals g = Some (?l0, ?l1)" by (rule linear_factor_evals_Some [OF g])
  have s': "s = mul_linear (?l0, ?l1) (UniPoly (q0 # q1 # rest))"
    using s by (simp add: gruen_mul_def l)
  have "evaluate s 0 + evaluate s 1 = ?l0 * q0 + ?l1 * (q0 + q1 + sum_list rest)"
    by (simp only: s' evaluate_mul_linear) (simp add: evaluate_horner horner_1 algebra_simps)
  then have "(evaluate s 0 + evaluate s 1 - ?l0 * q0) * inverse ?l1 = q0 + q1 + sum_list rest"
    using l1 by (simp add: field_simps)
  then show ?thesis
    using l1 by (simp add: try_gruen_poly_from_coeffs_except_linear_def l foldl_plus_Cons s' Let_def)
qed

subsection \<open>The split tables against the dense table\<close>

text \<open>
  C17: \<open>GruenSplitEq\<close> refines the dense equality table that is folded after every round.
  After binding any number of challenges short of the last, folding the dense table with the
  same challenges yields a table whose entries \<open>2 * j\<close> and \<open>2 * j + 1\<close> are the two values
  of the linear factor times the product of the two remaining half tables at \<open>j\<close>; no
  operation panics on the way.
\<close>

theorem gruen_refines_folded_table:
  assumes new: "with_initial_scalar sz t c = Inr g" and rs: "length rs < length t"
    and fold_one: "\<And>r l h. fold_one r l h = l + r * (h - l)"
  shows "\<exists>g' dense first second l0 l1.
      gruen_bind_all g rs = Some g'
      \<and> fold_all fold_one par (eq_table t c) rs = Some dense
      \<and> remaining_eq_tables g' = Some (first, second) \<and> linear_factor_evals g' = Some (l0, l1)
      \<and> length dense = 2 ^ (length t - length rs)
      \<and> (\<forall>j < 2 ^ (length t - Suc (length rs)).
           let w = first ! (j mod length first) * second ! (j div length first)
           in dense ! (2 * j) = l0 * w \<and> dense ! (2 * j + 1) = l1 * w)"
proof -
  let ?k = "length rs" and ?s = "bound_scalar c t rs"
  obtain g' where g': "gruen_bind_all g rs = Some g'" "gruen_inv t ?k g'" "current_scalar g' = ?s"
    using gruen_bind_all_inv [OF gruen_new_inv(1) [OF new], of rs] rs gruen_new_inv(2) [OF new] by auto
  have dense: "fold_all fold_one par (eq_table t c) rs = Some (eq_table (drop ?k t) ?s)"
    using fold_all_eq_table [of fold_one, OF fold_one] rs by simp
  have "current_tau g' = Some (t ! ?k)"
    using g'(2) rs by (simp add: gruen_inv_def current_tau_def Let_def)
  note factor = linear_factor_evals_Some [OF this, unfolded g'(3)]
  from remaining_product [OF g'(2) rs, of 0] obtain first second where
    tables: "remaining_eq_tables g' = Some (first, second)" by auto
  have split: "drop ?k t = t ! ?k # drop (Suc ?k) t" using rs by (simp add: Cons_nth_drop_Suc)
  have entries: "eq_table (drop ?k t) ?s ! (2 * j) = ?s * (1 - t ! ?k) * w
      \<and> eq_table (drop ?k t) ?s ! (2 * j + 1) = ?s * (t ! ?k) * w"
    if j: "j < 2 ^ (length t - Suc ?k)" and w: "w = first ! (j mod length first) * second ! (j div length first)"
    for j w
  proof -
    have "w = eq_weight (drop (Suc ?k) t) j"
      using remaining_product [OF g'(2) rs j] tables w by auto
    moreover have "2 * j + 1 < 2 ^ length (drop ?k t)" using j by (simp add: split)
    ultimately show ?thesis
      using nth_eq_table [of "2 * j" "drop ?k t" ?s] nth_eq_table [of "2 * j + 1" "drop ?k t" ?s]
      by (simp add: split mult.assoc)
  qed
  show ?thesis
    by (rule exI [of _ g'], rule exI [of _ "eq_table (drop ?k t) ?s"], rule exI [of _ first],
        rule exI [of _ second], rule exI [of _ "?s * (1 - t ! ?k)"], rule exI [of _ "?s * t ! ?k"])
      (simp only: g'(1) dense tables factor Let_def simp_thms length_eq_table length_drop,
        intro allI impI entries refl)
qed

theorem gruen_refines_folded_table_witness:
  "\<exists>g g' first second. with_initial_scalar 16 [2, 3, 5 :: rat] 1 = Inr g \<and> gruen_bind_all g [7] = Some g'
     \<and> remaining_eq_tables g' = Some (first, second)"
proof -
  have "\<exists>l. evals_cached 16 v = Inr l" if "length v \<le> 1" for v :: "rat list"
    using that by (auto simp: le_Suc_eq length_Suc_conv evals_cached_def evals_cached_with_scaling_def
        table_len_def pow2_exact checked_mul_def checked_sub_def check_element_budget_def usize_max_def
        MAX_MATERIALIZED_EQ_TABLE_BYTES_def)
  then obtain a b where "evals_cached 16 [3 :: rat] = Inr a" "evals_cached 16 [5 :: rat] = Inr b"
    by (metis One_nat_def le_refl length_Cons list.size(3))
  then obtain g where g: "with_initial_scalar 16 [2, 3, 5 :: rat] 1 = Inr g"
    by (simp add: with_initial_scalar_def)
  show ?thesis
    using gruen_refines_folded_table [OF g, of "[7]" "\<lambda>r l h. l + r * (h - l)" False] g
    by (auto simp del: gruen_bind_all.simps)
qed

text \<open>
  The Gruen round polynomial is recovered from its coefficients without the linear one.
  If the round's linear factor does not vanish at one, then from \<open>q(0)\<close>, the coefficients of
  \<open>q\<close> of degree two and up, and the claim \<open>s(0) + s(1)\<close>, the prover recovers exactly
  the product \<open>s\<close> of the linear factor with \<open>q\<close>, which at every \<open>x\<close> is the scalar times
  \<open>eq(tau_k, x) * q(x)\<close>.
\<close>

lemma gruen_round_recovery:
  assumes "current_tau g = Some tau_k" and "can_recover_linear_q_term_from_claim g = Some True"
  shows "\<exists>s. try_gruen_poly_from_coeffs_except_linear g (q0 # rest)
               (current_scalar g * eq_factor tau_k 0 * evaluate (UniPoly (q0 # q1 # rest)) 0
                + current_scalar g * eq_factor tau_k 1 * evaluate (UniPoly (q0 # q1 # rest)) 1)
             = Some (Some s)
           \<and> (\<forall>x. evaluate s x = current_scalar g * eq_factor tau_k x * evaluate (UniPoly (q0 # q1 # rest)) x)"
proof -
  from gruen_mul_correct [OF assms(1)] obtain s where
    s: "gruen_mul g (UniPoly (q0 # q1 # rest)) = Some s" by blast
  then have eval: "evaluate s x = current_scalar g * eq_factor tau_k x * evaluate (UniPoly (q0 # q1 # rest)) x" for x
    using gruen_mul_correct [OF assms(1), of "UniPoly (q0 # q1 # rest)" x] by simp
  have "current_scalar g * tau_k \<noteq> 0"
    using assms(2) by (simp add: can_recover_linear_q_term_from_claim_def linear_factor_evals_Some [OF assms(1)])
  note recovered = try_gruen_recovers [OF assms(1) this s, unfolded eval [of 0] eval [of 1]]
  show ?thesis by (rule exI [of _ s]) (simp only: recovered eval simp_thms)
qed

lemma gruen_round_recovery_example:
  "\<exists>g s. gruen_new 16 [3 :: rat] = Inr g
     \<and> try_gruen_poly_from_coeffs_except_linear g [5, 11] 59 = Some (Some s) \<and> evaluate s 2 = 504"
proof -
  obtain g where g: "gruen_new 16 [3 :: rat] = Inr g" "tau g = [3]" "current_round g = 0" "current_scalar g = 1"
    by (simp add: gruen_new_def with_initial_scalar_def evals_cached_def evals_cached_with_scaling_def
        table_len_def pow2_exact checked_mul_def checked_sub_def check_element_budget_def usize_max_def
        MAX_MATERIALIZED_EQ_TABLE_BYTES_def)
  then have cur: "current_tau g = Some 3" by (simp add: current_tau_def)
  then have "can_recover_linear_q_term_from_claim g = Some True"
    by (simp add: can_recover_linear_q_term_from_claim_def linear_factor_evals_Some g)
  from gruen_round_recovery [OF cur this, of 5 "[11]" 7] g(1) show ?thesis
    by (auto simp: g(4) eq_factor_def evaluate_horner)
qed

end
