(* ===== verification/Sumcheck.thy ===== *)
theory Sumcheck
  imports Serialization SplitEq
begin

text \<open>
  Crate \<^verbatim>\<open>akita-sumcheck\<close>: the prover and verifier traits (\<^verbatim>\<open>traits.rs\<close>), the transcript
  drivers for standard and equality-factored sumchecks (\<^verbatim>\<open>drivers/\<close>, \<^verbatim>\<open>types.rs\<close>) and the
  front-loaded batched protocol (\<^verbatim>\<open>batched_sumcheck.rs\<close>).  A trait implementation is a record
  of functions over its state; a transcript is given by its labelled absorption and its
  challenge sampler.  \<open>debug_assert!\<close> lines, tracing and the choice between the serial and
  the rayon map (same values, no shared state) are not part of the model.
\<close>

subsection \<open>Interfaces\<close>

definition ABSORB_SUMCHECK_CLAIM :: string where
  "ABSORB_SUMCHECK_CLAIM = ''ak/a/sc''"

definition ABSORB_SUMCHECK_ROUND :: string where
  "ABSORB_SUMCHECK_ROUND = ''ak/a/scr''"

record ('t, 'e) fiat_shamir =
  append_bytes :: "string \<Rightarrow> byte list \<Rightarrow> 't \<Rightarrow> 't"
  sample_challenge :: "'t \<Rightarrow> akita_error + ('e \<times> 't)"
  scalar_codec :: "('e, unit) codec"

definition append_serde :: "('t, 'e) fiat_shamir \<Rightarrow> string \<Rightarrow> ('a, 'c) codec \<Rightarrow> 'a \<Rightarrow> 't \<Rightarrow> 't" where
  "append_serde T label C x t = append_bytes T label (serialize_compressed C x) t"

definition append_claim :: "('t, 'e) fiat_shamir \<Rightarrow> 'e \<Rightarrow> 't \<Rightarrow> 't" where
  "append_claim T claim t = append_serde T ABSORB_SUMCHECK_CLAIM (scalar_codec T) claim t"

definition append_round :: "('t, 'e) fiat_shamir \<Rightarrow> 'e compressed_uni_poly \<Rightarrow> 't \<Rightarrow> 't" where
  "append_round T poly t =
     append_serde T ABSORB_SUMCHECK_ROUND
       (compressed_uni_poly_codec (\<lambda>_. True) (scalar_codec T)) poly t"

definition append_eq_round :: "('t, 'e) fiat_shamir \<Rightarrow> 'e eq_factored_uni_poly \<Rightarrow> 't \<Rightarrow> 't" where
  "append_eq_round T poly t =
     append_serde T ABSORB_SUMCHECK_ROUND
       (eq_factored_uni_poly_codec (\<lambda>_. True) (scalar_codec T)) poly t"

text \<open>\<open>SumcheckInstanceProver\<close> and \<open>SumcheckInstanceVerifier\<close>.\<close>

record ('s, 'e) sumcheck_prover =
  num_rounds :: "'s \<Rightarrow> nat"
  degree_bound :: "'s \<Rightarrow> nat"
  input_claim :: "'s \<Rightarrow> 'e"
  compute_round_univariate :: "'s \<Rightarrow> nat \<Rightarrow> 'e \<Rightarrow> 'e uni_poly \<times> 's"
  ingest_challenge :: "'s \<Rightarrow> nat \<Rightarrow> 'e \<Rightarrow> 's"
  finalize :: "'s \<Rightarrow> 's"

record 'e sumcheck_verifier =
  v_num_rounds :: nat
  v_degree_bound :: nat
  v_input_claim :: 'e
  expected_output_claim :: "'e list \<Rightarrow> 'e result"

definition degree_error :: "string \<Rightarrow> nat \<Rightarrow> nat \<Rightarrow> akita_error" where
  "degree_error prefix degree bound =
     InvalidInput (prefix @ show_nat degree @ '' exceeds bound '' @ show_nat bound)"

subsection \<open>The standard driver\<close>

text \<open>The round loop of \<open>SumcheckInstanceProverExt::prove\<close> over the rounds still to run.\<close>

fun prove_rounds ::
  "('s, 'e::field) sumcheck_prover \<Rightarrow> ('t, 'e) fiat_shamir \<Rightarrow> nat \<Rightarrow> nat list \<Rightarrow> 'e \<Rightarrow> 's \<Rightarrow> 't
    \<Rightarrow> ('e compressed_uni_poly list \<times> 'e list \<times> 'e \<times> 's \<times> 't) result" where
  "prove_rounds P T bound [] claim s t = Inr ([], [], claim, s, t)"
| "prove_rounds P T bound (rnd # rounds) claim s t =
     (let (g, s1) = compute_round_univariate P s rnd claim; compressed = compress g in
      if bound < compressed_degree compressed
      then Inl (degree_error ''sumcheck round poly degree '' (compressed_degree compressed) bound)
      else bindE (sample_challenge T (append_round T compressed t))
        (\<lambda>(r, t1).
           bindE (prove_rounds P T bound rounds (eval_from_hint compressed claim r)
                    (ingest_challenge P s1 rnd r) t1)
             (\<lambda>(polys, rs, claim', s', t'). Inr (compressed # polys, r # rs, claim', s', t'))))"

definition prove ::
  "('s, 'e::field) sumcheck_prover \<Rightarrow> ('t, 'e) fiat_shamir \<Rightarrow> 's \<Rightarrow> 't
    \<Rightarrow> ('e sumcheck_proof \<times> 'e list \<times> 'e \<times> 's \<times> 't) result" where
  "prove P T s t =
     bindE (prove_rounds P T (degree_bound P s) [0..<num_rounds P s] (input_claim P s) s
              (append_claim T (input_claim P s) t))
       (\<lambda>(polys, rs, claim, s', t'). Inr (SumcheckProof polys, rs, claim, finalize P s', t'))"

text \<open>The round loop shared by \<open>SumcheckProof::verify\<close> and \<open>SumcheckInstanceVerifierExt::verify\<close>.\<close>

fun verify_rounds ::
  "('t, 'e::field) fiat_shamir \<Rightarrow> nat \<Rightarrow> 'e compressed_uni_poly list \<Rightarrow> 'e \<Rightarrow> 't
    \<Rightarrow> ('e \<times> 'e list \<times> 't) result" where
  "verify_rounds T bound [] claim t = Inr (claim, [], t)"
| "verify_rounds T bound (poly # polys) claim t =
     (if bound < compressed_degree poly
      then Inl (degree_error ''sumcheck round poly degree '' (compressed_degree poly) bound)
      else bindE (sample_challenge T (append_round T poly t))
        (\<lambda>(r, t1).
           bindE (verify_rounds T bound polys (eval_from_hint poly claim r) t1)
             (\<lambda>(claim', rs, t'). Inr (claim', r # rs, t'))))"

definition sumcheck_proof_verify ::
  "('t, 'e::field) fiat_shamir \<Rightarrow> 'e sumcheck_proof \<Rightarrow> 'e \<Rightarrow> nat \<Rightarrow> nat \<Rightarrow> 't
    \<Rightarrow> ('e \<times> 'e list \<times> 't) result" where
  "sumcheck_proof_verify T proof claim n bound t =
     (if length (round_polys proof) \<noteq> n then Inl (InvalidSize n (length (round_polys proof)))
      else verify_rounds T bound (round_polys proof) claim t)"

definition check_sumcheck_output_claim :: "'e \<Rightarrow> 'e sumcheck_verifier \<Rightarrow> 'e list \<Rightarrow> unit result" where
  "check_sumcheck_output_claim final_claim V challenges =
     bindE (expected_output_claim V challenges)
       (\<lambda>expected. if final_claim \<noteq> expected then Inl InvalidProof else Inr ())"

definition verify ::
  "('t, 'e::field) fiat_shamir \<Rightarrow> 'e sumcheck_verifier \<Rightarrow> 'e sumcheck_proof \<Rightarrow> 't
    \<Rightarrow> ('e list \<times> 't) result" where
  "verify T V proof t =
     (if length (round_polys proof) \<noteq> v_num_rounds V
      then Inl (InvalidSize (v_num_rounds V) (length (round_polys proof)))
      else bindE (verify_rounds T (v_degree_bound V) (round_polys proof) (v_input_claim V)
                    (append_claim T (v_input_claim V) t))
             (\<lambda>(claim, challenges, t').
                bindE (check_sumcheck_output_claim claim V challenges) (\<lambda>_. Inr (challenges, t'))))"

subsection \<open>The equality-factored driver\<close>

definition from_q_coeffs :: "'e list \<Rightarrow> 'e eq_factored_uni_poly" where
  "from_q_coeffs q_coeffs = EqFactoredUniPoly (drop 1 q_coeffs)"

definition eq_factored_degree :: "'e eq_factored_uni_poly \<Rightarrow> nat" where
  "eq_factored_degree p = length (coeffs_except_constant_term p)"

definition nonconstant_term_sum_at_one :: "'e::field eq_factored_uni_poly \<Rightarrow> 'e" where
  "nonconstant_term_sum_at_one p = foldl (+) 0 (coeffs_except_constant_term p)"

definition eval_nonconstant_terms :: "'e::field eq_factored_uni_poly \<Rightarrow> 'e \<Rightarrow> 'e" where
  "eval_nonconstant_terms p x =
     fst (foldl (\<lambda>(acc, pow) c. (acc + c * pow, pow * x)) (0, x) (coeffs_except_constant_term p))"

definition advance_eq_factored_claim ::
  "'e::field \<Rightarrow> 'e \<Rightarrow> 'e eq_factored_uni_poly \<Rightarrow> 'e \<Rightarrow> 'e" where
  "advance_eq_factored_claim claim tau_j poly r_round =
     (let q_0 = claim - tau_j * nonconstant_term_sum_at_one poly
      in q_0 + eval_nonconstant_terms poly r_round)"

record ('s, 'e) eq_factored_prover =
  eq_num_rounds :: "'s \<Rightarrow> nat"
  eq_degree_bound :: "'s \<Rightarrow> nat"
  eq_input_claim :: "'s \<Rightarrow> 'e"
  eq_current_tau :: "'s \<Rightarrow> 'e"
  compute_round_eq_factored :: "'s \<Rightarrow> nat \<Rightarrow> 'e eq_factored_uni_poly \<times> 's"
  eq_ingest_challenge :: "'s \<Rightarrow> nat \<Rightarrow> 'e \<Rightarrow> 's"
  eq_finalize :: "'s \<Rightarrow> 's"

text \<open>\<open>RoundState\<close> with its \<open>current_tau\<close> and \<open>ingest_challenge\<close>, and the verifier trait.\<close>

record ('q, 'e) eq_factored_verifier =
  ev_num_rounds :: nat
  ev_degree_bound :: nat
  ev_input_claim :: 'e
  start_round_state :: "'q result"
  rs_current_tau :: "'q \<Rightarrow> 'e"
  rs_ingest_challenge :: "'q \<Rightarrow> nat \<Rightarrow> 'e \<Rightarrow> 'q"
  ev_expected_output_claim :: "'q \<Rightarrow> 'e list \<Rightarrow> 'e result"

fun eq_prove_rounds ::
  "('s, 'e::field) eq_factored_prover \<Rightarrow> ('t, 'e) fiat_shamir \<Rightarrow> nat \<Rightarrow> nat list \<Rightarrow> 'e \<Rightarrow> 's \<Rightarrow> 't
    \<Rightarrow> ('e eq_factored_uni_poly list \<times> 'e list \<times> 'e \<times> 's \<times> 't) result" where
  "eq_prove_rounds P T bound [] claim s t = Inr ([], [], claim, s, t)"
| "eq_prove_rounds P T bound (rnd # rounds) claim s t =
     (let (poly, s1) = compute_round_eq_factored P s rnd in
      if bound < eq_factored_degree poly
      then Inl (degree_error ''eq-factored sumcheck round poly degree '' (eq_factored_degree poly) bound)
      else bindE (sample_challenge T (append_eq_round T poly t))
        (\<lambda>(r, t1).
           bindE (eq_prove_rounds P T bound rounds
                    (advance_eq_factored_claim claim (eq_current_tau P s1) poly r)
                    (eq_ingest_challenge P s1 rnd r) t1)
             (\<lambda>(polys, rs, claim', s', t'). Inr (poly # polys, r # rs, claim', s', t'))))"

definition eq_prove ::
  "('s, 'e::field) eq_factored_prover \<Rightarrow> ('t, 'e) fiat_shamir \<Rightarrow> 's \<Rightarrow> 't
    \<Rightarrow> ('e eq_factored_sumcheck_proof \<times> 'e list \<times> 'e \<times> 's \<times> 't) result" where
  "eq_prove P T s t =
     bindE (eq_prove_rounds P T (eq_degree_bound P s) [0..<eq_num_rounds P s] (eq_input_claim P s) s
              (append_claim T (eq_input_claim P s) t))
       (\<lambda>(polys, rs, claim, s', t'). Inr (EqFactoredSumcheckProof polys, rs, claim, eq_finalize P s', t'))"

fun eq_verify_rounds ::
  "('q, 'e::field) eq_factored_verifier \<Rightarrow> ('t, 'e) fiat_shamir \<Rightarrow> nat \<Rightarrow> 'e eq_factored_uni_poly list
    \<Rightarrow> 'e \<Rightarrow> 'q \<Rightarrow> 't \<Rightarrow> ('e \<times> 'e list \<times> 'q \<times> 't) result" where
  "eq_verify_rounds V T rnd [] claim q t = Inr (claim, [], q, t)"
| "eq_verify_rounds V T rnd (poly # polys) claim q t =
     (if ev_degree_bound V < eq_factored_degree poly
      then Inl (degree_error ''eq-factored sumcheck round poly degree '' (eq_factored_degree poly)
                  (ev_degree_bound V))
      else bindE (sample_challenge T (append_eq_round T poly t))
        (\<lambda>(r, t1).
           bindE (eq_verify_rounds V T (Suc rnd) polys
                    (advance_eq_factored_claim claim (rs_current_tau V q) poly r)
                    (rs_ingest_challenge V q rnd r) t1)
             (\<lambda>(claim', rs, q', t'). Inr (claim', r # rs, q', t'))))"

definition eq_verify ::
  "('t, 'e::field) fiat_shamir \<Rightarrow> ('q, 'e) eq_factored_verifier \<Rightarrow> 'e eq_factored_sumcheck_proof \<Rightarrow> 't
    \<Rightarrow> ('e list \<times> 't) result" where
  "eq_verify T V proof t =
     (if length (eq_round_polys proof) \<noteq> ev_num_rounds V
      then Inl (InvalidSize (ev_num_rounds V) (length (eq_round_polys proof)))
      else bindE (start_round_state V)
        (\<lambda>q. bindE (eq_verify_rounds V T 0 (eq_round_polys proof) (ev_input_claim V) q
                      (append_claim T (ev_input_claim V) t))
           (\<lambda>(claim, challenges, q', t').
              bindE (ev_expected_output_claim V q' challenges)
                (\<lambda>expected. if claim \<noteq> expected then Inl InvalidProof else Inr (challenges, t')))))"

subsection \<open>The batched driver\<close>

definition mul_pow_2 :: "'e::field \<Rightarrow> nat \<Rightarrow> 'e" where
  "mul_pow_2 x k = ((\<lambda>y. y + y) ^^ k) x"

definition linear_combination :: "'e::field uni_poly list \<Rightarrow> 'e list \<Rightarrow> 'e uni_poly" where
  "linear_combination polys cs =
     (let max_len = foldr (\<lambda>p m. max (length (coeffs p)) m) polys 0 in
      UniPoly (foldl (\<lambda>result (p, c).
                 foldl (\<lambda>result i. result[i := result ! i + coeffs p ! i * c]) result
                   [0..<length (coeffs p)])
               (replicate max_len 0) (zip polys cs)))"

record 'e batched_round_result =
  output_claim :: 'e
  r_sumcheck :: "'e list"
  batching_coeffs :: "'e list"
  max_num_rounds :: nat

text \<open>
  The batched provers share one state type, as the trait objects of the source do.  The
  sampler is infallible here; \<open>half\<close> is the field's halving.
\<close>

fun sample_many :: "('t \<Rightarrow> 'e \<times> 't) \<Rightarrow> nat \<Rightarrow> 't \<Rightarrow> 'e list \<times> 't" where
  "sample_many sample 0 t = ([], t)"
| "sample_many sample (Suc n) t =
     (let (c, t1) = sample t; (cs, t2) = sample_many sample n t1 in (c # cs, t2))"

definition is_active :: "nat \<Rightarrow> nat \<Rightarrow> nat \<Rightarrow> bool" where
  "is_active max_rounds n rnd \<longleftrightarrow> max_rounds - n \<le> rnd \<and> rnd < max_rounds - n + n"

definition batched_univariate ::
  "('s, 'e::field) sumcheck_prover \<Rightarrow> ('e \<Rightarrow> 'e) \<Rightarrow> nat \<Rightarrow> nat \<Rightarrow> 's \<Rightarrow> 'e \<Rightarrow> 'e uni_poly \<times> 's" where
  "batched_univariate P half max_rounds rnd s previous_claim =
     (let n = num_rounds P s; offset = max_rounds - n in
      if is_active max_rounds n rnd
      then compute_round_univariate P s (rnd - offset) previous_claim
      else (UniPoly [half previous_claim], s))"

definition batched_ingest ::
  "('s, 'e::field) sumcheck_prover \<Rightarrow> nat \<Rightarrow> nat \<Rightarrow> 'e \<Rightarrow> 's \<Rightarrow> 's" where
  "batched_ingest P max_rounds rnd r s =
     (let n = num_rounds P s; offset = max_rounds - n in
      if is_active max_rounds n rnd then ingest_challenge P s (rnd - offset) r else s)"

fun batched_rounds ::
  "('s, 'e::field) sumcheck_prover \<Rightarrow> ('t, 'e) fiat_shamir \<Rightarrow> ('t \<Rightarrow> 'e \<times> 't) \<Rightarrow> ('e \<Rightarrow> 'e) \<Rightarrow> nat
    \<Rightarrow> 'e list \<Rightarrow> nat list \<Rightarrow> 'e list \<Rightarrow> 's list \<Rightarrow> 't
    \<Rightarrow> 'e compressed_uni_poly list \<times> 'e list \<times> 's list \<times> 't" where
  "batched_rounds P T sample half max_rounds cs [] claims ss t = ([], [], ss, t)"
| "batched_rounds P T sample half max_rounds cs (rnd # rounds) claims ss t =
     (let stepped = map (\<lambda>(s, c). batched_univariate P half max_rounds rnd s c) (zip ss claims);
          polys = map fst stepped;
          compressed = compress (linear_combination polys cs);
          (r, t1) = sample (append_round T compressed t);
          claims' = map (\<lambda>p. evaluate p r) polys;
          ss' = map (batched_ingest P max_rounds rnd r) (map snd stepped);
          (rest, rs, ss'', t') = batched_rounds P T sample half max_rounds cs rounds claims' ss' t1
      in (compressed # rest, r # rs, ss'', t'))"

definition prove_batched_sumcheck ::
  "('s, 'e::field) sumcheck_prover \<Rightarrow> ('t, 'e) fiat_shamir \<Rightarrow> ('t \<Rightarrow> 'e \<times> 't) \<Rightarrow> ('e \<Rightarrow> 'e)
    \<Rightarrow> 's list \<Rightarrow> 't \<Rightarrow> ('e sumcheck_proof \<times> 'e list \<times> 's list \<times> 't) result" where
  "prove_batched_sumcheck P T sample half ss t =
     (if ss = [] then Inl (InvalidInput ''no sumcheck instances provided'')
      else let max_rounds = Max (set (map (num_rounds P) ss));
               t1 = foldl (\<lambda>t s. append_claim T (input_claim P s) t) t ss;
               (cs, t2) = sample_many sample (length ss) t1;
               claims = map (\<lambda>s. mul_pow_2 (input_claim P s) (max_rounds - num_rounds P s)) ss;
               (polys, rs, ss', t') =
                 batched_rounds P T sample half max_rounds cs [0..<max_rounds] claims ss t2
           in Inr (SumcheckProof polys, rs, map (finalize P) ss', t'))"

definition verify_batched_sumcheck_rounds ::
  "('t, 'e::field) fiat_shamir \<Rightarrow> ('t \<Rightarrow> 'e \<times> 't) \<Rightarrow> 'e sumcheck_proof \<Rightarrow> 'e sumcheck_verifier list \<Rightarrow> 't
    \<Rightarrow> ('e batched_round_result \<times> 't) result" where
  "verify_batched_sumcheck_rounds T sample proof vs t =
     (if vs = [] then Inl (InvalidInput ''no sumcheck instances provided'')
      else let max_degree = Max (set (map v_degree_bound vs));
               max_rounds = Max (set (map v_num_rounds vs));
               t1 = foldl (\<lambda>t v. append_claim T (v_input_claim v) t) t vs;
               (cs, t2) = sample_many sample (length vs) t1;
               batched_claim = foldl (+) 0 (map (\<lambda>(v, c).
                  mul_pow_2 (v_input_claim v) (max_rounds - v_num_rounds v) * c) (zip vs cs))
           in bindE (sumcheck_proof_verify (T\<lparr>sample_challenge := \<lambda>t. Inr (sample t)\<rparr>)
                       proof batched_claim max_rounds max_degree t2)
                (\<lambda>(out, rs, t'). Inr (\<lparr>output_claim = out, r_sumcheck = rs,
                                       batching_coeffs = cs, max_num_rounds = max_rounds\<rparr>, t')))"

definition compute_batched_expected_output_claim ::
  "'e::field sumcheck_verifier list \<Rightarrow> 'e list \<Rightarrow> nat \<Rightarrow> 'e list \<Rightarrow> 'e result" where
  "compute_batched_expected_output_claim vs cs max_rounds rs =
     (if length cs \<noteq> length vs then Inl (InvalidSize (length vs) (length cs))
      else if length rs \<noteq> max_rounds then Inl (InvalidSize max_rounds (length rs))
      else try_fold (\<lambda>a m. bindE m (\<lambda>val. Inr (a + val))) 0
             (map (\<lambda>(v, c).
                if max_rounds < v_num_rounds v then Inl (InvalidSize max_rounds (v_num_rounds v))
                else let offset = max_rounds - v_num_rounds v in
                     bindE (expected_output_claim v (take (v_num_rounds v) (drop offset rs)))
                       (\<lambda>val. Inr (val * c))) (zip vs cs)))"

definition check_batched_output_claim :: "'e \<Rightarrow> 'e \<Rightarrow> unit result" where
  "check_batched_output_claim out expected =
     (if out \<noteq> expected then Inl InvalidProof else Inr ())"

definition verify_batched_sumcheck ::
  "('t, 'e::field) fiat_shamir \<Rightarrow> ('t \<Rightarrow> 'e \<times> 't) \<Rightarrow> 'e sumcheck_proof \<Rightarrow> 'e sumcheck_verifier list \<Rightarrow> 't
    \<Rightarrow> ('e list \<times> 't) result" where
  "verify_batched_sumcheck T sample proof vs t =
     bindE (verify_batched_sumcheck_rounds T sample proof vs t)
       (\<lambda>(res, t'). bindE (compute_batched_expected_output_claim vs (batching_coeffs res)
                             (max_num_rounds res) (r_sumcheck res))
          (\<lambda>expected. bindE (check_batched_output_claim (output_claim res) expected)
             (\<lambda>_. Inr (r_sumcheck res, t'))))"

end
