(* ===== verification/SumcheckCorrect.thy ===== *)
theory SumcheckCorrect
  imports Sumcheck Complex_Main
begin

text \<open>
  Correctness of the standard driver: the contract of a prover instance as the locale
  \<open>sumcheck_instance\<close> with completeness proved inside it, and soundness of the verifier
  against an arbitrary proof: accepting a false claim forces a challenge into a set of at
  most \<open>degree\<close> many values that was fixed before the challenge was drawn.
\<close>

subsection \<open>Completeness\<close>

definition total_sampler :: "('t, 'e) fiat_shamir \<Rightarrow> bool" where
  "total_sampler T \<longleftrightarrow> (\<forall>t. is_ok (sample_challenge T t))"

lemma total_samplerE:
  assumes "total_sampler T"
  obtains r t' where "sample_challenge T t = Inr (r, t')"
  using assms unfolding total_sampler_def is_ok_iff by (metis surj_pair)

text \<open>
  \<open>holds s rs c\<close>: in state \<open>s\<close>, with the challenges \<open>rs\<close> bound, the remaining sum is \<open>c\<close>.
  The laws are the documented contract of \<open>compute_round_univariate\<close> and \<open>ingest_challenge\<close>.
\<close>

locale sumcheck_instance =
  fixes P :: "('s, 'e::field) sumcheck_prover" and holds :: "'s \<Rightarrow> 'e list \<Rightarrow> 'e \<Rightarrow> bool"
  assumes round_sum:
      "holds s rs c \<Longrightarrow> length rs < num_rounds P s \<Longrightarrow>
       compute_round_univariate P s (length rs) c = (g, s1) \<Longrightarrow> evaluate g 0 + evaluate g 1 = c"
    and round_degree:
      "holds s rs c \<Longrightarrow> length rs < num_rounds P s \<Longrightarrow>
       compute_round_univariate P s (length rs) c = (g, s1) \<Longrightarrow> uni_degree g \<le> degree_bound P s"
    and round_bind:
      "holds s rs c \<Longrightarrow> length rs < num_rounds P s \<Longrightarrow>
       compute_round_univariate P s (length rs) c = (g, s1) \<Longrightarrow>
         holds (ingest_challenge P s1 (length rs) r) (rs @ [r]) (evaluate g r)"
    and rounds_fixed:
      "holds s rs c \<Longrightarrow> length rs < num_rounds P s \<Longrightarrow>
       compute_round_univariate P s (length rs) c = (g, s1) \<Longrightarrow>
         num_rounds P s1 = num_rounds P s
         \<and> num_rounds P (ingest_challenge P s1 (length rs) r) = num_rounds P s
         \<and> degree_bound P (ingest_challenge P s1 (length rs) r) = degree_bound P s"
begin

lemma prove_rounds_complete:
  assumes "holds s rs0 c" and "num_rounds P s = length rs0 + m" and "degree_bound P s \<le> bound"
    and T: "total_sampler T"
  shows "\<exists>polys rs c' s' t'.
       prove_rounds P T bound [length rs0..<length rs0 + m] c s t = Inr (polys, rs, c', s', t')
     \<and> verify_rounds T bound polys c t = Inr (c', rs, t')
     \<and> length polys = m \<and> length rs = m \<and> holds s' (rs0 @ rs) c'"
  using assms(1-3)
proof (induction m arbitrary: rs0 c s t)
  case 0
  then show ?case by (simp add: exI [of _ s])
next
  case (Suc m)
  let ?k = "length rs0"
  obtain g s1 where g: "compute_round_univariate P s ?k c = (g, s1)" by force
  have k: "?k < num_rounds P s" using Suc.prems(2) by simp
  note law = round_sum [OF Suc.prems(1) k g] round_degree [OF Suc.prems(1) k g]
    round_bind [OF Suc.prems(1) k g] rounds_fixed [OF Suc.prems(1) k g]
  have deg: "\<not> bound < compressed_degree (compress g)"
    using compressed_degree_compress [of g] law(2) Suc.prems(3) by simp
  obtain r t1 where r: "sample_challenge T (append_round T (compress g) t) = Inr (r, t1)"
    by (rule total_samplerE [OF T])
  let ?s = "ingest_challenge P s1 ?k r"
  obtain polys rs c' s' t' where IH:
    "prove_rounds P T bound [Suc ?k..<Suc ?k + m] (evaluate g r) ?s t1 = Inr (polys, rs, c', s', t')"
    "verify_rounds T bound polys (evaluate g r) t1 = Inr (c', rs, t')"
    "length polys = m" "length rs = m" "holds s' (rs0 @ r # rs) c'"
    using Suc.IH [of ?s "rs0 @ [r]" "evaluate g r" t1] law Suc.prems by auto
  have upt: "[?k..<?k + Suc m] = ?k # [Suc ?k..<Suc ?k + m]" by (simp add: upt_rec)
  have hint: "eval_from_hint (compress g) c r = evaluate g r"
    by (rule eval_from_hint_compress [OF law(1)])
  have "prove_rounds P T bound [?k..<?k + Suc m] c s t = Inr (compress g # polys, r # rs, c', s', t')"
    unfolding upt using IH(1) deg r g by (simp add: hint del: upt_Suc)
  moreover have "verify_rounds T bound (compress g # polys) c t = Inr (c', r # rs, t')"
    using IH(2) deg r by (simp add: hint)
  moreover have "length (compress g # polys) = Suc m" "length (r # rs) = Suc m"
    using IH(3,4) by simp_all
  ultimately show ?case using IH(5) by blast
qed

lemma prove_complete:
  assumes "holds s [] (input_claim P s)" and "total_sampler T"
  shows "\<exists>proof rs c s' t'. prove P T s t = Inr (proof, rs, c, finalize P s', t')
     \<and> length (round_polys proof) = num_rounds P s \<and> length rs = num_rounds P s
     \<and> holds s' rs c
     \<and> verify_rounds T (degree_bound P s) (round_polys proof) (input_claim P s)
         (append_claim T (input_claim P s) t) = Inr (c, rs, t')"
  using prove_rounds_complete [OF assms(1) _ order_refl assms(2), of "num_rounds P s"
      "append_claim T (input_claim P s) t"]
  by (auto simp: prove_def)

lemma prove_then_verify:
  assumes "holds s [] (input_claim P s)" and "total_sampler T"
    and "v_num_rounds V = num_rounds P s" "v_degree_bound V = degree_bound P s"
      "v_input_claim V = input_claim P s"
    and out: "\<And>s' c rs. length rs = num_rounds P s \<Longrightarrow> holds s' rs c
      \<Longrightarrow> expected_output_claim V rs = Inr c"
  shows "\<exists>proof rs c s' t'. prove P T s t = Inr (proof, rs, c, finalize P s', t')
     \<and> holds s' rs c \<and> length rs = num_rounds P s \<and> verify T V proof t = Inr (rs, t')"
proof -
  obtain pr rs c s' t' where p: "prove P T s t = Inr (pr, rs, c, finalize P s', t')"
      "length (round_polys pr) = num_rounds P s" "length rs = num_rounds P s" "holds s' rs c"
      "verify_rounds T (degree_bound P s) (round_polys pr) (input_claim P s)
         (append_claim T (input_claim P s) t) = Inr (c, rs, t')"
    using prove_complete [OF assms(1,2)] by blast
  then show ?thesis
    using assms(3-5) out [OF p(3,4)] by (auto simp: verify_def check_sumcheck_output_claim_def)
qed

end

subsection \<open>Roots of coefficient lists\<close>

lemma horner_synthetic_division:
  "\<exists>ds. length ds = length cs - 1 \<and> (\<forall>x. horner cs x - horner cs a = (x - a) * horner ds x)"
  for cs :: "'e::field list"
proof (induction cs)
  case (Cons c cs)
  then obtain ds where ds: "length ds = length cs - 1"
      "\<And>x. horner cs x - horner cs a = (x - a) * horner ds x" by blast
  show ?case
  proof (cases cs)
    case Nil
    then show ?thesis by simp
  next
    case (Cons b bs)
    define es where "es = map2 (\<lambda>u v. u + a * v) cs (ds @ [0])"
    have len: "length cs = length (ds @ [0])" using ds(1) Cons by simp
    have "horner (map2 (\<lambda>u v. u + a * v) us vs) x = horner us x + a * horner vs x"
      if "length us = length vs" for us vs x
      using that by (induction us vs rule: list_induct2) (simp_all add: algebra_simps)
    then have es: "horner es x = horner cs x + a * horner ds x" for x
      using len by (simp add: es_def horner_append)
    have "horner (c # cs) x - horner (c # cs) a = (x - a) * horner es x" for x
    proof -
      have "(x - a) * horner es x = (x - a) * horner cs x + a * ((x - a) * horner ds x)"
        by (simp add: es algebra_simps)
      also have "\<dots> = (x - a) * horner cs x + a * (horner cs x - horner cs a)" by (simp only: ds(2))
      finally show ?thesis by (simp add: algebra_simps)
    qed
    moreover have "length es = length (c # cs) - 1" using len by (simp add: es_def)
    ultimately show ?thesis by blast
  qed
qed simp

lemma horner_root_bound:
  fixes cs :: "'e::field list"
  assumes "\<exists>x. horner cs x \<noteq> 0"
  shows "finite {x. horner cs x = 0} \<and> card {x. horner cs x = 0} \<le> length cs - 1"
  using assms
proof (induction "length cs" arbitrary: cs rule: less_induct)
  case less
  show ?case
  proof (cases "\<exists>a. horner cs a = 0")
    case False
    then show ?thesis by simp
  next
    case True
    then obtain a where a: "horner cs a = 0" by blast
    obtain ds where ds: "length ds = length cs - 1" "\<And>x. horner cs x = (x - a) * horner ds x"
      using horner_synthetic_division [of cs a] a by auto
    have "\<exists>x. horner ds x \<noteq> 0" using less.prems ds(2) by auto
    moreover have len: "length ds < length cs" using ds(1) less.prems by (cases cs) auto
    ultimately have IH: "finite {x. horner ds x = 0}" "card {x. horner ds x = 0} \<le> length ds - 1"
      using less.hyps by auto
    have "length ds \<noteq> 0" using \<open>\<exists>x. horner ds x \<noteq> 0\<close> by auto
    moreover have "{x. horner cs x = 0} = insert a {x. horner ds x = 0}" using ds(2) by auto
    ultimately show ?thesis
      using IH ds(1) card_insert_le_m1 [of "length ds" "{x. horner ds x = 0}" a] by auto
  qed
qed

lemma horner_diff:
  "\<exists>ds. length ds = max (length us) (length vs) \<and> (\<forall>x. horner ds x = horner us x - horner vs x)"
  for us :: "'e::field list"
proof -
  define n where "n = max (length us) (length vs)"
  let ?pad = "\<lambda>ws :: 'e list. ws @ replicate (n - length ws) 0"
  have "horner (map2 (-) us' vs') x = horner us' x - horner vs' x"
    if "length us' = length vs'" for us' vs' :: "'e list" and x
    using that by (induction us' vs' rule: list_induct2) (simp_all add: right_diff_distrib)
  then have "horner (map2 (-) (?pad us) (?pad vs)) x = horner us x - horner vs x" for x
    by (simp add: n_def horner_append)
  moreover have "length (map2 (-) (?pad us) (?pad vs)) = n" by (simp add: n_def)
  ultimately show ?thesis unfolding n_def by blast
qed

lemma horner_agreement_bound:
  fixes us :: "'e::field list"
  assumes "\<exists>x. horner us x \<noteq> horner vs x" and "length us \<le> Suc d" "length vs \<le> Suc d"
  shows "finite {x. horner us x = horner vs x} \<and> card {x. horner us x = horner vs x} \<le> d"
proof -
  obtain ds where ds: "length ds = max (length us) (length vs)"
      "\<And>x. horner ds x = horner us x - horner vs x" using horner_diff by blast
  have "{x. horner us x = horner vs x} = {x. horner ds x = 0}" using ds(2) by simp
  moreover have "\<exists>x. horner ds x \<noteq> 0" using assms(1) ds(2) by simp
  ultimately show ?thesis using horner_root_bound [of ds] ds(1) assms(2,3) by force
qed

subsection \<open>Soundness\<close>

text \<open>
  \<open>cube_sum f m p\<close> sums \<open>f\<close> over all Boolean extensions of the prefix \<open>p\<close> by \<open>m\<close>
  coordinates; \<open>individual_degree f n d\<close> says that \<open>f\<close> is a polynomial of degree at most
  \<open>d\<close> in each of its \<open>n\<close> variables.
\<close>

fun cube_sum :: "('e::field list \<Rightarrow> 'e) \<Rightarrow> nat \<Rightarrow> 'e list \<Rightarrow> 'e" where
  "cube_sum f 0 p = f p"
| "cube_sum f (Suc m) p = cube_sum f m (p @ [0]) + cube_sum f m (p @ [1])"

definition individual_degree :: "('e::field list \<Rightarrow> 'e) \<Rightarrow> nat \<Rightarrow> nat \<Rightarrow> bool" where
  "individual_degree f n d \<longleftrightarrow>
     (\<forall>p q. length p + length q + 1 = n \<longrightarrow>
        (\<exists>cs. length cs \<le> Suc d \<and> (\<forall>x. f (p @ [x] @ q) = horner cs x)))"

text \<open>The running claim after a list of messages and challenges.\<close>

fun claim_after :: "'e::field \<Rightarrow> 'e compressed_uni_poly list \<Rightarrow> 'e list \<Rightarrow> 'e" where
  "claim_after c (p # ps) (r # rs) = claim_after (eval_from_hint p c r) ps rs"
| "claim_after c ps rs = c"

text \<open>
  The challenges of round \<open>i\<close> that let a wrong claim through: those where the prover's
  polynomial meets the honest one.  The set depends on the earlier rounds only.
\<close>

definition bad_challenges ::
  "('e::field list \<Rightarrow> 'e) \<Rightarrow> nat \<Rightarrow> 'e \<Rightarrow> 'e compressed_uni_poly list \<Rightarrow> 'e list \<Rightarrow> 'e set" where
  "bad_challenges f n c ps rs =
     {x. evaluate (decompress (last ps) (claim_after c (butlast ps) rs)) x
           = cube_sum f (n - Suc (length rs)) (rs @ [x])}"

lemma horner_add:
  "\<exists>ds. length ds = max (length us) (length vs) \<and> (\<forall>x. horner ds x = horner us x + horner vs x)"
  for us :: "'e::field list"
proof -
  obtain ds where "length ds = max (length us) (length (map uminus vs))"
      "\<And>x. horner ds x = horner us x - horner (map uminus vs) x" using horner_diff by blast
  moreover have "horner (map uminus vs) x = - horner vs x" for x
    by (induction vs) simp_all
  ultimately show ?thesis by auto
qed

lemma cube_sum_degree:
  assumes "individual_degree f n d" and "length p + length q + 1 + m = n"
  shows "\<exists>cs. length cs \<le> Suc d \<and> (\<forall>x. cube_sum f m (p @ [x] @ q) = horner cs x)"
  using assms(2)
proof (induction m arbitrary: q)
  case 0
  then show ?case using assms(1) by (simp add: individual_degree_def)
next
  case (Suc m)
  obtain us vs where us: "length us \<le> Suc d" "\<And>x. cube_sum f m (p @ [x] @ q @ [0]) = horner us x"
    and vs: "length vs \<le> Suc d" "\<And>x. cube_sum f m (p @ [x] @ q @ [1]) = horner vs x"
    using Suc.IH [of "q @ [0]"] Suc.IH [of "q @ [1]"] Suc.prems by auto
  obtain ds where ds: "length ds = max (length us) (length vs)"
      "\<And>x. horner ds x = horner us x + horner vs x" using horner_add by blast
  have "length ds \<le> Suc d" using us(1) vs(1) ds(1) by simp
  moreover have "cube_sum f (Suc m) (p @ [x] @ q) = horner ds x" for x
    using us(2) vs(2) ds(2) by simp
  ultimately show ?case by blast
qed

lemma verify_rounds_claim_after:
  "verify_rounds T bound ps c t = Inr (c', rs, t') \<Longrightarrow>
     length rs = length ps \<and> c' = claim_after c ps rs \<and> (\<forall>p \<in> set ps. compressed_degree p \<le> bound)"
proof (induction ps arbitrary: c rs t)
  case (Cons p ps)
  from Cons.prems obtain r t1 rs1 where step: "\<not> bound < compressed_degree p"
      "verify_rounds T bound ps (eval_from_hint p c r) t1 = Inr (c', rs1, t')" "rs = r # rs1"
    by (auto simp: bindE_Inr_iff split: if_splits)
  from Cons.IH [OF step(2)] step(1,3) show ?case by auto
qed simp

lemma bad_challenges_card:
  assumes f: "individual_degree f n d" and rs: "length rs < n" and ps: "ps \<noteq> []"
    and msg: "coeffs_except_linear_term (last ps) \<noteq> []" "compressed_degree (last ps) \<le> bound"
    and d: "d \<le> max 1 bound"
    and wrong: "claim_after c (butlast ps) rs \<noteq> cube_sum f (n - length rs) rs"
  shows "finite (bad_challenges f n c ps rs) \<and> card (bad_challenges f n c ps rs) \<le> max 1 bound"
proof -
  let ?c = "claim_after c (butlast ps) rs" and ?m = "n - Suc (length rs)"
  let ?g = "decompress (last ps) ?c"
  obtain cs where cs: "length cs \<le> Suc d" "\<And>x. cube_sum f ?m (rs @ [x]) = horner cs x"
    using cube_sum_degree [OF f, of rs "[]" ?m] rs by auto
  have len: "length (coeffs ?g) \<le> Suc (max 1 bound)"
    using uni_degree_decompress [of "last ps" ?c] msg(2) by (simp add: uni_degree_def)
  have "n - length rs = Suc ?m" using rs by simp
  then have "evaluate ?g 0 + evaluate ?g 1 \<noteq> horner cs 0 + horner cs 1"
    using wrong decompress_sum [OF msg(1)] by (simp flip: cs(2))
  then have "\<exists>x. horner (coeffs ?g) x \<noteq> horner cs x" by (metis evaluate_horner)
  from horner_agreement_bound [OF this len] cs(1) d
  show ?thesis by (simp add: bad_challenges_def evaluate_horner cs(2))
qed

text \<open>
  A false claim survives only if some challenge lands in the bad set of its round.
\<close>

lemma false_claim_needs_bad_challenge:
  assumes "length rs = length ps" and "length rs0 + length ps = n"
    and "c \<noteq> cube_sum f (n - length rs0) rs0"
    and "claim_after c ps rs = f (rs0 @ rs)"
  shows "\<exists>i < length ps. claim_after c (take i ps) (take i rs) \<noteq> cube_sum f (n - length rs0 - i) (rs0 @ take i rs)
     \<and> evaluate (decompress (ps ! i) (claim_after c (take i ps) (take i rs))) (rs ! i)
         = cube_sum f (n - length rs0 - Suc i) (rs0 @ take (Suc i) rs)"
  using assms
proof (induction rs ps arbitrary: c rs0 rule: list_induct2)
  case Nil
  then show ?case by simp
next
  case (Cons r rs p ps)
  let ?c = "eval_from_hint p c r" and ?rs0 = "rs0 @ [r]"
  have m: "n - length rs0 = Suc (n - length ?rs0)" using Cons.prems(1) by simp
  show ?case
  proof (cases "?c = cube_sum f (n - length ?rs0) ?rs0")
    case True
    with Cons.prems(2) m show ?thesis
      by (intro exI [of _ 0]) (simp add: eval_from_hint_decompress)
  next
    case False
    with Cons.IH [of ?rs0 ?c] Cons.prems obtain i where i: "i < length ps"
        "claim_after ?c (take i ps) (take i rs) \<noteq> cube_sum f (n - length ?rs0 - i) (?rs0 @ take i rs)"
        "evaluate (decompress (ps ! i) (claim_after ?c (take i ps) (take i rs))) (rs ! i)
           = cube_sum f (n - length ?rs0 - Suc i) (?rs0 @ take (Suc i) rs)"
      by auto
    then show ?thesis using m by (intro exI [of _ "Suc i"]) simp
  qed
qed

subsection \<open>Properties\<close>

lemma verify_Inr_iff:
  "verify T V pr t = Inr (rs, t') \<longleftrightarrow>
     length (round_polys pr) = v_num_rounds V \<and>
     (\<exists>claim. verify_rounds T (v_degree_bound V) (round_polys pr) (v_input_claim V)
                (append_claim T (v_input_claim V) t) = Inr (claim, rs, t')
            \<and> expected_output_claim V rs = Inr claim)"
  by (auto simp: verify_def check_sumcheck_output_claim_def bindE_Inr_iff split: if_splits)


text \<open>A one-round instance over the rationals: \<open>f(x) = x\<close>, the false claim 5, challenge 0.\<close>

definition unit_codec :: "('a, unit) codec" where
  "unit_codec =
     \<lparr>check = (\<lambda>_. Inr ()), serialize_with_mode = (\<lambda>_ _. []), serialized_size = (\<lambda>_ _. 0),
      deserialize_with_mode = (\<lambda>_ _ _ _. Inl IoError)\<rparr>"

definition constant_sampler :: "'e \<Rightarrow> (unit, 'e) fiat_shamir" where
  "constant_sampler r =
     \<lparr>append_bytes = (\<lambda>_ _ t. t), sample_challenge = (\<lambda>t. Inr (r, t)), scalar_codec = unit_codec\<rparr>"

definition line_verifier :: "rat \<Rightarrow> rat sumcheck_verifier" where
  "line_verifier c =
     \<lparr>v_num_rounds = 1, v_degree_bound = 1, v_input_claim = c, expected_output_claim = (\<lambda>rs. Inr (rs ! 0))\<rparr>"

lemma line_degree: "individual_degree (\<lambda>xs. xs ! 0 :: rat) 1 1"
  by (auto simp: individual_degree_def intro!: exI [of _ "[0, 1]"])


text \<open>
  C7: A round message without coefficients is decoded as the zero polynomial and the hint is
  dropped: for every input claim, the verifier loop run on empty messages ends with the same
  challenges and, as soon as there is a round, with the running claim zero.
\<close>

theorem empty_messages_drop_the_claim:
  assumes "total_sampler T" and "0 < n"
  shows "\<exists>rs t'. \<forall>claim. verify_rounds T bound (replicate n (CompressedUniPoly [])) claim t
                    = Inr (0, rs, t')"
  using assms(2)
proof (induction n arbitrary: t)
  case (Suc n)
  obtain r t1 where r: "sample_challenge T (append_round T (CompressedUniPoly []) t) = Inr (r, t1)"
    by (rule total_samplerE [OF assms(1)])
  show ?case
  proof (cases "n = 0")
    case True
    with r show ?thesis by (simp add: compressed_degree_def eval_from_hint_Nil)
  next
    case False
    with Suc.IH [of t1] obtain rs t' where
      "\<And>claim. verify_rounds T bound (replicate n (CompressedUniPoly [])) claim t1 = Inr (0, rs, t')"
      by auto
    with r show ?thesis by (simp add: compressed_degree_def)
  qed
qed simp

theorem empty_messages_drop_the_claim_witness:
  "total_sampler (constant_sampler (7 :: rat)) \<and>
   (\<exists>rs t'. \<forall>claim. verify_rounds (constant_sampler 7) 3
      (replicate 2 (CompressedUniPoly [])) claim () = Inr (0 :: rat, rs, t'))"
proof -
  have "total_sampler (constant_sampler (7 :: rat))"
    by (simp add: total_sampler_def constant_sampler_def)
  with empty_messages_drop_the_claim [of "constant_sampler (7 :: rat)" 2 3 "()"]
  show ?thesis by simp
qed

end
