(* ===== verification/EorProver.thy ===== *)
theory EorProver
  imports SumcheckCorrect
begin

text \<open>
  The extension-opening-reduction prover, \<^verbatim>\<open>akita-prover/src/protocol/extension_opening_reduction\<close>
  with its table checks from \<^verbatim>\<open>akita-types/src/extension_opening_reduction.rs\<close>: groups of
  witness tables that share one factor table, folded in place one challenge at a time, with
  the next round's coefficients cached by the fused folds and with virtual high variables.
  Out-of-range indexing and \<open>expect\<close> panic in the source and are \<open>None\<close> here.
\<close>

subsection \<open>State\<close>

text \<open>
  What the code takes from the field implementation: the delayed product accumulator and
  the pair fold at a challenge.
\<close>

record ('w, 'e) eor_env =
  SUM_IS_EXACT :: bool
  product_zero :: 'w
  product_add :: "'w \<Rightarrow> 'w \<Rightarrow> 'w"
  mul_unreduced :: "'e \<Rightarrow> 'e \<Rightarrow> 'w"
  reduce_product :: "'w \<Rightarrow> 'e"
  fold_one :: "'e \<Rightarrow> 'e \<Rightarrow> 'e \<Rightarrow> 'e"
  parallel_feature :: bool

record 'e eor_term =
  witness :: "'e list"
  coeff :: 'e
  cached_accumulate :: "('e \<times> 'e) option"

record 'e eor_group =
  terms :: "'e eor_term list"
  factor :: "'e list"
  extra_point :: "'e list"
  extra_round :: nat
  extra_factor_eval :: 'e

record 'e eor_prover =
  groups :: "'e eor_group list"
  eor_input_claim :: 'e
  eor_num_rounds :: nat

definition EXTENSION_OPENING_REDUCTION_DEGREE :: nat where
  "EXTENSION_OPENING_REDUCTION_DEGREE = 2"

subsection \<open>Table checks\<close>

definition num_rounds_from_table_len :: "nat \<Rightarrow> nat result" where
  "num_rounds_from_table_len len =
     (if len = 0 \<or> \<not> is_power_of_two len
      then Inl (InvalidSize (case checked_next_power_of_two (max len 1) of None \<Rightarrow> 0 | Some p \<Rightarrow> p) len)
      else Inr (trailing_zeros len))"

definition reduction_table_len :: "nat \<Rightarrow> nat result" where
  "reduction_table_len num_vars =
     ok_or (pow2 num_vars)
       (InvalidInput (''extension-opening reduction table has too many variables: '' @ show_nat num_vars))"

definition validate_reduction_tables :: "'e list \<Rightarrow> 'e list \<Rightarrow> unit result" where
  "validate_reduction_tables witness_evals factor_evals =
     (if length witness_evals \<noteq> length factor_evals
      then Inl (InvalidSize (length witness_evals) (length factor_evals))
      else bindE (num_rounds_from_table_len (length witness_evals)) (\<lambda>_. Inr ()))"

definition extension_opening_reduction_claim :: "'e::field list \<Rightarrow> 'e list \<Rightarrow> 'e result" where
  "extension_opening_reduction_claim witness_evals factor_evals =
     bindE (validate_reduction_tables witness_evals factor_evals)
       (\<lambda>_. Inr (foldl (\<lambda>acc (w, a). acc + w * a) 0 (zip witness_evals factor_evals)))"

definition extension_opening_reduction_eval_at_point ::
  "bool \<Rightarrow> nat \<Rightarrow> 'e::field list \<Rightarrow> 'e list \<Rightarrow> 'e list \<Rightarrow> 'e result" where
  "extension_opening_reduction_eval_at_point parallel elem_size witness_evals factor_evals point =
     bindE (validate_reduction_tables witness_evals factor_evals)
       (\<lambda>_. bindE (multilinear_eval parallel elem_size witness_evals point)
         (\<lambda>w. bindE (multilinear_eval parallel elem_size factor_evals point)
           (\<lambda>a. Inr (w * a))))"

definition check_extension_opening_reduction_output :: "'e::field \<Rightarrow> 'e \<Rightarrow> 'e \<Rightarrow> unit result" where
  "check_extension_opening_reduction_output final_claim witness_eval factor_eval =
     (if final_claim \<noteq> witness_eval * factor_eval then Inl InvalidProof else Inr ())"

subsection \<open>Round accumulation\<close>

text \<open>\<open>Deg2RoundAccum\<close> with its two implementations.\<close>

record ('a, 'e) deg2_accum =
  accum_zero :: 'a
  add_constant_product :: "'a \<Rightarrow> 'e \<Rightarrow> 'e \<Rightarrow> 'a"
  add_quadratic_product :: "'a \<Rightarrow> 'e \<Rightarrow> 'e \<Rightarrow> 'a"
  accum_finish :: "'a \<Rightarrow> 'e \<times> 'e"

definition DelayedDeg2 :: "('w, 'e::field) eor_env \<Rightarrow> ('w \<times> 'w, 'e) deg2_accum" where
  "DelayedDeg2 U =
     \<lparr>accum_zero = (product_zero U, product_zero U),
      add_constant_product = (\<lambda>(c, q) l r. (product_add U c (mul_unreduced U l r), q)),
      add_quadratic_product = (\<lambda>(c, q) l r. (c, product_add U q (mul_unreduced U l r))),
      accum_finish = (\<lambda>(c, q). (reduce_product U c, reduce_product U q))\<rparr>"

definition DirectDeg2 :: "('e::field \<times> 'e, 'e) deg2_accum" where
  "DirectDeg2 =
     \<lparr>accum_zero = (0, 0),
      add_constant_product = (\<lambda>(c, q) l r. (c + l * r, q)),
      add_quadratic_product = (\<lambda>(c, q) l r. (c, q + l * r)),
      accum_finish = (\<lambda>a. a)\<rparr>"

definition accum_pair :: "('a, 'e::field) deg2_accum \<Rightarrow> 'a \<Rightarrow> 'e \<Rightarrow> 'e \<Rightarrow> 'e \<Rightarrow> 'e \<Rightarrow> 'a" where
  "accum_pair A acc w0 w1 a0 a1 =
     add_quadratic_product A (add_constant_product A acc w0 a0) (w1 - w0) (a1 - a0)"

definition accumulate_dense_round_with ::
  "('a, 'e::field) deg2_accum \<Rightarrow> 'e list \<Rightarrow> 'e list \<Rightarrow> ('e \<times> 'e) option" where
  "accumulate_dense_round_with A w f =
     (let half = length w div 2 in
      if length f < 2 * half then None
      else Some (accum_finish A (foldl (\<lambda>acc i.
             accum_pair A acc (w ! (2 * i)) (w ! (2 * i + 1)) (f ! (2 * i)) (f ! (2 * i + 1)))
             (accum_zero A) [0..<half])))"

definition accumulate_dense_round ::
  "('w, 'e::field) eor_env \<Rightarrow> 'e list \<Rightarrow> 'e list \<Rightarrow> 'e \<Rightarrow> ('e \<times> 'e) option" where
  "accumulate_dense_round U w f c =
     (if c = 0 then Some (0, 0)
      else map_option (\<lambda>(constant, quadratic). (c * constant, c * quadratic))
             (if SUM_IS_EXACT U then accumulate_dense_round_with (DelayedDeg2 U) w f
              else accumulate_dense_round_with DirectDeg2 w f))"

text \<open>
  The fused folds overwrite entries \<open>2 * i\<close> and \<open>2 * i + 1\<close> of the vectors whose entries
  \<open>4 * i .. 4 * i + 3\<close> they have just read.
\<close>

definition fused_fold_group_head_and_accumulate_with ::
  "('a, 'e::field) deg2_accum \<Rightarrow> ('e \<Rightarrow> 'e \<Rightarrow> 'e \<Rightarrow> 'e) \<Rightarrow> 'e list \<Rightarrow> 'e list \<Rightarrow> 'e
    \<Rightarrow> (('e \<times> 'e) \<times> 'e list \<times> 'e list) option" where
  "fused_fold_group_head_and_accumulate_with A fold_pair w f r =
     (let half = length w div 2; quarter = half div 2 in
      if length f < 4 * quarter then None
      else let (w', f', acc) = foldl (\<lambda>(w, f, acc) i.
               let fw0 = fold_pair r (w ! (4 * i)) (w ! (4 * i + 1));
                   fw1 = fold_pair r (w ! (4 * i + 2)) (w ! (4 * i + 3));
                   fa0 = fold_pair r (f ! (4 * i)) (f ! (4 * i + 1));
                   fa1 = fold_pair r (f ! (4 * i + 2)) (f ! (4 * i + 3))
               in (w[2 * i := fw0, 2 * i + 1 := fw1], f[2 * i := fa0, 2 * i + 1 := fa1],
                   accum_pair A acc fw0 fw1 fa0 fa1))
               (w, f, accum_zero A) [0..<quarter]
           in Some (accum_finish A acc, take half w', take half f'))"

definition fused_fold_group_head_and_accumulate ::
  "('w, 'e::field) eor_env \<Rightarrow> 'e list \<Rightarrow> 'e list \<Rightarrow> 'e \<Rightarrow> (('e \<times> 'e) \<times> 'e list \<times> 'e list) option" where
  "fused_fold_group_head_and_accumulate U w f r =
     (if SUM_IS_EXACT U
      then fused_fold_group_head_and_accumulate_with (DelayedDeg2 U) (fold_one U) w f r
      else fused_fold_group_head_and_accumulate_with DirectDeg2 (fold_one U) w f r)"

definition fused_fold_witness_and_accumulate_with ::
  "('a, 'e::field) deg2_accum \<Rightarrow> ('e \<Rightarrow> 'e \<Rightarrow> 'e \<Rightarrow> 'e) \<Rightarrow> 'e list \<Rightarrow> 'e list \<Rightarrow> 'e
    \<Rightarrow> (('e \<times> 'e) \<times> 'e list) option" where
  "fused_fold_witness_and_accumulate_with A fold_pair w folded_factor r =
     (let half = length w div 2; quarter = half div 2 in
      if length folded_factor < 2 * quarter then None
      else let (w', acc) = foldl (\<lambda>(w, acc) i.
               let fw0 = fold_pair r (w ! (4 * i)) (w ! (4 * i + 1));
                   fw1 = fold_pair r (w ! (4 * i + 2)) (w ! (4 * i + 3))
               in (w[2 * i := fw0, 2 * i + 1 := fw1],
                   accum_pair A acc fw0 fw1 (folded_factor ! (2 * i)) (folded_factor ! (2 * i + 1))))
               (w, accum_zero A) [0..<quarter]
           in Some (accum_finish A acc, take half w'))"

definition fused_fold_witness_and_accumulate ::
  "('w, 'e::field) eor_env \<Rightarrow> 'e list \<Rightarrow> 'e list \<Rightarrow> 'e \<Rightarrow> (('e \<times> 'e) \<times> 'e list) option" where
  "fused_fold_witness_and_accumulate U w folded_factor r =
     (if SUM_IS_EXACT U
      then fused_fold_witness_and_accumulate_with (DelayedDeg2 U) (fold_one U) w folded_factor r
      else fused_fold_witness_and_accumulate_with DirectDeg2 (fold_one U) w folded_factor r)"

subsection \<open>Terms and groups\<close>

definition term_new :: "'e list \<Rightarrow> 'e \<Rightarrow> 'e eor_term" where
  "term_new witness_evals c = \<lparr>witness = witness_evals, coeff = c, cached_accumulate = None\<rparr>"

definition group_new :: "'e::field eor_term list \<Rightarrow> 'e list \<Rightarrow> 'e eor_group result" where
  "group_new ts factor_evals =
     (if ts = []
      then Inl (InvalidInput ''extension-opening reduction group requires at least one term'')
      else bindE (try_fold (\<lambda>_ t. validate_reduction_tables (witness t) factor_evals) () ts)
             (\<lambda>_. Inr \<lparr>terms = ts, factor = factor_evals, extra_point = [], extra_round = 0,
                       extra_factor_eval = 1\<rparr>))"

definition extend_cylindrically :: "'e eor_group \<Rightarrow> 'e list \<Rightarrow> 'e eor_group result" where
  "extend_cylindrically g point =
     bindE (num_rounds_from_table_len (length (factor g)))
       (\<lambda>native_rounds. bindE (ok_or (checked_add native_rounds (length point))
            (InvalidInput ''extension-opening cylindrical domain overflow''))
          (\<lambda>total_rounds. bindE (reduction_table_len total_rounds)
             (\<lambda>_. Inr (g\<lparr>extra_point := point\<rparr>))))"

text \<open>\<open>checked_shl\<close> drops the bits shifted out and is \<open>None\<close> from the word width on.\<close>

definition domain_len :: "'e eor_group \<Rightarrow> nat" where
  "domain_len g =
     (let k = length (extra_point g) - extra_round g in
      if 64 \<le> k then 0 else (length (factor g) * 2 ^ k) mod 2 ^ 64)"

definition group_claim :: "'e::field eor_group \<Rightarrow> 'e result" where
  "group_claim g =
     try_fold (\<lambda>acc t. bindE (extension_opening_reduction_claim (witness t) (factor g))
                 (\<lambda>claim. Inr (acc + coeff t * claim))) 0 (terms g)"

definition group_final_terms :: "'e::field eor_group \<Rightarrow> ('e \<times> 'e \<times> 'e) list option" where
  "group_final_terms g =
     (if length (factor g) \<noteq> 1 \<or> extra_round g \<noteq> length (extra_point g)
         \<or> list_ex (\<lambda>t. length (witness t) \<noteq> 1) (terms g)
      then None
      else let f = factor g ! 0 * extra_factor_eval g
           in Some (map (\<lambda>t. (coeff t, witness t ! 0, f)) (terms g)))"

fun accumulate_terms ::
  "('w, 'e::field) eor_env \<Rightarrow> 'e list \<Rightarrow> 'e eor_term list \<Rightarrow> 'e \<times> 'e
    \<Rightarrow> (('e \<times> 'e) \<times> 'e eor_term list) option" where
  "accumulate_terms U f [] acc = Some (acc, [])"
| "accumulate_terms U f (t # ts) (constant, quadratic) =
     Option.bind (case cached_accumulate t of
                    Some cached \<Rightarrow> Some cached
                  | None \<Rightarrow> accumulate_dense_round U (witness t) f (coeff t))
       (\<lambda>(c, q). map_option (\<lambda>(acc, ts'). (acc, t\<lparr>cached_accumulate := None\<rparr> # ts'))
          (accumulate_terms U f ts (constant + c, quadratic + q)))"

definition accumulate_into ::
  "('w, 'e::field) eor_env \<Rightarrow> 'e eor_group \<Rightarrow> 'e \<times> 'e \<Rightarrow> (('e \<times> 'e) \<times> 'e eor_group) option" where
  "accumulate_into U g acc =
     (if 1 < length (factor g)
      then map_option (\<lambda>(acc', ts). (acc', g\<lparr>terms := ts\<rparr>)) (accumulate_terms U (factor g) (terms g) acc)
      else if extra_round g < length (extra_point g)
      then (if factor g = [] \<or> list_ex (\<lambda>t. witness t = []) (terms g) then None
            else let f = factor g ! 0 * extra_factor_eval g * (1 - extra_point g ! extra_round g)
                 in Some (foldl (\<lambda>(constant, quadratic) t.
                            (constant + coeff t * witness t ! 0 * f, quadratic)) acc (terms g), g))
      else Some (acc, g))"

definition fold_remaining_term ::
  "('w, 'e::field) eor_env \<Rightarrow> 'e list \<Rightarrow> 'e \<Rightarrow> 'e eor_term \<Rightarrow> 'e eor_term option" where
  "fold_remaining_term U folded_factor r t =
     map_option (\<lambda>((c, q), w). t\<lparr>witness := w, cached_accumulate := Some (coeff t * c, coeff t * q)\<rparr>)
       (fused_fold_witness_and_accumulate U (witness t) folded_factor r)"

fun collect_option :: "'a option list \<Rightarrow> 'a list option" where
  "collect_option [] = Some []"
| "collect_option (m # ms) = Option.bind m (\<lambda>x. map_option (\<lambda>xs. x # xs) (collect_option ms))"

definition group_ingest_challenge ::
  "('w, 'e::field) eor_env \<Rightarrow> 'e eor_group \<Rightarrow> 'e \<Rightarrow> 'e eor_group option" where
  "group_ingest_challenge U g r =
     (if domain_len g \<le> 1 then Some g
      else if 1 < length (factor g) then
        (if 4 \<le> length (factor g) then
           (case terms g of
              [] \<Rightarrow> None
            | first # remaining \<Rightarrow>
                Option.bind (fused_fold_group_head_and_accumulate U (witness first) (factor g) r)
                  (\<lambda>((c, q), w, f).
                     map_option (\<lambda>ts. g\<lparr>factor := f,
                         terms := first\<lparr>witness := w,
                           cached_accumulate := Some (coeff first * c, coeff first * q)\<rparr> # ts\<rparr>)
                       (collect_option (map (fold_remaining_term U f r) remaining))))
         else Option.bind (fold_evals_in_place (fold_one U) (parallel_feature U) (factor g) r)
           (\<lambda>f. map_option (\<lambda>ts. g\<lparr>factor := f, terms := ts\<rparr>)
              (collect_option (map (\<lambda>t.
                 map_option (\<lambda>w. t\<lparr>witness := w, cached_accumulate := None\<rparr>)
                   (fold_evals_in_place (fold_one U) (parallel_feature U) (witness t) r)) (terms g)))))
      else if extra_round g < length (extra_point g)
      then let point = extra_point g ! extra_round g
           in Some (g\<lparr>extra_factor_eval :=
                        extra_factor_eval g * ((1 - point) * (1 - r) + point * r),
                      extra_round := extra_round g + 1\<rparr>)
      else Some g)"

subsection \<open>The prover\<close>

definition eor_new :: "'e eor_group list \<Rightarrow> 'e \<Rightarrow> 'e eor_prover result" where
  "eor_new gs claim =
     (case gs of
        [] \<Rightarrow> Inl (InvalidInput ''extension-opening reduction requires at least one group'')
      | first # _ \<Rightarrow>
          let table_len = domain_len first in
          bindE (num_rounds_from_table_len table_len)
            (\<lambda>n. bindE (try_fold (\<lambda>_ g. if domain_len g \<noteq> table_len
                                         then Inl (InvalidSize table_len (domain_len g)) else Inr ()) () gs)
               (\<lambda>_. Inr \<lparr>groups = gs, eor_input_claim = claim, eor_num_rounds = n\<rparr>)))"

definition from_dense_tables :: "'e::field list \<Rightarrow> 'e list \<Rightarrow> 'e eor_prover result" where
  "from_dense_tables witness_evals factor_evals =
     bindE (extension_opening_reduction_claim witness_evals factor_evals)
       (\<lambda>claim. bindE (group_new [term_new witness_evals 1] factor_evals)
          (\<lambda>g. eor_new [g] claim))"

definition input_claim_from_groups :: "'e::field eor_group list \<Rightarrow> 'e result" where
  "input_claim_from_groups gs =
     try_fold (\<lambda>acc g. bindE (group_claim g) (\<lambda>claim. Inr (acc + claim))) 0 gs"

definition eor_final_terms :: "'e::field eor_prover \<Rightarrow> ('e \<times> 'e \<times> 'e) list option" where
  "eor_final_terms p =
     try_fold_option (\<lambda>out g. map_option (\<lambda>ts. out @ ts) (group_final_terms g)) [] (groups p)"

definition final_witness_and_factor_evals :: "'e::field eor_prover \<Rightarrow> ('e \<times> 'e) option" where
  "final_witness_and_factor_evals p =
     (case groups p of
        [g] \<Rightarrow> Option.bind (group_final_terms g)
                (\<lambda>ts. case ts of [(_, w, f)] \<Rightarrow> Some (w, f) | _ \<Rightarrow> None)
      | _ \<Rightarrow> None)"

fun accumulate_groups ::
  "('w, 'e::field) eor_env \<Rightarrow> 'e eor_group list \<Rightarrow> 'e \<times> 'e \<Rightarrow> (('e \<times> 'e) \<times> 'e eor_group list) option" where
  "accumulate_groups U [] acc = Some (acc, [])"
| "accumulate_groups U (g # gs) acc =
     Option.bind (accumulate_into U g acc)
       (\<lambda>(acc', g'). map_option (\<lambda>(acc'', gs'). (acc'', g' # gs')) (accumulate_groups U gs acc'))"

definition eor_compute_round_univariate ::
  "('w, 'e::field) eor_env \<Rightarrow> 'e eor_prover \<Rightarrow> 'e \<Rightarrow> ('e uni_poly \<times> 'e eor_prover) option" where
  "eor_compute_round_univariate U p previous_claim =
     map_option (\<lambda>((constant, quadratic), gs).
         (UniPoly [constant, previous_claim - constant - constant - quadratic, quadratic], p\<lparr>groups := gs\<rparr>))
       (accumulate_groups U (groups p) (0, 0))"

definition eor_ingest_challenge ::
  "('w, 'e::field) eor_env \<Rightarrow> 'e eor_prover \<Rightarrow> 'e \<Rightarrow> 'e eor_prover option" where
  "eor_ingest_challenge U p r =
     map_option (\<lambda>gs. p\<lparr>groups := gs\<rparr>)
       (collect_option (map (\<lambda>g. group_ingest_challenge U g r) (groups p)))"

text \<open>The trait implementation; the state is \<open>None\<close> after a panic.\<close>

definition eor_instance :: "('w, 'e::field) eor_env \<Rightarrow> ('e eor_prover option, 'e) sumcheck_prover" where
  "eor_instance U =
     \<lparr>num_rounds = (\<lambda>s. case s of None \<Rightarrow> 0 | Some p \<Rightarrow> eor_num_rounds p),
      degree_bound = (\<lambda>_. EXTENSION_OPENING_REDUCTION_DEGREE),
      input_claim = (\<lambda>s. case s of None \<Rightarrow> 0 | Some p \<Rightarrow> eor_input_claim p),
      compute_round_univariate = (\<lambda>s _ claim.
        case Option.bind s (\<lambda>p. eor_compute_round_univariate U p claim) of
          None \<Rightarrow> (UniPoly [], None) | Some (g, p) \<Rightarrow> (g, Some p)),
      ingest_challenge = (\<lambda>s _ r. Option.bind s (\<lambda>p. eor_ingest_challenge U p r)),
      finalize = (\<lambda>s. s)\<rparr>"

end
