(* ===== verification/EorCorrect.thy ===== *)
theory EorCorrect
  imports EorProver
begin

text \<open>
  The extension-opening-reduction prover meets the sumcheck contract.  Abstracting from the
  caches, binding a challenge is \<open>group_bind\<close> on plain tables; the fused in-place folds and
  the cached round coefficients refine it.
\<close>

subsection \<open>Tables\<close>

definition bind_table :: "'e::field list \<Rightarrow> 'e \<Rightarrow> 'e list" where
  "bind_table evs r = map (\<lambda>i. evs ! (2 * i) + r * (evs ! (2 * i + 1) - evs ! (2 * i))) [0..<length evs div 2]"

definition dot :: "'e::field list \<Rightarrow> 'e list \<Rightarrow> 'e" where
  "dot w f = (\<Sum>i < length w. w ! i * f ! i)"

definition const_of :: "'e::field list \<Rightarrow> 'e list \<Rightarrow> 'e" where
  "const_of w f = (\<Sum>i < length w div 2. w ! (2 * i) * f ! (2 * i))"

definition quad_of :: "'e::field list \<Rightarrow> 'e list \<Rightarrow> 'e" where
  "quad_of w f = (\<Sum>i < length w div 2.
     (w ! (2 * i + 1) - w ! (2 * i)) * (f ! (2 * i + 1) - f ! (2 * i)))"

lemma length_bind_table [simp]: "length (bind_table evs r) = length evs div 2"
  by (simp add: bind_table_def)

lemma dot_even:
  "length w = 2 * n \<Longrightarrow> dot w f = (\<Sum>i < n. w ! (2 * i) * f ! (2 * i) + w ! (2 * i + 1) * f ! (2 * i + 1))"
  by (simp add: dot_def sum_lessThan_double)

lemma dot_bind_table:
  assumes "length w = 2 * n" and "length f = 2 * n"
  shows "dot (bind_table w r) (bind_table f r)
     = const_of w f + r * (dot w f - const_of w f - const_of w f - quad_of w f) + r * r * quad_of w f"
proof -
  let ?A = "\<lambda>i. w ! (2 * i) * f ! (2 * i)"
  let ?D = "\<lambda>i. w ! (2 * i) * f ! (2 * i) + w ! (2 * i + 1) * f ! (2 * i + 1)"
  let ?Q = "\<lambda>i. (w ! (2 * i + 1) - w ! (2 * i)) * (f ! (2 * i + 1) - f ! (2 * i))"
  have "dot (bind_table w r) (bind_table f r)
      = (\<Sum>i < n. ?A i + r * (?D i - ?A i - ?A i - ?Q i) + r * r * ?Q i)"
    unfolding dot_def by (rule sum.cong) (simp_all add: bind_table_def assms algebra_simps)
  also have "\<dots> = sum ?A {..<n} + r * (sum ?D {..<n} - sum ?A {..<n} - sum ?A {..<n} - sum ?Q {..<n})
      + r * r * sum ?Q {..<n}"
    by (simp only: sum.distrib sum_distrib_left [symmetric] sum_subtractf)
  finally show ?thesis by (simp add: dot_even [OF assms(1)] const_of_def quad_of_def assms)
qed

lemma mle_at_bind_table:
  assumes "length evs = 2 ^ Suc (length rest)"
  shows "mle_at (bind_table evs r) rest = mle_at evs (r # rest)"
proof -
  have "evs \<noteq> []" using assms by auto
  then obtain evs' where evs': "fold_evals_in_place (\<lambda>r l h. l + r * (h - l)) False evs r = Some evs'"
      "mle_at evs' rest = mle_at evs (r # rest)"
    using fold_binds_first_variable [of evs "\<lambda>r l h. l + r * (h - l)" r False rest] by auto
  have "evs' = bind_table evs r"
    using evs'(1) \<open>evs \<noteq> []\<close> assms
    by (auto simp: fold_evals_in_place_eq bind_table_def padded_def intro!: map_cong)
  with evs'(2) show ?thesis by simp
qed

lemma mle_at_bind_tables:
  "length evs = 2 ^ (length rs + length rest) \<Longrightarrow>
     mle_at (foldl bind_table evs rs) rest = mle_at evs (rs @ rest)"
proof (induction rs arbitrary: evs)
  case (Cons r rs)
  have "length (bind_table evs r) = 2 ^ (length rs + length rest)" using Cons.prems by simp
  from Cons.IH [OF this] mle_at_bind_table [of evs "rs @ rest" r] Cons.prems show ?case by simp
qed simp

lemma fold_evals_even:
  assumes "\<And>r l h. fold_pair r l h = l + r * (h - l)" and "even (length evs)" and "evs \<noteq> []"
  shows "fold_evals_in_place fold_pair par evs r = Some (bind_table evs r)"
  using assms by (auto simp: fold_evals_in_place_eq bind_table_def padded_def intro!: map_cong)

subsection \<open>Accumulators\<close>

text \<open>The documented contract of the field's fold and delayed reduction.\<close>

definition env_ok :: "('w, 'e::field) eor_env \<Rightarrow> bool" where
  "env_ok U \<longleftrightarrow>
     (\<forall>r l h. fold_one U r l h = l + r * (h - l)) \<and>
     (SUM_IS_EXACT U \<longrightarrow>
        (\<forall>ps. reduce_product U (foldl (\<lambda>acc (a, b). product_add U acc (mul_unreduced U a b))
                                 (product_zero U) ps) = (\<Sum>(a, b) \<leftarrow> ps. a * b)))"

definition accum_ok :: "('a, 'e::field) deg2_accum \<Rightarrow> bool" where
  "accum_ok A \<longleftrightarrow> (\<forall>w0 w1 a0 a1 (is :: nat list).
     accum_finish A (foldl (\<lambda>acc i. accum_pair A acc (w0 i) (w1 i) (a0 i) (a1 i)) (accum_zero A) is)
       = (\<Sum>i \<leftarrow> is. w0 i * a0 i, \<Sum>i \<leftarrow> is. (w1 i - w0 i) * (a1 i - a0 i)))"

lemma accum_ok_Direct: "accum_ok (DirectDeg2 :: ('e::field \<times> 'e, 'e) deg2_accum)"
proof -
  have "foldl (\<lambda>acc i. accum_pair DirectDeg2 acc (w0 i) (w1 i) (a0 i) (a1 i)) (c, q) is
      = (c + (\<Sum>i \<leftarrow> is. w0 i * a0 i), q + (\<Sum>i \<leftarrow> is. (w1 i - w0 i) * (a1 i - a0 i)))"
    for w0 w1 a0 a1 :: "nat \<Rightarrow> 'e" and c q and "is" :: "nat list"
    by (induction "is" arbitrary: c q) (simp_all add: accum_pair_def DirectDeg2_def add.assoc)
  moreover have "accum_zero (DirectDeg2 :: ('e \<times> 'e, 'e) deg2_accum) = (0, 0)"
      "accum_finish (DirectDeg2 :: ('e \<times> 'e, 'e) deg2_accum) a = a" for a
    by (simp_all add: DirectDeg2_def)
  ultimately show ?thesis by (simp add: accum_ok_def)
qed

lemma accum_ok_Delayed:
  assumes "env_ok U" and "SUM_IS_EXACT U"
  shows "accum_ok (DelayedDeg2 U)"
proof -
  let ?add = "\<lambda>acc (a, b). product_add U acc (mul_unreduced U a b)"
  have "foldl (\<lambda>acc i. accum_pair (DelayedDeg2 U) acc (w0 i) (w1 i) (a0 i) (a1 i)) (c, q) is
      = (foldl ?add c (map (\<lambda>i. (w0 i, a0 i)) is), foldl ?add q (map (\<lambda>i. (w1 i - w0 i, a1 i - a0 i)) is))"
    for w0 w1 a0 a1 c q and "is" :: "nat list"
    by (induction "is" arbitrary: c q) (simp_all add: accum_pair_def DelayedDeg2_def)
  moreover have "reduce_product U (foldl ?add (product_zero U) (map (\<lambda>i. (a i, b i)) is)) = (\<Sum>i \<leftarrow> is. a i * b i)"
    for a b and "is" :: "nat list"
    using assms by (simp add: env_ok_def comp_def)
  moreover have "accum_zero (DelayedDeg2 U) = (product_zero U, product_zero U)"
      "accum_finish (DelayedDeg2 U) (c, q) = (reduce_product U c, reduce_product U q)" for c q
    by (simp_all add: DelayedDeg2_def)
  ultimately show ?thesis by (simp add: accum_ok_def)
qed

lemma accum_ok_upt:
  assumes "accum_ok A"
  shows "accum_finish A (foldl (\<lambda>acc i. accum_pair A acc (w0 i) (w1 i) (a0 i) (a1 i)) (accum_zero A) [0..<n])
       = (\<Sum>i < n. w0 i * a0 i, \<Sum>i < n. (w1 i - w0 i) * (a1 i - a0 i))"
proof -
  have "(\<Sum>i \<leftarrow> [0..<n]. g i) = (\<Sum>i < n. g i)" for g :: "nat \<Rightarrow> 'b"
    by (simp add: sum_set_upt_conv_sum_list_nat [symmetric] atLeast0LessThan)
  with assms show ?thesis by (simp add: accum_ok_def)
qed

lemma accumulate_with_eq:
  assumes "accum_ok A" and "length f = length w"
  shows "accumulate_dense_round_with A w f = Some (const_of w f, quad_of w f)"
  using assms(2) accum_ok_upt [OF assms(1)]
  by (simp add: accumulate_dense_round_with_def const_of_def quad_of_def Let_def)

lemma accumulate_dense_round_eq:
  assumes "env_ok U" and "length f = length w"
  shows "accumulate_dense_round U w f c = Some (c * const_of w f, c * quad_of w f)"
  using accumulate_with_eq [OF accum_ok_Direct assms(2)] assms
    accumulate_with_eq [OF accum_ok_Delayed [OF assms(1)] assms(2)]
  by (simp add: accumulate_dense_round_def)

subsection \<open>The fused in-place folds\<close>

lemma update_pair:
  assumes "n + 1 < length B" and "n + 1 < length w"
  shows "(take n B @ drop n w)[n := B ! n, n + 1 := B ! (n + 1)] = take (n + 2) B @ drop (n + 2) w"
proof (rule nth_equalityI)
  show "length ((take n B @ drop n w)[n := B ! n, n + 1 := B ! (n + 1)])
      = length (take (n + 2) B @ drop (n + 2) w)" using assms by simp
next
  fix i assume "i < length ((take n B @ drop n w)[n := B ! n, n + 1 := B ! (n + 1)])"
  then have i: "i < length w" using assms by simp
  have "\<not> i < n + 2 \<Longrightarrow> Suc (Suc (i - 2)) = i" by arith
  with i show "(take n B @ drop n w)[n := B ! n, n + 1 := B ! (n + 1)] ! i
      = (take (n + 2) B @ drop (n + 2) w) ! i"
    using assms by (auto simp: nth_append nth_list_update less_Suc_eq)
qed

lemma fold_entries:
  assumes fold: "\<And>r l h. fold_pair r l h = l + r * (h - l)"
    and i: "i < length w div 2 div 2" and w': "w' = take (2 * i) (bind_table w r) @ drop (2 * i) w"
  shows "fold_pair r (w' ! (4 * i)) (w' ! (4 * i + 1)) = bind_table w r ! (2 * i)"
    and "fold_pair r (w' ! (4 * i + 2)) (w' ! (4 * i + 3)) = bind_table w r ! (2 * i + 1)"
    and "w'[2 * i := bind_table w r ! (2 * i), 2 * i + 1 := bind_table w r ! (2 * i + 1)]
           = take (2 * Suc i) (bind_table w r) @ drop (2 * Suc i) w"
proof -
  have len: "4 * i + 3 < length w" using i by linarith
  then have nth: "w' ! (4 * i + j) = w ! (4 * i + j)" if "j < 4" for j
    using that by (simp add: w' nth_append)
  have "2 * (2 * i + 1) = 4 * i + 2" "2 * (2 * i) = 4 * i" by simp_all
  then show "fold_pair r (w' ! (4 * i)) (w' ! (4 * i + 1)) = bind_table w r ! (2 * i)"
    "fold_pair r (w' ! (4 * i + 2)) (w' ! (4 * i + 3)) = bind_table w r ! (2 * i + 1)"
    using nth [of 0] nth [of 1] nth [of 2] nth [of 3] len
    by (simp_all add: fold bind_table_def numeral_3_eq_3)
  show "w'[2 * i := bind_table w r ! (2 * i), 2 * i + 1 := bind_table w r ! (2 * i + 1)]
      = take (2 * Suc i) (bind_table w r) @ drop (2 * Suc i) w"
    using update_pair [of "2 * i" "bind_table w r" w] len by (simp add: w')
qed

lemma fused_head_loop:
  assumes fold: "\<And>r l h. fold_pair r l h = l + r * (h - l)"
    and len: "length f = length w" and m: "m \<le> length w div 2 div 2"
  shows "foldl (\<lambda>(w, f, acc) i.
       let fw0 = fold_pair r (w ! (4 * i)) (w ! (4 * i + 1));
           fw1 = fold_pair r (w ! (4 * i + 2)) (w ! (4 * i + 3));
           fa0 = fold_pair r (f ! (4 * i)) (f ! (4 * i + 1));
           fa1 = fold_pair r (f ! (4 * i + 2)) (f ! (4 * i + 3))
       in (w[2 * i := fw0, 2 * i + 1 := fw1], f[2 * i := fa0, 2 * i + 1 := fa1],
           accum_pair A acc fw0 fw1 fa0 fa1)) (w, f, z) [0..<m]
     = (take (2 * m) (bind_table w r) @ drop (2 * m) w, take (2 * m) (bind_table f r) @ drop (2 * m) f,
        foldl (\<lambda>acc i. accum_pair A acc (bind_table w r ! (2 * i)) (bind_table w r ! (2 * i + 1))
                (bind_table f r ! (2 * i)) (bind_table f r ! (2 * i + 1))) z [0..<m])"
  using m
proof (induction m)
  case (Suc m)
  then have m: "m < length w div 2 div 2" "m < length f div 2 div 2" using len by simp_all
  note entries = fold_entries [OF fold m(1) refl, of r] fold_entries [OF fold m(2) refl, of r]
  show ?case using Suc by (simp add: Let_def entries del: mult_Suc_right One_nat_def add_2_eq_Suc add_2_eq_Suc')
qed simp

lemma fused_witness_loop:
  assumes fold: "\<And>r l h. fold_pair r l h = l + r * (h - l)" and m: "m \<le> length w div 2 div 2"
  shows "foldl (\<lambda>(w, acc) i.
       let fw0 = fold_pair r (w ! (4 * i)) (w ! (4 * i + 1));
           fw1 = fold_pair r (w ! (4 * i + 2)) (w ! (4 * i + 3))
       in (w[2 * i := fw0, 2 * i + 1 := fw1],
           accum_pair A acc fw0 fw1 (f ! (2 * i)) (f ! (2 * i + 1)))) (w, z) [0..<m]
     = (take (2 * m) (bind_table w r) @ drop (2 * m) w,
        foldl (\<lambda>acc i. accum_pair A acc (bind_table w r ! (2 * i)) (bind_table w r ! (2 * i + 1))
                (f ! (2 * i)) (f ! (2 * i + 1))) z [0..<m])"
  using m
proof (induction m)
  case (Suc m)
  then have m: "m < length w div 2 div 2" by simp
  note entries = fold_entries [OF fold m refl, of r]
  show ?case using Suc by (simp add: Let_def entries del: mult_Suc_right One_nat_def add_2_eq_Suc add_2_eq_Suc')
qed simp

lemma fused_head_with_eq:
  assumes A: "accum_ok A" and fold: "\<And>r l h. fold_pair r l h = l + r * (h - l)"
    and len: "length w = 4 * n" "length f = 4 * n"
  shows "fused_fold_group_head_and_accumulate_with A fold_pair w f r
     = Some ((const_of (bind_table w r) (bind_table f r), quad_of (bind_table w r) (bind_table f r)),
             bind_table w r, bind_table f r)"
proof -
  have q: "length w div 2 div 2 = n" "length w div 2 = 2 * n" using len by simp_all
  have "fused_fold_group_head_and_accumulate_with A fold_pair w f r
      = Some (accum_finish A (foldl (\<lambda>acc i. accum_pair A acc (bind_table w r ! (2 * i))
                (bind_table w r ! (2 * i + 1)) (bind_table f r ! (2 * i)) (bind_table f r ! (2 * i + 1)))
                (accum_zero A) [0..<n]), bind_table w r, bind_table f r)"
    unfolding fused_fold_group_head_and_accumulate_with_def Let_def [of "length w div 2"] Let_def [of "length w div 2 div 2"]
    using fused_head_loop [OF fold, where w = w and f = f and r = r and A = A and z = "accum_zero A" and m = n] len q
    by simp
  then show ?thesis using len by (simp add: accum_ok_upt [OF A] const_of_def quad_of_def)
qed

lemma fused_witness_with_eq:
  assumes A: "accum_ok A" and fold: "\<And>r l h. fold_pair r l h = l + r * (h - l)"
    and len: "length w = 4 * n" "length f = 2 * n"
  shows "fused_fold_witness_and_accumulate_with A fold_pair w f r
     = Some ((const_of (bind_table w r) f, quad_of (bind_table w r) f), bind_table w r)"
proof -
  have q: "length w div 2 div 2 = n" "length w div 2 = 2 * n" using len by simp_all
  have "fused_fold_witness_and_accumulate_with A fold_pair w f r
      = Some (accum_finish A (foldl (\<lambda>acc i. accum_pair A acc (bind_table w r ! (2 * i))
                (bind_table w r ! (2 * i + 1)) (f ! (2 * i)) (f ! (2 * i + 1)))
                (accum_zero A) [0..<n]), bind_table w r)"
    unfolding fused_fold_witness_and_accumulate_with_def Let_def [of "length w div 2"] Let_def [of "length w div 2 div 2"]
    using fused_witness_loop [OF fold, where w = w and f = f and r = r and A = A and z = "accum_zero A" and m = n] len q
    by simp
  then show ?thesis using len by (simp add: accum_ok_upt [OF A] const_of_def quad_of_def)
qed

lemma fused_head_eq:
  assumes "env_ok U" and "length w = 4 * n" "length f = 4 * n"
  shows "fused_fold_group_head_and_accumulate U w f r
     = Some ((const_of (bind_table w r) (bind_table f r), quad_of (bind_table w r) (bind_table f r)),
             bind_table w r, bind_table f r)"
  using assms fused_head_with_eq [OF accum_ok_Direct, of "fold_one U" w n f r]
    fused_head_with_eq [OF accum_ok_Delayed, of U "fold_one U" w n f r]
  by (simp add: fused_fold_group_head_and_accumulate_def env_ok_def)

lemma fused_witness_eq:
  assumes "env_ok U" and "length w = 4 * n" "length f = 2 * n"
  shows "fused_fold_witness_and_accumulate U w f r
     = Some ((const_of (bind_table w r) f, quad_of (bind_table w r) f), bind_table w r)"
  using assms fused_witness_with_eq [OF accum_ok_Direct, of "fold_one U" w n f r]
    fused_witness_with_eq [OF accum_ok_Delayed, of U "fold_one U" w n f r]
  by (simp add: fused_fold_witness_and_accumulate_def env_ok_def)

subsection \<open>Groups\<close>

text \<open>
  \<open>strip\<close> forgets the caches, \<open>group_bind\<close> binds one challenge on the plain tables and
  \<open>group_sum\<close> is the sum a group still stands for.
\<close>

definition strip_term :: "'e eor_term \<Rightarrow> 'e eor_term" where
  "strip_term t = t\<lparr>cached_accumulate := None\<rparr>"

definition strip :: "'e eor_group \<Rightarrow> 'e eor_group" where
  "strip g = g\<lparr>terms := map strip_term (terms g)\<rparr>"

definition group_bind :: "'e::field eor_group \<Rightarrow> 'e \<Rightarrow> 'e eor_group" where
  "group_bind g r =
     (if 1 < length (factor g)
      then g\<lparr>factor := bind_table (factor g) r,
             terms := map (\<lambda>t. t\<lparr>witness := bind_table (witness t) r\<rparr>) (terms g)\<rparr>
      else if extra_round g < length (extra_point g)
      then g\<lparr>extra_factor_eval := extra_factor_eval g * eq_factor (extra_point g ! extra_round g) r,
             extra_round := extra_round g + 1\<rparr>
      else g)"

definition group_sum :: "'e::field eor_group \<Rightarrow> 'e" where
  "group_sum g = (\<Sum>t \<leftarrow> terms g. coeff t * dot (witness t) (factor g)) * extra_factor_eval g"

definition group_const :: "'e::field eor_group \<Rightarrow> 'e" where
  "group_const g =
     (if 1 < length (factor g) then (\<Sum>t \<leftarrow> terms g. coeff t * const_of (witness t) (factor g))
      else group_sum g * (1 - extra_point g ! extra_round g))"

definition group_quad :: "'e::field eor_group \<Rightarrow> 'e" where
  "group_quad g =
     (if 1 < length (factor g) then (\<Sum>t \<leftarrow> terms g. coeff t * quad_of (witness t) (factor g)) else 0)"

text \<open>The invariant of a group with \<open>n\<close> variables left.\<close>

definition group_ok :: "nat \<Rightarrow> 'e::field eor_group \<Rightarrow> bool" where
  "group_ok n g \<longleftrightarrow> n < 64 \<and> terms g \<noteq> [] \<and> extra_round g \<le> length (extra_point g) \<and>
     (\<exists>k. length (factor g) = 2 ^ k \<and> n = k + (length (extra_point g) - extra_round g) \<and>
          (\<forall>t \<in> set (terms g). length (witness t) = 2 ^ k) \<and>
          (0 < k \<longrightarrow> extra_round g = 0 \<and> extra_factor_eval g = 1)) \<and>
     (\<forall>t \<in> set (terms g). \<forall>c. cached_accumulate t = Some c \<longrightarrow>
        c = (coeff t * const_of (witness t) (factor g), coeff t * quad_of (witness t) (factor g)))"

lemma group_okE:
  assumes "group_ok n g"
  obtains k where "length (factor g) = 2 ^ k" "n = k + (length (extra_point g) - extra_round g)"
    "\<forall>t \<in> set (terms g). length (witness t) = 2 ^ k"
    "0 < k \<longrightarrow> extra_round g = 0 \<and> extra_factor_eval g = 1"
  using assms unfolding group_ok_def by blast

lemma double_pow [simp]: "Suc 0 < 2 * 2 ^ n" "\<not> 2 * 2 ^ n \<le> Suc 0"
  by (induction n) simp_all

lemma domain_len_ok: "group_ok n g \<Longrightarrow> domain_len g = 2 ^ n"
proof -
  assume ok: "group_ok n g"
  then obtain k where k: "length (factor g) = 2 ^ k" "n = k + (length (extra_point g) - extra_round g)"
    using group_okE by blast
  have "n < 64" using ok by (simp add: group_ok_def)
  then have "(2::nat) ^ n < 2 ^ 64" by (intro power_strict_increasing) auto
  with \<open>n < 64\<close> k show ?thesis by (simp add: domain_len_def Let_def power_add)
qed

lemma accumulate_terms_eq:
  assumes "env_ok U"
    and "\<And>t. t \<in> set ts \<Longrightarrow> length (witness t) = length f"
    and "\<And>t c. t \<in> set ts \<Longrightarrow> cached_accumulate t = Some c \<Longrightarrow>
           c = (coeff t * const_of (witness t) f, coeff t * quad_of (witness t) f)"
  shows "accumulate_terms U f ts (c0, q0)
     = Some ((c0 + (\<Sum>t \<leftarrow> ts. coeff t * const_of (witness t) f),
              q0 + (\<Sum>t \<leftarrow> ts. coeff t * quad_of (witness t) f)), map strip_term ts)"
  using assms(2,3)
proof (induction ts arbitrary: c0 q0)
  case (Cons t ts)
  have "(case cached_accumulate t of Some cached \<Rightarrow> Some cached
        | None \<Rightarrow> accumulate_dense_round U (witness t) f (coeff t))
      = Some (coeff t * const_of (witness t) f, coeff t * quad_of (witness t) f)"
    using Cons.prems accumulate_dense_round_eq [OF assms(1), of f "witness t" "coeff t"]
    by (auto split: option.split)
  with Cons show ?case by (simp add: strip_term_def add.assoc)
qed simp

lemma dot_single: "length w = 1 \<Longrightarrow> dot w f = w ! 0 * f ! 0"
  by (simp add: dot_def)

lemma foldl_const_terms:
  "foldl (\<lambda>(c, q) t. (c + h t, q)) (c0, q0) ts = (c0 + (\<Sum>t \<leftarrow> ts. h t), q0)"
  for c0 :: "'e::comm_monoid_add"
  by (induction ts arbitrary: c0) (simp_all add: add.assoc)

lemma accumulate_into_eq:
  assumes U: "env_ok U" and ok: "group_ok (Suc n) g"
  shows "\<exists>g'. accumulate_into U g (c0, q0) = Some ((c0 + group_const g, q0 + group_quad g), g')
     \<and> strip g' = strip g \<and> group_ok (Suc n) g'"
proof -
  obtain k where k: "length (factor g) = 2 ^ k" "Suc n = k + (length (extra_point g) - extra_round g)"
    "\<forall>t \<in> set (terms g). length (witness t) = 2 ^ k"
    "0 < k \<longrightarrow> extra_round g = 0 \<and> extra_factor_eval g = 1"
    by (rule group_okE [OF ok])
  show ?thesis
  proof (cases "k = 0")
    case True
    then have ex: "extra_round g < length (extra_point g)" using k(2) by simp
    have single: "length (factor g) = 1" "\<And>t. t \<in> set (terms g) \<Longrightarrow> length (witness t) = 1"
      using k True by simp_all
    let ?f = "factor g ! 0 * extra_factor_eval g * (1 - extra_point g ! extra_round g)"
    have "coeff t * witness t ! 0 * ?f = coeff t * dot (witness t) (factor g)
        * (extra_factor_eval g * (1 - extra_point g ! extra_round g))" if "t \<in> set (terms g)" for t
      using single(2) [OF that] by (simp add: dot_single mult.assoc)
    then have "(\<Sum>t \<leftarrow> terms g. coeff t * witness t ! 0 * ?f)
        = (\<Sum>t \<leftarrow> terms g. coeff t * dot (witness t) (factor g)
             * (extra_factor_eval g * (1 - extra_point g ! extra_round g)))"
      by (intro arg_cong [where f = sum_list] map_cong refl)
    also have "\<dots> = group_const g"
      unfolding sum_list_mult_const using single(1) by (simp add: group_const_def group_sum_def mult.assoc)
    finally have "(\<Sum>t \<leftarrow> terms g. coeff t * witness t ! 0 * ?f) = group_const g" .
    moreover have "\<not> list_ex (\<lambda>t. witness t = []) (terms g)"
      using single(2) by (force simp: list_ex_iff)
    ultimately have "accumulate_into U g (c0, q0) = Some ((c0 + group_const g, q0 + group_quad g), g)"
      using ex single(1) by (auto simp: accumulate_into_def group_quad_def foldl_const_terms list_ex_iff Let_def)
    with ok show ?thesis by auto
  next
    case False
    then have "1 < length (factor g)" using k(1) by (cases k) auto
    moreover have "accumulate_terms U (factor g) (terms g) (c0, q0)
        = Some ((c0 + group_const g, q0 + group_quad g), map strip_term (terms g))"
    proof -
      have "accumulate_terms U (factor g) (terms g) (c0, q0)
          = Some ((c0 + (\<Sum>t \<leftarrow> terms g. coeff t * const_of (witness t) (factor g)),
                   q0 + (\<Sum>t \<leftarrow> terms g. coeff t * quad_of (witness t) (factor g))), map strip_term (terms g))"
        using k(1,3) ok by (intro accumulate_terms_eq [OF U]) (auto simp: group_ok_def)
      with calculation show ?thesis by (simp add: group_const_def group_quad_def)
    qed
    moreover have "strip (g\<lparr>terms := map strip_term (terms g)\<rparr>) = strip g"
      "group_ok (Suc n) (g\<lparr>terms := map strip_term (terms g)\<rparr>)"
      using ok by (auto simp: strip_def strip_term_def group_ok_def)
    ultimately show ?thesis by (simp add: accumulate_into_def)
  qed
qed

lemma collect_option_map_Some:
  "(\<And>x. x \<in> set xs \<Longrightarrow> f x = Some (h x)) \<Longrightarrow> collect_option (map f xs) = Some (map h xs)"
  by (induction xs) simp_all

lemma bind_table_pow: "length evs = 2 ^ Suc k \<Longrightarrow> length (bind_table evs r) = 2 ^ k"
  by simp

text \<open>Refinement: the in-place, caching \<open>ingest_challenge\<close> implements \<open>group_bind\<close>.\<close>

lemma group_ingest_native:
  assumes U: "env_ok U" and ok: "group_ok (Suc n) g" and big: "1 < length (factor g)"
  shows "\<exists>g'. group_ingest_challenge U g r = Some g' \<and> strip g' = group_bind (strip g) r \<and> group_ok n g'"
proof -
  obtain k0 where k0: "length (factor g) = 2 ^ k0" "Suc n = k0 + (length (extra_point g) - extra_round g)"
    "\<forall>t \<in> set (terms g). length (witness t) = 2 ^ k0"
    "0 < k0 \<longrightarrow> extra_round g = 0 \<and> extra_factor_eval g = 1" by (rule group_okE [OF ok])
  obtain k where "k0 = Suc k" using big k0(1) by (cases k0) auto
  note k = k0 [unfolded this]
  have dom: "\<not> domain_len g \<le> 1" using domain_len_ok [OF ok] by simp
  let ?f = "bind_table (factor g) r"
  let ?next = "\<lambda>cache. g\<lparr>factor := ?f, terms := map (\<lambda>t. t\<lparr>witness := bind_table (witness t) r,
      cached_accumulate := cache t\<rparr>) (terms g)\<rparr>"
  have result: "strip (?next cache) = group_bind (strip g) r \<and> group_ok n (?next cache)"
    if "\<And>t c. cache t = Some c \<Longrightarrow> c = (coeff t * const_of (bind_table (witness t) r) ?f,
                                       coeff t * quad_of (bind_table (witness t) r) ?f)" for cache
    using that ok k big
    by (auto simp: strip_def strip_term_def group_bind_def group_ok_def intro!: exI [of _ k])
  show ?thesis
  proof (cases k)
    case 0
    then have len: "length (factor g) = 2" "\<forall>t \<in> set (terms g). length (witness t) = 2"
      using k by simp_all
    have fold: "fold_evals_in_place (fold_one U) (parallel_feature U) evs r = Some (bind_table evs r)"
      if "length evs = 2" for evs
      using that U by (intro fold_evals_even) (auto simp: env_ok_def)
    have "group_ingest_challenge U g r = Some (?next (\<lambda>_. None))"
      using dom len fold [of "factor g"]
        collect_option_map_Some [of "terms g" "\<lambda>t. map_option (\<lambda>w. t\<lparr>witness := w, cached_accumulate := None\<rparr>)
            (fold_evals_in_place (fold_one U) (parallel_feature U) (witness t) r)"
          "\<lambda>t. t\<lparr>witness := bind_table (witness t) r, cached_accumulate := None\<rparr>"]
      by (simp add: group_ingest_challenge_def fold)
    with result [of "\<lambda>_. None"] show ?thesis by auto
  next
    case (Suc j)
    then have len: "length (factor g) = 4 * 2 ^ j" "\<forall>t \<in> set (terms g). length (witness t) = 4 * 2 ^ j"
      using k by simp_all
    let ?cache = "\<lambda>t. Some (coeff t * const_of (bind_table (witness t) r) ?f,
                            coeff t * quad_of (bind_table (witness t) r) ?f)"
    obtain t ts where ts: "terms g = t # ts" using ok by (cases "terms g") (auto simp: group_ok_def)
    have "length ?f = 2 * 2 ^ j" using len(1) by simp
    then have rest: "collect_option (map (fold_remaining_term U ?f r) ts)
        = Some (map (\<lambda>t. t\<lparr>witness := bind_table (witness t) r, cached_accumulate := ?cache t\<rparr>) ts)"
      using len(2) ts by (intro collect_option_map_Some)
        (simp add: fold_remaining_term_def fused_witness_eq [OF U, of _ "2 ^ j"])
    have four: "4 \<le> length (factor g)" using len(1) by simp
    have head: "fused_fold_group_head_and_accumulate U (witness t) (factor g) r
        = Some ((const_of (bind_table (witness t) r) ?f, quad_of (bind_table (witness t) r) ?f),
                bind_table (witness t) r, ?f)"
      using fused_head_eq [OF U, of "witness t" "2 ^ j" "factor g" r] len ts by simp
    have "group_ingest_challenge U g r = Some (?next ?cache)"
      using dom four ts head rest big by (simp add: group_ingest_challenge_def)
    with result [of ?cache] show ?thesis by auto
  qed
qed

lemma group_ingest_extra:
  assumes ok: "group_ok (Suc n) g" and small: "\<not> 1 < length (factor g)"
  shows "\<exists>g'. group_ingest_challenge U g r = Some g' \<and> strip g' = group_bind (strip g) r \<and> group_ok n g'"
proof -
  obtain k where k: "length (factor g) = 2 ^ k" "Suc n = k + (length (extra_point g) - extra_round g)"
    "\<forall>t \<in> set (terms g). length (witness t) = 2 ^ k"
    "0 < k \<longrightarrow> extra_round g = 0 \<and> extra_factor_eval g = 1" by (rule group_okE [OF ok])
  have k0: "k = 0" using small k(1) by (cases k) auto
  then have ex: "extra_round g < length (extra_point g)" using k(2) by simp
  let ?p = "extra_point g ! extra_round g"
  let ?g = "g\<lparr>extra_factor_eval := extra_factor_eval g * ((1 - ?p) * (1 - r) + ?p * r),
             extra_round := extra_round g + 1\<rparr>"
  have "\<not> domain_len g \<le> 1" using domain_len_ok [OF ok] by simp
  then have "group_ingest_challenge U g r = Some ?g"
    using small ex by (simp add: group_ingest_challenge_def Let_def)
  moreover have "strip ?g = group_bind (strip g) r"
    using small ex by (simp add: strip_def group_bind_def eq_factor_def add.commute)
  moreover have "group_ok n ?g"
  proof -
    have "n < 64" "terms g \<noteq> []" "\<forall>t \<in> set (terms g). \<forall>c. cached_accumulate t = Some c \<longrightarrow>
        c = (coeff t * const_of (witness t) (factor g), coeff t * quad_of (witness t) (factor g))"
      using ok unfolding group_ok_def by simp_all
    moreover have "\<exists>k. length (factor ?g) = 2 ^ k \<and> n = k + (length (extra_point ?g) - extra_round ?g) \<and>
        (\<forall>t \<in> set (terms ?g). length (witness t) = 2 ^ k) \<and>
        (0 < k \<longrightarrow> extra_round ?g = 0 \<and> extra_factor_eval ?g = 1)"
      using k k0 by (intro exI [of _ 0]) simp
    ultimately show ?thesis using ex unfolding group_ok_def by simp
  qed
  ultimately show ?thesis by blast
qed

lemma group_ingest_refines:
  assumes "env_ok U" and "group_ok (Suc n) g"
  shows "\<exists>g'. group_ingest_challenge U g r = Some g' \<and> strip g' = group_bind (strip g) r \<and> group_ok n g'"
  using assms group_ingest_native group_ingest_extra by blast

lemma group_bind_sum:
  assumes ok: "group_ok (Suc n) g"
  shows "group_sum (group_bind g r)
     = group_const g + r * (group_sum g - group_const g - group_const g - group_quad g) + r * r * group_quad g"
proof -
  obtain k where k: "length (factor g) = 2 ^ k" "Suc n = k + (length (extra_point g) - extra_round g)"
    "\<forall>t \<in> set (terms g). length (witness t) = 2 ^ k"
    "0 < k \<longrightarrow> extra_round g = 0 \<and> extra_factor_eval g = 1" by (rule group_okE [OF ok])
  show ?thesis
  proof (cases k)
    case 0
    let ?p = "extra_point g ! extra_round g" and ?X = "group_sum g"
    have ex: "extra_round g < length (extra_point g)" using 0 k(2) by simp
    have "group_sum (group_bind g r) = ?X * eq_factor ?p r" "group_const g = ?X * (1 - ?p)"
        "group_quad g = 0"
      using 0 k ex by (simp_all add: group_bind_def group_const_def group_quad_def group_sum_def)
    moreover have "?X * eq_factor ?p r = ?X * (1 - ?p) + r * (?X - ?X * (1 - ?p) - ?X * (1 - ?p) - 0) + r * r * 0"
      unfolding eq_factor_def by algebra
    ultimately show ?thesis by (simp only:)
  next
    case (Suc j)
    then have big: "1 < length (factor g)" and e: "extra_factor_eval g = 1" using k by auto
    have "coeff t * dot (bind_table (witness t) r) (bind_table (factor g) r)
        = coeff t * const_of (witness t) (factor g)
          + r * (coeff t * dot (witness t) (factor g) - coeff t * const_of (witness t) (factor g)
                 - coeff t * const_of (witness t) (factor g) - coeff t * quad_of (witness t) (factor g))
          + r * r * (coeff t * quad_of (witness t) (factor g))" if "t \<in> set (terms g)" for t
    proof -
      have "dot (bind_table (witness t) r) (bind_table (factor g) r)
          = const_of (witness t) (factor g) + r * (dot (witness t) (factor g)
              - const_of (witness t) (factor g) - const_of (witness t) (factor g)
              - quad_of (witness t) (factor g)) + r * r * quad_of (witness t) (factor g)"
        using k that Suc by (intro dot_bind_table [of _ "2 ^ j"]) simp_all
      then show ?thesis by algebra
    qed
    then have "group_sum (group_bind g r) = (\<Sum>t \<leftarrow> terms g. coeff t * const_of (witness t) (factor g)
          + r * (coeff t * dot (witness t) (factor g) - coeff t * const_of (witness t) (factor g)
                 - coeff t * const_of (witness t) (factor g) - coeff t * quad_of (witness t) (factor g))
          + r * r * (coeff t * quad_of (witness t) (factor g)))"
      using big e by (simp add: group_bind_def group_sum_def comp_def cong: map_cong)
    then show ?thesis
      using big e by (simp add: group_sum_def group_const_def group_quad_def sum_list_addf
          sum_list_subtractf sum_list_const_mult)
  qed
qed

subsection \<open>The prover meets the contract\<close>

text \<open>
  After binding \<open>rs\<close>, starting from \<open>p0\<close>: the groups are those of \<open>p0\<close> with \<open>rs\<close> bound
  on their plain tables, up to caches, and the claim is the sum they stand for.
\<close>

definition eor_holds ::
  "('w, 'e::field) eor_env \<Rightarrow> 'e eor_prover \<Rightarrow> 'e eor_prover option \<Rightarrow> 'e list \<Rightarrow> 'e \<Rightarrow> bool" where
  "eor_holds U p0 s rs c \<longleftrightarrow> env_ok U \<and> (\<exists>p. s = Some p \<and> eor_num_rounds p = eor_num_rounds p0 \<and>
     length rs \<le> eor_num_rounds p \<and>
     list_all (group_ok (eor_num_rounds p - length rs)) (groups p) \<and>
     map strip (groups p) = map (\<lambda>g. foldl group_bind (strip g) rs) (groups p0) \<and>
     c = (\<Sum>g \<leftarrow> groups p. group_sum g))"

lemma group_sum_strip [simp]:
  "group_sum (strip g) = group_sum g" "group_const (strip g) = group_const g"
  "group_quad (strip g) = group_quad g"
  by (simp_all add: strip_def strip_term_def group_sum_def group_const_def group_quad_def comp_def)

lemma group_sum_cong_strip:
  assumes "strip g' = strip g"
  shows "group_sum g' = group_sum g" "group_const g' = group_const g" "group_quad g' = group_quad g"
  using assms by (metis group_sum_strip)+

lemma group_ok_strip: "group_ok n g \<Longrightarrow> group_ok n (strip g)"
  by (auto simp: strip_def strip_term_def group_ok_def)

lemma accumulate_groups_eq:
  assumes U: "env_ok U" and "list_all (group_ok (Suc n)) gs"
  shows "\<exists>gs'. accumulate_groups U gs (c0, q0) = Some ((c0 + (\<Sum>g \<leftarrow> gs. group_const g),
           q0 + (\<Sum>g \<leftarrow> gs. group_quad g)), gs')
     \<and> map strip gs' = map strip gs \<and> list_all (group_ok (Suc n)) gs'"
  using assms(2)
proof (induction gs arbitrary: c0 q0)
  case (Cons g gs)
  obtain g' where g': "accumulate_into U g (c0, q0) = Some ((c0 + group_const g, q0 + group_quad g), g')"
      "strip g' = strip g" "group_ok (Suc n) g'"
    using accumulate_into_eq [OF U] Cons.prems by force
  obtain gs' where gs': "accumulate_groups U gs (c0 + group_const g, q0 + group_quad g)
        = Some ((c0 + group_const g + (\<Sum>g \<leftarrow> gs. group_const g),
                 q0 + group_quad g + (\<Sum>g \<leftarrow> gs. group_quad g)), gs')"
      "map strip gs' = map strip gs" "list_all (group_ok (Suc n)) gs'"
    using Cons by force
  show ?case using g' gs' by (simp add: add.assoc)
qed simp

lemma ingest_groups_eq:
  assumes U: "env_ok U" and "list_all (group_ok (Suc n)) gs"
  shows "\<exists>gs'. collect_option (map (\<lambda>g. group_ingest_challenge U g r) gs) = Some gs'
     \<and> map strip gs' = map (\<lambda>g. group_bind (strip g) r) gs \<and> list_all (group_ok n) gs'"
  using assms(2)
proof (induction gs)
  case (Cons g gs)
  obtain g' where "group_ingest_challenge U g r = Some g'" "strip g' = group_bind (strip g) r" "group_ok n g'"
    using group_ingest_refines [OF U] Cons.prems by force
  with Cons show ?case by auto
qed simp

lemma sum_group_bind:
  assumes "list_all (group_ok (Suc n)) gs"
  shows "(\<Sum>g \<leftarrow> gs. group_sum (group_bind (strip g) r)) = (\<Sum>g \<leftarrow> gs. group_const g)
     + r * ((\<Sum>g \<leftarrow> gs. group_sum g) - (\<Sum>g \<leftarrow> gs. group_const g) - (\<Sum>g \<leftarrow> gs. group_const g)
            - (\<Sum>g \<leftarrow> gs. group_quad g)) + r * r * (\<Sum>g \<leftarrow> gs. group_quad g)"
proof -
  have "(\<Sum>g \<leftarrow> gs. group_sum (group_bind (strip g) r)) = (\<Sum>g \<leftarrow> gs. group_const g
      + r * (group_sum g - group_const g - group_const g - group_quad g) + r * r * group_quad g)"
  proof (intro arg_cong [where f = sum_list] map_cong refl)
    fix g assume "g \<in> set gs"
    then have "group_ok (Suc n) (strip g)" using assms by (auto simp: list_all_iff intro: group_ok_strip)
    from group_bind_sum [OF this, of r]
    show "group_sum (group_bind (strip g) r) = group_const g
        + r * (group_sum g - group_const g - group_const g - group_quad g) + r * r * group_quad g"
      by (simp only: group_sum_strip)
  qed
  then show ?thesis by (simp only: sum_list_addf sum_list_subtractf sum_list_const_mult)
qed

lemma eor_round:
  assumes h: "eor_holds U p0 s rs c" and more: "length rs < num_rounds (eor_instance U) s"
  shows "\<exists>g p1 p2 q. compute_round_univariate (eor_instance U) s (length rs) c = (g, Some p1)
     \<and> g = UniPoly [q, c - q - q - (\<Sum>g \<leftarrow> groups p1. group_quad g), \<Sum>g \<leftarrow> groups p1. group_quad g]
     \<and> eor_num_rounds p1 = eor_num_rounds p0
     \<and> ingest_challenge (eor_instance U) (Some p1) (length rs) r = Some p2
     \<and> eor_holds U p0 (Some p2) (rs @ [r]) (evaluate g r)"
proof -
  obtain p where p: "s = Some p" "eor_num_rounds p = eor_num_rounds p0" and U: "env_ok U"
      and ok: "list_all (group_ok (eor_num_rounds p - length rs)) (groups p)"
      and str: "map strip (groups p) = map (\<lambda>g. foldl group_bind (strip g) rs) (groups p0)"
      and c: "c = (\<Sum>g \<leftarrow> groups p. group_sum g)"
    using h by (auto simp: eor_holds_def)
  define n where "n = eor_num_rounds p - Suc (length rs)"
  have lt: "length rs < eor_num_rounds p" using more p by (simp add: eor_instance_def)
  then have n: "eor_num_rounds p - length rs = Suc n" by (simp add: n_def)
  obtain gs1 where gs1: "accumulate_groups U (groups p) (0, 0)
        = Some ((\<Sum>g \<leftarrow> groups p. group_const g, \<Sum>g \<leftarrow> groups p. group_quad g), gs1)"
      "map strip gs1 = map strip (groups p)" "list_all (group_ok (Suc n)) gs1"
    using accumulate_groups_eq [OF U, of n "groups p" 0 0] ok n by auto
  obtain gs2 where gs2: "collect_option (map (\<lambda>g. group_ingest_challenge U g r) gs1) = Some gs2"
      "map strip gs2 = map (\<lambda>g. group_bind (strip g) r) gs1" "list_all (group_ok n) gs2"
    using ingest_groups_eq [OF U gs1(3)] by blast
  have same: "(\<Sum>g \<leftarrow> gs1. h g) = (\<Sum>g \<leftarrow> groups p. h g)" if "\<And>g. h (strip g) = h g" for h :: "_ \<Rightarrow> 'b"
  proof -
    have "map h xs = map h (map strip xs)" for xs using that by simp
    then show ?thesis using gs1(2) by metis
  qed
  let ?q = "\<Sum>g \<leftarrow> gs1. group_const g" and ?Q = "\<Sum>g \<leftarrow> gs1. group_quad g"
  let ?g = "UniPoly [?q, c - ?q - ?q - ?Q, ?Q]"
  have comp: "compute_round_univariate (eor_instance U) s (length rs) c = (?g, Some (p\<lparr>groups := gs1\<rparr>))"
    using gs1(1) p(1) by (simp add: eor_instance_def eor_compute_round_univariate_def same)
  have ing: "ingest_challenge (eor_instance U) (Some (p\<lparr>groups := gs1\<rparr>)) (length rs) r
      = Some (p\<lparr>groups := gs2\<rparr>)"
    using gs2(1) by (simp add: eor_instance_def eor_ingest_challenge_def)
  have "(\<Sum>g \<leftarrow> gs2. group_sum g) = (\<Sum>g \<leftarrow> map strip gs2. group_sum g)" by (simp add: comp_def)
  also have "\<dots> = (\<Sum>g \<leftarrow> gs1. group_sum (group_bind (strip g) r))" by (simp add: gs2(2) comp_def)
  also have "\<dots> = evaluate ?g r"
    by (simp add: sum_group_bind [OF gs1(3)] c same evaluate_horner algebra_simps)
  finally have "evaluate ?g r = (\<Sum>g \<leftarrow> gs2. group_sum g)" ..
  moreover have "map strip gs2 = map (\<lambda>g. foldl group_bind (strip g) (rs @ [r])) (groups p0)"
  proof -
    have "map strip gs2 = map (\<lambda>g. group_bind g r) (map strip (groups p))"
      by (simp add: gs2(2) comp_def flip: gs1(2))
    then show ?thesis by (simp add: str comp_def)
  qed
  ultimately have "eor_holds U p0 (Some (p\<lparr>groups := gs2\<rparr>)) (rs @ [r]) (evaluate ?g r)"
    using U p gs2(3) lt by (simp add: eor_holds_def n_def)
  with comp ing p(2) show ?thesis by fastforce
qed

interpretation eor: sumcheck_instance "eor_instance U" "eor_holds U p0"
proof
  fix s rs c g s1 r
  assume h: "eor_holds U p0 s rs c" "length rs < num_rounds (eor_instance U) s"
    and comp: "compute_round_univariate (eor_instance U) s (length rs) c = (g, s1)"
  obtain p1 p2 q where r: "s1 = Some p1"
      "g = UniPoly [q, c - q - q - (\<Sum>g \<leftarrow> groups p1. group_quad g), \<Sum>g \<leftarrow> groups p1. group_quad g]"
      "eor_num_rounds p1 = eor_num_rounds p0"
      "ingest_challenge (eor_instance U) s1 (length rs) r = Some p2"
      "eor_holds U p0 (Some p2) (rs @ [r]) (evaluate g r)"
    using eor_round [OF h, of r] comp by auto
  obtain p where p: "s = Some p" "eor_num_rounds p = eor_num_rounds p0"
    using h(1) by (auto simp: eor_holds_def)
  show "evaluate g 0 + evaluate g 1 = c" by (simp add: r(2) evaluate_horner)
  show "uni_degree g \<le> degree_bound (eor_instance U) s"
    by (simp add: r(2) uni_degree_def eor_instance_def EXTENSION_OPENING_REDUCTION_DEGREE_def)
  show "eor_holds U p0 (ingest_challenge (eor_instance U) s1 (length rs) r) (rs @ [r]) (evaluate g r)"
    using r(4,5) by simp
  have "eor_num_rounds p2 = eor_num_rounds p0" using r(5) by (auto simp: eor_holds_def)
  then show "num_rounds (eor_instance U) s1 = num_rounds (eor_instance U) s
      \<and> num_rounds (eor_instance U) (ingest_challenge (eor_instance U) s1 (length rs) r)
          = num_rounds (eor_instance U) s
      \<and> degree_bound (eor_instance U) (ingest_challenge (eor_instance U) s1 (length rs) r)
          = degree_bound (eor_instance U) s"
    using r(1,3,4) p by (simp add: eor_instance_def)
qed

subsection \<open>The final claim\<close>

lemma group_final_terms_ok:
  assumes "group_ok 0 g"
  shows "\<exists>ts. group_final_terms g = Some ts \<and> group_sum g = (\<Sum>(c, w, f) \<leftarrow> ts. c * w * f)"
proof -
  obtain k where k: "length (factor g) = 2 ^ k" "0 = k + (length (extra_point g) - extra_round g)"
    "\<forall>t \<in> set (terms g). length (witness t) = 2 ^ k"
    "0 < k \<longrightarrow> extra_round g = 0 \<and> extra_factor_eval g = 1" by (rule group_okE [OF assms])
  have "extra_round g = length (extra_point g)" using k(2) assms by (simp add: group_ok_def)
  moreover have single: "\<forall>t \<in> set (terms g). length (witness t) = 1" "length (factor g) = 1" using k by auto
  ultimately have "group_final_terms g
      = Some (map (\<lambda>t. (coeff t, witness t ! 0, factor g ! 0 * extra_factor_eval g)) (terms g))"
    by (auto simp: group_final_terms_def list_ex_iff Let_def)
  moreover have "group_sum g
      = (\<Sum>t \<leftarrow> terms g. coeff t * witness t ! 0 * (factor g ! 0 * extra_factor_eval g))"
  proof -
    have "(\<Sum>t \<leftarrow> terms g. coeff t * dot (witness t) (factor g))
        = (\<Sum>t \<leftarrow> terms g. coeff t * witness t ! 0 * factor g ! 0)"
      using single by (intro arg_cong [where f = sum_list] map_cong) (auto simp: dot_single)
    then show ?thesis by (simp add: group_sum_def sum_list_mult_const mult.assoc flip: mult.assoc)
  qed
  ultimately show ?thesis by (simp add: comp_def)
qed

lemma final_terms_fold:
  assumes "list_all (group_ok 0) gs"
  shows "\<exists>ts. try_fold_option (\<lambda>out g. map_option (\<lambda>ts. out @ ts) (group_final_terms g)) out gs = Some (out @ ts)
     \<and> (\<Sum>g \<leftarrow> gs. group_sum g) = (\<Sum>(c, w, f) \<leftarrow> ts. c * w * f)"
  using assms
proof (induction gs arbitrary: out)
  case (Cons g gs)
  obtain ts1 where ts1: "group_final_terms g = Some ts1" "group_sum g = (\<Sum>(c, w, f) \<leftarrow> ts1. c * w * f)"
    using group_final_terms_ok Cons.prems by force
  obtain ts2 where ts2: "try_fold_option (\<lambda>out g. map_option (\<lambda>ts. out @ ts) (group_final_terms g)) (out @ ts1) gs
        = Some ((out @ ts1) @ ts2)" "(\<Sum>g \<leftarrow> gs. group_sum g) = (\<Sum>(c, w, f) \<leftarrow> ts2. c * w * f)"
    using Cons.IH [of "out @ ts1"] Cons.prems by auto
  show ?case by (rule exI [of _ "ts1 @ ts2"]) (simp add: ts1 ts2)
qed simp

lemma eor_final_claim:
  assumes "eor_holds U p0 s rs c" and "length rs = eor_num_rounds p0"
  shows "\<exists>p ts. s = Some p \<and> eor_final_terms p = Some ts \<and> c = (\<Sum>(c, w, f) \<leftarrow> ts. c * w * f)"
  using assms final_terms_fold [where out = "[]"] by (fastforce simp: eor_holds_def eor_final_terms_def)

lemma group_bind_iterate:
  "length (factor g) = 2 ^ (length rs + m) \<Longrightarrow>
   foldl group_bind g rs = g\<lparr>factor := foldl bind_table (factor g) rs,
      terms := map (\<lambda>t. t\<lparr>witness := foldl bind_table (witness t) rs\<rparr>) (terms g)\<rparr>"
proof (induction rs arbitrary: g)
  case (Cons r rs)
  let ?g = "group_bind g r"
  have g: "?g = g\<lparr>factor := bind_table (factor g) r,
      terms := map (\<lambda>t. t\<lparr>witness := bind_table (witness t) r\<rparr>) (terms g)\<rparr>"
    using Cons.prems by (simp add: group_bind_def)
  then have "length (factor ?g) = 2 ^ (length rs + m)" using Cons.prems by simp
  from Cons.IH [OF this] show ?case by (simp add: g comp_def)
qed simp

lemma length_bind_tables:
  "length evs = 2 ^ (length rs + m) \<Longrightarrow> length (foldl bind_table evs rs) = 2 ^ m"
  by (induction rs arbitrary: evs) simp_all

lemma bind_all_value:
  assumes "length evs = 2 ^ length rs"
  shows "foldl bind_table evs rs ! 0 = mle_at evs rs"
proof -
  have "length (foldl bind_table evs rs) = 1" using assms length_bind_tables [of evs rs 0] by simp
  then have "mle_at (foldl bind_table evs rs) [] = foldl bind_table evs rs ! 0"
    by (simp add: mle_at_def padded_def)
  with mle_at_bind_tables [of evs rs "[]"] assms show ?thesis by simp
qed

subsection \<open>Dense instances\<close>

lemma table_len_ok:
  "num_rounds_from_table_len (2 ^ n) = Inr n"
  by (auto simp: num_rounds_from_table_len_def is_power_of_two_iff)

lemma from_dense_tables_eq:
  assumes "length w = 2 ^ n" and "length f = 2 ^ n" and "n < 64"
  shows "from_dense_tables w f = Inr \<lparr>groups = [\<lparr>terms = [term_new w 1], factor = f, extra_point = [],
            extra_round = 0, extra_factor_eval = 1\<rparr>], eor_input_claim = dot w f, eor_num_rounds = n\<rparr>"
proof -
  have v: "validate_reduction_tables w f = Inr ()"
    using assms by (simp add: validate_reduction_tables_def table_len_ok)
  have claim: "extension_opening_reduction_claim w f = Inr (dot w f)"
    using assms v by (simp add: extension_opening_reduction_claim_def foldl_zip_sum dot_def)
  have "(2::nat) ^ n < 2 ^ 64" using assms(3) by (intro power_strict_increasing) auto
  then show ?thesis
    using assms v claim
    by (simp add: from_dense_tables_def group_new_def term_new_def eor_new_def domain_len_def table_len_ok)
qed

lemma dense_holds:
  assumes "env_ok U" and w: "length w = 2 ^ n" and f: "length f = 2 ^ n" and n: "n < 64"
    and p: "from_dense_tables w f = Inr p"
  shows "eor_holds U p (Some p) [] (dot w f)" "eor_num_rounds p = n" "eor_input_claim p = dot w f"
  using assms p unfolding from_dense_tables_eq [OF w f n]
  by (auto simp: eor_holds_def group_ok_def group_sum_def term_new_def)

lemma dense_final:
  fixes w f :: "'e::field list"
  assumes "from_dense_tables w f = Inr p" and w: "length w = 2 ^ n" and f: "length f = 2 ^ n" and n: "n < 64"
    and h: "eor_holds U p s rs c" and rs: "length rs = n"
  shows "c = mle_at w rs * mle_at f rs"
proof -
  obtain p' :: "'e eor_prover" where p': "map strip (groups p') = map (\<lambda>g. foldl group_bind (strip g) rs) (groups p)"
      "c = (\<Sum>g \<leftarrow> groups p'. group_sum g)"
    using h unfolding eor_holds_def by blast
  let ?g = "\<lparr>terms = [term_new w 1], factor = f, extra_point = [], extra_round = 0, extra_factor_eval = 1\<rparr>"
  have "groups p = [?g]" using assms(1) by (auto simp: from_dense_tables_eq [OF w f n])
  then have "map strip (groups p') = [foldl group_bind (strip ?g) rs]" by (simp add: p'(1))
  then have "c = group_sum (foldl group_bind (strip ?g) rs)"
    by (auto simp: p'(2) map_eq_Cons_conv) (metis group_sum_strip(1))
  also have "\<dots> = dot (foldl bind_table w rs) (foldl bind_table f rs)"
    using f rs by (simp add: group_bind_iterate [where m = 0] strip_def group_sum_def term_new_def strip_term_def)
  also have "\<dots> = mle_at w rs * mle_at f rs"
    using w f rs length_bind_tables [of w rs 0] by (simp add: dot_def bind_all_value)
  finally show ?thesis .
qed

subsection \<open>Properties\<close>

definition dense_verifier :: "bool \<Rightarrow> nat \<Rightarrow> nat \<Rightarrow> 'e::field list \<Rightarrow> 'e list \<Rightarrow> 'e \<Rightarrow> 'e sumcheck_verifier" where
  "dense_verifier par sz n w f claim =
     \<lparr>v_num_rounds = n, v_degree_bound = EXTENSION_OPENING_REDUCTION_DEGREE, v_input_claim = claim,
      expected_output_claim = extension_opening_reduction_eval_at_point par sz w f\<rparr>"


definition rat_env :: "(rat, rat) eor_env" where
  "rat_env =
     \<lparr>SUM_IS_EXACT = True, product_zero = 0, product_add = (+), mul_unreduced = (*),
      reduce_product = (\<lambda>x. x), fold_one = (\<lambda>r l h. l + r * (h - l)), parallel_feature = True\<rparr>"

lemma rat_env_ok: "env_ok rat_env"
proof -
  have "foldl (\<lambda>acc (a, b). acc + a * b) z ps = z + (\<Sum>(a, b) \<leftarrow> ps. a * b)" for z :: rat and ps
    by (induction ps arbitrary: z) (auto simp: add.assoc)
  then show ?thesis by (simp add: env_ok_def rat_env_def)
qed


text \<open>
  C3: Refinement of the group fold.  For a group whose caches are valid and that still has a
  variable, \<open>ingest_challenge\<close> (fused in-place folds with cached next-round coefficients,
  plain folds on the last native variable, the scalar update on virtual variables) succeeds,
  agrees with binding the challenge on the plain tables, keeps the caches valid, and the
  group's remaining sum moves to the value of the round polynomial at the challenge.
\<close>

theorem eor_group_refinement:
  assumes "env_ok U" and "group_ok (Suc n) g"
  shows "\<exists>g'. group_ingest_challenge U g r = Some g' \<and> strip g' = group_bind (strip g) r
     \<and> group_ok n g'
     \<and> group_sum g' = evaluate (UniPoly [group_const g,
          group_sum g - group_const g - group_const g - group_quad g, group_quad g]) r"
proof -
  obtain g' where g': "group_ingest_challenge U g r = Some g'" "strip g' = group_bind (strip g) r" "group_ok n g'"
    using group_ingest_refines [OF assms] by blast
  have "group_sum g' = group_sum (group_bind (strip g) r)" using g'(2) by (metis group_sum_strip(1))
  also have "\<dots> = evaluate (UniPoly [group_const g,
      group_sum g - group_const g - group_const g - group_quad g, group_quad g]) r"
    using group_bind_sum [OF group_ok_strip [OF assms(2)], of r]
    by (simp add: evaluate_horner algebra_simps)
  finally show ?thesis using g' by blast
qed

theorem eor_group_refinement_witness:
  "\<exists>g'. group_ingest_challenge rat_env
      \<lparr>terms = [term_new [1, 2, 3, 4] 5], factor = [1, 0, 2, 1], extra_point = [7], extra_round = 0,
       extra_factor_eval = 1\<rparr> 2 = Some g'
     \<and> strip g' = group_bind (strip \<lparr>terms = [term_new [1, 2, 3, 4] 5], factor = [1, 0, 2, 1],
          extra_point = [7], extra_round = 0, extra_factor_eval = 1\<rparr>) 2
     \<and> group_ok 2 g'"
proof -
  have "group_ok (Suc 2) \<lparr>terms = [term_new [1, 2, 3, 4 :: rat] 5], factor = [1, 0, 2, 1],
      extra_point = [7], extra_round = 0, extra_factor_eval = 1\<rparr>"
    by (simp add: group_ok_def term_new_def exI [of _ 2])
  from eor_group_refinement [OF rat_env_ok this, of 2] show ?thesis by blast
qed

end
