(* ===== verification/BatchedCorrect.thy ===== *)
theory BatchedCorrect
  imports EorCorrect
begin

text \<open>
  Completeness of the front-loaded batched sumcheck: the single proof produced for several
  instances of different lengths is accepted, and the final claim is the batching-weighted
  sum of the instances' own final claims at their suffix of the challenge point.
\<close>

subsection \<open>Helpers\<close>

lemma mul_pow_2_Suc: "mul_pow_2 x (Suc k) = mul_pow_2 x k + mul_pow_2 x k"
  by (simp add: mul_pow_2_def)

lemma mul_pow_2_0 [simp]: "mul_pow_2 x 0 = x"
  by (simp add: mul_pow_2_def)

lemma mul_pow_2_eq: "mul_pow_2 x k = 2 ^ k * x"
  by (induction k) (simp_all add: mul_pow_2_Suc algebra_simps)

definition halving :: "('e::field \<Rightarrow> 'e) \<Rightarrow> bool" where
  "halving half \<longleftrightarrow> (\<forall>x. half x + half x = x)"

lemma halving_double: "halving half \<Longrightarrow> half (x + x) = x"
proof -
  assume h: "halving half"
  have two: "2 * half y = y" for y using h by (metis halving_def mult_2)
  have "(2 :: 'a) \<noteq> 0" using two [of 1] by (metis mult_zero_left zero_neq_one)
  moreover have "2 * half (x + x) = 2 * x" unfolding two by (rule mult_2 [symmetric])
  ultimately show ?thesis by simp
qed

definition weighted_sum :: "'e::field list \<Rightarrow> 'e list \<Rightarrow> 'e" where
  "weighted_sum claims cs = (\<Sum>(c, b) \<leftarrow> zip claims cs. c * b)"

lemma add_scaled_poly:
  assumes "length (coeffs p) \<le> length res"
  shows "length (foldl (\<lambda>res i. res[i := res ! i + coeffs p ! i * c]) res [0..<length (coeffs p)]) = length res"
    and "horner (foldl (\<lambda>res i. res[i := res ! i + coeffs p ! i * c]) res [0..<length (coeffs p)]) x
           = horner res x + horner (coeffs p) x * c"
proof -
  have "length (foldl (\<lambda>res i. res[i := res ! i + coeffs p ! i * c]) res [0..<m]) = length res
      \<and> horner (foldl (\<lambda>res i. res[i := res ! i + coeffs p ! i * c]) res [0..<m]) x
          = horner res x + horner (take m (coeffs p)) x * c" if "m \<le> length (coeffs p)" for m
    using that
  proof (induction m)
    case (Suc m)
    then show ?case using assms
      by (simp add: horner_update take_Suc_conv_app_nth horner_append algebra_simps)
  qed simp
  from this [of "length (coeffs p)"]
  show "length (foldl (\<lambda>res i. res[i := res ! i + coeffs p ! i * c]) res [0..<length (coeffs p)]) = length res"
    "horner (foldl (\<lambda>res i. res[i := res ! i + coeffs p ! i * c]) res [0..<length (coeffs p)]) x
       = horner res x + horner (coeffs p) x * c" by simp_all
qed

lemma le_foldr_max: "p \<in> set polys \<Longrightarrow> length (coeffs p) \<le> foldr (\<lambda>p m. max (length (coeffs p)) m) polys 0"
  by (induction polys) auto

lemma foldr_max_le:
  "(\<And>p. p \<in> set polys \<Longrightarrow> length (coeffs p) \<le> b) \<Longrightarrow> foldr (\<lambda>p m. max (length (coeffs p)) m) polys 0 \<le> b"
  by (induction polys) auto

definition add_scaled :: "'e::field list \<Rightarrow> 'e uni_poly \<times> 'e \<Rightarrow> 'e list" where
  "add_scaled = (\<lambda>res (p, c). foldl (\<lambda>res i. res[i := res ! i + coeffs p ! i * c]) res
     [0..<length (coeffs p)])"

lemma linear_combination_fold:
  assumes "\<And>p c. (p, c) \<in> set ps \<Longrightarrow> length (coeffs p) \<le> length res"
  shows "length (foldl add_scaled res ps) = length res
     \<and> horner (foldl add_scaled res ps) x = horner res x + (\<Sum>(p, c) \<leftarrow> ps. evaluate p x * c)"
  using assms
proof (induction ps arbitrary: res)
  case (Cons pc ps)
  obtain p c where pc: "pc = (p, c)" by force
  have "length (coeffs p) \<le> length res" using Cons.prems pc by auto
  then have step: "length (add_scaled res pc) = length res"
      "horner (add_scaled res pc) x = horner res x + evaluate p x * c"
    using add_scaled_poly [of p res c] by (simp_all add: add_scaled_def pc evaluate_horner)
  have "length (foldl add_scaled (add_scaled res pc) ps) = length (add_scaled res pc) \<and>
      horner (foldl add_scaled (add_scaled res pc) ps) x
        = horner (add_scaled res pc) x + (\<Sum>(p, c) \<leftarrow> ps. evaluate p x * c)"
    using Cons.prems step(1) by (intro Cons.IH) auto
  with step pc show ?case by (simp add: add.assoc)
qed simp

lemma linear_combination_zip:
  fixes polys :: "'e::field uni_poly list"
  defines "m \<equiv> foldr (\<lambda>p m. max (length (coeffs p)) m) polys 0"
  shows "length (foldl add_scaled (replicate m 0) (zip polys cs)) = m
     \<and> horner (foldl add_scaled (replicate m 0) (zip polys cs)) x
          = (\<Sum>(p, c) \<leftarrow> zip polys cs. evaluate p x * c)"
proof -
  have "length (coeffs p) \<le> length (replicate m (0 :: 'e))" if "(p, c) \<in> set (zip polys cs)" for p c
    using that by (auto simp: m_def intro: le_foldr_max dest: set_zip_leftD)
  from linear_combination_fold [where x = x, OF this] show ?thesis by simp
qed

lemma linear_combination_eq:
  "linear_combination polys cs
     = UniPoly (foldl add_scaled (replicate (foldr (\<lambda>p m. max (length (coeffs p)) m) polys 0) 0) (zip polys cs))"
  by (simp add: linear_combination_def add_scaled_def Let_def)

lemma evaluate_linear_combination:
  "evaluate (linear_combination polys cs) x = weighted_sum (map (\<lambda>p. evaluate p x) polys) cs"
proof -
  have "evaluate (linear_combination polys cs) x = (\<Sum>(p, c) \<leftarrow> zip polys cs. evaluate p x * c)"
    unfolding linear_combination_eq evaluate_horner uni_poly.sel
    using linear_combination_zip [of polys cs x] by (simp add: evaluate_horner)
  then show ?thesis by (simp add: weighted_sum_def zip_map1 comp_def split_def)
qed

lemma degree_linear_combination:
  assumes "\<And>p. p \<in> set polys \<Longrightarrow> uni_degree p \<le> b"
  shows "uni_degree (linear_combination polys cs) \<le> b"
proof -
  let ?m = "foldr (\<lambda>p m. max (length (coeffs p)) m) polys 0"
  have "length (coeffs (linear_combination polys cs)) = ?m"
    unfolding linear_combination_eq uni_poly.sel
    using linear_combination_zip [of polys cs] by simp
  moreover have "?m \<le> Suc b" using assms by (intro foldr_max_le) (force simp: uni_degree_def)
  ultimately show ?thesis by (simp add: uni_degree_def)
qed

subsection \<open>One round\<close>

text \<open>
  The claim of an instance after \<open>length rs\<close> rounds of a batch of \<open>M\<close> rounds: a scaled copy
  of its input claim while it waits, its own running claim once it is active.
\<close>

definition inst_at ::
  "('s, 'e::field) sumcheck_prover \<Rightarrow> ('s \<Rightarrow> 'e list \<Rightarrow> 'e \<Rightarrow> bool) \<Rightarrow> nat \<Rightarrow> 'e list \<Rightarrow> nat \<Rightarrow> nat
    \<Rightarrow> 's \<Rightarrow> 'e \<Rightarrow> bool" where
  "inst_at P holds M rs n bound s c \<longleftrightarrow> sumcheck_instance P holds \<and> num_rounds P s = n \<and> n \<le> M
     \<and> degree_bound P s \<le> bound \<and>
     (if length rs \<le> M - n then \<exists>c0. holds s [] c0 \<and> c = mul_pow_2 c0 (M - n - length rs)
      else holds s (drop (M - n) rs) c)"

lemma inst_round:
  assumes at: "inst_at P holds M rs n bound s c" and lt: "length rs < M" and half: "halving half"
    and g: "batched_univariate P half M (length rs) s c = (g, s1)"
  shows "evaluate g 0 + evaluate g 1 = c" and "uni_degree g \<le> bound"
    and "inst_at P holds M (rs @ [r]) n bound (batched_ingest P M (length rs) r s1) (evaluate g r)"
proof -
  have P: "sumcheck_instance P holds" and n: "num_rounds P s = n" "n \<le> M" "degree_bound P s \<le> bound"
    using at by (simp_all add: inst_at_def)
  have all: "evaluate g 0 + evaluate g 1 = c \<and> uni_degree g \<le> bound
    \<and> inst_at P holds M (rs @ [r]) n bound (batched_ingest P M (length rs) r s1) (evaluate g r)"
  proof (cases "length rs < M - n")
    case True
    then have inactive: "\<not> is_active M n (length rs)" by (simp add: is_active_def)
    have gs: "g = UniPoly [half c]" "s1 = s" using g inactive n by (simp_all add: batched_univariate_def)
    obtain c0 where c0: "holds s [] c0" "c = mul_pow_2 c0 (M - n - length rs)"
      using at True by (auto simp: inst_at_def)
    have "M - n - length rs = Suc (M - n - length (rs @ [r]))" using True by simp
    then have next_claim: "half c = mul_pow_2 c0 (M - n - length (rs @ [r]))"
      using c0(2) by (simp only: mul_pow_2_Suc halving_double [OF half])
    have "evaluate g 0 + evaluate g 1 = half c + half c" by (simp add: gs evaluate_horner)
    also have "\<dots> = c" using half by (simp only: halving_def)
    finally have "evaluate g 0 + evaluate g 1 = c" .
    moreover have "uni_degree g \<le> bound" "evaluate g r = half c"
      by (simp_all add: gs uni_degree_def evaluate_horner)
    moreover have "batched_ingest P M (length rs) r s1 = s"
      using gs n inactive by (simp add: batched_ingest_def)
    moreover have "inst_at P holds M (rs @ [r]) n bound s (half c)"
      using True n c0(1) P next_claim by (auto simp: inst_at_def)
    ultimately show ?thesis by simp
  next
    case False
    define own where "own = drop (M - n) rs"
    have len: "length own = length rs - (M - n)" by (simp add: own_def)
    have active: "is_active M n (length rs)" using False lt n by (simp add: is_active_def)
    have holds: "holds s own c"
      using at False by (cases "length rs = M - n") (auto simp: inst_at_def own_def)
    have more: "length own < num_rounds P s" using False lt n len by simp
    have comp: "compute_round_univariate P s (length own) c = (g, s1)"
      using g active n len by (simp add: batched_univariate_def)
    note law = sumcheck_instance.round_sum [OF P holds more comp]
      sumcheck_instance.round_degree [OF P holds more comp]
      sumcheck_instance.round_bind [OF P holds more comp, of r]
      sumcheck_instance.rounds_fixed [OF P holds more comp, of r]
    have "batched_ingest P M (length rs) r s1 = ingest_challenge P s1 (length own) r"
      using active law(4) n len by (simp add: batched_ingest_def)
    moreover have "drop (M - n) (rs @ [r]) = own @ [r]" using False by (simp add: own_def)
    ultimately show ?thesis using law P n False by (auto simp: inst_at_def)
  qed
  then show "evaluate g 0 + evaluate g 1 = c" "uni_degree g \<le> bound"
    "inst_at P holds M (rs @ [r]) n bound (batched_ingest P M (length rs) r s1) (evaluate g r)" by blast+
qed

subsection \<open>All rounds\<close>

text \<open>
  All instances of a batch at once: instance \<open>i\<close> with its own contract relation \<open>hs ! i\<close>
  and its fixed number of rounds \<open>ns ! i\<close>.
\<close>

definition batch_at ::
  "('s, 'e::field) sumcheck_prover \<Rightarrow> ('s \<Rightarrow> 'e list \<Rightarrow> 'e \<Rightarrow> bool) list \<Rightarrow> nat \<Rightarrow> 'e list \<Rightarrow> nat list
    \<Rightarrow> nat \<Rightarrow> 's list \<Rightarrow> 'e list \<Rightarrow> bool" where
  "batch_at P hs M rs ns bound ss claims \<longleftrightarrow>
     length ss = length hs \<and> length claims = length hs \<and> length ns = length hs \<and>
     (\<forall>i < length hs. inst_at P (hs ! i) M rs (ns ! i) bound (ss ! i) (claims ! i))"

definition infallible :: "('t, 'e) fiat_shamir \<Rightarrow> ('t \<Rightarrow> 'e \<times> 't) \<Rightarrow> ('t, 'e) fiat_shamir" where
  "infallible T sample = T\<lparr>sample_challenge := \<lambda>t. Inr (sample t)\<rparr>"

lemma append_round_infallible [simp]: "append_round (infallible T sample) = append_round T"
  by (simp add: fun_eq_iff append_round_def append_serde_def infallible_def)

lemma sample_infallible [simp]: "sample_challenge (infallible T sample) t = Inr (sample t)"
  by (simp add: infallible_def)

lemma batch_round:
  assumes at: "batch_at P hs M rs ns bound ss claims" and lt: "length rs < M" and half: "halving half"
    and st: "stepped = map (\<lambda>(s, c). batched_univariate P half M (length rs) s c) (zip ss claims)"
  shows "map (\<lambda>p. evaluate p 0 + evaluate p 1) (map fst stepped) = claims"
    and "\<And>p. p \<in> set (map fst stepped) \<Longrightarrow> uni_degree p \<le> bound"
    and "batch_at P hs M (rs @ [r]) ns bound (map (batched_ingest P M (length rs) r) (map snd stepped))
           (map (\<lambda>p. evaluate p r) (map fst stepped))"
proof -
  have len: "length stepped = length hs" "length ss = length hs" "length claims = length hs" "length ns = length hs"
    using at by (simp_all add: batch_at_def st)
  have step: "evaluate (fst (stepped ! i)) 0 + evaluate (fst (stepped ! i)) 1 = claims ! i
      \<and> uni_degree (fst (stepped ! i)) \<le> bound
      \<and> inst_at P (hs ! i) M (rs @ [r]) (ns ! i) bound
           (batched_ingest P M (length rs) r (snd (stepped ! i))) (evaluate (fst (stepped ! i)) r)"
    if i: "i < length hs" for i
  proof -
    have u: "batched_univariate P half M (length rs) (ss ! i) (claims ! i) = (fst (stepped ! i), snd (stepped ! i))"
      using i len by (simp add: st)
    have at_i: "inst_at P (hs ! i) M rs (ns ! i) bound (ss ! i) (claims ! i)"
      using at i by (simp add: batch_at_def)
    show ?thesis using inst_round(1,2) [OF at_i lt half u] inst_round(3) [OF at_i lt half u, of r] by simp
  qed
  show "map (\<lambda>p. evaluate p 0 + evaluate p 1) (map fst stepped) = claims"
    using step len by (intro nth_equalityI) simp_all
  show "uni_degree p \<le> bound" if "p \<in> set (map fst stepped)" for p
  proof -
    from that obtain i where "i < length hs" "p = fst (stepped ! i)"
      using len by (auto simp: in_set_conv_nth)
    with step show ?thesis by blast
  qed
  show "batch_at P hs M (rs @ [r]) ns bound (map (batched_ingest P M (length rs) r) (map snd stepped))
      (map (\<lambda>p. evaluate p r) (map fst stepped))"
    using step len by (simp add: batch_at_def)
qed

lemma weighted_sum_add:
  "length xs = length ys \<Longrightarrow>
     weighted_sum xs cs + weighted_sum ys cs = weighted_sum (map2 (+) xs ys) cs"
proof (induction xs ys arbitrary: cs rule: list_induct2)
  case (Cons x xs y ys)
  show ?case
  proof (cases cs)
    case (Cons c cs')
    then show ?thesis using Cons.IH [of cs'] by (simp add: weighted_sum_def algebra_simps)
  qed (simp add: weighted_sum_def)
qed (simp add: weighted_sum_def)

lemma batched_rounds_complete:
  assumes "batch_at P hs M rs0 ns bound ss claims" and "length rs0 + m = M" and half: "halving half"
  shows "\<exists>polys rs ss' t' claims'.
       batched_rounds P T sample half M cs [length rs0..<length rs0 + m] claims ss t = (polys, rs, ss', t')
     \<and> verify_rounds (infallible T sample) bound polys (weighted_sum claims cs) t
         = Inr (weighted_sum claims' cs, rs, t')
     \<and> length polys = m \<and> length rs = m \<and> batch_at P hs M (rs0 @ rs) ns bound ss' claims'"
  using assms(1,2)
proof (induction m arbitrary: rs0 ss claims t)
  case 0
  then show ?case by auto
next
  case (Suc m)
  let ?k = "length rs0"
  define stepped where "stepped = map (\<lambda>(s, c). batched_univariate P half M ?k s c) (zip ss claims)"
  define polys where "polys = map fst stepped"
  define g where "g = linear_combination polys cs"
  have lt: "?k < M" using Suc.prems(2) by simp
  note round = batch_round [OF Suc.prems(1) lt half stepped_def, folded polys_def]
  obtain r t1 where r: "sample (append_round T (compress g) t) = (r, t1)" by force
  let ?ss = "map (batched_ingest P M ?k r) (map snd stepped)" and ?claims = "map (\<lambda>p. evaluate p r) polys"
  obtain polys' rs ss' t' claims' where IH:
    "batched_rounds P T sample half M cs [Suc ?k..<Suc ?k + m] ?claims ?ss t1 = (polys', rs, ss', t')"
    "verify_rounds (infallible T sample) bound polys' (weighted_sum ?claims cs) t1
       = Inr (weighted_sum claims' cs, rs, t')"
    "length polys' = m" "length rs = m" "batch_at P hs M (rs0 @ r # rs) ns bound ss' claims'"
    using Suc.IH [OF round(3) [of r], of t1] Suc.prems(2) by auto
  have upt: "[?k..<?k + Suc m] = ?k # [Suc ?k..<Suc ?k + m]" by (simp add: upt_rec)
  have sum: "evaluate g 0 + evaluate g 1 = weighted_sum claims cs"
  proof -
    have "map2 (+) (map (\<lambda>p. evaluate p 0) polys) (map (\<lambda>p. evaluate p 1) polys) = claims"
      unfolding map2_map_map by (rule round(1))
    then show ?thesis by (simp add: g_def evaluate_linear_combination weighted_sum_add)
  qed
  have deg: "\<not> bound < compressed_degree (compress g)"
    using compressed_degree_compress [of g] degree_linear_combination [of polys bound cs] round(2)
    by (simp add: g_def)
  have hint: "eval_from_hint (compress g) (weighted_sum claims cs) r = weighted_sum ?claims cs"
    using eval_from_hint_compress [OF sum] by (simp add: g_def evaluate_linear_combination)
  have "batched_rounds P T sample half M cs [?k..<?k + Suc m] claims ss t
      = (compress g # polys', r # rs, ss', t')"
    unfolding upt batched_rounds.simps Let_def stepped_def [symmetric] polys_def [symmetric]
      g_def [symmetric] using r IH(1) by simp
  moreover have "verify_rounds (infallible T sample) bound (compress g # polys') (weighted_sum claims cs) t
      = Inr (weighted_sum claims' cs, r # rs, t')"
    using IH(2) deg r by (simp add: hint)
  moreover have "length (compress g # polys') = Suc m" "length (r # rs) = Suc m" using IH(3,4) by simp_all
  ultimately show ?case using IH(5) by blast
qed

subsection \<open>The batched protocol\<close>

text \<open>
  A verifier list that matches a batch: same shapes and claims, and each oracle returns the
  claim its instance ends with.
\<close>

definition batch_verifiers ::
  "('s, 'e::field) sumcheck_prover \<Rightarrow> ('s \<Rightarrow> 'e list \<Rightarrow> 'e \<Rightarrow> bool) list \<Rightarrow> 's list
    \<Rightarrow> 'e sumcheck_verifier list \<Rightarrow> bool" where
  "batch_verifiers P hs ss vs \<longleftrightarrow> length hs = length ss \<and> length vs = length ss \<and>
     (\<forall>i < length ss. sumcheck_instance P (hs ! i) \<and> (hs ! i) (ss ! i) [] (input_claim P (ss ! i)) \<and>
        v_num_rounds (vs ! i) = num_rounds P (ss ! i) \<and>
        v_degree_bound (vs ! i) = degree_bound P (ss ! i) \<and>
        v_input_claim (vs ! i) = input_claim P (ss ! i) \<and>
        (\<forall>s rs c. length rs = num_rounds P (ss ! i) \<longrightarrow> (hs ! i) s rs c \<longrightarrow>
           expected_output_claim (vs ! i) rs = Inr c))"

lemma length_sample_many: "length (fst (sample_many sample n t)) = n"
  by (induction n arbitrary: t) (simp_all add: Let_def case_prod_beta)

lemma foldl_append_claim_eq:
  "length ss = length vs \<Longrightarrow> (\<And>i. i < length ss \<Longrightarrow> v_input_claim (vs ! i) = f (ss ! i)) \<Longrightarrow>
   foldl (\<lambda>t v. append_claim T (v_input_claim v) t) t vs = foldl (\<lambda>t s. append_claim T (f s) t) t ss"
proof (induction ss vs arbitrary: t rule: list_induct2)
  case (Cons s ss v vs)
  from Cons.prems [of 0] have "v_input_claim v = f s" by simp
  moreover have "v_input_claim (vs ! i) = f (ss ! i)" if "i < length ss" for i
    using Cons.prems [of "Suc i"] that by simp
  ultimately show ?case using Cons.IH by simp
qed simp

lemma try_fold_sum:
  "(\<And>i. i < length ms \<Longrightarrow> ms ! i = Inr (vals ! i)) \<Longrightarrow> length vals = length ms \<Longrightarrow>
   try_fold (\<lambda>a m. bindE m (\<lambda>val. Inr (a + val))) a ms = Inr (a + sum_list vals)"
proof (induction ms arbitrary: a vals)
  case (Cons m ms)
  then obtain v vs where vals: "vals = v # vs" by (cases vals) auto
  have "m = Inr v" using Cons.prems(1) [of 0] vals by simp
  moreover have "ms ! i = Inr (vs ! i)" if "i < length ms" for i
    using Cons.prems(1) [of "Suc i"] vals that by simp
  ultimately show ?case using Cons.IH [of vs "a + v"] Cons.prems(2) vals by (simp add: add.assoc)
qed simp

lemma map_nth_eq:
  "length xs = length ys \<Longrightarrow> (\<And>i. i < length xs \<Longrightarrow> f (xs ! i) = g (ys ! i)) \<Longrightarrow> map f xs = map g ys"
  by (rule nth_equalityI) simp_all

lemma batch_expected_output:
  assumes at: "batch_at P hs M rs ns bound ss' claims'" and rs: "length rs = M"
    and V: "batch_verifiers P hs ss vs" and ns: "ns = map (num_rounds P) ss" and cs: "length cs = length ss"
  shows "compute_batched_expected_output_claim vs cs M rs = Inr (weighted_sum claims' cs)"
proof -
  have len: "length vs = length ss" "length hs = length ss" "length claims' = length ss"
    using V at by (simp_all add: batch_verifiers_def batch_at_def)
  let ?val = "\<lambda>(v, c). if M < v_num_rounds v then Inl (InvalidSize M (v_num_rounds v))
      else let offset = M - v_num_rounds v in
           bindE (expected_output_claim v (take (v_num_rounds v) (drop offset rs))) (\<lambda>val. Inr (val * c))"
  have "map ?val (zip vs cs) ! i = Inr (map2 (*) claims' cs ! i)" if i: "i < length ss" for i
  proof -
    let ?n = "num_rounds P (ss ! i)"
    have v: "v_num_rounds (vs ! i) = ?n" using V i by (simp add: batch_verifiers_def)
    have at_i: "inst_at P (hs ! i) M rs ?n bound (ss' ! i) (claims' ! i)"
      using at i len ns by (simp add: batch_at_def)
    then have n: "?n \<le> M" by (simp add: inst_at_def)
    have "(hs ! i) (ss' ! i) (drop (M - ?n) rs) (claims' ! i)"
    proof (cases "?n = 0")
      case True
      with at_i rs show ?thesis by (auto simp: inst_at_def)
    next
      case False
      then have "\<not> M \<le> M - ?n" using n by simp
      with at_i rs show ?thesis by (simp add: inst_at_def)
    qed
    moreover have "length (drop (M - ?n) rs) = ?n" using rs n by simp
    ultimately have "expected_output_claim (vs ! i) (drop (M - ?n) rs) = Inr (claims' ! i)"
      using V i unfolding batch_verifiers_def by blast
    with i len cs v n rs show ?thesis by (simp add: Let_def)
  qed
  then have "try_fold (\<lambda>a m. bindE m (\<lambda>val. Inr (a + val))) 0 (map ?val (zip vs cs))
      = Inr (0 + sum_list (map2 (*) claims' cs))"
    using len cs by (intro try_fold_sum) simp_all
  then show ?thesis
    using len cs rs by (simp add: compute_batched_expected_output_claim_def weighted_sum_def)
qed

lemma batch_start:
  assumes V: "batch_verifiers P hs ss vs" and ss: "ss \<noteq> []"
    and M: "M = Max (set (map (num_rounds P) ss))" and b: "bound = Max (set (map (degree_bound P) ss))"
  shows "batch_at P hs M [] (map (num_rounds P) ss) bound ss
           (map (\<lambda>s. mul_pow_2 (input_claim P s) (M - num_rounds P s)) ss)"
proof -
  have "num_rounds P s \<le> M" "degree_bound P s \<le> bound" if "s \<in> set ss" for s
    using that by (auto simp: M b intro!: Max_ge)
  then show ?thesis using V by (auto simp: batch_at_def batch_verifiers_def inst_at_def)
qed

text \<open>
  C8: Completeness of the batched sumcheck.  For a nonempty batch of prover instances that
  meet the sumcheck contract, with any mix of round counts, the front-loaded batched prover
  succeeds and the batched verifier, replaying the transcript, accepts its single proof
  with the same challenges.
\<close>

theorem batched_sumcheck_complete:
  assumes V: "batch_verifiers P hs ss vs" and ss: "ss \<noteq> []" and half: "halving half"
  shows "\<exists>pr rs ss' t'. prove_batched_sumcheck P T sample half ss t = Inr (pr, rs, ss', t')
     \<and> verify_batched_sumcheck T sample pr vs t = Inr (rs, t')"
proof -
  define M where "M = Max (set (map (num_rounds P) ss))"
  define bound where "bound = Max (set (map (degree_bound P) ss))"
  define t1 where "t1 = foldl (\<lambda>t s. append_claim T (input_claim P s) t) t ss"
  obtain cs t2 where cs: "sample_many sample (length ss) t1 = (cs, t2)" by force
  then have lcs: "length cs = length ss" by (metis fst_conv length_sample_many)
  define claims where "claims = map (\<lambda>s. mul_pow_2 (input_claim P s) (M - num_rounds P s)) ss"
  note start = batch_start [OF V ss M_def bound_def, folded claims_def]
  obtain polys rs ss' t' claims' where run:
    "batched_rounds P T sample half M cs [0..<M] claims ss t2 = (polys, rs, ss', t')"
    "verify_rounds (infallible T sample) bound polys (weighted_sum claims cs) t2
       = Inr (weighted_sum claims' cs, rs, t')"
    "length polys = M" "length rs = M" "batch_at P hs M rs (map (num_rounds P) ss) bound ss' claims'"
    using batched_rounds_complete [OF start _ half, of M T sample cs t2] by auto
  have prove: "prove_batched_sumcheck P T sample half ss t
      = Inr (SumcheckProof polys, rs, map (finalize P) ss', t')"
    unfolding prove_batched_sumcheck_def Let_def M_def [symmetric] t1_def [symmetric] claims_def [symmetric]
    using ss cs run(1) by simp
  have len: "length vs = length ss" "vs \<noteq> []" using V ss by (auto simp: batch_verifiers_def)
  have same: "map v_num_rounds vs = map (num_rounds P) ss" "map v_degree_bound vs = map (degree_bound P) ss"
    using V len by (auto simp: batch_verifiers_def intro!: map_nth_eq)
  have claim: "foldl (+) 0 (map (\<lambda>(v, c). mul_pow_2 (v_input_claim v) (M - v_num_rounds v) * c) (zip vs cs))
      = weighted_sum claims cs"
  proof -
    have "map (\<lambda>(v, c). mul_pow_2 (v_input_claim v) (M - v_num_rounds v) * c) (zip vs cs)
        = map2 (*) claims cs"
      using V len lcs by (intro nth_equalityI) (simp_all add: claims_def batch_verifiers_def)
    then show ?thesis by (simp add: weighted_sum_def foldl_plus_Cons)
  qed
  have absorb: "foldl (\<lambda>t v. append_claim T (v_input_claim v) t) t vs = t1"
    unfolding t1_def using V len by (intro foldl_append_claim_eq) (simp_all add: batch_verifiers_def)
  have "verify_batched_sumcheck_rounds T sample (SumcheckProof polys) vs t
      = Inr (\<lparr>output_claim = weighted_sum claims' cs, r_sumcheck = rs, batching_coeffs = cs,
              max_num_rounds = M\<rparr>, t')"
    unfolding verify_batched_sumcheck_rounds_def same absorb M_def [symmetric] bound_def [symmetric] Let_def
    using len cs run(2,3) claim
    by (simp add: sumcheck_proof_verify_def flip: infallible_def)
  then have "verify_batched_sumcheck T sample (SumcheckProof polys) vs t = Inr (rs, t')"
    using batch_expected_output [OF run(5,4) V refl lcs]
    by (simp add: verify_batched_sumcheck_def check_batched_output_claim_def)
  with prove show ?thesis by blast
qed

text \<open>Dense extension-opening-reduction instances form such a batch.\<close>

lemma dense_matches:
  assumes U: "env_ok U" and w: "length w = 2 ^ n" and f: "length f = 2 ^ n" and n: "n < 64"
    and p: "from_dense_tables w f = Inr p"
  shows "batch_verifiers (eor_instance U) [eor_holds U p] [Some p] [dense_verifier False sz n w f (dot w f)]"
proof -
  have "expected_output_claim (dense_verifier False sz n w f (dot w f)) rs = Inr c"
    if "length rs = n" "eor_holds U p s rs c" for s rs c
  proof -
    have "multilinear_eval False sz v rs = Inr (mle_at v rs)" if "length v = 2 ^ n" for v
      using that \<open>length rs = n\<close> n by (intro multilinear_eval_correct) simp_all
    then show ?thesis
      using w f dense_final [OF p w f n that(2,1)]
      by (simp add: dense_verifier_def extension_opening_reduction_eval_at_point_def
          validate_reduction_tables_def table_len_ok)
  qed
  moreover have "sumcheck_instance (eor_instance U) (eor_holds U p)"
    by (rule eor.sumcheck_instance_axioms)
  ultimately show ?thesis
    using dense_holds [OF U w f n p] by (simp add: batch_verifiers_def eor_instance_def dense_verifier_def)
qed

lemma batch_verifiers_Cons:
  assumes "batch_verifiers P [h] [s] [v]" and "batch_verifiers P hs ss vs"
  shows "batch_verifiers P (h # hs) (s # ss) (v # vs)"
  using assms unfolding batch_verifiers_def by (auto simp: nth_Cons split: nat.split)

definition dense_start :: "'e::field list \<Rightarrow> 'e list \<Rightarrow> 'e eor_prover option" where
  "dense_start w f = (case from_dense_tables w f of Inl _ \<Rightarrow> None | Inr p \<Rightarrow> Some p)"

theorem batched_sumcheck_complete_witness:
  "\<exists>pr rs ss' t'. prove_batched_sumcheck (eor_instance rat_env) (constant_sampler 3) (\<lambda>t. (3, t)) (\<lambda>x. x / 2)
        [dense_start [1, 2, 3, 4 :: rat] [5, 6, 7, 8], dense_start [2, 1] [4, 9]] () = Inr (pr, rs, ss', t')
     \<and> verify_batched_sumcheck (constant_sampler 3) (\<lambda>t. (3, t)) pr
         [dense_verifier False 16 2 [1, 2, 3, 4] [5, 6, 7, 8] (dot [1, 2, 3, 4] [5, 6, 7, 8]),
          dense_verifier False 16 1 [2, 1] [4, 9] (dot [2, 1] [4, 9])] () = Inr (rs, t')"
proof -
  let ?w = "[1, 2, 3, 4 :: rat]" and ?f = "[5, 6, 7, 8 :: rat]"
  have len: "length ?w = 2 ^ 2" "length ?f = 2 ^ 2" "length [2, 1 :: rat] = 2 ^ 1" "length [4, 9 :: rat] = 2 ^ 1"
    by simp_all
  obtain p q where pq: "from_dense_tables ?w ?f = Inr p" "from_dense_tables [2, 1 :: rat] [4, 9] = Inr q"
    using from_dense_tables_eq [OF len(1,2)] from_dense_tables_eq [OF len(3,4)] by simp
  have A: "batch_verifiers (eor_instance rat_env) [eor_holds rat_env p] [Some p]
      [dense_verifier False 16 2 ?w ?f (dot ?w ?f)]"
    by (rule dense_matches [OF rat_env_ok len(1,2) _ pq(1)]) simp
  have B: "batch_verifiers (eor_instance rat_env) [eor_holds rat_env q] [Some q]
      [dense_verifier False 16 1 [2, 1] [4, 9] (dot [2, 1] [4, 9])]"
    by (rule dense_matches [OF rat_env_ok len(3,4) _ pq(2)]) simp
  note V = batch_verifiers_Cons [OF A B]
  have half: "halving (\<lambda>x :: rat. x / 2)" by (simp add: halving_def)
  have start: "dense_start ?w ?f = Some p" "dense_start [2, 1 :: rat] [4, 9] = Some q"
    by (simp_all add: dense_start_def pq)
  show ?thesis unfolding start by (rule batched_sumcheck_complete [OF V _ half]) simp
qed

end
