(* ===== verification/Transcript.thy ===== *)
theory Transcript
  imports Serialization
begin

unbundle bit_operations_syntax

text \<open>
  Crate \<^verbatim>\<open>akita-transcript\<close>: the framed absorption of the sponge transcript
  (\<^verbatim>\<open>sponge.rs\<close>), the extension-field helpers of \<^verbatim>\<open>lib.rs\<close> and the proof-of-work transition of
  \<^verbatim>\<open>grinding.rs\<close>.  The duplex sponge belongs to the \<^verbatim>\<open>spongefish\<close> package: its operations
  are the fields of \<open>sponge_ops\<close>.  A call on a transcript that is not bound to an instance
  panics in the source and is \<open>None\<close> here.
\<close>

subsection \<open>The sponge transcript\<close>

text \<open>
  \<open>domain_init\<close> is the state of \<open>DomainSeparator::new(tag).session(s).instance(i)\<close> after
  \<open>to_prover\<close> or \<open>to_verifier\<close>; \<open>public_message\<close> absorbs encoded bytes and
  \<open>verifier_message\<close> squeezes one chunk.  The \<^verbatim>\<open>duplex_\<close> fields are the public sponge
  inside a prover state and its own absorb and squeeze, which the preview uses.
\<close>

record ('s, 'd) sponge_ops =
  domain_init :: "byte list \<Rightarrow> byte list \<Rightarrow> byte list \<Rightarrow> 's"
  public_message :: "byte list \<Rightarrow> 's \<Rightarrow> 's"
  verifier_message :: "'s \<Rightarrow> byte list \<times> 's"
  duplex_sponge_state :: "'s \<Rightarrow> 'd"
  duplex_absorb :: "byte list \<Rightarrow> 'd \<Rightarrow> 'd"
  duplex_squeeze :: "'d \<Rightarrow> byte list \<times> 'd"

datatype transcript_side = Prover | Verifier

record 's akita_transcript =
  session_label :: "byte list"
  side :: transcript_side
  state :: "'s option"

definition bytes_of_string :: "string \<Rightarrow> byte list" where
  "bytes_of_string s = map (\<lambda>c. of_nat (of_char c)) s"

definition zero_padded :: "nat \<Rightarrow> byte list \<Rightarrow> byte list" where
  "zero_padded n bs = bs @ replicate (n - length bs) 0"

definition PROTOCOL_TAG :: "byte list" where
  "PROTOCOL_TAG = zero_padded 64 (bytes_of_string ''akita-pcs/transcript/v1/blake2b'')"

definition SESSION_DOMAIN_TAG :: "byte list" where
  "SESSION_DOMAIN_TAG = zero_padded 64 (bytes_of_string ''akita-pcs/session-label/v1'')"

definition SQUEEZE_CHUNK_LEN :: nat where
  "SQUEEZE_CHUNK_LEN = 32"

text \<open>
  The two \<open>Encoding\<close> implementations.  The \<open>u64::try_from\<close> of a slice length cannot fail
  on a 64-bit target, where a length is below \<open>2 ^ 63\<close>.
\<close>

definition framed_bytes :: "byte list \<Rightarrow> byte list" where
  "framed_bytes bytes = to_le_bytes 8 (of_nat (length bytes) :: 64 word) @ bytes"

definition session_bound_instance :: "byte list \<Rightarrow> byte list \<Rightarrow> byte list" where
  "session_bound_instance label instance_bytes =
     to_le_bytes 8 (of_nat (length label) :: 64 word) @ label
       @ to_le_bytes 8 (of_nat (length instance_bytes) :: 64 word) @ instance_bytes"

definition unbound :: "byte list \<Rightarrow> transcript_side \<Rightarrow> 's akita_transcript" where
  "unbound label sd = \<lparr>session_label = label, side = sd, state = None\<rparr>"

definition bind_instance_bytes ::
  "('s, 'd) sponge_ops \<Rightarrow> 's akita_transcript \<Rightarrow> byte list \<Rightarrow> 's akita_transcript" where
  "bind_instance_bytes S t instance_bytes =
     t\<lparr>state := Some (domain_init S PROTOCOL_TAG SESSION_DOMAIN_TAG
                       (session_bound_instance (session_label t) instance_bytes))\<rparr>"

definition new_prover :: "('s, 'd) sponge_ops \<Rightarrow> byte list \<Rightarrow> byte list \<Rightarrow> 's akita_transcript" where
  "new_prover S label instance_bytes = bind_instance_bytes S (unbound label Prover) instance_bytes"

definition new_verifier :: "('s, 'd) sponge_ops \<Rightarrow> byte list \<Rightarrow> byte list \<Rightarrow> 's akita_transcript" where
  "new_verifier S label instance_bytes = bind_instance_bytes S (unbound label Verifier) instance_bytes"

definition absorb_bytes ::
  "('s, 'd) sponge_ops \<Rightarrow> 's akita_transcript \<Rightarrow> byte list \<Rightarrow> 's akita_transcript option" where
  "absorb_bytes S t bytes =
     map_option (\<lambda>s. t\<lparr>state := Some (public_message S (framed_bytes bytes) s)\<rparr>) (state t)"

text \<open>\<open>append_serde\<close>: absorb the compressed encoding.\<close>

definition absorb_serde ::
  "('s, 'd) sponge_ops \<Rightarrow> ('a, 'c) codec \<Rightarrow> 's akita_transcript \<Rightarrow> 'a \<Rightarrow> 's akita_transcript option" where
  "absorb_serde S C t x = absorb_bytes S t (serialize_compressed C x)"

definition squeeze_block ::
  "('s, 'd) sponge_ops \<Rightarrow> 's akita_transcript \<Rightarrow> (byte list \<times> 's akita_transcript) option" where
  "squeeze_block S t =
     map_option (\<lambda>s. let (chunk, s') = verifier_message S s in (chunk, t\<lparr>state := Some s'\<rparr>)) (state t)"

text \<open>The squeeze loop; it ends because every chunk of the backend is nonempty.\<close>

partial_function (option) squeeze_loop ::
  "('s, 'd) sponge_ops \<Rightarrow> nat \<Rightarrow> byte list \<Rightarrow> 's akita_transcript \<Rightarrow> (byte list \<times> 's akita_transcript) option"
where
  "squeeze_loop S len out t =
     (if length out < len
      then Option.bind (squeeze_block S t)
             (\<lambda>(chunk, t'). squeeze_loop S len
                (out @ take (min (len - length out) (length chunk)) chunk) t')
      else Some (out, t))"

definition squeeze_bytes ::
  "('s, 'd) sponge_ops \<Rightarrow> 's akita_transcript \<Rightarrow> nat \<Rightarrow> (byte list \<times> 's akita_transcript) option" where
  "squeeze_bytes S t len = squeeze_loop S len [] t"

definition squeeze_scalar ::
  "('s, 'd) sponge_ops \<Rightarrow> nat \<Rightarrow> (byte list \<Rightarrow> 'f) \<Rightarrow> 's akita_transcript \<Rightarrow> ('f \<times> 's akita_transcript) option"
where
  "squeeze_scalar S num_bytes from_challenge_bytes t =
     map_option (\<lambda>(bytes, t'). (from_challenge_bytes bytes, t')) (squeeze_bytes S t (2 * num_bytes))"

text \<open>
  \<open>preview_challenge_block\<close>: absorb each payload into a copy of the sponge and squeeze
  after each one; \<open>None\<close> is the panic on an unbound or verifier transcript.
\<close>

definition preview_challenge_block ::
  "('s, 'd) sponge_ops \<Rightarrow> 's akita_transcript \<Rightarrow> byte list list \<Rightarrow> byte list option" where
  "preview_challenge_block S t payloads =
     (case state t of
        None \<Rightarrow> None
      | Some s \<Rightarrow>
          if side t = Verifier then None
          else Some (fst (foldl (\<lambda>(out, d) p. duplex_squeeze S (duplex_absorb S (framed_bytes p) d))
                           (replicate 32 0, duplex_sponge_state S s) payloads)))"

subsection \<open>Extension-field limbs\<close>

definition EXT_LIMB_LABEL_SUFFIX_LEN :: nat where
  "EXT_LIMB_LABEL_SUFFIX_LEN = 12"

definition ext_limb_label :: "byte list \<Rightarrow> nat \<Rightarrow> byte list" where
  "ext_limb_label label limb =
     label @ [0xff] @ to_le_bytes 8 (of_nat limb :: 64 word) @ bytes_of_string ''ext''"

definition ext_limb_base_label :: "byte list \<Rightarrow> byte list option" where
  "ext_limb_base_label label =
     Option.bind (checked_sub (length label) EXT_LIMB_LABEL_SUFFIX_LEN)
       (\<lambda>suffix_start. case drop suffix_start label of
            [] \<Rightarrow> None
          | marker # rest \<Rightarrow>
              if marker = 0xff \<and> length rest = 11 \<and> drop 8 rest = bytes_of_string ''ext''
              then Some (take suffix_start label) else None)"

definition is_ext_limb_label :: "byte list \<Rightarrow> byte list \<Rightarrow> bool" where
  "is_ext_limb_label candidate base =
     (case ext_limb_base_label candidate of None \<Rightarrow> False | Some b \<Rightarrow> b = base)"

text \<open>
  \<open>append_ext_field\<close> and \<open>sample_ext_challenge\<close> over a transcript given by its
  \<open>append_field\<close> and \<open>challenge_scalar\<close> operations.
\<close>

definition append_ext_field ::
  "(byte list \<Rightarrow> 'f \<Rightarrow> 't \<Rightarrow> 't) \<Rightarrow> nat \<Rightarrow> ('e \<Rightarrow> 'f list) \<Rightarrow> 't \<Rightarrow> byte list \<Rightarrow> 'e \<Rightarrow> 't" where
  "append_ext_field append_field degree to_base_vec t label x =
     (let cs = to_base_vec x in
      if degree = 1 then foldl (\<lambda>t c. append_field label c t) t (take 1 cs)
      else foldl (\<lambda>t (limb, c). append_field (ext_limb_label label limb) c t) t
             (enumerate 0 cs))"

fun sample_limbs ::
  "(byte list \<Rightarrow> 't \<Rightarrow> 'f \<times> 't) \<Rightarrow> byte list \<Rightarrow> nat list \<Rightarrow> 't \<Rightarrow> 'f list \<times> 't" where
  "sample_limbs challenge_scalar label [] t = ([], t)"
| "sample_limbs challenge_scalar label (limb # limbs) t =
     (let (c, t1) = challenge_scalar (ext_limb_label label limb) t;
          (cs, t2) = sample_limbs challenge_scalar label limbs t1
      in (c # cs, t2))"

definition sample_ext_challenge ::
  "(byte list \<Rightarrow> 't \<Rightarrow> 'f \<times> 't) \<Rightarrow> nat \<Rightarrow> ('f list \<Rightarrow> 'e) \<Rightarrow> 't \<Rightarrow> byte list \<Rightarrow> 'e \<times> 't" where
  "sample_ext_challenge challenge_scalar degree from_base_slice t label =
     (if degree = 1
      then let (c, t') = challenge_scalar label t in (from_base_slice [c], t')
      else let (cs, t') = sample_limbs challenge_scalar label [0..<degree] t
           in (from_base_slice cs, t'))"

subsection \<open>Proof-of-work transitions\<close>

definition GRINDING_NONCE_SLACK_BITS :: nat where
  "GRINDING_NONCE_SLACK_BITS = 7"

definition MAX_GRINDING_BITS :: nat where
  "MAX_GRINDING_BITS = 25"

definition grinding_payload :: "8 word \<Rightarrow> 8 word \<Rightarrow> 32 word \<Rightarrow> byte list" where
  "grinding_payload grind_bits nonce_bits counter =
     bytes_of_string ''akita/transcript-grinding/v1'' @ [grind_bits, nonce_bits]
       @ to_le_bytes 4 counter"

definition grinding_predicate_accepts :: "byte list \<Rightarrow> 8 word \<Rightarrow> bool" where
  "grinding_predicate_accepts predicate grind_bits =
     (let whole_bytes = unat grind_bits div 8; remaining_bits = unat grind_bits mod 8 in
      list_all (\<lambda>byte. byte = 0) (take whole_bytes predicate)
        \<and> (remaining_bits = 0
             \<or> (predicate ! whole_bytes) AND (push_bit remaining_bits 1 - 1) = 0))"

definition preview_grinding_predicate ::
  "(byte list list \<Rightarrow> byte list) \<Rightarrow> 8 word \<Rightarrow> 8 word \<Rightarrow> 32 word \<Rightarrow> byte list option" where
  "preview_grinding_predicate preview grind_bits nonce_bits counter =
     (if grind_bits = 0 then None
      else Some (preview [grinding_payload grind_bits nonce_bits counter]))"

text \<open>\<open>(lo..lo + k).find_map(f)\<close>.\<close>

fun find_map_range :: "nat \<Rightarrow> nat \<Rightarrow> (nat \<Rightarrow> 'a option) \<Rightarrow> 'a option" where
  "find_map_range lo 0 f = None"
| "find_map_range lo (Suc k) f =
     (case f lo of Some x \<Rightarrow> Some x | None \<Rightarrow> find_map_range (Suc lo) k f)"

definition search_grinding_nonce ::
  "(byte list list \<Rightarrow> byte list) \<Rightarrow> 8 word \<Rightarrow> 8 word \<Rightarrow> 32 word option" where
  "search_grinding_nonce preview grind_bits nonce_bits =
     (if grind_bits = 0 then (if nonce_bits = 0 then Some 0 else None)
      else if MAX_GRINDING_BITS < unat grind_bits
              \<or> unat nonce_bits \<noteq> unat grind_bits + GRINDING_NONCE_SLACK_BITS
              \<or> 32 < unat nonce_bits
      then None
      else find_map_range 0 (2 ^ unat nonce_bits)
             (\<lambda>candidate.
                if 2 ^ 32 \<le> candidate then None
                else let counter = of_nat candidate in
                     Option.bind (preview_grinding_predicate preview grind_bits nonce_bits counter)
                       (\<lambda>predicate. if grinding_predicate_accepts predicate grind_bits
                                    then Some counter else None)))"

text \<open>
  \<open>Transcript::grinding_predicate\<close> on the sponge transcript: the inner option is the
  returned \<open>Option\<close>, the outer one the panic on an unbound transcript.
\<close>

definition grinding_predicate ::
  "('s, 'd) sponge_ops \<Rightarrow> 's akita_transcript \<Rightarrow> 8 word \<Rightarrow> 8 word \<Rightarrow> 32 word
    \<Rightarrow> (byte list option \<times> 's akita_transcript) option" where
  "grinding_predicate S t grind_bits nonce_bits counter =
     (if grind_bits = 0 then Some (None, t)
      else Option.bind (absorb_bytes S t (grinding_payload grind_bits nonce_bits counter))
             (\<lambda>t1. map_option (\<lambda>(block, t2). (Some block, t2)) (squeeze_block S t1)))"

subsection \<open>Framing is injective\<close>

lemma to_le_bytes_inj:
  "8 * n = LENGTH('w) \<Longrightarrow> to_le_bytes n (v :: 'w::len word) = to_le_bytes n w \<longleftrightarrow> v = w"
  by (metis from_to_le_bytes)

lemma of_nat_64_inj:
  "a < 2 ^ 64 \<Longrightarrow> b < 2 ^ 64 \<Longrightarrow> (of_nat a :: 64 word) = of_nat b \<longleftrightarrow> a = b"
proof -
  assume "a < 2 ^ 64" "b < 2 ^ 64"
  then have "unat (of_nat a :: 64 word) = a" "unat (of_nat b :: 64 word) = b"
    by (simp_all add: unat_of_nat)
  then show ?thesis by metis
qed

lemma framed_bytes_prefix_free:
  assumes "length x < 2 ^ 64" and "length y < 2 ^ 64" and "framed_bytes x @ r = framed_bytes y @ s"
  shows "x = y \<and> r = s"
proof -
  have "to_le_bytes 8 (of_nat (length x) :: 64 word) = to_le_bytes 8 (of_nat (length y) :: 64 word)"
    and rest: "x @ r = y @ s"
    using assms(3) by (auto simp: framed_bytes_def append_eq_append_conv)
  then have "length x = length y" using assms by (simp add: to_le_bytes_inj of_nat_64_inj)
  with rest show ?thesis by simp
qed

lemma framed_stream_inj:
  assumes "\<forall>x \<in> set xs. length x < 2 ^ 64" and "\<forall>y \<in> set ys. length y < 2 ^ 64"
    and "concat (map framed_bytes xs) = concat (map framed_bytes ys)"
  shows "xs = ys"
  using assms
proof (induction xs arbitrary: ys)
  case Nil
  then show ?case by (cases ys) (auto simp: framed_bytes_def dest: arg_cong [where f = length])
next
  case (Cons x xs)
  then obtain y ys' where ys: "ys = y # ys'"
    by (cases ys) (auto simp: framed_bytes_def dest: arg_cong [where f = length])
  with Cons.prems have "x = y \<and> concat (map framed_bytes xs) = concat (map framed_bytes ys')"
    by (intro framed_bytes_prefix_free) auto
  with Cons ys show ?case by auto
qed

lemma session_bound_instance_inj:
  assumes "length l < 2 ^ 64" "length l' < 2 ^ 64" "length i < 2 ^ 64" "length i' < 2 ^ 64"
    and "session_bound_instance l i = session_bound_instance l' i'"
  shows "l = l' \<and> i = i'"
proof -
  have *: "session_bound_instance l i = framed_bytes l @ framed_bytes i" for l i
    by (simp add: session_bound_instance_def framed_bytes_def)
  have "l = l' \<and> framed_bytes i = framed_bytes i'"
    using assms by (intro framed_bytes_prefix_free) (simp_all add: *)
  then show ?thesis using framed_bytes_prefix_free [of i i' "[]" "[]"] assms by simp
qed

lemma grinding_payload_inj:
  "grinding_payload g n c = grinding_payload g' n' c' \<longleftrightarrow> g = g' \<and> n = n' \<and> c = c'"
  by (auto simp: grinding_payload_def to_le_bytes_inj)

subsection \<open>Limb labels\<close>

lemma ext_limb_base_label_limb: "ext_limb_base_label (ext_limb_label label limb) = Some label"
  by (simp add: ext_limb_base_label_def ext_limb_label_def EXT_LIMB_LABEL_SUFFIX_LEN_def
      checked_sub_def bytes_of_string_def)

lemma ext_limb_label_inj:
  assumes "ext_limb_label l i = ext_limb_label l' i'" and "i < 2 ^ 64" "i' < 2 ^ 64"
  shows "l = l' \<and> i = i'"
proof -
  have l: "l = l'" using assms(1) ext_limb_base_label_limb by (metis option.inject)
  with assms show ?thesis by (simp add: ext_limb_label_def to_le_bytes_inj of_nat_64_inj)
qed

lemma sample_limbs_length: "length (fst (sample_limbs f label limbs t)) = length limbs"
  by (induction limbs arbitrary: t) (simp_all add: Let_def case_prod_beta)

subsection \<open>Squeezing\<close>

text \<open>The blocks the sponge yields, one after the other.\<close>

fun blocks :: "('s, 'd) sponge_ops \<Rightarrow> nat \<Rightarrow> 's \<Rightarrow> byte list list \<times> 's" where
  "blocks S 0 s = ([], s)"
| "blocks S (Suc n) s =
     (let (c, s1) = verifier_message S s; (cs, s2) = blocks S n s1 in (c # cs, s2))"

definition chunked :: "('s, 'd) sponge_ops \<Rightarrow> bool" where
  "chunked S \<longleftrightarrow> (\<forall>s. length (fst (verifier_message S s)) = SQUEEZE_CHUNK_LEN)"

lemma squeeze_loop_blocks:
  assumes "chunked S" and "state t = Some s" and "n = (len - length out + 31) div 32"
    and "length out \<le> len"
  shows "squeeze_loop S len out t
    = Some (take len (out @ concat (fst (blocks S n s))), t\<lparr>state := Some (snd (blocks S n s))\<rparr>)"
  using assms(2-)
proof (induction n arbitrary: out t s)
  case 0
  then have "length out = len" by linarith
  with 0 show ?case by (subst squeeze_loop.simps) (simp add: akita_transcript.equality)
next
  case (Suc n)
  obtain c s1 where c: "verifier_message S s = (c, s1)" by force
  have lc: "length c = 32"
    using assms(1) c by (metis SQUEEZE_CHUNK_LEN_def chunked_def fst_conv)
  have lt: "length out < len" using Suc.prems(2) by linarith
  let ?t = "t\<lparr>state := Some s1\<rparr>" and ?out = "out @ take (min (len - length out) 32) c"
  have IH: "squeeze_loop S len ?out ?t
      = Some (take len (?out @ concat (fst (blocks S n s1))),
              ?t\<lparr>state := Some (snd (blocks S n s1))\<rparr>)"
    using lt lc Suc.prems(2) by (intro Suc.IH) (auto simp: min_def)
  have "take len (?out @ concat (fst (blocks S n s1)))
      = take len (out @ c @ concat (fst (blocks S n s1)))"
    using lt lc by (cases "len - length out \<le> 32") (simp_all add: min_def)
  with IH lt Suc.prems(1) c lc show ?case
    by (subst squeeze_loop.simps) (simp add: squeeze_block_def Let_def case_prod_beta)
qed

lemma length_blocks:
  "chunked S \<Longrightarrow> length (concat (fst (blocks S n s))) = 32 * n"
  by (induction n arbitrary: s)
     (simp_all add: Let_def case_prod_beta chunked_def SQUEEZE_CHUNK_LEN_def)

lemma squeeze_bytes_correct:
  assumes "chunked S" and "state t = Some s"
  shows "\<exists>out t'. squeeze_bytes S t len = Some (out, t') \<and> length out = len
           \<and> out = take len (concat (fst (blocks S ((len + 31) div 32) s)))"
proof -
  let ?n = "(len + 31) div 32"
  have "squeeze_bytes S t len = Some (take len (concat (fst (blocks S ?n s))),
      t\<lparr>state := Some (snd (blocks S ?n s))\<rparr>)"
    using squeeze_loop_blocks [OF assms, of ?n len "[]"] by (simp add: squeeze_bytes_def)
  moreover have "len \<le> 32 * ?n" by linarith
  ultimately show ?thesis using length_blocks [OF assms(1), of ?n s] by simp
qed

subsection \<open>The grinding predicate and its search\<close>

lemma low_bits_zero_iff:
  fixes w :: "8 word"
  assumes "r < 8"
  shows "w AND (push_bit r 1 - 1) = 0 \<longleftrightarrow> (\<forall>i < r. \<not> bit w i)"
proof -
  have "push_bit r 1 - 1 = (mask r :: 8 word)" by (simp add: mask_eq_exp_minus_1 push_bit_eq_mult)
  then have "w AND (push_bit r 1 - 1) = take_bit r w" by (simp add: take_bit_eq_mask)
  moreover have "take_bit r w = 0 \<longleftrightarrow> (\<forall>i < r. \<not> bit w i)"
    using assms by (auto simp: bit_eq_iff bit_take_bit_iff)
  ultimately show ?thesis by simp
qed

lemma byte_zero_iff: "(w :: 8 word) = 0 \<longleftrightarrow> (\<forall>i < 8. \<not> bit w i)"
  by (auto simp: bit_eq_iff)

lemma grinding_predicate_accepts_iff:
  assumes len: "length p = 32"
  shows "grinding_predicate_accepts p g
     \<longleftrightarrow> (\<forall>i < unat g. \<not> bit (p ! (i div 8)) (i mod 8))"
proof -
  define w r where "w = unat g div 8" and "r = unat g mod 8"
  have g: "unat g = 8 * w + r" "r < 8" by (simp_all add: w_def r_def)
  have w: "w < 32" using unat_lt2p [of g] g by simp
  have whole: "list_all (\<lambda>b. b = 0) (take w p) \<longleftrightarrow> (\<forall>j < w. \<forall>i < 8. \<not> bit (p ! j) i)"
    using w len by (auto simp: list_all_length byte_zero_iff)
  have "(\<forall>i < 8 * w + r. \<not> bit (p ! (i div 8)) (i mod 8))
      \<longleftrightarrow> (\<forall>j < w. \<forall>i < 8. \<not> bit (p ! j) i) \<and> (\<forall>i < r. \<not> bit (p ! w) i)" (is "?L \<longleftrightarrow> ?R")
  proof
    assume L: ?L
    have "\<not> bit (p ! j) i" if "j < w" "i < 8" for i j
      using L [rule_format, of "8 * j + i"] that by simp
    moreover have "\<not> bit (p ! w) i" if "i < r" for i
      using L [rule_format, of "8 * w + i"] that g(2) by simp
    ultimately show ?R by blast
  next
    assume R: ?R
    show ?L
    proof (intro allI impI)
      fix i assume "i < 8 * w + r"
      then have "i div 8 < w \<or> i div 8 = w \<and> i mod 8 < r" using g(2) by presburger
      then show "\<not> bit (p ! (i div 8)) (i mod 8)" using R by auto
    qed
  qed
  then show ?thesis
    unfolding grinding_predicate_accepts_def Let_def w_def [symmetric] r_def [symmetric]
    using whole low_bits_zero_iff [OF g(2), of "p ! w"] g(1) by auto
qed

lemma find_map_range_Some:
  "find_map_range lo k f = Some x \<longleftrightarrow>
     (\<exists>i. lo \<le> i \<and> i < lo + k \<and> f i = Some x \<and> (\<forall>j. lo \<le> j \<and> j < i \<longrightarrow> f j = None))"
proof (induction k arbitrary: lo)
  case (Suc k)
  show ?case
  proof (cases "f lo")
    case None
    have "(\<exists>i. Suc lo \<le> i \<and> i < Suc lo + k \<and> f i = Some x \<and> (\<forall>j. Suc lo \<le> j \<and> j < i \<longrightarrow> f j = None))
      \<longleftrightarrow> (\<exists>i. lo \<le> i \<and> i < lo + Suc k \<and> f i = Some x \<and> (\<forall>j. lo \<le> j \<and> j < i \<longrightarrow> f j = None))"
      using None by (metis Suc_leD Suc_le_eq add_Suc_shift le_eq_less_or_eq option.distinct(1))
    with Suc None show ?thesis by simp
  next
    case (Some y)
    then show ?thesis by (auto, metis le_eq_less_or_eq option.distinct(1) option.inject)
  qed
qed auto

lemma find_map_range_None:
  "find_map_range lo k f = None \<longleftrightarrow> (\<forall>i. lo \<le> i \<and> i < lo + k \<longrightarrow> f i = None)"
  by (induction k arbitrary: lo) (auto split: option.split, metis Suc_leI le_eq_less_or_eq
    add_Suc_right option.distinct(1) trans_less_add1)

text \<open>The candidate test of the search.\<close>

definition nonce_accepted :: "(byte list list \<Rightarrow> byte list) \<Rightarrow> 8 word \<Rightarrow> 8 word \<Rightarrow> nat \<Rightarrow> bool" where
  "nonce_accepted preview g nb i \<longleftrightarrow>
     grinding_predicate_accepts (preview [grinding_payload g nb (of_nat i)]) g"

definition canonical_grind_width :: "8 word \<Rightarrow> 8 word \<Rightarrow> bool" where
  "canonical_grind_width g nb \<longleftrightarrow>
     g \<noteq> 0 \<and> unat g \<le> MAX_GRINDING_BITS \<and> unat nb = unat g + GRINDING_NONCE_SLACK_BITS"

lemma search_grinding_nonce_eq:
  assumes "canonical_grind_width g nb"
  shows "search_grinding_nonce preview g nb = find_map_range 0 (2 ^ unat nb)
     (\<lambda>i. if 2 ^ 32 \<le> i then None else if nonce_accepted preview g nb i then Some (of_nat i) else None)"
proof -
  have "g \<noteq> 0" "\<not> MAX_GRINDING_BITS < unat g" "unat nb = unat g + GRINDING_NONCE_SLACK_BITS"
      "\<not> 32 < unat nb"
    using assms by (simp_all add: canonical_grind_width_def MAX_GRINDING_BITS_def
        GRINDING_NONCE_SLACK_BITS_def)
  then show ?thesis
    by (simp add: search_grinding_nonce_def preview_grinding_predicate_def nonce_accepted_def
        Let_def cong: if_cong)
qed

lemma unat_of_nat_u32: "i < 2 ^ 32 \<Longrightarrow> unat (of_nat i :: 32 word) = i"
  by (simp add: unat_of_nat)

lemma canonical_width_attempts: "canonical_grind_width g nb \<Longrightarrow> (2::nat) ^ unat nb \<le> 2 ^ 32"
  by (rule power_increasing)
     (simp_all add: canonical_grind_width_def MAX_GRINDING_BITS_def GRINDING_NONCE_SLACK_BITS_def)

lemma search_grinding_nonce_Some:
  assumes "canonical_grind_width g nb"
  shows "search_grinding_nonce preview g nb = Some c \<longleftrightarrow>
     unat c < 2 ^ unat nb \<and> nonce_accepted preview g nb (unat c)
       \<and> (\<forall>j < unat c. \<not> nonce_accepted preview g nb j)" (is "?L \<longleftrightarrow> ?R")
proof
  assume ?L
  then obtain i where i: "i < 2 ^ unat nb" "\<not> 2 ^ 32 \<le> i" "nonce_accepted preview g nb i" "c = of_nat i"
      and less: "\<And>j. j < i \<Longrightarrow> 2 ^ 32 \<le> j \<or> \<not> nonce_accepted preview g nb j"
    by (auto simp: search_grinding_nonce_eq [OF assms] find_map_range_Some split: if_splits)
  then have "unat c = i" by (simp add: unat_of_nat_u32)
  with i less show ?R by force
next
  assume ?R
  moreover have "unat c < 2 ^ 32" using unat_lt2p [of c] by simp
  ultimately show ?L
    by (auto simp: search_grinding_nonce_eq [OF assms] find_map_range_Some intro!: exI [of _ "unat c"])
qed

lemma search_grinding_nonce_None:
  assumes "canonical_grind_width g nb"
  shows "search_grinding_nonce preview g nb = None \<longleftrightarrow>
     (\<forall>j < 2 ^ unat nb. \<not> nonce_accepted preview g nb j)"
  using canonical_width_attempts [OF assms]
  by (force simp: search_grinding_nonce_eq [OF assms] find_map_range_None split: if_splits)

text \<open>
  What the preview relies on of the sponge backend: a prover state drives its public duplex
  sponge by plain absorb and squeeze calls.
\<close>

definition duplex_faithful :: "('s, 'd) sponge_ops \<Rightarrow> bool" where
  "duplex_faithful S \<longleftrightarrow>
     (\<forall>b s. duplex_sponge_state S (public_message S b s)
              = duplex_absorb S b (duplex_sponge_state S s)) \<and>
     (\<forall>s. duplex_squeeze S (duplex_sponge_state S s)
            = map_prod id (duplex_sponge_state S) (verifier_message S s))"

lemma preview_is_live_block:
  assumes "duplex_faithful S" and "state t = Some s" and "side t = Prover" and "g \<noteq> 0"
  shows "\<exists>t' block. grinding_predicate S t g nb c = Some (Some block, t')
           \<and> preview_challenge_block S t [grinding_payload g nb c] = Some block"
proof -
  let ?s = "public_message S (framed_bytes (grinding_payload g nb c)) s"
  have "duplex_squeeze S (duplex_absorb S (framed_bytes (grinding_payload g nb c)) (duplex_sponge_state S s))
      = map_prod id (duplex_sponge_state S) (verifier_message S ?s)"
    using assms(1) by (metis duplex_faithful_def)
  with assms(2-) show ?thesis
    by (simp add: grinding_predicate_def absorb_bytes_def squeeze_block_def preview_challenge_block_def
        Let_def case_prod_beta)
qed

lemma search_then_verify:
  assumes S: "duplex_faithful S" and t: "state t = Some s" "side t = Prover"
    and w: "canonical_grind_width g nb"
    and found: "search_grinding_nonce (\<lambda>ps. the (preview_challenge_block S t ps)) g nb = Some c"
    and v: "state v = state t"
  shows "\<exists>block v'. grinding_predicate S v g nb c = Some (Some block, v')
           \<and> grinding_predicate_accepts block g"
proof -
  have g: "g \<noteq> 0" using w by (simp add: canonical_grind_width_def)
  from found have "nonce_accepted (\<lambda>ps. the (preview_challenge_block S t ps)) g nb (unat c)"
    by (simp add: search_grinding_nonce_Some [OF w])
  then have acc: "grinding_predicate_accepts (the (preview_challenge_block S t [grinding_payload g nb c])) g"
    by (simp add: nonce_accepted_def)
  with preview_is_live_block [OF S t g, of nb c] show ?thesis
    using v t g by (auto simp: grinding_predicate_def absorb_bytes_def squeeze_block_def
        Let_def case_prod_beta)
qed

subsection \<open>Properties of the transcript\<close>

text \<open>A byte-recording sponge, as a concrete backend: the state is the absorbed stream.\<close>

definition recording_sponge :: "(byte list, byte list) sponge_ops" where
  "recording_sponge = \<lparr>domain_init = (\<lambda>a b c. a @ b @ c), public_message = (\<lambda>m s. s @ m),
     verifier_message = (\<lambda>s. (replicate 32 (of_nat (length s)), s @ [0])),
     duplex_sponge_state = (\<lambda>s. s), duplex_absorb = (\<lambda>m s. s @ m),
     duplex_squeeze = (\<lambda>s. (replicate 32 (of_nat (length s)), s @ [0]))\<rparr>"

lemma recording_sponge_ok [simp]: "chunked recording_sponge" "duplex_faithful recording_sponge"
  by (simp_all add: recording_sponge_def chunked_def duplex_faithful_def SQUEEZE_CHUNK_LEN_def)

text \<open>A backend whose blocks are all zero.\<close>

definition zero_sponge :: "(unit, unit) sponge_ops" where
  "zero_sponge = \<lparr>domain_init = (\<lambda>_ _ _. ()), public_message = (\<lambda>_ _. ()),
     verifier_message = (\<lambda>_. (replicate 32 0, ())), duplex_sponge_state = (\<lambda>_. ()),
     duplex_absorb = (\<lambda>_ _. ()), duplex_squeeze = (\<lambda>_. (replicate 32 0, ()))\<rparr>"

fun absorb_all ::
  "('s, 'd) sponge_ops \<Rightarrow> 's akita_transcript \<Rightarrow> byte list list \<Rightarrow> 's akita_transcript option" where
  "absorb_all S t [] = Some t"
| "absorb_all S t (m # ms) = Option.bind (absorb_bytes S t m) (\<lambda>t'. absorb_all S t' ms)"

lemma absorb_all_recording:
  "state t = Some s \<Longrightarrow>
     absorb_all recording_sponge t ms = Some (t\<lparr>state := Some (s @ concat (map framed_bytes ms))\<rparr>)"
  by (induction ms arbitrary: t s) (simp_all add: absorb_bytes_def recording_sponge_def)

text \<open>
  C18: The bytes a transcript feeds to its sponge determine its history.  Over a sponge that
  records them, two transcripts with the same stream were bound to the same session label
  and instance bytes and absorbed the same messages in the same order: no length framing can
  be shifted from one part into another.
\<close>

theorem transcript_stream_injective:
  assumes "absorb_all recording_sponge (new_prover recording_sponge label inst) ms = Some t"
    and "absorb_all recording_sponge (new_verifier recording_sponge label' inst') ms' = Some t'"
    and "state t = state t'"
    and "\<forall>x \<in> {label, inst, label', inst'} \<union> set ms \<union> set ms'. length x < 2 ^ 64"
  shows "label = label' \<and> inst = inst' \<and> ms = ms'"
proof -
  have stream: "session_bound_instance label inst @ concat (map framed_bytes ms)
      = session_bound_instance label' inst' @ concat (map framed_bytes ms')"
    using assms(1-3)
    by (auto simp: new_prover_def new_verifier_def bind_instance_bytes_def absorb_all_recording
        unbound_def recording_sponge_def [THEN arg_cong, of domain_init])
  have frames: "session_bound_instance l i = framed_bytes l @ framed_bytes i" for l i
    by (simp add: session_bound_instance_def framed_bytes_def)
  from stream assms(4) have "label = label'
      \<and> framed_bytes inst @ concat (map framed_bytes ms) = framed_bytes inst' @ concat (map framed_bytes ms')"
    by (intro framed_bytes_prefix_free) (simp_all add: frames)
  moreover from this assms(4) have "inst = inst' \<and> concat (map framed_bytes ms) = concat (map framed_bytes ms')"
    by (intro framed_bytes_prefix_free) simp_all
  moreover from this assms(4) have "ms = ms'" by (intro framed_stream_inj) simp_all
  ultimately show ?thesis by blast
qed

theorem transcript_stream_injective_witness:
  "\<exists>t t'. absorb_all recording_sponge (new_prover recording_sponge [1] [2]) [[3], [4]] = Some t
     \<and> absorb_all recording_sponge (new_verifier recording_sponge [1] [2]) [[3, 4]] = Some t'
     \<and> state t \<noteq> state t'"
proof -
  have bound: "\<exists>t. absorb_all recording_sponge (bind_instance_bytes recording_sponge v i) ms = Some t" for v i ms
    by (simp add: bind_instance_bytes_def absorb_all_recording)
  obtain t t' where
    "absorb_all recording_sponge (new_prover recording_sponge [1] [2]) [[3], [4]] = Some t"
    "absorb_all recording_sponge (new_verifier recording_sponge [1] [2]) [[3, 4]] = Some t'"
    using bound unfolding new_prover_def new_verifier_def by blast
  with transcript_stream_injective [OF this] show ?thesis by auto
qed

text \<open>
  C19: Squeezing terminates with exactly the requested number of bytes.  Over a backend whose
  verifier messages have the block length, \<open>squeeze_bytes\<close> on a bound transcript returns
  for every length: the bytes are the prefix of the concatenated blocks, exactly
  \<open>\<lceil>len / 32\<rceil>\<close> blocks are drawn, and the transcript stays bound.
\<close>

theorem squeeze_bytes_terminates:
  assumes "chunked S" and "state t = Some s"
  shows "\<exists>out t'. squeeze_bytes S t len = Some (out, t') \<and> length out = len
           \<and> out = take len (concat (fst (blocks S ((len + 31) div 32) s)))
           \<and> t' = t\<lparr>state := Some (snd (blocks S ((len + 31) div 32) s))\<rparr>"
  using squeeze_loop_blocks [OF assms, of "(len + 31) div 32" len "[]"] squeeze_bytes_correct [OF assms, of len]
  by (auto simp: squeeze_bytes_def)

theorem squeeze_bytes_terminates_witness:
  "\<exists>out t'. squeeze_bytes recording_sponge (new_prover recording_sponge [1] [2]) 40 = Some (out, t')
     \<and> length out = 40"
  using squeeze_bytes_terminates [of recording_sponge "new_prover recording_sponge [1] [2]" _ 40]
  by (fastforce simp: new_prover_def bind_instance_bytes_def)

text \<open>
  C20: The grinding search returns the least accepted nonce of its canonical width.  A returned
  nonce fits the width, its predicate block has the required number of zero bits, and every
  smaller nonce was tried and rejected; the search fails exactly when no nonce of that width
  is accepted.
\<close>

theorem grinding_search_least:
  assumes "canonical_grind_width g nb"
  shows "(search_grinding_nonce preview g nb = Some c \<longleftrightarrow>
            unat c < 2 ^ unat nb \<and> nonce_accepted preview g nb (unat c)
            \<and> (\<forall>j < unat c. \<not> nonce_accepted preview g nb j))
       \<and> (search_grinding_nonce preview g nb = None \<longleftrightarrow>
            (\<forall>j < 2 ^ unat nb. \<not> nonce_accepted preview g nb j))"
  using search_grinding_nonce_Some [OF assms] search_grinding_nonce_None [OF assms] by blast

theorem grinding_search_least_witness:
  "search_grinding_nonce (\<lambda>_. replicate 32 0) 3 10 = Some 0"
proof -
  have "canonical_grind_width 3 10"
    by (simp add: canonical_grind_width_def MAX_GRINDING_BITS_def GRINDING_NONCE_SLACK_BITS_def)
  moreover have "nonce_accepted (\<lambda>_. replicate 32 0) 3 10 0"
    by (simp add: nonce_accepted_def grinding_predicate_accepts_def)
  ultimately show ?thesis using grinding_search_least [of 3 10 "\<lambda>_. replicate 32 0" 0] by simp
qed

text \<open>
  C21: A nonce the prover finds is a nonce the verifier accepts.  The search previews blocks on
  a copy of the prover's sponge; replaying the found nonce on a verifier transcript in the
  same state absorbs the same payload, draws the same block, and that block has its low
  \<open>g\<close> bits zero.
\<close>

theorem grinding_found_then_accepted:
  assumes "duplex_faithful S" and "chunked S" and "state t = Some s" and "side t = Prover"
    and "canonical_grind_width g nb"
    and "search_grinding_nonce (\<lambda>ps. the (preview_challenge_block S t ps)) g nb = Some c"
    and "state v = state t"
  shows "\<exists>block v'. grinding_predicate S v g nb c = Some (Some block, v')
           \<and> (\<forall>i < unat g. \<not> bit (block ! (i div 8)) (i mod 8))"
proof -
  obtain block v' where b: "grinding_predicate S v g nb c = Some (Some block, v')"
      "grinding_predicate_accepts block g"
    using search_then_verify [OF assms(1,3,4,5,6,7)] by blast
  have "length block = 32"
    using b(1) assms(2) by (auto simp: grinding_predicate_def squeeze_block_def chunked_def
        SQUEEZE_CHUNK_LEN_def bind_eq_Some_conv split_beta split: if_splits)
  with b show ?thesis using grinding_predicate_accepts_iff by blast
qed

theorem grinding_found_then_accepted_witness:
  "\<exists>c block v'. search_grinding_nonce
       (\<lambda>ps. the (preview_challenge_block zero_sponge (new_prover zero_sponge [1] [2]) ps)) 3 10 = Some c
     \<and> grinding_predicate zero_sponge (new_verifier zero_sponge [1] [2]) 3 10 c = Some (Some block, v')"
proof -
  let ?t = "new_prover zero_sponge [1] [2]" and ?v = "new_verifier zero_sponge [1] [2]"
  have w: "canonical_grind_width 3 10"
    by (simp add: canonical_grind_width_def MAX_GRINDING_BITS_def GRINDING_NONCE_SLACK_BITS_def)
  have "nonce_accepted (\<lambda>ps. the (preview_challenge_block zero_sponge ?t ps)) 3 10 0"
    by (simp add: nonce_accepted_def preview_challenge_block_def new_prover_def bind_instance_bytes_def
        unbound_def zero_sponge_def grinding_predicate_accepts_def)
  then have found: "search_grinding_nonce (\<lambda>ps. the (preview_challenge_block zero_sponge ?t ps)) 3 10 = Some 0"
    by (subst search_grinding_nonce_Some [OF w]) simp
  have "\<exists>block v'. grinding_predicate zero_sponge ?v 3 10 0 = Some (Some block, v')
           \<and> (\<forall>i < unat (3 :: 8 word). \<not> bit (block ! (i div 8)) (i mod 8))"
    by (rule grinding_found_then_accepted [OF _ _ _ _ w found])
       (simp_all add: zero_sponge_def duplex_faithful_def chunked_def SQUEEZE_CHUNK_LEN_def
          new_prover_def new_verifier_def bind_instance_bytes_def unbound_def)
  with found show ?thesis by blast
qed

text \<open>
  Per-limb labels of extension-field values never collide.  The label of limb \<open>i\<close> of a
  base label determines both, \<open>ext_limb_base_label\<close> recovers the base label, and
  \<open>is_ext_limb_label\<close> accepts it for that base label only.
\<close>

lemma ext_limb_labels_injective:
  assumes "i < 2 ^ 64" and "j < 2 ^ 64"
  shows "(ext_limb_label l i = ext_limb_label l' j \<longleftrightarrow> l = l' \<and> i = j)
       \<and> (is_ext_limb_label (ext_limb_label l i) l' \<longleftrightarrow> l = l')"
  using ext_limb_label_inj [OF _ assms] by (auto simp: is_ext_limb_label_def ext_limb_base_label_limb)

end
