(* ===== verification/GrindingPlan.thy ===== *)
theory GrindingPlan
  imports Transcript
begin

text \<open>
  \<^verbatim>\<open>akita-types/src/transcript_grinding.rs\<close>: the logical query sites of the proof-of-work
  schedule, the pricing of a loss factor, the validated plan with its totals, and the canonical
  encoding that the instance descriptor digests.  \<open>u8\<close>, \<open>u32\<close> and \<open>u64\<close> fields are words
  of that width; \<open>usize\<close> values are naturals bounded by \<open>usize_max\<close>.
\<close>

subsection \<open>Sites\<close>

datatype grinding_query_kind = ProofOfWork | FoldResponseKind | FoldChallengeGroupKind

datatype sumcheck_protocol = ExtensionOpeningReduction | Stage1 | PhysicalL2 | Stage2 | Stage3

fun protocol_tag :: "sumcheck_protocol \<Rightarrow> u32" where
  "protocol_tag ExtensionOpeningReduction = 0"
| "protocol_tag Stage1 = 1"
| "protocol_tag PhysicalL2 = 2"
| "protocol_tag Stage2 = 3"
| "protocol_tag Stage3 = 4"

datatype grinding_site =
    EvaluationBatch u32
  | ExtensionOpeningPoint u32
  | ExtensionOpeningClaimBatch u32
  | SumcheckRound sumcheck_protocol u32 u32 u32
  | FoldResponse u32
  | FoldChallengeGroup u32 u32
  | RingSwitchAlpha u32
  | Tau0Point u32
  | Tau1Point u32
  | Stage1InterstageBatch u32 u32
  | L2SubclaimBatch u32
  | L2NormMerge u32
  | L2VirtualBatch u32
  | CompressionBinary u32
  | Stage2Batch u32

fun site_kind :: "grinding_site \<Rightarrow> grinding_query_kind" where
  "site_kind (FoldResponse _) = FoldResponseKind"
| "site_kind (FoldChallengeGroup _ _) = FoldChallengeGroupKind"
| "site_kind _ = ProofOfWork"

fun site_level :: "grinding_site \<Rightarrow> u32" where
  "site_level (EvaluationBatch level) = level"
| "site_level (ExtensionOpeningPoint level) = level"
| "site_level (ExtensionOpeningClaimBatch level) = level"
| "site_level (SumcheckRound _ level _ _) = level"
| "site_level (FoldResponse level) = level"
| "site_level (FoldChallengeGroup level _) = level"
| "site_level (RingSwitchAlpha level) = level"
| "site_level (Tau0Point level) = level"
| "site_level (Tau1Point level) = level"
| "site_level (Stage1InterstageBatch level _) = level"
| "site_level (L2SubclaimBatch level) = level"
| "site_level (L2NormMerge level) = level"
| "site_level (L2VirtualBatch level) = level"
| "site_level (CompressionBinary level) = level"
| "site_level (Stage2Batch level) = level"

fun proof_of_work_label :: "grinding_site \<Rightarrow> string option" where
  "proof_of_work_label (EvaluationBatch _) = Some ''ak/c/eb''"
| "proof_of_work_label (ExtensionOpeningPoint _) = Some ''ak/c/scb''"
| "proof_of_work_label (Stage2Batch _) = Some ''ak/c/scb''"
| "proof_of_work_label (ExtensionOpeningClaimBatch _) = Some ''ak/c/ecb''"
| "proof_of_work_label (SumcheckRound _ _ _ _) = Some ''ak/c/scr''"
| "proof_of_work_label (RingSwitchAlpha _) = Some ''ak/c/rs''"
| "proof_of_work_label (Tau0Point _) = Some ''ak/c/t0''"
| "proof_of_work_label (Tau1Point _) = Some ''ak/c/t1''"
| "proof_of_work_label (Stage1InterstageBatch _ _) = Some ''ak/c/scib''"
| "proof_of_work_label (L2SubclaimBatch _) = Some ''ak/c/l2b''"
| "proof_of_work_label (L2NormMerge _) = Some ''ak/c/l2m''"
| "proof_of_work_label (L2VirtualBatch _) = Some ''ak/c/l2v''"
| "proof_of_work_label (CompressionBinary _) = Some ''ak/c/cb''"
| "proof_of_work_label (FoldResponse _) = None"
| "proof_of_work_label (FoldChallengeGroup _ _) = None"

definition u32_max :: u32 where
  "u32_max = - 1"

fun site_uses_sentinel :: "grinding_site \<Rightarrow> bool" where
  "site_uses_sentinel (SumcheckRound _ level stage rnd) \<longleftrightarrow> level = u32_max \<or> stage = u32_max \<or> rnd = u32_max"
| "site_uses_sentinel (FoldChallengeGroup level grp) \<longleftrightarrow> level = u32_max \<or> grp = u32_max"
| "site_uses_sentinel (Stage1InterstageBatch level stage) \<longleftrightarrow> level = u32_max \<or> stage = u32_max"
| "site_uses_sentinel site \<longleftrightarrow> site_level site = u32_max"

definition site_validate :: "grinding_site \<Rightarrow> unit result" where
  "site_validate site =
     (if site_uses_sentinel site then Inl (InvalidSetup ''grinding site uses a reserved u32 sentinel'')
      else Inr ())"

definition push_u32 :: "u32 \<Rightarrow> byte list" where
  "push_u32 v = to_le_bytes 4 v"

fun site_bytes :: "grinding_site \<Rightarrow> byte list" where
  "site_bytes (EvaluationBatch level) = 0 # push_u32 level"
| "site_bytes (ExtensionOpeningPoint level) = 1 # push_u32 level"
| "site_bytes (ExtensionOpeningClaimBatch level) = 2 # push_u32 level"
| "site_bytes (SumcheckRound protocol level stage rnd) =
     3 # push_u32 (protocol_tag protocol) @ push_u32 level @ push_u32 stage @ push_u32 rnd"
| "site_bytes (FoldResponse level) = 4 # push_u32 level"
| "site_bytes (FoldChallengeGroup level grp) = 5 # push_u32 level @ push_u32 grp"
| "site_bytes (RingSwitchAlpha level) = 6 # push_u32 level"
| "site_bytes (Tau0Point level) = 7 # push_u32 level"
| "site_bytes (Tau1Point level) = 8 # push_u32 level"
| "site_bytes (Stage1InterstageBatch level stage) = 9 # push_u32 level @ push_u32 stage"
| "site_bytes (L2SubclaimBatch level) = 10 # push_u32 level"
| "site_bytes (L2NormMerge level) = 11 # push_u32 level"
| "site_bytes (L2VirtualBatch level) = 12 # push_u32 level"
| "site_bytes (CompressionBinary level) = 13 # push_u32 level"
| "site_bytes (Stage2Batch level) = 14 # push_u32 level"

subsection \<open>Pricing\<close>

definition TRANSCRIPT_SECURITY_BITS :: nat where
  "TRANSCRIPT_SECURITY_BITS = 128"

definition FOLD_RESPONSE_NONCE_BITS :: byte where
  "FOLD_RESPONSE_NONCE_BITS = 12"

definition FOLD_RESPONSE_ATTEMPTS :: u32 where
  "FOLD_RESPONSE_ATTEMPTS = push_bit 12 1"

text \<open>\<open>u64::leading_zeros\<close>.\<close>

fun bit_length :: "nat \<Rightarrow> nat" where
  "bit_length n = (if n = 0 then 0 else Suc (bit_length (n div 2)))"

declare bit_length.simps [simp del]

definition leading_zeros :: "u64 \<Rightarrow> nat" where
  "leading_zeros w = 64 - bit_length (unat w)"

definition grind_bits_for_loss :: "u64 \<Rightarrow> u32 \<Rightarrow> byte result" where
  "grind_bits_for_loss loss_factor nominal_capacity_bits =
     (if loss_factor = 0 then Inl (InvalidSetup ''proof-of-work loss factor must be nonzero'')
      else let loss_bits = 64 - leading_zeros (loss_factor - 1);
               required = TRANSCRIPT_SECURITY_BITS + loss_bits in
        if 2 ^ 32 \<le> required then Inl (InvalidSetup ''grinding target overflow'')
        else let target = required - unat nominal_capacity_bits in
          if 2 ^ 8 \<le> target then Inl (InvalidSetup ''grinding target exceeds u8'')
          else if MAX_GRINDING_BITS < target
          then Inl (InvalidSetup (''grinding target '' @ show_nat target @ '' exceeds supported maximum ''
                 @ show_nat MAX_GRINDING_BITS))
          else Inr (of_nat target))"

definition nominal_challenge_capacity_bits :: "u32 \<Rightarrow> nat \<Rightarrow> u32 result" where
  "nominal_challenge_capacity_bits modulus_bits extension_degree =
     (if 2 ^ 32 \<le> extension_degree then Inl (InvalidSetup ''challenge extension degree exceeds u32'')
      else if 2 ^ 32 \<le> unat modulus_bits * extension_degree
      then Inl (InvalidSetup ''nominal challenge capacity overflow'')
      else Inr (modulus_bits * of_nat extension_degree))"

text \<open>A \<open>usize\<close> always fits \<open>u64\<close> on the 64-bit target, so the three conversions cannot fail.\<close>

definition polynomial_identity_loss_factor :: "nat \<Rightarrow> u64" where
  "polynomial_identity_loss_factor degree = of_nat (max degree 1)"

definition multilinear_point_loss_factor :: "nat \<Rightarrow> u64" where
  "multilinear_point_loss_factor coordinates = of_nat (max coordinates 1)"

definition powers_batch_loss_factor :: "nat \<Rightarrow> u64" where
  "powers_batch_loss_factor values = of_nat (max (values - 1) 1)"

datatype opening_method = EvaluationTrace | SubringCoefficientPacking nat

definition ring_switch_alpha_loss_factor :: "opening_method \<Rightarrow> nat \<Rightarrow> u64 result" where
  "ring_switch_alpha_loss_factor opening_method inner_ring_dimension =
     bindE (ok_or (case opening_method of
                EvaluationTrace \<Rightarrow> Option.bind (checked_mul inner_ring_dimension 2) (\<lambda>v. checked_sub v 1)
              | SubringCoefficientPacking subring_dim \<Rightarrow> Option.bind (checked_mul subring_dim 2) (\<lambda>v. checked_sub v 1))
            (InvalidSetup ''ring-switch alpha degree overflow''))
       (\<lambda>degree_bound. Inr (polynomial_identity_loss_factor degree_bound))"

subsection \<open>Runs\<close>

record grinding_run =
  site :: grinding_site
  loss_factor :: u64
  grind_bits :: byte
  nonce_bits :: byte
  multiplicity :: u64

abbreviation run_kind :: "grinding_run \<Rightarrow> grinding_query_kind" where
  "run_kind run \<equiv> site_kind (site run)"

text \<open>\<open>checked_add\<close> of the slack on a \<open>u8\<close>.\<close>

definition expected_nonce_bits :: "byte \<Rightarrow> byte result" where
  "expected_nonce_bits g =
     (if g = 0 then Inr 0
      else if 2 ^ 8 \<le> unat g + GRINDING_NONCE_SLACK_BITS then Inl (InvalidSetup ''grinding nonce width overflow'')
      else Inr (g + of_nat GRINDING_NONCE_SLACK_BITS))"

definition proof_of_work_run :: "grinding_site \<Rightarrow> u64 \<Rightarrow> u32 \<Rightarrow> grinding_run result" where
  "proof_of_work_run st loss nominal_capacity_bits =
     (if site_kind st \<noteq> ProofOfWork
      then Inl (InvalidSetup ''special grinding sites cannot be proof-of-work runs'')
      else bindE (grind_bits_for_loss loss nominal_capacity_bits)
        (\<lambda>g. bindE (expected_nonce_bits g)
           (\<lambda>nb. Inr \<lparr>site = st, loss_factor = loss, grind_bits = g, nonce_bits = nb, multiplicity = 1\<rparr>)))"

definition fold_response_run :: "u32 \<Rightarrow> grinding_run" where
  "fold_response_run level =
     \<lparr>site = FoldResponse level, loss_factor = 0, grind_bits = 0,
      nonce_bits = FOLD_RESPONSE_NONCE_BITS, multiplicity = 1\<rparr>"

definition fold_challenge_group_run :: "u32 \<Rightarrow> u32 \<Rightarrow> u64 \<Rightarrow> grinding_run result" where
  "fold_challenge_group_run level grp coordinate_count =
     (if 2 ^ 64 \<le> unat coordinate_count + 1 then Inl (InvalidSetup ''fold challenge query count overflow'')
      else Inr \<lparr>site = FoldChallengeGroup level grp, loss_factor = 0, grind_bits = 0,
                nonce_bits = 0, multiplicity = coordinate_count + 1\<rparr>)"

definition fold_coordinate_count :: "grinding_run \<Rightarrow> u64 option" where
  "fold_coordinate_count run =
     (if run_kind run = FoldChallengeGroupKind
      then if 1 \<le> multiplicity run then Some (multiplicity run - 1) else None else None)"

definition run_validate :: "grinding_run \<Rightarrow> unit result" where
  "run_validate run =
     bindE (site_validate (site run))
       (\<lambda>_. case run_kind run of
          ProofOfWork \<Rightarrow>
            if loss_factor run = 0 \<or> multiplicity run \<noteq> 1
            then Inl (InvalidSetup ''proof-of-work run has invalid loss or multiplicity'')
            else bindE (expected_nonce_bits (grind_bits run))
              (\<lambda>expected. if MAX_GRINDING_BITS < unat (grind_bits run) \<or> nonce_bits run \<noteq> expected
                 then Inl (InvalidSetup ''proof-of-work run has invalid target or nonce width'') else Inr ())
        | FoldResponseKind \<Rightarrow>
            if loss_factor run = 0 \<and> grind_bits run = 0 \<and> nonce_bits run = FOLD_RESPONSE_NONCE_BITS
               \<and> multiplicity run = 1
            then Inr () else Inl (InvalidSetup ''grinding run kind and site do not match'')
        | FoldChallengeGroupKind \<Rightarrow>
            if loss_factor run = 0 \<and> grind_bits run = 0 \<and> nonce_bits run = 0 \<and> multiplicity run > 1
            then Inr () else Inl (InvalidSetup ''grinding run kind and site do not match''))"

definition run_bytes :: "grinding_run \<Rightarrow> byte list" where
  "run_bytes run = site_bytes (site run) @ to_le_bytes 8 (loss_factor run)
     @ [grind_bits run, nonce_bits run] @ to_le_bytes 8 (multiplicity run)"

subsection \<open>Plans\<close>

record plan_accumulator =
  acc_capacity :: u32
  acc_run_count :: nat
  acc_nonce_bits :: nat
  acc_query_count :: nat

definition accumulator_new :: "u32 \<Rightarrow> plan_accumulator result" where
  "accumulator_new capacity =
     (if capacity = 0 then Inl (InvalidSetup ''grinding nominal capacity must be nonzero'')
      else Inr \<lparr>acc_capacity = capacity, acc_run_count = 0, acc_nonce_bits = 0, acc_query_count = 0\<rparr>)"

definition accumulator_push :: "plan_accumulator \<Rightarrow> grinding_run \<Rightarrow> plan_accumulator result" where
  "accumulator_push acc run =
     (if 2 ^ 32 \<le> acc_run_count acc + 1 then Inl (InvalidSetup ''grinding plan run count exceeds u32'')
      else bindE (run_validate run)
        (\<lambda>_. bindE (if run_kind run = ProofOfWork
                    then bindE (grind_bits_for_loss (loss_factor run) (acc_capacity acc))
                      (\<lambda>g. if grind_bits run \<noteq> g
                        then Inl (InvalidSetup ''proof-of-work run target does not match its loss and capacity'')
                        else Inr ())
                    else Inr ())
        (\<lambda>_. bindE (ok_or (checked_mul (unat (nonce_bits run)) (unat (multiplicity run)))
                     (InvalidSetup ''grinding run bit count overflow''))
        (\<lambda>run_bits. bindE (ok_or (checked_add (acc_nonce_bits acc) run_bits)
                            (InvalidSetup ''grinding plan bit count overflow''))
        (\<lambda>bits. let queries = acc_query_count acc + unat (multiplicity run) in
           if 2 ^ 64 \<le> queries then Inl (InvalidSetup ''grinding query count overflow'')
           else if 2 ^ 32 - 1 \<le> queries
           then Inl (InvalidSetup ''grinding plan query count must be less than 2^32'')
           else Inr (acc\<lparr>acc_run_count := acc_run_count acc + 1, acc_nonce_bits := bits,
                         acc_query_count := queries\<rparr>))))))"

record grinding_plan =
  runs :: "grinding_run list"
  nominal_capacity_bits :: u32
  total_nonce_bits :: nat
  expanded_query_count :: nat

definition grinding_plan_new :: "grinding_run list \<Rightarrow> u32 \<Rightarrow> grinding_plan result" where
  "grinding_plan_new rs capacity =
     bindE (accumulator_new capacity)
       (\<lambda>acc0. bindE (try_fold accumulator_push acc0 rs)
          (\<lambda>acc. Inr \<lparr>runs = rs, nominal_capacity_bits = capacity,
                      total_nonce_bits = acc_nonce_bits acc, expanded_query_count = acc_query_count acc\<rparr>))"

definition active_grinding_policy_bytes :: "byte list" where
  "active_grinding_policy_bytes =
     to_le_bytes 2 (1 :: 16 word) @ to_le_bytes 2 (of_nat TRANSCRIPT_SECURITY_BITS :: 16 word)
       @ [of_nat GRINDING_NONCE_SLACK_BITS, of_nat MAX_GRINDING_BITS, 32, 0, FOLD_RESPONSE_NONCE_BITS]
       @ to_le_bytes 4 FOLD_RESPONSE_ATTEMPTS @ to_le_bytes 2 (1 :: 16 word) @ to_le_bytes 2 (1 :: 16 word)"

definition plan_bytes :: "grinding_plan \<Rightarrow> byte list result" where
  "plan_bytes plan =
     (if 2 ^ 32 \<le> length (runs plan) then Inl (InvalidSetup ''grinding plan run count exceeds u32'')
      else Inr (bytes_of_string ''akita/grinding-plan/v1'' @ active_grinding_policy_bytes
             @ push_u32 (of_nat (length (runs plan))) @ concat (map run_bytes (runs plan))))"

subsection \<open>Pricing is exact\<close>

lemma bit_length_le_iff: "bit_length n \<le> k \<longleftrightarrow> n < 2 ^ k"
proof (induction n arbitrary: k rule: bit_length.induct)
  case (1 n)
  show ?case
  proof (cases "n = 0")
    case False
    then have "bit_length n = Suc (bit_length (n div 2))" by (subst bit_length.simps) simp
    with 1 [OF False] show ?thesis
      using False by (cases k) (auto simp: div_less_iff_less_mult mult.commute)
  qed (simp add: bit_length.simps)
qed

lemma loss_bits_eq: "64 - leading_zeros w = bit_length (unat w)"
proof -
  have "bit_length (unat w) \<le> 64" using unsigned_less [of w] by (simp add: bit_length_le_iff)
  then show ?thesis by (simp add: leading_zeros_def)
qed

text \<open>Covering a loss by \<open>k\<close> extra bits, as an inequality of the real quantities.\<close>

lemma loss_covered_iff:
  assumes "loss \<noteq> (0 :: u64)"
  shows "128 + bit_length (unat (loss - 1)) \<le> cap \<longleftrightarrow> unat loss * 2 ^ 128 \<le> 2 ^ cap"
proof (cases "128 \<le> cap")
  case True
  then obtain k where cap: "cap = 128 + k" by (auto simp: le_iff_add)
  have "0 < unat loss" using assms by (simp add: unat_gt_0)
  then have "bit_length (unat (loss - 1)) \<le> k \<longleftrightarrow> unat loss \<le> 2 ^ k"
    by (auto simp: bit_length_le_iff unat_minus_one [OF assms])
  then show ?thesis by (simp add: cap power_add mult.commute)
next
  case False
  then have "(2::nat) ^ cap < 2 ^ 128" by (intro power_strict_increasing) simp_all
  moreover have "0 < unat loss" using assms by (simp add: unat_gt_0)
  then have "2 ^ 128 \<le> unat loss * 2 ^ 128" by simp
  ultimately have "\<not> unat loss * 2 ^ 128 \<le> 2 ^ cap" by linarith
  with False show ?thesis by simp
qed

lemma grind_bits_for_loss_Inr:
  "grind_bits_for_loss loss cap = Inr g \<longleftrightarrow>
     loss \<noteq> 0 \<and> unat g = 128 + bit_length (unat (loss - 1)) - unat cap \<and> unat g \<le> MAX_GRINDING_BITS"
proof (cases "loss = 0")
  case False
  let ?t = "128 + bit_length (unat (loss - 1)) - unat cap"
  have "bit_length (unat (loss - 1)) \<le> 64" using unsigned_less [of "loss - 1"] by (simp add: bit_length_le_iff)
  then have "grind_bits_for_loss loss cap = Inr g \<longleftrightarrow> ?t < 2 ^ 8 \<and> ?t \<le> MAX_GRINDING_BITS \<and> g = of_nat ?t"
    using False by (auto simp: grind_bits_for_loss_def loss_bits_eq TRANSCRIPT_SECURITY_BITS_def Let_def not_le)
  also have "\<dots> \<longleftrightarrow> unat g = ?t \<and> unat g \<le> MAX_GRINDING_BITS"
  proof -
    have "g = of_nat ?t \<longleftrightarrow> unat g = ?t" if "?t < 2 ^ 8"
      using that by (auto simp: word_unat_eq_iff unat_of_nat)
    then show ?thesis by (auto simp: MAX_GRINDING_BITS_def)
  qed
  finally show ?thesis using False by simp
qed (simp add: grind_bits_for_loss_def)

subsection \<open>Plan totals\<close>

definition run_bits :: "grinding_run \<Rightarrow> nat" where
  "run_bits run = unat (nonce_bits run) * unat (multiplicity run)"

text \<open>What validation and pricing leave of a run.\<close>

definition run_ok :: "u32 \<Rightarrow> grinding_run \<Rightarrow> bool" where
  "run_ok capacity run \<longleftrightarrow>
     \<not> site_uses_sentinel (site run) \<and> 0 < unat (multiplicity run) \<and>
     (case run_kind run of
        ProofOfWork \<Rightarrow> multiplicity run = 1 \<and> grind_bits_for_loss (loss_factor run) capacity = Inr (grind_bits run)
          \<and> (grind_bits run = 0 \<and> nonce_bits run = 0 \<or> canonical_grind_width (grind_bits run) (nonce_bits run))
      | FoldResponseKind \<Rightarrow> multiplicity run = 1 \<and> grind_bits run = 0 \<and> nonce_bits run = FOLD_RESPONSE_NONCE_BITS
      | FoldChallengeGroupKind \<Rightarrow> grind_bits run = 0 \<and> nonce_bits run = 0 \<and> 1 < unat (multiplicity run))"

lemma expected_nonce_bits_Inr:
  assumes "expected_nonce_bits g = Inr nb" and "unat g \<le> MAX_GRINDING_BITS"
  shows "g = 0 \<and> nb = 0 \<or> canonical_grind_width g nb"
  using assms
  by (auto simp: expected_nonce_bits_def canonical_grind_width_def GRINDING_NONCE_SLACK_BITS_def
      MAX_GRINDING_BITS_def unat_word_ariths split: if_splits)

lemma accumulator_push_Inr:
  assumes "accumulator_push acc run = Inr acc'"
  shows "run_ok (acc_capacity acc) run \<and> acc_capacity acc' = acc_capacity acc
       \<and> acc_run_count acc' = Suc (acc_run_count acc) \<and> acc_run_count acc' < 2 ^ 32
       \<and> acc_nonce_bits acc' = acc_nonce_bits acc + run_bits run \<and> acc_nonce_bits acc' \<le> usize_max
       \<and> acc_query_count acc' = acc_query_count acc + unat (multiplicity run)
       \<and> acc_query_count acc' < 2 ^ 32 - 1"
proof -
  have "run_ok (acc_capacity acc) run"
    using assms
    by (auto simp: accumulator_push_def run_validate_def site_validate_def run_ok_def bindE_Inr_iff word_less_nat_alt
        split: if_splits grinding_query_kind.splits dest!: expected_nonce_bits_Inr)
  moreover have "acc_capacity acc' = acc_capacity acc
       \<and> acc_run_count acc' = Suc (acc_run_count acc) \<and> acc_run_count acc' < 2 ^ 32
       \<and> acc_nonce_bits acc' = acc_nonce_bits acc + run_bits run \<and> acc_nonce_bits acc' \<le> usize_max
       \<and> acc_query_count acc' = acc_query_count acc + unat (multiplicity run)
       \<and> acc_query_count acc' < 2 ^ 32 - 1"
    using assms
    by (auto simp: accumulator_push_def bindE_Inr_iff ok_or_Inr_iff checked_mul_def checked_add_def run_bits_def
        Let_def split: if_splits)
  ultimately show ?thesis by blast
qed

lemma accumulator_fold_Inr:
  assumes "try_fold accumulator_push acc rs = Inr acc'"
  shows "(\<forall>run \<in> set rs. run_ok (acc_capacity acc) run)
       \<and> acc_nonce_bits acc' = acc_nonce_bits acc + sum_list (map run_bits rs)
       \<and> acc_query_count acc' = acc_query_count acc + sum_list (map (\<lambda>run. unat (multiplicity run)) rs)
       \<and> (rs \<noteq> [] \<longrightarrow> acc_nonce_bits acc' \<le> usize_max \<and> acc_query_count acc' < 2 ^ 32 - 1)
       \<and> acc_run_count acc' = acc_run_count acc + length rs \<and> (rs \<noteq> [] \<longrightarrow> acc_run_count acc' < 2 ^ 32)"
  using assms
proof (induction rs arbitrary: acc)
  case (Cons run rs)
  from Cons.prems obtain acc1 where acc1: "accumulator_push acc run = Inr acc1"
      "try_fold accumulator_push acc1 rs = Inr acc'" by (auto simp: bindE_Inr_iff)
  note step = accumulator_push_Inr [OF acc1(1)] and IH = Cons.IH [OF acc1(2)]
  show ?case
    using step IH acc1(2) by (cases rs) (auto simp: add.assoc)
qed simp

lemma grinding_plan_new_Inr:
  assumes "grinding_plan_new rs capacity = Inr plan"
  shows "runs plan = rs \<and> nominal_capacity_bits plan = capacity \<and> (\<forall>run \<in> set rs. run_ok capacity run)
       \<and> total_nonce_bits plan = sum_list (map run_bits rs) \<and> total_nonce_bits plan \<le> usize_max
       \<and> expanded_query_count plan = sum_list (map (\<lambda>run. unat (multiplicity run)) rs)
       \<and> expanded_query_count plan < 2 ^ 32 - 1 \<and> length rs < 2 ^ 32"
proof -
  obtain acc where acc: "try_fold accumulator_push
        \<lparr>acc_capacity = capacity, acc_run_count = 0, acc_nonce_bits = 0, acc_query_count = 0\<rparr> rs = Inr acc"
      "plan = \<lparr>runs = rs, nominal_capacity_bits = capacity, total_nonce_bits = acc_nonce_bits acc,
        expanded_query_count = acc_query_count acc\<rparr>"
    using assms by (auto simp: grinding_plan_new_def accumulator_new_def bindE_Inr_iff split: if_splits)
  from accumulator_fold_Inr [OF acc(1)] acc(2) show ?thesis by (cases "rs = []") auto
qed

subsection \<open>The canonical encoding is injective\<close>

lemma push_u32_append [simp]: "push_u32 a @ r = push_u32 b @ s \<longleftrightarrow> a = b \<and> r = s"
  by (auto simp: push_u32_def to_le_bytes_inj)

lemma protocol_tag_inj [simp]: "protocol_tag p = protocol_tag q \<longleftrightarrow> p = q"
  by (cases p; cases q) simp_all

text \<open>A left inverse of the encoding, by its tag byte.\<close>

definition word_at :: "nat \<Rightarrow> byte list \<Rightarrow> u32" where
  "word_at i bs = from_le_bytes (take 4 (drop (4 * i) bs))"

definition protocol_of_tag :: "u32 \<Rightarrow> sumcheck_protocol" where
  "protocol_of_tag w =
     (if w = 0 then ExtensionOpeningReduction else if w = 1 then Stage1 else if w = 2 then PhysicalL2
      else if w = 3 then Stage2 else Stage3)"

definition parse_site :: "byte \<Rightarrow> byte list \<Rightarrow> grinding_site \<times> byte list" where
  "parse_site tag bs =
     (if tag = 0 then (EvaluationBatch (word_at 0 bs), drop 4 bs)
      else if tag = 1 then (ExtensionOpeningPoint (word_at 0 bs), drop 4 bs)
      else if tag = 2 then (ExtensionOpeningClaimBatch (word_at 0 bs), drop 4 bs)
      else if tag = 4 then (FoldResponse (word_at 0 bs), drop 4 bs)
      else if tag = 6 then (RingSwitchAlpha (word_at 0 bs), drop 4 bs)
      else if tag = 7 then (Tau0Point (word_at 0 bs), drop 4 bs)
      else if tag = 8 then (Tau1Point (word_at 0 bs), drop 4 bs)
      else if tag = 10 then (L2SubclaimBatch (word_at 0 bs), drop 4 bs)
      else if tag = 11 then (L2NormMerge (word_at 0 bs), drop 4 bs)
      else if tag = 12 then (L2VirtualBatch (word_at 0 bs), drop 4 bs)
      else if tag = 13 then (CompressionBinary (word_at 0 bs), drop 4 bs)
      else if tag = 3 then (SumcheckRound (protocol_of_tag (word_at 0 bs)) (word_at 1 bs) (word_at 2 bs)
        (word_at 3 bs), drop 16 bs)
      else if tag = 5 then (FoldChallengeGroup (word_at 0 bs) (word_at 1 bs), drop 8 bs)
      else if tag = 9 then (Stage1InterstageBatch (word_at 0 bs) (word_at 1 bs), drop 8 bs)
      else (Stage2Batch (word_at 0 bs), drop 4 bs))"

lemma length_push_u32 [simp]: "length (push_u32 v) = 4"
  by (simp add: push_u32_def)

lemma word_at_push [simp]:
  "word_at 0 (push_u32 v @ bs) = v" "word_at 1 (push_u32 v @ bs) = word_at 0 bs"
  "word_at 2 (push_u32 v @ bs) = word_at 1 bs" "word_at 3 (push_u32 v @ bs) = word_at 2 bs"
  by (simp_all add: word_at_def push_u32_def from_to_le_bytes)

lemma protocol_of_tag_tag [simp]: "protocol_of_tag (protocol_tag p) = p"
  by (cases p) (simp_all add: protocol_of_tag_def)

lemma parse_site_bytes: "parse_site (hd (site_bytes a)) (tl (site_bytes a) @ r) = (a, r)"
  by (cases a) (simp_all add: parse_site_def del: One_nat_def)

lemma site_bytes_nonempty [simp]: "site_bytes a \<noteq> []"
  by (cases a) simp_all

lemma site_bytes_prefix_free: "site_bytes a @ r = site_bytes b @ s \<longleftrightarrow> a = b \<and> r = s"
proof
  assume eq: "site_bytes a @ r = site_bytes b @ s"
  have "hd (site_bytes a @ r) = hd (site_bytes a)" "tl (site_bytes a @ r) = tl (site_bytes a) @ r" for a r
    by (simp_all add: tl_append2)
  with eq have "hd (site_bytes a) = hd (site_bytes b)" "tl (site_bytes a) @ r = tl (site_bytes b) @ s"
    by metis+
  then have "(a, r) = parse_site (hd (site_bytes b)) (tl (site_bytes b) @ s)"
    using parse_site_bytes [of a r, symmetric] by (simp only:)
  also have "\<dots> = (b, s)" by (rule parse_site_bytes)
  finally show "a = b \<and> r = s" by (simp only: prod.inject)
qed simp

lemma run_bytes_prefix_free: "run_bytes a @ r = run_bytes b @ s \<longleftrightarrow> a = b \<and> r = s"
proof -
  have "to_le_bytes 8 (v :: u64) @ x = to_le_bytes 8 w @ y \<longleftrightarrow> v = w \<and> x = y" for v w x y
    by (auto simp: to_le_bytes_inj)
  then show ?thesis
    by (auto simp only: run_bytes_def append_assoc append_Cons append_Nil list.inject site_bytes_prefix_free intro!: grinding_run.equality) simp
qed

lemma run_bytes_nonempty [simp]: "run_bytes a \<noteq> []"
  by (simp add: run_bytes_def)

lemma concat_run_bytes_inj: "concat (map run_bytes xs) = concat (map run_bytes ys) \<Longrightarrow> xs = ys"
proof (induction xs arbitrary: ys)
  case Nil
  then show ?case by (cases ys) simp_all
next
  case (Cons x xs)
  then obtain y ys' where ys: "ys = y # ys'" by (cases ys) simp_all
  with Cons.prems have "x = y \<and> concat (map run_bytes xs) = concat (map run_bytes ys')"
    by (simp only: list.map concat.simps run_bytes_prefix_free)
  with Cons.IH ys show ?case by blast
qed

subsection \<open>Properties\<close>

lemma least_difference: "g = r - c \<longleftrightarrow> r \<le> c + g \<and> (\<forall>g' < g. \<not> r \<le> c + g')" for g r c :: nat
proof (cases g)
  case (Suc n)
  have "(\<forall>g' < Suc n. \<not> r \<le> c + g') \<longleftrightarrow> \<not> r \<le> c + n" by fastforce
  with Suc show ?thesis by auto
qed auto

text \<open>
  C25: Proof-of-work pricing is exact.  \<open>grind_bits_for_loss\<close> returns \<open>g\<close> exactly when the loss
  is nonzero, \<open>g\<close> bits of work and the nominal capacity together cover the loss at 128 bits
  of security, no smaller number of bits does, and \<open>g\<close> does not exceed the supported
  maximum.
\<close>

theorem grind_bits_least_cover:
  "grind_bits_for_loss loss cap = Inr g \<longleftrightarrow>
     0 < unat loss \<and> unat loss * 2 ^ 128 \<le> 2 ^ (unat cap + unat g)
     \<and> (\<forall>g' < unat g. \<not> unat loss * 2 ^ 128 \<le> 2 ^ (unat cap + g')) \<and> unat g \<le> 25"
proof (cases "loss = 0")
  case True
  then show ?thesis by (simp add: grind_bits_for_loss_def)
next
  case False
  let ?r = "128 + bit_length (unat (loss - 1))"
  have "unat g = ?r - unat cap \<longleftrightarrow> ?r \<le> unat cap + unat g \<and> (\<forall>g' < unat g. \<not> ?r \<le> unat cap + g')"
    by (rule least_difference)
  then show ?thesis
    using False by (simp add: grind_bits_for_loss_Inr loss_covered_iff [OF False] MAX_GRINDING_BITS_def unat_gt_0)
qed

theorem grind_bits_least_cover_witness: "grind_bits_for_loss 5 128 = Inr 3"
proof -
  have "\<not> unat (5 :: u64) * 2 ^ 128 \<le> 2 ^ (unat (128 :: u32) + g')" if "g' < 3" for g'
  proof -
    from that consider "g' = 0" | "g' = 1" | "g' = 2" by linarith
    then show ?thesis by cases simp_all
  qed
  then show ?thesis using grind_bits_least_cover [of 5 128 3] by simp
qed

text \<open>
  C26: A constructed grinding plan is well formed.  Its totals are the exact sums over its runs
  and stay in range, no run uses the reserved sentinel, every proof-of-work run carries the
  exact price of its loss and either no work or the canonical nonce width, and fold runs have
  their fixed widths.
\<close>

theorem grinding_plan_well_formed:
  assumes "grinding_plan_new rs capacity = Inr plan"
  shows "runs plan = rs
       \<and> total_nonce_bits plan = (\<Sum>run \<leftarrow> rs. unat (nonce_bits run) * unat (multiplicity run))
       \<and> total_nonce_bits plan \<le> usize_max
       \<and> expanded_query_count plan = (\<Sum>run \<leftarrow> rs. unat (multiplicity run))
       \<and> expanded_query_count plan < 2 ^ 32 - 1
       \<and> (\<forall>run \<in> set rs. run_ok capacity run)"
  using grinding_plan_new_Inr [OF assms] by (simp add: run_bits_def [abs_def])

theorem grinding_plan_well_formed_witness:
  "\<exists>run plan. proof_of_work_run (Tau0Point 0) 4 128 = Inr run \<and> nonce_bits run = 9
     \<and> grinding_plan_new [run, fold_response_run 0] 128 = Inr plan \<and> total_nonce_bits plan = 21"
proof -
  have price: "grind_bits_for_loss 4 128 = Inr 2"
    by (simp add: grind_bits_for_loss_Inr bit_length.simps MAX_GRINDING_BITS_def)
  have run: "proof_of_work_run (Tau0Point 0) 4 128
      = Inr \<lparr>site = Tau0Point 0, loss_factor = 4, grind_bits = 2, nonce_bits = 9, multiplicity = 1\<rparr>"
    by (simp add: proof_of_work_run_def price expected_nonce_bits_def GRINDING_NONCE_SLACK_BITS_def)
  let ?run = "\<lparr>site = Tau0Point 0, loss_factor = 4, grind_bits = 2, nonce_bits = 9, multiplicity = 1\<rparr>"
  obtain plan where plan: "grinding_plan_new [?run, fold_response_run 0] 128 = Inr plan"
    by (simp add: grinding_plan_new_def accumulator_new_def accumulator_push_def run_validate_def site_validate_def
        u32_max_def price expected_nonce_bits_def fold_response_run_def GRINDING_NONCE_SLACK_BITS_def
        MAX_GRINDING_BITS_def FOLD_RESPONSE_NONCE_BITS_def checked_mul_def checked_add_def usize_max_def Let_def)
  with grinding_plan_well_formed [OF plan] run show ?thesis
    by (auto simp: fold_response_run_def FOLD_RESPONSE_NONCE_BITS_def)
qed

text \<open>
  C27: The digest input of a plan determines its runs: two valid plans with the same canonical
  bytes have the same sequence of sites, losses, targets, widths and multiplicities.
\<close>

theorem grinding_plan_bytes_injective:
  assumes "plan_bytes p = Inr bytes" and "plan_bytes q = Inr bytes"
  shows "runs p = runs q"
proof -
  have "push_u32 (of_nat (length (runs p))) @ concat (map run_bytes (runs p))
      = push_u32 (of_nat (length (runs q))) @ concat (map run_bytes (runs q))"
    using assms by (auto simp: plan_bytes_def split: if_splits)
  then show ?thesis using concat_run_bytes_inj by simp
qed

theorem grinding_plan_bytes_injective_witness:
  "\<exists>bytes. plan_bytes \<lparr>runs = [fold_response_run 3], nominal_capacity_bits = 128, total_nonce_bits = 12,
       expanded_query_count = 1\<rparr> = Inr bytes
     \<and> plan_bytes \<lparr>runs = [fold_response_run 4], nominal_capacity_bits = 128, total_nonce_bits = 12,
         expanded_query_count = 1\<rparr> \<noteq> Inr bytes"
proof -
  let ?p = "\<lambda>l. \<lparr>runs = [fold_response_run l], nominal_capacity_bits = 128, total_nonce_bits = 12,
       expanded_query_count = 1\<rparr>"
  obtain bytes where b: "plan_bytes (?p 3) = Inr bytes" by (simp add: plan_bytes_def)
  have "plan_bytes (?p 4) \<noteq> Inr bytes"
    using grinding_plan_bytes_injective [OF b, of "?p 4"] by (auto simp: fold_response_run_def)
  with b show ?thesis by blast
qed

end
