(* ===== verification/GrindingReplay.thy ===== *)
theory GrindingReplay
  imports GrindingPlan
begin

text \<open>
  \<^verbatim>\<open>akita-types/src/transcript_grinding/replay.rs\<close>: the plan cursor, the bit-packed nonce
  stream with its writer and reader, and the transcript adapters that search (prover) or check
  (verifier) one scheduled proof of work before a challenge.  An \<open>Err\<close> aborts the replay, so the
  partially advanced state it leaves behind is not part of the model; neither is the audit that
  exists only under the \<open>logging-transcript\<close> feature.  The lemmas show that the packed values
  read back, that a finished prover replay is accepted by the verifier with the same nonces and
  challenge blocks, and that a finished verifier replay visited the plan exactly.
\<close>

unbundle bit_operations_syntax

subsection \<open>Debug formatting of sites\<close>

fun show_protocol :: "sumcheck_protocol \<Rightarrow> string" where
  "show_protocol ExtensionOpeningReduction = ''ExtensionOpeningReduction''"
| "show_protocol Stage1 = ''Stage1''"
| "show_protocol PhysicalL2 = ''PhysicalL2''"
| "show_protocol Stage2 = ''Stage2''"
| "show_protocol Stage3 = ''Stage3''"

definition show_level :: "string \<Rightarrow> u32 \<Rightarrow> string" where
  "show_level name level = name @ '' { level: '' @ show_nat (unat level) @ '' }''"

fun show_site :: "grinding_site \<Rightarrow> string" where
  "show_site (EvaluationBatch l) = show_level ''EvaluationBatch'' l"
| "show_site (ExtensionOpeningPoint l) = show_level ''ExtensionOpeningPoint'' l"
| "show_site (ExtensionOpeningClaimBatch l) = show_level ''ExtensionOpeningClaimBatch'' l"
| "show_site (SumcheckRound p l s r) = ''SumcheckRound { protocol: '' @ show_protocol p @ '', level: ''
     @ show_nat (unat l) @ '', stage: '' @ show_nat (unat s) @ '', round: '' @ show_nat (unat r) @ '' }''"
| "show_site (FoldResponse l) = show_level ''FoldResponse'' l"
| "show_site (FoldChallengeGroup l g) = ''FoldChallengeGroup { level: '' @ show_nat (unat l)
     @ '', group: '' @ show_nat (unat g) @ '' }''"
| "show_site (RingSwitchAlpha l) = show_level ''RingSwitchAlpha'' l"
| "show_site (Tau0Point l) = show_level ''Tau0Point'' l"
| "show_site (Tau1Point l) = show_level ''Tau1Point'' l"
| "show_site (Stage1InterstageBatch l s) = ''Stage1InterstageBatch { level: '' @ show_nat (unat l)
     @ '', stage: '' @ show_nat (unat s) @ '' }''"
| "show_site (L2SubclaimBatch l) = show_level ''L2SubclaimBatch'' l"
| "show_site (L2NormMerge l) = show_level ''L2NormMerge'' l"
| "show_site (L2VirtualBatch l) = show_level ''L2VirtualBatch'' l"
| "show_site (CompressionBinary l) = show_level ''CompressionBinary'' l"
| "show_site (Stage2Batch l) = show_level ''Stage2Batch'' l"

subsection \<open>Cursors\<close>

record plan_entry =
  entry_site :: grinding_site
  entry_grind_bits :: byte
  entry_nonce_bits :: byte

record plan_cursor =
  cursor_plan :: grinding_plan
  run_index :: nat
  run_offset :: nat

definition plan_cursor_new :: "grinding_plan \<Rightarrow> plan_cursor" where
  "plan_cursor_new plan = \<lparr>cursor_plan = plan, run_index = 0, run_offset = 0\<rparr>"

definition entry_of_run :: "grinding_run \<Rightarrow> plan_entry" where
  "entry_of_run run =
     \<lparr>entry_site = site run, entry_grind_bits = grind_bits run, entry_nonce_bits = nonce_bits run\<rparr>"

definition plan_cursor_next :: "plan_cursor \<Rightarrow> (plan_entry \<times> plan_cursor) option" where
  "plan_cursor_next c =
     (if run_index c < length (runs (cursor_plan c)) then
        let run = runs (cursor_plan c) ! run_index c; offset = run_offset c + 1 in
        Some (entry_of_run run,
              if offset = unat (multiplicity run) then c\<lparr>run_index := run_index c + 1, run_offset := 0\<rparr>
              else c\<lparr>run_offset := offset\<rparr>)
      else None)"

definition consume_run :: "plan_cursor \<Rightarrow> grinding_site \<Rightarrow> nat \<Rightarrow> plan_cursor result" where
  "consume_run c st count =
     (if run_index c < length (runs (cursor_plan c)) then
        let run = runs (cursor_plan c) ! run_index c in
        if run_offset c \<noteq> 0 \<or> site run \<noteq> st \<or> grind_bits run \<noteq> 0 \<or> nonce_bits run \<noteq> 0
           \<or> unat (multiplicity run) \<noteq> count
        then Inl InvalidProof
        else bindE (ok_or (checked_add (run_index c) 1) InvalidProof) (\<lambda>i. Inr (c\<lparr>run_index := i\<rparr>))
      else Inl InvalidProof)"

definition plan_cursor_finished :: "plan_cursor \<Rightarrow> bool" where
  "plan_cursor_finished c \<longleftrightarrow> run_index c = length (runs (cursor_plan c)) \<and> run_offset c = 0"

record nonce_cursor =
  plan_position :: plan_cursor
  bit_offset :: nat

definition nonce_cursor_new :: "grinding_plan \<Rightarrow> nonce_cursor" where
  "nonce_cursor_new plan = \<lparr>plan_position = plan_cursor_new plan, bit_offset = 0\<rparr>"

definition nonce_cursor_next :: "nonce_cursor \<Rightarrow> grinding_site \<Rightarrow> (plan_entry \<times> nonce_cursor) result" where
  "nonce_cursor_next c st =
     bindE (ok_or (plan_cursor_next (plan_position c)) InvalidProof)
       (\<lambda>(entry, p). if entry_site entry \<noteq> st
          then Inl (InvalidInput (''grinding replay expected '' @ show_site st @ '', plan has ''
                 @ show_site (entry_site entry)))
          else Inr (entry, c\<lparr>plan_position := p\<rparr>))"

definition nonce_cursor_next_kind ::
  "nonce_cursor \<Rightarrow> grinding_site \<Rightarrow> grinding_query_kind \<Rightarrow> (plan_entry \<times> nonce_cursor) result" where
  "nonce_cursor_next_kind c st kind =
     (if site_kind st \<noteq> kind
      then Inl (InvalidInput (''grinding replay site '' @ show_site st @ '' has the wrong query kind''))
      else nonce_cursor_next c st)"

definition consume_fold_group :: "nonce_cursor \<Rightarrow> u32 \<Rightarrow> u32 \<Rightarrow> nat \<Rightarrow> nonce_cursor result" where
  "consume_fold_group c level grp coordinate_count =
     bindE (ok_or (checked_add coordinate_count 1) InvalidProof)
       (\<lambda>count. bindE (consume_run (plan_position c) (FoldChallengeGroup level grp) count)
          (\<lambda>p. Inr (c\<lparr>plan_position := p\<rparr>)))"

definition advance_bits :: "nonce_cursor \<Rightarrow> byte \<Rightarrow> nonce_cursor result" where
  "advance_bits c width =
     bindE (ok_or (checked_add (bit_offset c) (unat width)) InvalidProof)
       (\<lambda>offset. Inr (c\<lparr>bit_offset := offset\<rparr>))"

definition nonce_cursor_finished :: "nonce_cursor \<Rightarrow> nat \<Rightarrow> bool" where
  "nonce_cursor_finished c expected_bits \<longleftrightarrow>
     plan_cursor_finished (plan_position c) \<and> bit_offset c = expected_bits"

subsection \<open>Packed bits\<close>

definition nonce_byte_len :: "nat \<Rightarrow> serialization_error + nat" where
  "nonce_byte_len bit_len = ok_or (div_ceil bit_len 8) (InvalidData ''invalid nonce stream byte width'')"

text \<open>Widths above 32 never reach the shifts: a validated plan has none.\<close>

definition value_fits :: "u32 \<Rightarrow> byte \<Rightarrow> bool" where
  "value_fits v width \<longleftrightarrow> unat width = 32 \<or> v < push_bit (unat width) 1"

definition byte_span :: "nat \<Rightarrow> byte \<Rightarrow> nat" where
  "byte_span offset width = (offset mod 8 + unat width + 7) div 8"

definition write_bits :: "byte list \<Rightarrow> nat \<Rightarrow> byte \<Rightarrow> u32 \<Rightarrow> byte list result" where
  "write_bits bytes offset width v =
     (let bit_shift = offset mod 8; byte_offset = offset div 8; packed = push_bit bit_shift (ucast v :: u64) in
      try_fold (\<lambda>bs byte_index.
          if byte_offset + byte_index < length bs
          then Inr (bs[byte_offset + byte_index :=
                 bs ! (byte_offset + byte_index) OR ucast (drop_bit (byte_index * 8) packed)])
          else Inl InvalidProof) bytes [0..<byte_span offset width])"

definition read_bits :: "byte list \<Rightarrow> nat \<Rightarrow> byte \<Rightarrow> u32 result" where
  "read_bits bytes offset width =
     (let bit_shift = offset mod 8; byte_offset = offset div 8;
          bit_mask = (if unat width = 32 then ucast (- 1 :: u32) else push_bit (unat width) 1 - 1) in
      bindE (try_fold (\<lambda>packed byte_index.
               if byte_offset + byte_index < length bytes
               then Inr (packed OR push_bit (byte_index * 8) (ucast (bytes ! (byte_offset + byte_index)) :: u64))
               else Inl InvalidProof) 0 [0..<byte_span offset width])
        (\<lambda>packed. Inr (ucast (drop_bit bit_shift packed AND bit_mask))))"

subsection \<open>Streams, writers and readers\<close>

record nonce_stream =
  stream_bytes :: "byte list"
  stream_bit_len :: nat

definition nonce_stream_from_bytes :: "byte list \<Rightarrow> nat \<Rightarrow> serialization_error + nonce_stream" where
  "nonce_stream_from_bytes bytes bit_len =
     bindE (nonce_byte_len bit_len)
       (\<lambda>expected_bytes.
          if length bytes \<noteq> expected_bytes
          then Inl (InvalidData ''nonce stream byte length does not match its bit width'')
          else if bytes \<noteq> [] \<and> bit_len mod 8 \<noteq> 0 \<and> drop_bit (bit_len mod 8) (last bytes) \<noteq> 0
          then Inl (InvalidData ''nonce stream has nonzero high padding bits'')
          else Inr \<lparr>stream_bytes = bytes, stream_bit_len = bit_len\<rparr>)"

record nonce_writer =
  writer_bytes :: "byte list"
  writer_cursor :: nonce_cursor

record nonce_reader =
  reader_stream :: nonce_stream
  reader_cursor :: nonce_cursor

definition writer_new :: "grinding_plan \<Rightarrow> nonce_writer result" where
  "writer_new plan =
     bindE (map_err (\<lambda>_. InvalidSetup ''nonce stream byte width overflow'') (nonce_byte_len (total_nonce_bits plan)))
       (\<lambda>byte_len. Inr \<lparr>writer_bytes = replicate byte_len 0, writer_cursor = nonce_cursor_new plan\<rparr>)"

definition stream_reader :: "nonce_stream \<Rightarrow> grinding_plan \<Rightarrow> nonce_reader result" where
  "stream_reader stream plan =
     (if stream_bit_len stream \<noteq> total_nonce_bits plan then Inl InvalidProof
      else Inr \<lparr>reader_stream = stream, reader_cursor = nonce_cursor_new plan\<rparr>)"

definition write_entry :: "nonce_writer \<Rightarrow> plan_entry \<Rightarrow> u32 \<Rightarrow> nonce_writer result" where
  "write_entry w entry v =
     (if \<not> value_fits v (entry_nonce_bits entry) then Inl InvalidProof
      else bindE (write_bits (writer_bytes w) (bit_offset (writer_cursor w)) (entry_nonce_bits entry) v)
        (\<lambda>bytes. bindE (advance_bits (writer_cursor w) (entry_nonce_bits entry))
           (\<lambda>c. Inr (w\<lparr>writer_bytes := bytes, writer_cursor := c\<rparr>))))"

definition writer_write :: "nonce_writer \<Rightarrow> grinding_site \<Rightarrow> u32 \<Rightarrow> nonce_writer result" where
  "writer_write w st v =
     bindE (nonce_cursor_next (writer_cursor w) st)
       (\<lambda>(entry, c). write_entry (w\<lparr>writer_cursor := c\<rparr>) entry v)"

definition read_entry :: "nonce_reader \<Rightarrow> plan_entry \<Rightarrow> (u32 \<times> nonce_reader) result" where
  "read_entry r entry =
     bindE (read_bits (stream_bytes (reader_stream r)) (bit_offset (reader_cursor r)) (entry_nonce_bits entry))
       (\<lambda>v. bindE (advance_bits (reader_cursor r) (entry_nonce_bits entry))
          (\<lambda>c. Inr (v, r\<lparr>reader_cursor := c\<rparr>)))"

definition reader_read :: "nonce_reader \<Rightarrow> grinding_site \<Rightarrow> (u32 \<times> nonce_reader) result" where
  "reader_read r st =
     bindE (nonce_cursor_next (reader_cursor r) st)
       (\<lambda>(entry, c). read_entry (r\<lparr>reader_cursor := c\<rparr>) entry)"

definition write_fold_response :: "nonce_writer \<Rightarrow> grinding_site \<Rightarrow> u32 \<Rightarrow> nonce_writer result" where
  "write_fold_response w st counter =
     bindE (nonce_cursor_next_kind (writer_cursor w) st FoldResponseKind)
       (\<lambda>(entry, c). write_entry (w\<lparr>writer_cursor := c\<rparr>) entry counter)"

definition read_fold_response :: "nonce_reader \<Rightarrow> grinding_site \<Rightarrow> (u32 \<times> nonce_reader) result" where
  "read_fold_response r st =
     bindE (nonce_cursor_next_kind (reader_cursor r) st FoldResponseKind)
       (\<lambda>(entry, c). read_entry (r\<lparr>reader_cursor := c\<rparr>) entry)"

definition writer_finish :: "nonce_writer \<Rightarrow> nonce_stream result" where
  "writer_finish w =
     (if \<not> nonce_cursor_finished (writer_cursor w)
            (total_nonce_bits (cursor_plan (plan_position (writer_cursor w)))) then Inl InvalidProof
      else Inr \<lparr>stream_bytes = writer_bytes w, stream_bit_len = bit_offset (writer_cursor w)\<rparr>)"

definition reader_finish :: "nonce_reader \<Rightarrow> unit result" where
  "reader_finish r =
     (if \<not> nonce_cursor_finished (reader_cursor r) (stream_bit_len (reader_stream r)) then Inl InvalidProof
      else Inr ())"

subsection \<open>Grinding against a transcript\<close>

text \<open>
  What replay uses of a transcript: the live predicate block, the prover's preview, absorption
  and a challenge block.
\<close>

record 't grind_ops =
  live_predicate :: "'t \<Rightarrow> string \<Rightarrow> byte \<Rightarrow> byte \<Rightarrow> u32 \<Rightarrow> byte list option \<times> 't"
  preview_block :: "'t \<Rightarrow> byte list list \<Rightarrow> byte list"
  absorb_message :: "byte list \<Rightarrow> 't \<Rightarrow> 't"
  draw_block :: "'t \<Rightarrow> byte list \<times> 't"

text \<open>The \<open>match (NonZeroU8::new(bits), predicate)\<close> of both sides.\<close>

definition predicate_matches :: "byte \<Rightarrow> byte list option \<Rightarrow> bool" where
  "predicate_matches bits predicate =
     (case predicate of None \<Rightarrow> bits = 0 | Some p \<Rightarrow> bits \<noteq> 0 \<and> grinding_predicate_accepts p bits)"

definition writer_grind ::
  "'t grind_ops \<Rightarrow> nonce_writer \<Rightarrow> 't \<Rightarrow> grinding_site \<Rightarrow> (nonce_writer \<times> 't) result" where
  "writer_grind G w t st =
     bindE (nonce_cursor_next_kind (writer_cursor w) st ProofOfWork)
       (\<lambda>(entry, c).
          bindE (ok_or (search_grinding_nonce (preview_block G t) (entry_grind_bits entry) (entry_nonce_bits entry))
                   (InvalidInput ''transcript grinding exhausted''))
       (\<lambda>nonce. bindE (ok_or (proof_of_work_label st) InvalidProof)
       (\<lambda>label. let (predicate, t') =
                     live_predicate G t label (entry_grind_bits entry) (entry_nonce_bits entry) nonce in
          if predicate_matches (entry_grind_bits entry) predicate
          then bindE (write_entry (w\<lparr>writer_cursor := c\<rparr>) entry nonce) (\<lambda>w'. Inr (w', t'))
          else Inl (InvalidInput ''transcript grinding preview/live mismatch''))))"

definition reader_grind ::
  "'t grind_ops \<Rightarrow> nonce_reader \<Rightarrow> 't \<Rightarrow> grinding_site \<Rightarrow> (nonce_reader \<times> 't) result" where
  "reader_grind G r t st =
     bindE (nonce_cursor_next_kind (reader_cursor r) st ProofOfWork)
       (\<lambda>(entry, c). bindE (read_entry (r\<lparr>reader_cursor := c\<rparr>) entry)
       (\<lambda>(nonce, r'). bindE (ok_or (proof_of_work_label st) InvalidProof)
       (\<lambda>label. let (predicate, t') =
                     live_predicate G t label (entry_grind_bits entry) (entry_nonce_bits entry) nonce in
          if predicate_matches (entry_grind_bits entry) predicate then Inr (r', t') else Inl InvalidProof)))"

definition writer_record_fold :: "nonce_writer \<Rightarrow> u32 \<Rightarrow> u32 \<Rightarrow> nat \<Rightarrow> nonce_writer result" where
  "writer_record_fold w level grp count =
     bindE (consume_fold_group (writer_cursor w) level grp count) (\<lambda>c. Inr (w\<lparr>writer_cursor := c\<rparr>))"

definition reader_record_fold :: "nonce_reader \<Rightarrow> u32 \<Rightarrow> u32 \<Rightarrow> nat \<Rightarrow> nonce_reader result" where
  "reader_record_fold r level grp count =
     bindE (consume_fold_group (reader_cursor r) level grp count) (\<lambda>c. Inr (r\<lparr>reader_cursor := c\<rparr>))"

text \<open>
  One operation of the \<open>TranscriptGrinding\<close> adapters.  The prover supplies the fold-response
  counter it commits; the verifier reads it.  What an operation shows to the protocol is its
  observation.
\<close>

datatype replay_event =
    GrindQuery grinding_site
  | FoldNonce grinding_site u32
  | FoldGroup u32 u32 nat
  | AbsorbMessage "byte list"
  | DrawBlock

datatype observation = ObservedNonce u32 | ObservedBlock "byte list"

fun prover_event ::
  "'t grind_ops \<Rightarrow> nonce_writer \<Rightarrow> 't \<Rightarrow> replay_event \<Rightarrow> (observation list \<times> nonce_writer \<times> 't) result" where
  "prover_event G w t (GrindQuery st) = bindE (writer_grind G w t st) (\<lambda>(w', t'). Inr ([], w', t'))"
| "prover_event G w t (FoldNonce st counter) =
     bindE (write_fold_response w st counter) (\<lambda>w'. Inr ([ObservedNonce counter], w', t))"
| "prover_event G w t (FoldGroup level grp count) =
     bindE (writer_record_fold w level grp count) (\<lambda>w'. Inr ([], w', t))"
| "prover_event G w t (AbsorbMessage m) = Inr ([], w, absorb_message G m t)"
| "prover_event G w t DrawBlock = (let (b, t') = draw_block G t in Inr ([ObservedBlock b], w, t'))"

fun verifier_event ::
  "'t grind_ops \<Rightarrow> nonce_reader \<Rightarrow> 't \<Rightarrow> replay_event \<Rightarrow> (observation list \<times> nonce_reader \<times> 't) result" where
  "verifier_event G r t (GrindQuery st) = bindE (reader_grind G r t st) (\<lambda>(r', t'). Inr ([], r', t'))"
| "verifier_event G r t (FoldNonce st _) =
     bindE (read_fold_response r st) (\<lambda>(v, r'). Inr ([ObservedNonce v], r', t))"
| "verifier_event G r t (FoldGroup level grp count) =
     bindE (reader_record_fold r level grp count) (\<lambda>r'. Inr ([], r', t))"
| "verifier_event G r t (AbsorbMessage m) = Inr ([], r, absorb_message G m t)"
| "verifier_event G r t DrawBlock = (let (b, t') = draw_block G t in Inr ([ObservedBlock b], r, t'))"

fun replay ::
  "('w \<Rightarrow> 't \<Rightarrow> replay_event \<Rightarrow> (observation list \<times> 'w \<times> 't) result) \<Rightarrow> 'w \<Rightarrow> 't \<Rightarrow> replay_event list
    \<Rightarrow> (observation list \<times> 'w \<times> 't) result" where
  "replay step w t [] = Inr ([], w, t)"
| "replay step w t (e # es) =
     bindE (step w t e) (\<lambda>(obs, w', t'). bindE (replay step w' t' es)
       (\<lambda>(obs', w'', t''). Inr (obs @ obs', w'', t'')))"

subsection \<open>Packed values read back\<close>

definition stream_bit :: "byte list \<Rightarrow> nat \<Rightarrow> bool" where
  "stream_bit bs i \<longleftrightarrow> i div 8 < length bs \<and> bit (bs ! (i div 8)) (i mod 8)"

definition span_ok :: "byte list \<Rightarrow> nat \<Rightarrow> byte \<Rightarrow> bool" where
  "span_ok bs offset width \<longleftrightarrow> byte_span offset width = 0 \<or> offset div 8 + byte_span offset width \<le> length bs"

lemma try_fold_or_bytes:
  "try_fold (\<lambda>bs i. if b + i < length bs then Inr (bs[b + i := bs ! (b + i) OR f i]) else Inl InvalidProof) bs [0..<n]
     = (if n = 0 \<or> b + n \<le> length bs
        then Inr (map (\<lambda>j. if b \<le> j \<and> j < b + n then bs ! j OR f (j - b) else bs ! j) [0..<length bs])
        else Inl InvalidProof)"
proof (induction n)
  case 0
  show ?case by (auto intro!: nth_equalityI)
next
  case (Suc n)
  show ?case
  proof (cases "n = 0 \<or> b + n \<le> length bs")
    case True
    have "(map (\<lambda>j. if b \<le> j \<and> j < b + n then bs ! j OR f (j - b) else bs ! j) [0..<length bs])
            [b + n := map (\<lambda>j. if b \<le> j \<and> j < b + n then bs ! j OR f (j - b) else bs ! j) [0..<length bs] ! (b + n) OR f n]
        = map (\<lambda>j. if b \<le> j \<and> j < b + Suc n then bs ! j OR f (j - b) else bs ! j) [0..<length bs]"
      if "b + n < length bs"
      using that by (intro nth_equalityI) (auto simp: nth_list_update)
    with True Suc.IH show ?thesis by (auto simp: try_fold_append)
  next
    case False
    with Suc.IH show ?thesis by (simp add: try_fold_append)
  qed
qed

lemma write_bits_eq:
  "write_bits bs offset width v =
     (if span_ok bs offset width
      then Inr (map (\<lambda>j. if offset div 8 \<le> j \<and> j < offset div 8 + byte_span offset width
              then bs ! j OR ucast (drop_bit ((j - offset div 8) * 8) (push_bit (offset mod 8) (ucast v :: u64)))
              else bs ! j) [0..<length bs])
      else Inl InvalidProof)"
  by (simp add: write_bits_def span_ok_def try_fold_or_bytes Let_def)

lemma value_fits_bit: "value_fits v width \<Longrightarrow> bit v k \<Longrightarrow> k < unat width"
proof -
  assume fits: "value_fits v width" and k: "bit v k"
  show "k < unat width"
  proof (cases "unat width = 32")
    case True
    with k show ?thesis using bit_imp_le_length [of v k] by simp
  next
    case False
    with fits have v: "v < push_bit (unat width) 1" by (simp add: value_fits_def)
    show ?thesis
    proof (rule ccontr)
      assume "\<not> k < unat width"
      then have le: "unat width \<le> k" by simp
      have k32: "k < 32" using bit_imp_le_length [of v k] k by simp
      have "unat width < 32" using le k32 by simp
      then have "unat (push_bit (unat width) 1 :: u32) = 2 ^ unat width"
        by (subst unsigned_push_bit_eq) (simp add: push_bit_eq_mult take_bit_nat_eq_self)
      with v have "unat v < 2 ^ unat width" by (simp add: word_less_nat_alt)
      also have "\<dots> \<le> 2 ^ k" using le by (intro power_increasing) simp_all
      finally have "unat v div 2 ^ k = 0" by simp
      moreover have "bit (unat v) k" using k by (simp add: bit_unsigned_iff)
      ultimately show False by (simp add: bit_iff_odd)
    qed
  qed
qed

lemma stream_bit_write:
  assumes fits: "value_fits v width" and w: "write_bits bs offset width v = Inr bs'"
  shows "length bs' = length bs"
    and "stream_bit bs' i \<longleftrightarrow> stream_bit bs i \<or> offset \<le> i \<and> bit v (i - offset)"
proof -
  let ?b = "offset div 8" and ?n = "byte_span offset width" and ?s = "offset mod 8" and ?j = "i div 8"
  have ok: "span_ok bs offset width"
    and bs': "bs' = map (\<lambda>j. if ?b \<le> j \<and> j < ?b + ?n
              then bs ! j OR ucast (drop_bit ((j - ?b) * 8) (push_bit ?s (ucast v :: u64))) else bs ! j) [0..<length bs]"
    using w by (simp_all add: write_bits_eq split: if_splits)
  then show len: "length bs' = length bs" by simp
  have off: "offset = 8 * ?b + ?s" "?s < 8" and i: "i = 8 * ?j + i mod 8" "i mod 8 < 8" by simp_all
  show "stream_bit bs' i \<longleftrightarrow> stream_bit bs i \<or> offset \<le> i \<and> bit v (i - offset)"
  proof (cases "?b \<le> ?j \<and> ?j < ?b + ?n")
    case True
    then have j: "?j < length bs" using ok by (auto simp: span_ok_def)
    have pos: "(?j - ?b) * 8 + i mod 8 = i - 8 * ?b" "8 * ?b \<le> i" using True i by linarith+
    have "bit (push_bit ?s (ucast v :: u64)) (i - 8 * ?b) \<longleftrightarrow> offset \<le> i \<and> bit v (i - offset)"
    proof -
      have "bit v (i - offset) \<Longrightarrow> i - offset < 32" using bit_imp_le_length [of v] by auto
      moreover have "?s \<le> i - 8 * ?b \<longleftrightarrow> offset \<le> i" "i - 8 * ?b - ?s = i - offset"
        using off pos(2) by linarith+
      ultimately show ?thesis
        using off(2) by (auto simp: bit_push_bit_iff bit_unsigned_iff)
    qed
    then show ?thesis
      using True j i(2) by (auto simp: stream_bit_def bs' bit_or_iff bit_unsigned_iff bit_drop_bit_eq pos(1))
  next
    case False
    have "\<not> (offset \<le> i \<and> bit v (i - offset))"
    proof
      assume *: "offset \<le> i \<and> bit v (i - offset)"
      then have "?b \<le> ?j" by (simp add: div_le_mono)
      with False have "?b + ?n \<le> ?j" by simp
      moreover have "?s + unat width \<le> 8 * ?n" by (simp add: byte_span_def)
      moreover have "i - offset < unat width" using value_fits_bit [OF fits] * by blast
      ultimately show False using off i * by linarith
    qed
    with False show ?thesis by (auto simp: stream_bit_def bs')
  qed
qed

lemma try_fold_read_bytes:
  "n \<le> 8 \<Longrightarrow> n = 0 \<or> b + n \<le> length bs \<Longrightarrow>
   \<exists>packed. try_fold (\<lambda>packed i. if b + i < length bs
        then Inr (packed OR push_bit (i * 8) (ucast (bs ! (b + i)) :: u64)) else Inl InvalidProof) 0 [0..<n] = Inr packed
      \<and> (\<forall>m. bit packed m \<longleftrightarrow> m < 8 * n \<and> stream_bit bs (8 * b + m))"
proof (induction n)
  case (Suc n)
  then have len: "b + n < length bs" by simp
  from Suc obtain packed where packed: "try_fold (\<lambda>packed i. if b + i < length bs
        then Inr (packed OR push_bit (i * 8) (ucast (bs ! (b + i)) :: u64)) else Inl InvalidProof) 0 [0..<n] = Inr packed"
      "\<And>m. bit packed m \<longleftrightarrow> m < 8 * n \<and> stream_bit bs (8 * b + m)" by auto
  have "bit (packed OR push_bit (n * 8) (ucast (bs ! (b + n)) :: u64)) m
      \<longleftrightarrow> m < 8 * Suc n \<and> stream_bit bs (8 * b + m)" for m
  proof (cases "8 * n \<le> m \<and> m < 8 * Suc n")
    case True
    then obtain l where l: "m = 8 * n + l" "l < 8" by (metis add_diff_inverse_nat add_less_cancel_left linorder_not_less mult_Suc_right add.commute)
    then have "(8 * b + m) div 8 = b + n" "(8 * b + m) mod 8 = m - 8 * n" "m - n * 8 = m - 8 * n" by auto
    moreover have "m < 64" "m - 8 * n < 64" using True Suc.prems(1) l by simp_all
    ultimately show ?thesis
      using True len packed(2) [of m]
      by (auto simp: stream_bit_def bit_or_iff bit_push_bit_iff bit_unsigned_iff)
  next
    case False
    have "bit (bs ! (b + n)) (m - n * 8) \<Longrightarrow> m - n * 8 < 8" using bit_imp_le_length [of "bs ! (b + n)"] by auto
    with False packed(2) [of m] show ?thesis
      by (auto simp: bit_or_iff bit_push_bit_iff bit_unsigned_iff)
  qed
  with packed(1) len show ?case by (simp add: try_fold_append)
qed simp

lemma read_bits_Inr:
  assumes width: "unat width \<le> 32" and ok: "span_ok bs offset width"
  shows "\<exists>v. read_bits bs offset width = Inr v
       \<and> (\<forall>k. bit v k \<longleftrightarrow> k < unat width \<and> stream_bit bs (offset + k))"
proof -
  let ?b = "offset div 8" and ?n = "byte_span offset width" and ?s = "offset mod 8"
  let ?m = "if unat width = 32 then ucast (- 1 :: u32) else push_bit (unat width) 1 - 1 :: u64"
  have off: "offset = 8 * ?b + ?s" "?s < 8" by simp_all
  have n: "?n \<le> 8" "?s + unat width \<le> 8 * ?n" using width by (simp_all add: byte_span_def)
  obtain packed where packed: "try_fold (\<lambda>packed i. if ?b + i < length bs
        then Inr (packed OR push_bit (i * 8) (ucast (bs ! (?b + i)) :: u64)) else Inl InvalidProof) 0 [0..<?n] = Inr packed"
      "\<And>m. bit packed m \<longleftrightarrow> m < 8 * ?n \<and> stream_bit bs (8 * ?b + m)"
    using try_fold_read_bytes [OF n(1), of ?b bs] ok by (auto simp: span_ok_def)
  have mask: "bit ?m k \<longleftrightarrow> k < unat width" if "k < 32" for k
  proof (cases "unat width = 32")
    case False
    have "push_bit (unat width) 1 - 1 = (mask (unat width) :: u64)"
      by (simp add: mask_eq_exp_minus_1 push_bit_eq_mult)
    with False that show ?thesis by (simp add: bit_mask_iff)
  qed (use that in \<open>simp add: bit_unsigned_iff\<close>)
  have "bit (ucast (drop_bit ?s packed AND ?m) :: u32) k \<longleftrightarrow> k < unat width \<and> stream_bit bs (offset + k)" for k
  proof (cases "k < 32")
    case True
    have "8 * ?b + (k + ?s) = offset + k" "k < unat width \<Longrightarrow> k + ?s < 8 * ?n" using off n(2) by linarith+
    then show ?thesis
      using True mask [OF True] packed(2) [of "k + ?s"]
      by (auto simp: bit_unsigned_iff bit_and_iff bit_drop_bit_eq add.commute)
  next
    case False
    then show ?thesis using width bit_imp_le_length by fastforce
  qed
  with packed(1) show ?thesis by (simp add: read_bits_def Let_def)
qed

lemma read_bits_eq:
  assumes "unat width \<le> 32" "span_ok bs offset width" "value_fits v width"
    and "\<And>k. k < unat width \<Longrightarrow> stream_bit bs (offset + k) \<longleftrightarrow> bit v k"
  shows "read_bits bs offset width = Inr v"
proof -
  obtain v' where v': "read_bits bs offset width = Inr v'"
      "\<And>k. bit v' k \<longleftrightarrow> k < unat width \<and> stream_bit bs (offset + k)"
    using read_bits_Inr [OF assms(1,2)] by blast
  have "v' = v" by (rule bit_word_eqI) (use v'(2) assms(4) value_fits_bit [OF assms(3)] in blast)
  with v'(1) show ?thesis by simp
qed

subsection \<open>A written entry reads back\<close>

definition agrees :: "nat \<Rightarrow> byte list \<Rightarrow> byte list \<Rightarrow> bool" where
  "agrees n A B \<longleftrightarrow> length A = length B \<and> (\<forall>i < n. stream_bit A i \<longleftrightarrow> stream_bit B i)"

abbreviation writer_offset :: "nonce_writer \<Rightarrow> nat" where
  "writer_offset w \<equiv> bit_offset (writer_cursor w)"

definition plan_widths_ok :: "grinding_plan \<Rightarrow> bool" where
  "plan_widths_ok plan \<longleftrightarrow> (\<forall>run \<in> set (runs plan). unat (nonce_bits run) \<le> 32)"

definition writer_ok :: "nonce_writer \<Rightarrow> bool" where
  "writer_ok w \<longleftrightarrow> (\<forall>i \<ge> writer_offset w. \<not> stream_bit (writer_bytes w) i)
     \<and> plan_widths_ok (cursor_plan (plan_position (writer_cursor w)))"

lemma agrees_trans: "agrees m A B \<Longrightarrow> agrees n B C \<Longrightarrow> m \<le> n \<Longrightarrow> agrees m A C"
  by (simp add: agrees_def)

lemma span_ok_agrees: "agrees n A B \<Longrightarrow> span_ok A offset width \<longleftrightarrow> span_ok B offset width"
  by (simp add: agrees_def span_ok_def)

lemma cursor_next_Inr:
  assumes "nonce_cursor_next c st = Inr (entry, c')"
  shows "bit_offset c' = bit_offset c \<and> cursor_plan (plan_position c') = cursor_plan (plan_position c)
       \<and> entry_site entry = st
       \<and> (plan_widths_ok (cursor_plan (plan_position c)) \<longrightarrow> unat (entry_nonce_bits entry) \<le> 32)"
  using assms
  by (auto simp: nonce_cursor_next_def bindE_Inr_iff ok_or_Inr_iff plan_cursor_next_def Let_def entry_of_run_def
      plan_widths_ok_def split: if_splits)

lemma cursor_next_kind_Inr:
  "nonce_cursor_next_kind c st kind = Inr x \<longleftrightarrow> site_kind st = kind \<and> nonce_cursor_next c st = Inr x"
  by (auto simp: nonce_cursor_next_kind_def)

lemma write_entry_Inr:
  assumes w: "write_entry w entry v = Inr w'" and ok: "writer_ok w" and width: "unat (entry_nonce_bits entry) \<le> 32"
  shows "writer_ok w'" and "agrees (writer_offset w) (writer_bytes w) (writer_bytes w')"
    and "writer_cursor w' = (writer_cursor w)\<lparr>bit_offset := writer_offset w'\<rparr>"
    and "writer_offset w \<le> writer_offset w'"
    and "\<And>r. reader_cursor r = writer_cursor w \<Longrightarrow> agrees (writer_offset w') (writer_bytes w') (stream_bytes (reader_stream r))
          \<Longrightarrow> read_entry r entry = Inr (v, r\<lparr>reader_cursor := writer_cursor w'\<rparr>)"
proof -
  let ?o = "writer_offset w" and ?w = "entry_nonce_bits entry"
  from w obtain bytes where bytes: "value_fits v ?w" "write_bits (writer_bytes w) ?o ?w v = Inr bytes"
      "?o + unat ?w \<le> usize_max"
      "w' = w\<lparr>writer_bytes := bytes, writer_cursor := (writer_cursor w)\<lparr>bit_offset := ?o + unat ?w\<rparr>\<rparr>"
    by (auto simp: write_entry_def advance_bits_def checked_add_def bindE_Inr_iff ok_or_Inr_iff split: if_splits)
  note written = stream_bit_write [OF bytes(1,2)]
  have zero: "\<not> stream_bit (writer_bytes w) i" if "?o \<le> i" for i using ok that by (simp add: writer_ok_def)
  have "\<not> stream_bit bytes i" if "?o + unat ?w \<le> i" for i
    using that zero [of i] value_fits_bit [OF bytes(1), of "i - ?o"] by (auto simp: written(2))
  then show "writer_ok w'" using ok bytes(4) by (simp add: writer_ok_def)
  show "agrees ?o (writer_bytes w) (writer_bytes w')"
    using bytes(4) by (simp add: agrees_def written)
  show "writer_cursor w' = (writer_cursor w)\<lparr>bit_offset := writer_offset w'\<rparr>" "?o \<le> writer_offset w'"
    using bytes(4) by simp_all
  fix r :: nonce_reader assume r: "reader_cursor r = writer_cursor w"
    "agrees (writer_offset w') (writer_bytes w') (stream_bytes (reader_stream r))"
  have "read_bits (stream_bytes (reader_stream r)) ?o ?w = Inr v"
  proof (rule read_bits_eq [OF width _ bytes(1)])
    have "span_ok (writer_bytes w) ?o ?w" using bytes(2) by (simp add: write_bits_eq split: if_splits)
    then show "span_ok (stream_bytes (reader_stream r)) ?o ?w"
      using r(2) bytes(4) by (simp add: span_ok_def agrees_def written(1))
    fix k assume "k < unat ?w"
    then have "stream_bit (stream_bytes (reader_stream r)) (?o + k) \<longleftrightarrow> stream_bit bytes (?o + k)"
      using r(2) bytes(4) by (simp add: agrees_def)
    then show "stream_bit (stream_bytes (reader_stream r)) (?o + k) \<longleftrightarrow> bit v k"
      using zero [of "?o + k"] by (simp add: written(2))
  qed
  with r(1) bytes(3,4) show "read_entry r entry = Inr (v, r\<lparr>reader_cursor := writer_cursor w'\<rparr>)"
    by (simp add: read_entry_def advance_bits_def checked_add_def)
qed

text \<open>Consuming an entry and writing it, against consuming it and reading it.\<close>

lemma entry_sim:
  assumes nx: "nonce_cursor_next (writer_cursor w) st = Inr (entry, c)"
    and w: "write_entry (w\<lparr>writer_cursor := c\<rparr>) entry v = Inr w'" and ok: "writer_ok w"
  shows "writer_ok w'" and "agrees (writer_offset w) (writer_bytes w) (writer_bytes w')"
    and "writer_offset w \<le> writer_offset w'"
    and "reader_cursor r = writer_cursor w \<Longrightarrow> agrees (writer_offset w') (writer_bytes w') (stream_bytes (reader_stream r))
          \<Longrightarrow> read_entry (r\<lparr>reader_cursor := c\<rparr>) entry = Inr (v, r\<lparr>reader_cursor := writer_cursor w'\<rparr>)"
proof -
  note c = cursor_next_Inr [OF nx]
  have ok': "writer_ok (w\<lparr>writer_cursor := c\<rparr>)" and width: "unat (entry_nonce_bits entry) \<le> 32"
    using ok c by (simp_all add: writer_ok_def)
  note * = write_entry_Inr [OF w ok' width]
  show "writer_ok w'" "agrees (writer_offset w) (writer_bytes w) (writer_bytes w')"
    "writer_offset w \<le> writer_offset w'"
    using *(1,2,4) c by simp_all
  assume "reader_cursor r = writer_cursor w" "agrees (writer_offset w') (writer_bytes w') (stream_bytes (reader_stream r))"
  then show "read_entry (r\<lparr>reader_cursor := c\<rparr>) entry = Inr (v, r\<lparr>reader_cursor := writer_cursor w'\<rparr>)"
    using *(5) [of "r\<lparr>reader_cursor := c\<rparr>"] by simp
qed

subsection \<open>Prover and verifier replay in step\<close>

text \<open>
  The contract between the two transcripts: \<open>sync p v\<close> relates a prover and a verifier
  transcript with the same sponge state; both operations keep it and show the same blocks, and
  the preview shows the block that the live predicate will draw.
\<close>

locale grinding_transcripts =
  fixes G :: "'p grind_ops" and H :: "'v grind_ops" and sync :: "'p \<Rightarrow> 'v \<Rightarrow> bool"
  assumes live_sync: "sync p v \<Longrightarrow> live_predicate G p l g nb c = (b, p') \<Longrightarrow>
      \<exists>v'. live_predicate H v l g nb c = (b, v') \<and> sync p' v'"
    and preview_live: "sync p v \<Longrightarrow> g \<noteq> 0 \<Longrightarrow>
      fst (live_predicate G p l g nb c) = Some (preview_block G p [grinding_payload g nb c])"
    and live_zero: "sync p v \<Longrightarrow> fst (live_predicate G p l 0 nb c) = None"
    and absorb_sync: "sync p v \<Longrightarrow> sync (absorb_message G m p) (absorb_message H m v)"
    and draw_sync: "sync p v \<Longrightarrow> draw_block G p = (blk, p') \<Longrightarrow> \<exists>v'. draw_block H v = (blk, v') \<and> sync p' v'"
begin

lemma event_sim:
  assumes e: "prover_event G w p e = Inr (obs, w', p')" and ok: "writer_ok w" and sync: "sync p v"
  shows "writer_ok w' \<and> agrees (writer_offset w) (writer_bytes w) (writer_bytes w')
       \<and> writer_offset w \<le> writer_offset w'
       \<and> (\<forall>r. reader_cursor r = writer_cursor w
            \<and> agrees (writer_offset w') (writer_bytes w') (stream_bytes (reader_stream r))
          \<longrightarrow> (\<exists>v'. verifier_event H r v e = Inr (obs, r\<lparr>reader_cursor := writer_cursor w'\<rparr>, v') \<and> sync p' v'))"
proof (cases e)
  case (GrindQuery st)
  with e obtain entry c nonce l where q: "site_kind st = ProofOfWork"
      "nonce_cursor_next (writer_cursor w) st = Inr (entry, c)" "proof_of_work_label st = Some l"
      "snd (live_predicate G p l (entry_grind_bits entry) (entry_nonce_bits entry) nonce) = p'"
      "predicate_matches (entry_grind_bits entry)
         (fst (live_predicate G p l (entry_grind_bits entry) (entry_nonce_bits entry) nonce))"
      "write_entry (w\<lparr>writer_cursor := c\<rparr>) entry nonce = Inr w'" "obs = []"
    by (auto simp: writer_grind_def bindE_Inr_iff ok_or_Inr_iff cursor_next_kind_Inr split_beta split: if_splits)
  then obtain b where g: "site_kind st = ProofOfWork"
      "nonce_cursor_next (writer_cursor w) st = Inr (entry, c)" "proof_of_work_label st = Some l"
      "live_predicate G p l (entry_grind_bits entry) (entry_nonce_bits entry) nonce = (b, p')"
      "predicate_matches (entry_grind_bits entry) b"
      "write_entry (w\<lparr>writer_cursor := c\<rparr>) entry nonce = Inr w'" "obs = []"
    by (metis prod.collapse)
  note s = entry_sim [OF g(2,6) ok]
  obtain v' where v': "live_predicate H v l (entry_grind_bits entry) (entry_nonce_bits entry) nonce = (b, v')" "sync p' v'"
    using live_sync [OF sync g(4)] by blast
  have "verifier_event H r v e = Inr (obs, r\<lparr>reader_cursor := writer_cursor w'\<rparr>, v')"
    if "reader_cursor r = writer_cursor w" "agrees (writer_offset w') (writer_bytes w') (stream_bytes (reader_stream r))" for r
    using s(4) [OF that] that(1) g v'(1) by (simp add: GrindQuery reader_grind_def nonce_cursor_next_kind_def)
  with s(1-3) v'(2) show ?thesis by blast
next
  case (FoldNonce st counter)
  with e obtain entry c where g: "site_kind st = FoldResponseKind"
      "nonce_cursor_next (writer_cursor w) st = Inr (entry, c)"
      "write_entry (w\<lparr>writer_cursor := c\<rparr>) entry counter = Inr w'" "obs = [ObservedNonce counter]" "p' = p"
    by (auto simp: write_fold_response_def bindE_Inr_iff cursor_next_kind_Inr)
  note s = entry_sim [OF g(2,3) ok]
  have "verifier_event H r v e = Inr (obs, r\<lparr>reader_cursor := writer_cursor w'\<rparr>, v)"
    if "reader_cursor r = writer_cursor w" "agrees (writer_offset w') (writer_bytes w') (stream_bytes (reader_stream r))" for r
    using s(4) [OF that] that(1) g by (simp add: FoldNonce read_fold_response_def nonce_cursor_next_kind_def)
  with s(1-3) g(5) sync show ?thesis by blast
next
  case (FoldGroup level grp count)
  with e obtain c where c: "consume_fold_group (writer_cursor w) level grp count = Inr c"
      "w' = w\<lparr>writer_cursor := c\<rparr>" "obs = []" "p' = p"
    by (auto simp: writer_record_fold_def bindE_Inr_iff)
  then have "bit_offset c = writer_offset w \<and> cursor_plan (plan_position c) = cursor_plan (plan_position (writer_cursor w))"
    by (auto simp: consume_fold_group_def consume_run_def bindE_Inr_iff ok_or_Inr_iff Let_def split: if_splits)
  then show ?thesis
    using c ok sync by (simp add: FoldGroup reader_record_fold_def writer_ok_def agrees_def)
next
  case (AbsorbMessage m)
  with e absorb_sync [OF sync, of m] ok show ?thesis by (auto simp: agrees_def)
next
  case DrawBlock
  with e obtain b where b: "draw_block G p = (b, p')" "obs = [ObservedBlock b]" "w' = w"
    by (auto split: prod.splits)
  with draw_sync [OF sync b(1)] DrawBlock ok show ?thesis by (auto simp: agrees_def)
qed

lemma replay_sim:
  assumes "replay (prover_event G) w p es = Inr (obs, w', p')" and "writer_ok w" and "sync p v"
  shows "writer_ok w' \<and> agrees (writer_offset w) (writer_bytes w) (writer_bytes w')
       \<and> writer_offset w \<le> writer_offset w'
       \<and> (\<forall>r. reader_cursor r = writer_cursor w
            \<and> agrees (writer_offset w') (writer_bytes w') (stream_bytes (reader_stream r))
          \<longrightarrow> (\<exists>v'. replay (verifier_event H) r v es = Inr (obs, r\<lparr>reader_cursor := writer_cursor w'\<rparr>, v') \<and> sync p' v'))"
  using assms
proof (induction es arbitrary: w p v obs)
  case Nil
  then show ?case by (auto simp: agrees_def)
next
  case (Cons e es)
  from Cons.prems(1) obtain obs1 w1 p1 obs2 where
    step: "prover_event G w p e = Inr (obs1, w1, p1)"
      "replay (prover_event G) w1 p1 es = Inr (obs2, w', p')" "obs = obs1 @ obs2"
    by (auto simp: bindE_Inr_iff)
  note one = event_sim [OF step(1) Cons.prems(2)]
  have ok1: "writer_ok w1" and agree1: "agrees (writer_offset w) (writer_bytes w) (writer_bytes w1)"
    and mono1: "writer_offset w \<le> writer_offset w1" using one [OF Cons.prems(3)] by blast+
  have rest: "writer_ok w'" "agrees (writer_offset w1) (writer_bytes w1) (writer_bytes w')" "writer_offset w1 \<le> writer_offset w'"
    if "sync p1 v1" for v1 using Cons.IH [OF step(2) ok1 that] by blast+
  obtain v0 where v0: "sync p1 v0"
  proof -
    let ?r = "\<lparr>reader_stream = \<lparr>stream_bytes = writer_bytes w1, stream_bit_len = 0\<rparr>, reader_cursor = writer_cursor w\<rparr>"
    have "reader_cursor ?r = writer_cursor w" "agrees (writer_offset w1) (writer_bytes w1) (stream_bytes (reader_stream ?r))"
      by (simp_all add: agrees_def)
    with one [OF Cons.prems(3)] show ?thesis using that by blast
  qed
  have "\<exists>v'. replay (verifier_event H) r v (e # es) = Inr (obs, r\<lparr>reader_cursor := writer_cursor w'\<rparr>, v') \<and> sync p' v'"
    if r: "reader_cursor r = writer_cursor w" "agrees (writer_offset w') (writer_bytes w') (stream_bytes (reader_stream r))" for r
  proof -
    have "agrees (writer_offset w1) (writer_bytes w1) (stream_bytes (reader_stream r))"
      by (rule agrees_trans [OF rest(2) [OF v0] r(2) rest(3) [OF v0]])
    with one [OF Cons.prems(3)] r(1) obtain v1 where
      v1: "verifier_event H r v e = Inr (obs1, r\<lparr>reader_cursor := writer_cursor w1\<rparr>, v1)" "sync p1 v1" by blast
    from Cons.IH [OF step(2) ok1 v1(2)] r(2) obtain v' where
      "replay (verifier_event H) (r\<lparr>reader_cursor := writer_cursor w1\<rparr>) v1 es
         = Inr (obs2, r\<lparr>reader_cursor := writer_cursor w'\<rparr>, v')" "sync p' v'"
      by (metis (no_types, lifting) nonce_reader.ext_inject nonce_reader.surjective nonce_reader.update_convs(2) nonce_reader.select_convs)
    with v1(1) step(3) show ?thesis by simp
  qed
  moreover have "agrees (writer_offset w) (writer_bytes w) (writer_bytes w')"
    by (rule agrees_trans [OF agree1 rest(2) [OF v0] mono1])
  ultimately show ?case using rest [OF v0] mono1 by auto
qed

text \<open>The prover's live check never contradicts its own search.\<close>

lemma found_nonce_matches:
  assumes "sync p v" and "g = 0 \<and> nb = 0 \<or> canonical_grind_width g nb"
    and "search_grinding_nonce (preview_block G p) g nb = Some nonce"
  shows "predicate_matches g (fst (live_predicate G p l g nb nonce))"
proof (cases "g = 0")
  case True
  with assms live_zero [OF assms(1)] show ?thesis by (simp add: predicate_matches_def)
next
  case False
  with assms(2) have w: "canonical_grind_width g nb" by simp
  have "nonce_accepted (preview_block G p) g nb (unat nonce)"
    using assms(3) search_grinding_nonce_Some [OF w] by blast
  then show ?thesis
    using preview_live [OF assms(1) False] False by (simp add: nonce_accepted_def predicate_matches_def)
qed

end

subsection \<open>The sponge transcripts\<close>

text \<open>
  The adapters over \<open>AkitaTranscript\<close>.  A panic on an unbound transcript cannot happen between
  transcripts related by \<open>sponge_sync\<close>; the values given to it here are never used.
\<close>

definition sponge_grind :: "('s, 'd) sponge_ops \<Rightarrow> 's akita_transcript grind_ops" where
  "sponge_grind S =
     \<lparr>live_predicate = (\<lambda>t label g nb c.
        case grinding_predicate S t g nb c of Some r \<Rightarrow> r | None \<Rightarrow> (None, t)),
      preview_block = (\<lambda>t ps. case preview_challenge_block S t ps of Some b \<Rightarrow> b | None \<Rightarrow> []),
      absorb_message = (\<lambda>m t. case absorb_bytes S t m of Some t' \<Rightarrow> t' | None \<Rightarrow> t),
      draw_block = (\<lambda>t. case squeeze_block S t of Some r \<Rightarrow> r | None \<Rightarrow> ([], t))\<rparr>"

definition sponge_sync :: "('s, 'd) sponge_ops \<Rightarrow> 's akita_transcript \<Rightarrow> 's akita_transcript \<Rightarrow> bool" where
  "sponge_sync S p v \<longleftrightarrow>
     duplex_faithful S \<and> side p = Prover \<and> (\<exists>s. state p = Some s \<and> state v = Some s)"

interpretation sponge: grinding_transcripts "sponge_grind S" "sponge_grind S" "sponge_sync S" for S
proof
  fix p v :: "'a akita_transcript" and l g nb c b p'
  assume "sponge_sync S p v" "live_predicate (sponge_grind S) p l g nb c = (b, p')"
  then show "\<exists>v'. live_predicate (sponge_grind S) v l g nb c = (b, v') \<and> sponge_sync S p' v'"
    by (auto simp: sponge_grind_def sponge_sync_def grinding_predicate_def absorb_bytes_def squeeze_block_def
        split_beta split: if_splits)
next
  fix p v :: "'a akita_transcript" and l nb c and g :: byte
  assume "sponge_sync S p v" "g \<noteq> 0"
  then show "fst (live_predicate (sponge_grind S) p l g nb c)
      = Some (preview_block (sponge_grind S) p [grinding_payload g nb c])"
    using preview_is_live_block [of S p _ g nb c] by (fastforce simp: sponge_grind_def sponge_sync_def)
next
  fix p v :: "'a akita_transcript" and l nb c
  show "fst (live_predicate (sponge_grind S) p l 0 nb c) = None"
    by (simp add: sponge_grind_def grinding_predicate_def)
next
  fix p v :: "'a akita_transcript" and m
  assume "sponge_sync S p v"
  then show "sponge_sync S (absorb_message (sponge_grind S) m p) (absorb_message (sponge_grind S) m v)"
    by (auto simp: sponge_grind_def sponge_sync_def absorb_bytes_def)
next
  fix p v :: "'a akita_transcript" and blk p'
  assume "sponge_sync S p v" "draw_block (sponge_grind S) p = (blk, p')"
  then show "\<exists>v'. draw_block (sponge_grind S) v = (blk, v') \<and> sponge_sync S p' v'"
    by (auto simp: sponge_grind_def sponge_sync_def squeeze_block_def split_beta)
qed

subsection \<open>The replay visits the plan\<close>

definition run_sites :: "grinding_run \<Rightarrow> grinding_site list" where
  "run_sites run = replicate (unat (multiplicity run)) (site run)"

definition plan_sites :: "grinding_plan \<Rightarrow> grinding_site list" where
  "plan_sites plan = concat (map run_sites (runs plan))"

text \<open>The sites still ahead of a cursor.\<close>

definition pending :: "plan_cursor \<Rightarrow> grinding_site list" where
  "pending c = drop (run_offset c) (concat (map run_sites (drop (run_index c) (runs (cursor_plan c)))))"

definition cursor_wf :: "plan_cursor \<Rightarrow> bool" where
  "cursor_wf c \<longleftrightarrow> (\<forall>run \<in> set (runs (cursor_plan c)). 0 < unat (multiplicity run))
     \<and> (if run_index c < length (runs (cursor_plan c))
        then run_offset c < unat (multiplicity (runs (cursor_plan c) ! run_index c)) else run_offset c = 0)"

lemma plan_cursor_next_pending:
  assumes "plan_cursor_next c = Some (entry, c')" and wf: "cursor_wf c"
  shows "pending c = entry_site entry # pending c' \<and> cursor_wf c' \<and> cursor_plan c' = cursor_plan c"
proof -
  let ?rs = "runs (cursor_plan c)" and ?i = "run_index c" and ?o = "run_offset c"
  have i: "?i < length ?rs" using assms(1) by (auto simp: plan_cursor_next_def split: if_splits)
  then have o: "?o < unat (multiplicity (?rs ! ?i))" using wf by (simp add: cursor_wf_def)
  have split: "drop ?i ?rs = ?rs ! ?i # drop (Suc ?i) ?rs" using i by (simp add: Cons_nth_drop_Suc)
  have entry: "entry = entry_of_run (?rs ! ?i)"
    and c': "c' = (if ?o + 1 = unat (multiplicity (?rs ! ?i)) then c\<lparr>run_index := ?i + 1, run_offset := 0\<rparr>
                   else c\<lparr>run_offset := ?o + 1\<rparr>)"
    using assms(1) i by (auto simp: plan_cursor_next_def Let_def)
  have "drop ?o (replicate (unat (multiplicity (?rs ! ?i))) st) = st # drop (Suc ?o) (replicate (unat (multiplicity (?rs ! ?i))) st)" for st
    using o by (simp add: Suc_diff_Suc flip: replicate_Suc)
  then have "pending c = entry_site entry # pending c'"
    using o by (auto simp: pending_def split entry entry_of_run_def run_sites_def c')
  moreover have "cursor_wf c'" using wf o i by (auto simp: cursor_wf_def c')
  ultimately show ?thesis using c' by simp
qed

lemma consume_run_pending:
  assumes "consume_run c st count = Inr c'" and wf: "cursor_wf c"
  shows "pending c = replicate count st @ pending c' \<and> cursor_wf c' \<and> cursor_plan c' = cursor_plan c"
proof -
  let ?rs = "runs (cursor_plan c)" and ?i = "run_index c"
  have i: "?i < length ?rs" and c: "run_offset c = 0" "site (?rs ! ?i) = st" "unat (multiplicity (?rs ! ?i)) = count"
      "c' = c\<lparr>run_index := Suc ?i\<rparr>"
    using assms(1) by (auto simp: consume_run_def Let_def checked_add_def bindE_Inr_iff ok_or_Inr_iff split: if_splits)
  have "drop ?i ?rs = ?rs ! ?i # drop (Suc ?i) ?rs" using i by (simp add: Cons_nth_drop_Suc)
  then show ?thesis using c wf by (auto simp: pending_def run_sites_def cursor_wf_def)
qed

fun event_sites :: "replay_event \<Rightarrow> grinding_site list" where
  "event_sites (GrindQuery st) = [st]"
| "event_sites (FoldNonce st _) = [st]"
| "event_sites (FoldGroup level grp count) = replicate (count + 1) (FoldChallengeGroup level grp)"
| "event_sites _ = []"

abbreviation reader_position :: "nonce_reader \<Rightarrow> plan_cursor" where
  "reader_position r \<equiv> plan_position (reader_cursor r)"

lemma read_entry_position: "read_entry r entry = Inr (v, r') \<Longrightarrow> reader_position r' = reader_position r"
  by (auto simp: read_entry_def advance_bits_def bindE_Inr_iff)

lemma nonce_cursor_next_pending:
  assumes "nonce_cursor_next c st = Inr (entry, c')" and "cursor_wf (plan_position c)"
  shows "pending (plan_position c) = st # pending (plan_position c') \<and> cursor_wf (plan_position c')"
  using assms plan_cursor_next_pending
  by (fastforce simp: nonce_cursor_next_def bindE_Inr_iff ok_or_Inr_iff split: if_splits)

lemma verifier_event_pending:
  assumes "verifier_event G r t e = Inr (obs, r', t')" and wf: "cursor_wf (reader_position r)"
  shows "pending (reader_position r) = event_sites e @ pending (reader_position r') \<and> cursor_wf (reader_position r')"
proof (cases e)
  case (GrindQuery st)
  with assms(1) obtain entry c nonce where
    "nonce_cursor_next (reader_cursor r) st = Inr (entry, c)"
    "read_entry (r\<lparr>reader_cursor := c\<rparr>) entry = Inr (nonce, r')"
    by (auto simp: reader_grind_def bindE_Inr_iff cursor_next_kind_Inr split_beta split: if_splits)
  with nonce_cursor_next_pending [OF this(1) wf] read_entry_position [OF this(2)] GrindQuery show ?thesis by simp
next
  case (FoldNonce st counter)
  with assms(1) obtain entry c nonce where
    "nonce_cursor_next (reader_cursor r) st = Inr (entry, c)"
    "read_entry (r\<lparr>reader_cursor := c\<rparr>) entry = Inr (nonce, r')"
    by (auto simp: read_fold_response_def bindE_Inr_iff cursor_next_kind_Inr)
  with nonce_cursor_next_pending [OF this(1) wf] read_entry_position [OF this(2)] FoldNonce show ?thesis by simp
next
  case (FoldGroup level grp count)
  with assms(1) obtain p where
    "consume_run (reader_position r) (FoldChallengeGroup level grp) (count + 1) = Inr p" "reader_position r' = p"
    by (auto simp: reader_record_fold_def consume_fold_group_def checked_add_def bindE_Inr_iff ok_or_Inr_iff split: if_splits)
  with consume_run_pending [OF this(1) wf] FoldGroup show ?thesis by simp
next
  case (AbsorbMessage m)
  with assms show ?thesis by auto
next
  case DrawBlock
  with assms show ?thesis by (auto split: prod.splits)
qed

lemma verifier_replay_pending:
  assumes "replay (verifier_event G) r t es = Inr (obs, r', t')" and "cursor_wf (reader_position r)"
  shows "pending (reader_position r) = concat (map event_sites es) @ pending (reader_position r')
       \<and> cursor_wf (reader_position r')"
  using assms
proof (induction es arbitrary: r t obs)
  case (Cons e es)
  then obtain obs1 r1 t1 obs2 where "verifier_event G r t e = Inr (obs1, r1, t1)"
      "replay (verifier_event G) r1 t1 es = Inr (obs2, r', t')"
    by (auto simp: bindE_Inr_iff)
  with verifier_event_pending [OF this(1) Cons.prems(2)] Cons.IH [OF this(2)] show ?case by simp
qed simp

lemma verifier_replay_plan:
  "replay (verifier_event G) r t es = Inr (obs, r', t') \<Longrightarrow>
     cursor_plan (reader_position r') = cursor_plan (reader_position r)"
proof (induction es arbitrary: r t obs)
  case (Cons e es)
  then obtain obs1 r1 t1 obs2 where step: "verifier_event G r t e = Inr (obs1, r1, t1)"
      "replay (verifier_event G) r1 t1 es = Inr (obs2, r', t')"
    by (auto simp: bindE_Inr_iff)
  have "cursor_plan (reader_position r1) = cursor_plan (reader_position r)"
  proof (cases e)
    case (GrindQuery st)
    with step(1) obtain entry c nonce where "nonce_cursor_next (reader_cursor r) st = Inr (entry, c)"
        "read_entry (r\<lparr>reader_cursor := c\<rparr>) entry = Inr (nonce, r1)"
      by (auto simp: reader_grind_def bindE_Inr_iff cursor_next_kind_Inr split_beta split: if_splits)
    with cursor_next_Inr [OF this(1)] read_entry_position [OF this(2)] show ?thesis by simp
  next
    case (FoldNonce st counter)
    with step(1) obtain entry c nonce where "nonce_cursor_next (reader_cursor r) st = Inr (entry, c)"
        "read_entry (r\<lparr>reader_cursor := c\<rparr>) entry = Inr (nonce, r1)"
      by (auto simp: read_fold_response_def bindE_Inr_iff cursor_next_kind_Inr)
    with cursor_next_Inr [OF this(1)] read_entry_position [OF this(2)] show ?thesis by simp
  next
    case (FoldGroup level grp count)
    with step(1) show ?thesis
      by (auto simp: reader_record_fold_def consume_fold_group_def consume_run_def Let_def bindE_Inr_iff split: if_splits)
  qed (use step(1) in \<open>auto split: prod.splits\<close>)
  with Cons.IH [OF step(2)] show ?case by simp
qed simp

subsection \<open>Properties\<close>

lemma plan_new_widths:
  assumes "grinding_plan_new rs capacity = Inr plan"
  shows "plan_widths_ok plan" and "cursor_wf (plan_cursor_new plan)"
    and "pending (plan_cursor_new plan) = plan_sites plan"
proof -
  note p = grinding_plan_new_Inr [OF assms]
  have "unat (nonce_bits run) \<le> 32" if "run \<in> set rs" for run
  proof -
    have "run_ok capacity run" using p that by blast
    then show ?thesis
      by (cases "run_kind run") (auto simp: run_ok_def canonical_grind_width_def MAX_GRINDING_BITS_def
          GRINDING_NONCE_SLACK_BITS_def FOLD_RESPONSE_NONCE_BITS_def)
  qed
  then show "plan_widths_ok plan" using p by (simp add: plan_widths_ok_def)
  have "0 < unat (multiplicity run)" if "run \<in> set rs" for run using p that by (simp add: run_ok_def)
  then show "cursor_wf (plan_cursor_new plan)" using p by (simp add: cursor_wf_def plan_cursor_new_def)
  show "pending (plan_cursor_new plan) = plan_sites plan"
    by (simp add: pending_def plan_cursor_new_def plan_sites_def)
qed

lemma stream_bit_zero [simp]: "\<not> stream_bit (replicate n 0) i"
  by (auto simp: stream_bit_def)

lemma padding_zero:
  assumes "\<forall>i \<ge> n. \<not> stream_bit bs i" and "bs \<noteq> []" and "length bs = (n + 7) div 8" and "n mod 8 \<noteq> 0"
  shows "drop_bit (n mod 8) (last bs) = 0"
proof (rule bit_word_eqI)
  fix k assume "k < LENGTH(8)"
  have len: "length bs = n div 8 + 1" using assms(3,4) by presburger
  show "bit (drop_bit (n mod 8) (last bs)) k \<longleftrightarrow> bit (0 :: byte) k"
  proof (cases "n mod 8 + k < 8")
    case True
    let ?i = "8 * (n div 8) + (n mod 8 + k)"
    have "?i div 8 = n div 8" "?i mod 8 = n mod 8 + k"
      using True by (simp_all only: div_mult_self4 mod_mult_self4 div_less mod_less)
    moreover have "n \<le> ?i" by simp
    ultimately show ?thesis
      using assms(1) [rule_format, of ?i] assms(2) len by (auto simp: stream_bit_def last_conv_nth bit_drop_bit_eq add.commute)
  next
    case False
    then show ?thesis using bit_imp_le_length [of "last bs"] by (auto simp: bit_drop_bit_eq)
  qed
qed

lemma replay_accepts:
  assumes plan: "grinding_plan_new rs capacity = Inr plan" and new: "writer_new plan = Inr w"
    and sync: "sponge_sync S p v"
    and run: "replay (prover_event (sponge_grind S)) w p es = Inr (obs, w', p')"
    and fin: "writer_finish w' = Inr stream"
  shows "\<exists>r r' v'.
      nonce_stream_from_bytes (stream_bytes stream) (total_nonce_bits plan) = Inr stream
      \<and> stream_reader stream plan = Inr r
      \<and> replay (verifier_event (sponge_grind S)) r v es = Inr (obs, r', v')
      \<and> reader_finish r' = Inr () \<and> state v' = state p'"
proof -
  note p = grinding_plan_new_Inr [OF plan]
  have len: "div_ceil (total_nonce_bits plan) 8 = Some ((total_nonce_bits plan + 7) div 8)"
  proof -
    have "total_nonce_bits plan \<le> usize_max" using p by blast
    from div_ceil_exact [OF this] show ?thesis by auto
  qed
  with new have w: "w = \<lparr>writer_bytes = replicate ((total_nonce_bits plan + 7) div 8) 0, writer_cursor = nonce_cursor_new plan\<rparr>"
    by (simp add: writer_new_def nonce_byte_len_def)
  have ok: "writer_ok w"
    using plan_new_widths(1) [OF plan] by (simp add: w writer_ok_def nonce_cursor_new_def plan_cursor_new_def)
  note sim = sponge.replay_sim [OF run ok sync]
  define r where "r = \<lparr>reader_stream = stream, reader_cursor = nonce_cursor_new plan\<rparr>"
  have stream: "stream = \<lparr>stream_bytes = writer_bytes w', stream_bit_len = writer_offset w'\<rparr>"
    and finished: "nonce_cursor_finished (writer_cursor w') (total_nonce_bits (cursor_plan (plan_position (writer_cursor w'))))"
    using fin by (auto simp: writer_finish_def split: if_splits)
  have "reader_cursor r = writer_cursor w" "agrees (writer_offset w') (writer_bytes w') (stream_bytes (reader_stream r))"
    by (simp_all add: r_def w stream agrees_def)
  with sim obtain v' where v': "replay (verifier_event (sponge_grind S)) r v es
      = Inr (obs, r\<lparr>reader_cursor := writer_cursor w'\<rparr>, v')" "sponge_sync S p' v'" by blast
  have plan': "cursor_plan (plan_position (writer_cursor w')) = plan"
    using verifier_replay_plan [OF v'(1)] by (simp add: r_def nonce_cursor_new_def plan_cursor_new_def)
  have bits: "writer_offset w' = total_nonce_bits plan"
    using finished plan' by (simp add: nonce_cursor_finished_def)
  have "length (writer_bytes w') = (total_nonce_bits plan + 7) div 8"
    using sim by (simp add: w agrees_def)
  moreover have "\<forall>i \<ge> total_nonce_bits plan. \<not> stream_bit (writer_bytes w') i"
    using sim bits by (simp add: writer_ok_def)
  ultimately have "nonce_stream_from_bytes (stream_bytes stream) (total_nonce_bits plan) = Inr stream"
    using padding_zero [of "total_nonce_bits plan" "writer_bytes w'"] len
    by (auto simp: nonce_stream_from_bytes_def nonce_byte_len_def stream bits)
  moreover have "stream_reader stream plan = Inr r" by (simp add: stream_reader_def r_def stream bits)
  moreover have "reader_finish (r\<lparr>reader_cursor := writer_cursor w'\<rparr>) = Inr ()"
    using finished plan' by (simp add: reader_finish_def r_def stream bits)
  moreover have "state v' = state p'" using v'(2) by (auto simp: sponge_sync_def)
  ultimately show ?thesis using v'(1) by blast
qed

text \<open>
  C22: A finished prover replay is accepted by the verifier.  For a constructed plan, if the
  prover runs any sequence of scheduled proof-of-work queries, fold-response commitments, fold
  groups, absorptions and challenge draws without an error and finishes its stream, then that
  stream is canonical, and the verifier, started on a transcript in the same sponge state, replays
  the same sequence without an error, reads the same fold-response nonces, draws the same
  challenge blocks, ends in the same sponge state and finishes its reader.
\<close>

theorem grinding_replay_complete:
  assumes plan: "grinding_plan_new rs capacity = Inr plan" and new: "writer_new plan = Inr w"
    and S: "duplex_faithful S" "state p = Some s" "state v = Some s" "side p = Prover"
    and run: "replay (prover_event (sponge_grind S)) w p es = Inr (obs, w', p')"
    and fin: "writer_finish w' = Inr stream"
  shows "\<exists>r r' v'.
      nonce_stream_from_bytes (stream_bytes stream) (total_nonce_bits plan) = Inr stream
      \<and> stream_reader stream plan = Inr r
      \<and> replay (verifier_event (sponge_grind S)) r v es = Inr (obs, r', v')
      \<and> reader_finish r' = Inr () \<and> state v' = state p'"
proof -
  have "sponge_sync S p v" using S by (simp add: sponge_sync_def)
  from replay_accepts [OF plan new this run fin] show ?thesis .
qed

text \<open>
  C23: A finished verifier replay visited the plan exactly.  If the verifier replays a sequence of
  operations on a stream and finishes, then the sites of its operations, a fold group counting
  once for its root and once per coordinate, are the sites of the plan in order and multiplicity:
  no scheduled query was skipped, added or reordered.
\<close>

theorem verifier_replay_visits_plan:
  assumes "grinding_plan_new rs capacity = Inr plan" and "stream_reader stream plan = Inr r"
    and "replay (verifier_event G) r t es = Inr (obs, r', t')" and "reader_finish r' = Inr ()"
  shows "concat (map event_sites es) = concat (map (\<lambda>run. replicate (unat (multiplicity run)) (site run)) rs)"
proof -
  have r: "reader_position r = plan_cursor_new plan"
    using assms(2) by (auto simp: stream_reader_def nonce_cursor_new_def split: if_splits)
  have "pending (reader_position r') = []"
    using assms(4) by (auto simp: reader_finish_def nonce_cursor_finished_def plan_cursor_finished_def pending_def split: if_splits)
  with verifier_replay_pending [OF assms(3)] plan_new_widths(2,3) [OF assms(1)] r
  have "plan_sites plan = concat (map event_sites es)" by simp
  then show ?thesis
    using grinding_plan_new_Inr [OF assms(1)] by (simp add: plan_sites_def run_sites_def [abs_def])
qed

text \<open>A run over the all-zero sponge: one proof of work and one fold response.\<close>

definition sample_events :: "replay_event list" where
  "sample_events = [AbsorbMessage [1], GrindQuery (Tau0Point 0), DrawBlock, FoldNonce (FoldResponse 0) 5]"

definition sample_runs :: "grinding_run list" where
  "sample_runs = [\<lparr>site = Tau0Point 0, loss_factor = 4, grind_bits = 2, nonce_bits = 9, multiplicity = 1\<rparr>,
     fold_response_run 0]"

abbreviation sample_plan :: grinding_plan where
  "sample_plan \<equiv>
     \<lparr>runs = sample_runs, nominal_capacity_bits = 128, total_nonce_bits = 21, expanded_query_count = 2\<rparr>"

lemma sample_plan_new: "grinding_plan_new sample_runs 128 = Inr sample_plan"
proof -
  have price: "grind_bits_for_loss 4 128 = Inr 2"
    by (simp add: grind_bits_for_loss_Inr bit_length.simps MAX_GRINDING_BITS_def)
  show ?thesis
    by (simp add: sample_runs_def grinding_plan_new_def accumulator_new_def accumulator_push_def run_validate_def
        site_validate_def u32_max_def price expected_nonce_bits_def fold_response_run_def GRINDING_NONCE_SLACK_BITS_def
        MAX_GRINDING_BITS_def FOLD_RESPONSE_NONCE_BITS_def checked_mul_def checked_add_def usize_max_def Let_def)
qed

lemma sample_search:
  assumes "state t = Some ()" and "side t = Prover"
  shows "search_grinding_nonce (preview_block (sponge_grind zero_sponge) t) 2 9 = Some 0"
proof -
  have w: "canonical_grind_width 2 9"
    by (simp add: canonical_grind_width_def MAX_GRINDING_BITS_def GRINDING_NONCE_SLACK_BITS_def)
  have "preview_block (sponge_grind zero_sponge) t [m] = replicate 32 0" for m
    using assms by (simp add: sponge_grind_def preview_challenge_block_def zero_sponge_def)
  then show ?thesis
    by (subst search_grinding_nonce_Some [OF w]) (simp add: nonce_accepted_def grinding_predicate_accepts_def)
qed

lemmas sample_defs = writer_grind_def nonce_cursor_next_kind_def nonce_cursor_next_def plan_cursor_next_def
  entry_of_run_def write_entry_def value_fits_def advance_bits_def write_fold_response_def
  fold_response_run_def FOLD_RESPONSE_NONCE_BITS_def checked_add_def usize_max_def
  predicate_matches_def grinding_predicate_accepts_def

lemma sample_zero_ops:
  "absorb_message (sponge_grind zero_sponge) m (t\<lparr>state := Some ()\<rparr>) = t\<lparr>state := Some ()\<rparr>"
  "draw_block (sponge_grind zero_sponge) (t\<lparr>state := Some ()\<rparr>) = (replicate 32 0, t\<lparr>state := Some ()\<rparr>)"
  "live_predicate (sponge_grind zero_sponge) (t\<lparr>state := Some ()\<rparr>) l 2 nb c = (Some (replicate 32 0), t\<lparr>state := Some ()\<rparr>)"
  by (simp_all add: sponge_grind_def zero_sponge_def absorb_bytes_def squeeze_block_def grinding_predicate_def)

lemma sample_run: "\<exists>w obs w' p' stream. writer_new sample_plan = Inr w
   \<and> replay (prover_event (sponge_grind zero_sponge)) w ((unbound [1] Prover)\<lparr>state := Some ()\<rparr>) sample_events
       = Inr (obs, w', p')
   \<and> writer_finish w' = Inr stream"
proof -
  have "div_ceil 21 8 = Some 3" by (simp add: div_ceil_def checked_div_def checked_add_def usize_max_def)
  then have w: "writer_new sample_plan = Inr \<lparr>writer_bytes = replicate 3 0, writer_cursor = nonce_cursor_new sample_plan\<rparr>"
    by (simp add: writer_new_def nonce_byte_len_def)
  have fits: "\<exists>bs'. length bs' = 3 \<and> write_bits bs offset width v = Inr bs'"
    if "offset + unat width \<le> 24" "length bs = 3" for bs offset width v
  proof -
    have "offset div 8 + byte_span offset width \<le> 3 \<or> byte_span offset width = 0"
    proof -
      have "8 * (offset div 8) + offset mod 8 = offset" by simp
      moreover have "8 * byte_span offset width \<le> offset mod 8 + unat width + 7" by (simp add: byte_span_def)
      ultimately have "offset div 8 + byte_span offset width < 4" using that(1) by linarith
      then show ?thesis by simp
    qed
    then show ?thesis using that by (auto simp: write_bits_eq span_ok_def)
  qed
  obtain b1 where b1: "length b1 = 3" "write_bits (replicate 3 0) 0 9 0 = Inr b1" using fits [of 0 9 "replicate 3 0"] by auto
  obtain b2 where b2: "write_bits b1 9 12 5 = Inr b2" using fits [of 9 12 b1] b1(1) by auto
  have search: "search_grinding_nonce (preview_block (sponge_grind zero_sponge) ((unbound [1] Prover)\<lparr>state := Some ()\<rparr>)) 2 9 = Some 0"
    by (rule sample_search) (simp_all add: unbound_def)
  have "replay (prover_event (sponge_grind zero_sponge)) \<lparr>writer_bytes = replicate 3 0, writer_cursor = nonce_cursor_new sample_plan\<rparr>
       ((unbound [1] Prover)\<lparr>state := Some ()\<rparr>) sample_events
    = Inr ([ObservedBlock (replicate 32 0), ObservedNonce 5], \<lparr>writer_bytes = b2, writer_cursor =
        \<lparr>plan_position = \<lparr>cursor_plan = sample_plan, run_index = 2, run_offset = 0\<rparr>, bit_offset = 21\<rparr>\<rparr>,
        (unbound [1] Prover)\<lparr>state := Some ()\<rparr>)"
    by (simp add: sample_events_def sample_runs_def nonce_cursor_new_def plan_cursor_new_def sample_defs
        sample_zero_ops search b1(2) b2)
  moreover have "writer_finish \<lparr>writer_bytes = b2, writer_cursor =
        \<lparr>plan_position = \<lparr>cursor_plan = sample_plan, run_index = 2, run_offset = 0\<rparr>, bit_offset = 21\<rparr>\<rparr>
      = Inr \<lparr>stream_bytes = b2, stream_bit_len = 21\<rparr>"
    by (simp add: writer_finish_def nonce_cursor_finished_def plan_cursor_finished_def sample_runs_def)
  ultimately show ?thesis using w by blast
qed

theorem grinding_replay_complete_witness:
  "\<exists>stream r obs r' v'. stream_reader stream sample_plan = Inr r
     \<and> replay (verifier_event (sponge_grind zero_sponge)) r ((unbound [1] Verifier)\<lparr>state := Some ()\<rparr>) sample_events
         = Inr (obs, r', v')
     \<and> reader_finish r' = Inr ()"
proof -
  obtain w obs w' p' stream where s: "writer_new sample_plan = Inr w"
   "replay (prover_event (sponge_grind zero_sponge)) w ((unbound [1] Prover)\<lparr>state := Some ()\<rparr>) sample_events = Inr (obs, w', p')"
   "writer_finish w' = Inr stream" using sample_run by blast
  have S: "duplex_faithful zero_sponge" by (simp add: duplex_faithful_def zero_sponge_def)
  have "\<exists>r r' v'. nonce_stream_from_bytes (stream_bytes stream) (total_nonce_bits sample_plan) = Inr stream
      \<and> stream_reader stream sample_plan = Inr r
      \<and> replay (verifier_event (sponge_grind zero_sponge)) r ((unbound [1] Verifier)\<lparr>state := Some ()\<rparr>) sample_events = Inr (obs, r', v')
      \<and> reader_finish r' = Inr () \<and> state v' = state p'"
    by (rule grinding_replay_complete [OF sample_plan_new s(1) S _ _ _ s(2,3)]) (simp_all add: unbound_def)
  then show ?thesis by blast
qed

lemma sample_verifier_run: "\<exists>stream r obs r' v'. stream_reader stream sample_plan = Inr r
     \<and> replay (verifier_event (sponge_grind zero_sponge)) r ((unbound [1] Verifier)\<lparr>state := Some ()\<rparr>) sample_events
         = Inr (obs, r', v')
     \<and> reader_finish r' = Inr ()"
proof -
  obtain w obs w' p' stream where s: "writer_new sample_plan = Inr w"
   "replay (prover_event (sponge_grind zero_sponge)) w ((unbound [1] Prover)\<lparr>state := Some ()\<rparr>) sample_events = Inr (obs, w', p')"
   "writer_finish w' = Inr stream" using sample_run by blast
  have "sponge_sync zero_sponge ((unbound [1] Prover)\<lparr>state := Some ()\<rparr>) ((unbound [1] Verifier)\<lparr>state := Some ()\<rparr>)"
    by (simp add: sponge_sync_def duplex_faithful_def zero_sponge_def unbound_def)
  then show ?thesis using replay_accepts [OF sample_plan_new s(1) _ s(2,3)] by blast
qed

theorem verifier_replay_visits_plan_witness:
  "concat (map event_sites sample_events) = [Tau0Point 0, FoldResponse 0]
     \<and> (\<exists>stream r obs r' v'. stream_reader stream sample_plan = Inr r
     \<and> replay (verifier_event (sponge_grind zero_sponge)) r ((unbound [1] Verifier)\<lparr>state := Some ()\<rparr>) sample_events
         = Inr (obs, r', v'))"
proof -
  obtain stream r obs r' v' where r: "stream_reader stream sample_plan = Inr r"
     "replay (verifier_event (sponge_grind zero_sponge)) r ((unbound [1] Verifier)\<lparr>state := Some ()\<rparr>) sample_events
         = Inr (obs, r', v')" "reader_finish r' = Inr ()" using sample_verifier_run by blast
  have "concat (map event_sites sample_events) = [Tau0Point 0, FoldResponse 0]"
    using verifier_replay_visits_plan [OF sample_plan_new r] by (simp add: sample_runs_def fold_response_run_def)
  with r show ?thesis by blast
qed

lemma writer_grind_entry:
  assumes "nonce_cursor_next c st = Inr (entry, c')" and "\<forall>run \<in> set (runs (cursor_plan (plan_position c))). run_ok capacity run"
    and "site_kind st = ProofOfWork"
  shows "entry_grind_bits entry = 0 \<and> entry_nonce_bits entry = 0
       \<or> canonical_grind_width (entry_grind_bits entry) (entry_nonce_bits entry)"
proof -
  define run where "run = runs (cursor_plan (plan_position c)) ! run_index (plan_position c)"
  have run: "run \<in> set (runs (cursor_plan (plan_position c)))" "entry = entry_of_run run" "site run = st"
    using assms(1)
    by (auto simp: run_def nonce_cursor_next_def plan_cursor_next_def bindE_Inr_iff ok_or_Inr_iff Let_def
        entry_of_run_def split: if_splits)
  with assms(2,3) show ?thesis by (auto simp: run_ok_def entry_of_run_def)
qed

text \<open>
  C24: The prover's live check never contradicts its preview.  On a constructed plan and a bound
  prover transcript whose duplex copy is faithful, a scheduled query either succeeds or fails for
  another reason; the preview/live mismatch error is unreachable.
\<close>

theorem prover_grind_never_mismatches:
  assumes "grinding_plan_new rs capacity = Inr plan" and "cursor_plan (plan_position (writer_cursor w)) = plan"
    and "duplex_faithful S" and "state p = Some s" and "side p = Prover"
  shows "writer_grind (sponge_grind S) w p st \<noteq> Inl (InvalidInput ''transcript grinding preview/live mismatch'')"
proof
  let ?msg = "InvalidInput ''transcript grinding preview/live mismatch''"
  assume "writer_grind (sponge_grind S) w p st = Inl ?msg"
  moreover have "nonce_cursor_next_kind (writer_cursor w) st ProofOfWork \<noteq> Inl ?msg"
    by (auto simp: nonce_cursor_next_kind_def nonce_cursor_next_def bindE_Inl_iff ok_or_def split: option.splits if_splits)
  moreover have "write_entry w' entry nonce \<noteq> Inl ?msg" for w' entry nonce
    by (auto simp: write_entry_def write_bits_eq advance_bits_def bindE_Inl_iff ok_or_def split: option.splits if_splits)
  ultimately obtain entry c nonce l where g: "site_kind st = ProofOfWork"
      "nonce_cursor_next (writer_cursor w) st = Inr (entry, c)"
      "search_grinding_nonce (preview_block (sponge_grind S) p) (entry_grind_bits entry) (entry_nonce_bits entry) = Some nonce"
      "\<not> predicate_matches (entry_grind_bits entry)
          (fst (live_predicate (sponge_grind S) p l (entry_grind_bits entry) (entry_nonce_bits entry) nonce))"
    by (auto simp: writer_grind_def bindE_Inl_iff cursor_next_kind_Inr ok_or_def split_beta split: option.splits if_splits)
  have "\<forall>run \<in> set (runs plan). run_ok capacity run" using grinding_plan_new_Inr [OF assms(1)] by blast
  with writer_grind_entry [OF g(2) _ g(1)] assms(2)
  have "entry_grind_bits entry = 0 \<and> entry_nonce_bits entry = 0
      \<or> canonical_grind_width (entry_grind_bits entry) (entry_nonce_bits entry)" by blast
  moreover have "sponge_sync S p p" using assms(3-5) by (simp add: sponge_sync_def)
  ultimately show False using sponge.found_nonce_matches [OF _ _ g(3)] g(4) by blast
qed

theorem prover_grind_never_mismatches_witness:
  "\<exists>w. writer_new sample_plan = Inr w
     \<and> writer_grind (sponge_grind zero_sponge) w ((unbound [1] Prover)\<lparr>state := Some ()\<rparr>) (Tau0Point 0)
         \<noteq> Inl (InvalidInput ''transcript grinding preview/live mismatch'')"
proof -
  obtain w where w: "writer_new sample_plan = Inr w" using sample_run by blast
  then have "cursor_plan (plan_position (writer_cursor w)) = sample_plan"
    by (auto simp: writer_new_def bindE_Inr_iff nonce_cursor_new_def plan_cursor_new_def)
  from prover_grind_never_mismatches [OF sample_plan_new this, of zero_sponge "(unbound [1] Prover)\<lparr>state := Some ()\<rparr>"] w
  show ?thesis by (auto simp: duplex_faithful_def zero_sponge_def unbound_def)
qed

end
