(* ===== verification/EqFactored.thy ===== *)
theory EqFactored
  imports SumcheckCorrect
begin

text \<open>
  The equality-factored driver of \<^verbatim>\<open>akita-sumcheck/src/drivers/eq_factored.rs\<close> with
  \<open>GruenSplitEq\<close> as its round state (\<^verbatim>\<open>traits.rs\<close>).  A round sends the non-constant
  coefficients of the inner polynomial \<open>q\<close>; the constant one is recovered from the running
  claim and the equality coordinate, so every message determines a polynomial and, unlike in
  the standard driver, no message loses the claim.
\<close>

subsection \<open>\<open>GruenSplitEq\<close> as the round state\<close>

text \<open>
  The state is \<open>None\<close> after a panic; \<open>run_gruen\<close> below shows that neither operation panics
  within the number of rounds, so the value \<open>0\<close> of \<open>gruen_round_tau\<close> is never read.
\<close>

definition gruen_round_tau :: "'e::field gruen_split_eq option \<Rightarrow> 'e" where
  "gruen_round_tau q = (case Option.bind q current_tau of None \<Rightarrow> 0 | Some tau_k \<Rightarrow> tau_k)"

definition gruen_round_ingest ::
  "'e::field gruen_split_eq option \<Rightarrow> nat \<Rightarrow> 'e \<Rightarrow> 'e gruen_split_eq option" where
  "gruen_round_ingest q rnd r = Option.bind q (\<lambda>g. gruen_bind g r)"

definition gruen_start :: "nat \<Rightarrow> 'e::field list \<Rightarrow> 'e gruen_split_eq option result" where
  "gruen_start elem_size point = bindE (gruen_new elem_size point) (\<lambda>g. Inr (Some g))"

definition uses_gruen :: "nat \<Rightarrow> 'e::field list \<Rightarrow> ('e gruen_split_eq option, 'e) eq_factored_verifier \<Rightarrow> bool" where
  "uses_gruen sz point V \<longleftrightarrow>
     ev_num_rounds V = length point \<and> start_round_state V = gruen_start sz point
     \<and> rs_current_tau V = gruen_round_tau \<and> rs_ingest_challenge V = gruen_round_ingest"

subsection \<open>The message as a polynomial\<close>

definition message_poly :: "'e::field \<Rightarrow> 'e \<Rightarrow> 'e eq_factored_uni_poly \<Rightarrow> 'e list" where
  "message_poly claim t p =
     (claim - t * sum_list (coeffs_except_constant_term p)) # coeffs_except_constant_term p"

lemma advance_message_poly: "advance_eq_factored_claim claim t p r = horner (message_poly claim t p) r"
  by (simp add: advance_eq_factored_claim_def message_poly_def nonconstant_term_sum_at_one_def
      eval_nonconstant_terms_def foldl_power_accumulate foldl_plus_Cons Let_def)

lemma message_poly_claim:
  "(1 - t) * horner (message_poly claim t p) 0 + t * horner (message_poly claim t p) 1 = claim"
  by (simp add: message_poly_def horner_0 horner_1 algebra_simps)

text \<open>A list of coefficients of the true round polynomial gives the true message.\<close>

lemma message_poly_from_q_coeffs:
  assumes "(1 - t) * horner q 0 + t * horner q 1 = claim"
  shows "horner (message_poly claim t (from_q_coeffs q)) x = horner q x"
proof (cases q)
  case (Cons c cs)
  then show ?thesis
    using assms by (simp add: from_q_coeffs_def message_poly_def horner_0 horner_1 algebra_simps)
qed (use assms in \<open>simp add: from_q_coeffs_def message_poly_def\<close>)

fun eq_claim_after :: "'e::field \<Rightarrow> 'e list \<Rightarrow> 'e eq_factored_uni_poly list \<Rightarrow> 'e list \<Rightarrow> 'e" where
  "eq_claim_after c (t # ts) (p # ps) (r # rs) =
     eq_claim_after (horner (message_poly c t p) r) ts ps rs"
| "eq_claim_after c ts ps rs = c"

lemma run_gruen:
  assumes "gruen_inv point k g" and "length ps = length point - k" and "k \<le> length point"
    and V: "rs_current_tau V = gruen_round_tau" "rs_ingest_challenge V = gruen_round_ingest"
    and "eq_verify_rounds V T k ps c (Some g) t = Inr (c', rs, q', t')"
  shows "length rs = length ps \<and> c' = eq_claim_after c (drop k point) ps rs
       \<and> (\<forall>p \<in> set ps. eq_factored_degree p \<le> ev_degree_bound V)
       \<and> (\<exists>g'. q' = Some g' \<and> gruen_inv point (length point) g')"
  using assms(1-3,6)
proof (induction ps arbitrary: k g c rs t)
  case Nil
  then show ?case by auto
next
  case (Cons p ps)
  from Cons.prems(2) have k: "k < length point" by simp
  obtain r t1 rs1 where step: "\<not> ev_degree_bound V < eq_factored_degree p" "rs = r # rs1"
      "eq_verify_rounds V T (Suc k) ps (advance_eq_factored_claim c (gruen_round_tau (Some g)) p r)
         (gruen_round_ingest (Some g) k r) t1 = Inr (c', rs1, q', t')"
    using Cons.prems(4) V by (auto simp: bindE_Inr_iff split: if_splits)
  obtain g1 where g1: "gruen_bind g r = Some g1" "gruen_inv point (Suc k) g1"
    using gruen_bind_inv [OF Cons.prems(1) k] by blast
  have tau: "gruen_round_tau (Some g) = point ! k"
    using Cons.prems(1) k by (simp add: gruen_round_tau_def current_tau_def gruen_inv_def Let_def)
  have "eq_verify_rounds V T (Suc k) ps (horner (message_poly c (point ! k) p) r) (Some g1) t1
      = Inr (c', rs1, q', t')"
    using step(3) by (simp add: tau g1(1) gruen_round_ingest_def advance_message_poly)
  note IH = Cons.IH [OF g1(2) _ _ this]
  have "drop k point = point ! k # drop (Suc k) point" by (rule Cons_nth_drop_Suc [OF k, symmetric])
  with IH Cons.prems(2) k step(1,2) show ?case by simp
qed

lemma eq_verify_Inr:
  assumes V: "uses_gruen sz point V" and acc: "eq_verify T V pr t = Inr (rs, t')"
  shows "length (eq_round_polys pr) = length point \<and> length rs = length point
       \<and> (\<forall>p \<in> set (eq_round_polys pr). eq_factored_degree p \<le> ev_degree_bound V)
       \<and> (\<exists>q'. ev_expected_output_claim V q' rs
              = Inr (eq_claim_after (ev_input_claim V) point (eq_round_polys pr) rs))"
proof -
  obtain g c q' where run: "length (eq_round_polys pr) = length point" "gruen_new sz point = Inr g"
      "eq_verify_rounds V T 0 (eq_round_polys pr) (ev_input_claim V) (Some g)
         (append_claim T (ev_input_claim V) t) = Inr (c, rs, q', t')"
      "ev_expected_output_claim V q' rs = Inr c"
    using acc V by (auto simp: eq_verify_def uses_gruen_def gruen_start_def bindE_Inr_iff split: if_splits)
  have "gruen_inv point 0 g" using run(2) gruen_new_inv(1) unfolding gruen_new_def by blast
  from run_gruen [OF this _ _ _ _ run(3)] run V show ?thesis by (auto simp: uses_gruen_def)
qed

subsection \<open>Soundness\<close>

text \<open>
  \<open>eq_sum f ts p\<close> is the sum over the Boolean extensions \<open>x\<close> of the prefix \<open>p\<close> of
  \<open>eq(ts, x) * f(p, x)\<close>.
\<close>

fun eq_sum :: "('e::field list \<Rightarrow> 'e) \<Rightarrow> 'e list \<Rightarrow> 'e list \<Rightarrow> 'e" where
  "eq_sum f [] p = f p"
| "eq_sum f (t # ts) p = (1 - t) * eq_sum f ts (p @ [0]) + t * eq_sum f ts (p @ [1])"

definition eq_bad_challenges ::
  "('e::field list \<Rightarrow> 'e) \<Rightarrow> 'e list \<Rightarrow> 'e \<Rightarrow> 'e eq_factored_uni_poly list \<Rightarrow> 'e list \<Rightarrow> 'e set" where
  "eq_bad_challenges f point c ps rs =
     (let k = length rs in
      {x. horner (message_poly (eq_claim_after c point (butlast ps) rs) (point ! k) (last ps)) x
            = eq_sum f (drop (Suc k) point) (rs @ [x])})"

lemma horner_scale: "horner (map ((*) k) us) x = k * horner us x" for k :: "'e::field"
  by (induction us) (simp_all add: algebra_simps)

lemma eq_sum_degree:
  assumes "individual_degree f n d" and "length p + length q + 1 + length ts = n"
  shows "\<exists>cs. length cs \<le> Suc d \<and> (\<forall>x. eq_sum f ts (p @ [x] @ q) = horner cs x)"
  using assms(2)
proof (induction ts arbitrary: q)
  case Nil
  then show ?case using assms(1) by (simp add: individual_degree_def)
next
  case (Cons t ts)
  obtain us vs where us: "length us \<le> Suc d" "\<And>x. eq_sum f ts (p @ [x] @ q @ [0]) = horner us x"
    and vs: "length vs \<le> Suc d" "\<And>x. eq_sum f ts (p @ [x] @ q @ [1]) = horner vs x"
    using Cons.IH [of "q @ [0]"] Cons.IH [of "q @ [1]"] Cons.prems by auto
  obtain ds where ds: "length ds = max (length (map ((*) (1 - t)) us)) (length (map ((*) t) vs))"
      "\<And>x. horner ds x = horner (map ((*) (1 - t)) us) x + horner (map ((*) t) vs) x"
    using horner_add by blast
  have "length ds \<le> Suc d" using us(1) vs(1) ds(1) by simp
  moreover have "eq_sum f (t # ts) (p @ [x] @ q) = horner ds x" for x
    using us(2) vs(2) ds(2) by (simp add: horner_scale)
  ultimately show ?case by blast
qed

lemma eq_bad_challenges_card:
  assumes f: "individual_degree f (length point) d" and k: "length rs < length point"
    and deg: "eq_factored_degree (last ps) \<le> bound" and d: "d \<le> bound"
    and wrong: "eq_claim_after c point (butlast ps) rs \<noteq> eq_sum f (drop (length rs) point) rs"
  shows "finite (eq_bad_challenges f point c ps rs) \<and> card (eq_bad_challenges f point c ps rs) \<le> bound"
proof -
  let ?t = "point ! length rs" and ?c = "eq_claim_after c point (butlast ps) rs"
  let ?q = "message_poly ?c ?t (last ps)"
  obtain cs where cs: "length cs \<le> Suc d"
      "\<And>x. eq_sum f (drop (Suc (length rs)) point) (rs @ [x]) = horner cs x"
  proof -
    have "length rs + length [] + 1 + length (drop (Suc (length rs)) point) = length point" using k by simp
    from eq_sum_degree [OF f this] show ?thesis using that by auto
  qed
  have "length ?q \<le> Suc bound" using deg by (simp add: message_poly_def eq_factored_degree_def)
  moreover have "\<exists>x. horner ?q x \<noteq> horner cs x"
  proof (rule ccontr)
    assume "\<not> ?thesis"
    then have "?c = (1 - ?t) * horner cs 0 + ?t * horner cs 1"
      using message_poly_claim [of ?t ?c "last ps"] by simp
    also have "\<dots> = eq_sum f (drop (length rs) point) rs"
      using Cons_nth_drop_Suc [OF k, symmetric] by (simp flip: cs(2))
    finally show False using wrong by simp
  qed
  ultimately show ?thesis
    using horner_agreement_bound [of ?q cs bound] cs(1) d by (simp add: eq_bad_challenges_def cs(2) Let_def)
qed

lemma false_eq_claim_needs_bad_challenge:
  assumes "length rs = length ps" and "length ps = length ts"
    and "c \<noteq> eq_sum f ts rs0" and "eq_claim_after c ts ps rs = f (rs0 @ rs)"
  shows "\<exists>i < length ps.
       eq_claim_after c ts (take i ps) (take i rs) \<noteq> eq_sum f (drop i ts) (rs0 @ take i rs)
     \<and> horner (message_poly (eq_claim_after c ts (take i ps) (take i rs)) (ts ! i) (ps ! i)) (rs ! i)
         = eq_sum f (drop (Suc i) ts) (rs0 @ take (Suc i) rs)"
  using assms
proof (induction rs ps ts arbitrary: c rs0 rule: list_induct3)
  case Nil
  then show ?case by simp
next
  case (Cons r rs p ps t ts)
  let ?c = "horner (message_poly c t p) r"
  show ?case
  proof (cases "?c = eq_sum f ts (rs0 @ [r])")
    case True
    with Cons.prems(1) show ?thesis by (intro exI [of _ 0]) simp
  next
    case False
    with Cons.IH [of ?c "rs0 @ [r]"] Cons.prems obtain i where i: "i < length ps"
        "eq_claim_after ?c ts (take i ps) (take i rs) \<noteq> eq_sum f (drop i ts) ((rs0 @ [r]) @ take i rs)"
        "horner (message_poly (eq_claim_after ?c ts (take i ps) (take i rs)) (ts ! i) (ps ! i)) (rs ! i)
          = eq_sum f (drop (Suc i) ts) ((rs0 @ [r]) @ take (Suc i) rs)"
      by auto
    then show ?thesis by (intro exI [of _ "Suc i"]) simp
  qed
qed

lemma eq_factored_false_claim:
  assumes f: "individual_degree f (length point) d" "d \<le> ev_degree_bound V"
    and V: "uses_gruen sz point V" and acc: "eq_verify T V pr t = Inr (rs, t')"
    and true_value: "\<And>q. ev_expected_output_claim V q rs = Inr (f rs)"
    and false_claim: "ev_input_claim V \<noteq> eq_sum f point []"
  shows "\<exists>i < length point.
       rs ! i \<in> eq_bad_challenges f point (ev_input_claim V) (take (Suc i) (eq_round_polys pr)) (take i rs)
     \<and> finite (eq_bad_challenges f point (ev_input_claim V) (take (Suc i) (eq_round_polys pr)) (take i rs))
     \<and> card (eq_bad_challenges f point (ev_input_claim V) (take (Suc i) (eq_round_polys pr)) (take i rs))
         \<le> ev_degree_bound V"
proof -
  let ?ps = "eq_round_polys pr" and ?c = "ev_input_claim V"
  note run = eq_verify_Inr [OF V acc]
  then have final: "eq_claim_after ?c point ?ps rs = f rs" using true_value by auto
  obtain i where i: "i < length point"
      "eq_claim_after ?c point (take i ?ps) (take i rs) \<noteq> eq_sum f (drop i point) (take i rs)"
      "horner (message_poly (eq_claim_after ?c point (take i ?ps) (take i rs)) (point ! i) (?ps ! i)) (rs ! i)
         = eq_sum f (drop (Suc i) point) (take (Suc i) rs)"
    using false_eq_claim_needs_bad_challenge [of rs ?ps point ?c f "[]"] run final false_claim by auto
  have len: "length (take i rs) = i" using i(1) run by simp
  have last: "last (take (Suc i) ?ps) = ?ps ! i" "butlast (take (Suc i) ?ps) = take i ?ps"
    using i(1) run by (simp_all add: take_Suc_conv_app_nth)
  have "rs ! i \<in> eq_bad_challenges f point ?c (take (Suc i) ?ps) (take i rs)"
    using i run by (simp add: eq_bad_challenges_def Let_def last len take_Suc_conv_app_nth)
  moreover have "eq_factored_degree (?ps ! i) \<le> ev_degree_bound V" using run i(1) by simp
  moreover from this have "finite (eq_bad_challenges f point ?c (take (Suc i) ?ps) (take i rs))
      \<and> card (eq_bad_challenges f point ?c (take (Suc i) ?ps) (take i rs)) \<le> ev_degree_bound V"
    using i(1,2) len by (intro eq_bad_challenges_card [OF f(1) _ _ f(2)]) (simp_all only: last len, blast)
  ultimately show ?thesis using i(1) by blast
qed

end
