(* ===== verification/DigitRange.thy ===== *)
theory DigitRange
  imports Sumcheck
begin

text \<open>
  \<^verbatim>\<open>akita-types/src/proof/stage1.rs\<close>: the flat Boolean domain of the digit witness, the
  equality point in binding order, and the \<open>DigitRangePlan\<close> that fixes the product tree, the
  leaf polynomials and the proof shape of the balanced-digit range check for the bases
  4, 8, 16, 32 and 64.  The lemmas show that the product of the leaves is the range polynomial
  in the range image \<open>w * (w + 1)\<close>, that it vanishes exactly on balanced digits, and that
  the shape check accepts exactly the planned shapes.
\<close>

subsection \<open>Domain and equality point\<close>

record flat_boolean_domain =
  live_len :: nat
  num_vars :: nat

definition flat_domain_new :: "nat \<Rightarrow> nat \<Rightarrow> flat_boolean_domain result" where
  "flat_domain_new live vars =
     (if 2 ^ 32 \<le> vars then Inl (InvalidInput ''Boolean domain width overflow'')
      else if usize_bits \<le> vars then Inl (InvalidInput ''Boolean domain width overflow'')
      else let domain_length = 2 ^ vars in
        if live = 0 \<or> domain_length < live then Inl (InvalidSize domain_length live)
        else Inr \<lparr>live_len = live, num_vars = vars\<rparr>)"

definition flat_domain_len :: "flat_boolean_domain \<Rightarrow> nat" where
  "flat_domain_len d = 2 ^ num_vars d"

definition live_block_count :: "flat_boolean_domain \<Rightarrow> nat \<Rightarrow> nat result" where
  "live_block_count d block_variable_count =
     (if num_vars d < block_variable_count then Inl (InvalidSize (num_vars d) block_variable_count)
      else let block_len = 2 ^ block_variable_count in
        if live_len d mod block_len \<noteq> 0
        then Inl (InvalidInput (''live digit prefix '' @ show_nat (live_len d)
               @ '' is not aligned to block length '' @ show_nat block_len))
        else Inr (live_len d div block_len))"

record 'e digit_range_equality_point =
  coordinates :: "'e list"
  low_variable_count :: nat

definition from_column_then_ring_challenges ::
  "'e list \<Rightarrow> nat \<Rightarrow> nat \<Rightarrow> 'e digit_range_equality_point result" where
  "from_column_then_ring_challenges challenges column_variable_count ring_variable_count =
     bindE (ok_or (checked_add column_variable_count ring_variable_count)
              (InvalidInput ''digit-range point width overflow''))
       (\<lambda>expected.
          if length challenges \<noteq> expected then Inl (InvalidSize expected (length challenges))
          else Inr \<lparr>coordinates = drop column_variable_count challenges @ take column_variable_count challenges,
                    low_variable_count = ring_variable_count\<rparr>)"

definition validate_domain :: "'e digit_range_equality_point \<Rightarrow> flat_boolean_domain \<Rightarrow> unit result" where
  "validate_domain p d =
     (if length (coordinates p) \<noteq> num_vars d then Inl (InvalidSize (num_vars d) (length (coordinates p)))
      else Inr ())"

subsection \<open>The plan\<close>

record digit_range_plan =
  log_basis :: nat

definition plan_new :: "nat \<Rightarrow> digit_range_plan result" where
  "plan_new basis =
     (if basis \<notin> {4, 8, 16, 32, 64}
      then Inl (InvalidInput (''digit range basis must be one of 4, 8, 16, 32, 64; got '' @ show_nat basis))
      else Inr \<lparr>log_basis = trailing_zeros basis\<rparr>)"

definition plan_basis :: "digit_range_plan \<Rightarrow> nat" where
  "plan_basis plan = 2 ^ log_basis plan"

text \<open>
  Type invariant of the private field.  The \<open>unreachable!\<close> arms of the next two functions
  lie outside it; they are given the values \<open>[]\<close> and \<open>0\<close>.
\<close>

definition plan_ok :: "digit_range_plan \<Rightarrow> bool" where
  "plan_ok plan \<longleftrightarrow> log_basis plan \<in> {2, 3, 4, 5, 6}"

definition product_stage_arities :: "digit_range_plan \<Rightarrow> nat list" where
  "product_stage_arities plan =
     (if log_basis plan \<in> {2, 3} then [] else if log_basis plan = 4 then [2]
      else if log_basis plan = 5 then [4] else if log_basis plan = 6 then [2, 4] else [])"

definition product_stage_lane_count :: "digit_range_plan \<Rightarrow> nat \<Rightarrow> nat option" where
  "product_stage_lane_count plan stage_index =
     (let arities = product_stage_arities plan in
      if stage_index < length arities
      then checked_mul (foldl (*) 1 (take stage_index arities)) (arities ! stage_index) else None)"

definition leaf_factor_count :: "digit_range_plan \<Rightarrow> nat" where
  "leaf_factor_count plan =
     (if log_basis plan \<in> {2, 3} then 1 else if log_basis plan = 4 then 2
      else if log_basis plan = 5 then 4 else if log_basis plan = 6 then 8 else 0)"

definition leaf_degree :: "digit_range_plan \<Rightarrow> nat" where
  "leaf_degree plan = (if log_basis plan = 2 then 2 else 4)"

definition stage_count :: "digit_range_plan \<Rightarrow> nat" where
  "stage_count plan = length (product_stage_arities plan) + 1"

record stage1_stage_shape =
  shape_sumcheck :: "nat \<times> nat"
  shape_child_claims :: nat

definition stage_shape :: "digit_range_plan \<Rightarrow> nat \<Rightarrow> nat \<Rightarrow> stage1_stage_shape option" where
  "stage_shape plan rounds stage_index =
     (let arities = product_stage_arities plan in
      if stage_index < length arities
      then map_option (\<lambda>lanes. \<lparr>shape_sumcheck = (rounds, arities ! stage_index), shape_child_claims = lanes\<rparr>)
             (product_stage_lane_count plan stage_index)
      else if stage_index = length arities
      then Some \<lparr>shape_sumcheck = (rounds, leaf_degree plan), shape_child_claims = 0\<rparr>
      else None)"

definition stage_shapes :: "digit_range_plan \<Rightarrow> nat \<Rightarrow> stage1_stage_shape list" where
  "stage_shapes plan rounds = List.map_filter (stage_shape plan rounds) [0..<stage_count plan]"

record 'e stage1_stage_proof =
  stage_sumcheck_proof :: "'e eq_factored_sumcheck_proof"
  child_claims :: "'e list"

text \<open>The stage-1 proof without its optional norm proof, which this code never reads.\<close>

record 'e stage1_proof =
  stages :: "'e stage1_stage_proof list"
  range_image_evaluation :: 'e

definition validate_stage_shape :: "stage1_stage_shape \<Rightarrow> 'e stage1_stage_proof \<Rightarrow> unit result" where
  "validate_stage_shape expected stage =
     (let polys = eq_round_polys (stage_sumcheck_proof stage); (rounds, degree) = shape_sumcheck expected in
      if length polys \<noteq> rounds then Inl (InvalidSize rounds (length polys))
      else bindE (try_fold (\<lambda>_ p. if length (coeffs_except_constant_term p) \<noteq> degree
                    then Inl (InvalidSize degree (length (coeffs_except_constant_term p))) else Inr ()) () polys)
        (\<lambda>_. if length (child_claims stage) \<noteq> shape_child_claims expected
              then Inl (InvalidSize (shape_child_claims expected) (length (child_claims stage))) else Inr ()))"

definition validate_proof_shape :: "digit_range_plan \<Rightarrow> 'e stage1_proof \<Rightarrow> nat \<Rightarrow> unit result" where
  "validate_proof_shape plan pr rounds =
     (if length (stages pr) \<noteq> stage_count plan then Inl (InvalidSize (stage_count plan) (length (stages pr)))
      else try_fold (\<lambda>_ (stage_index, stage).
             bindE (ok_or (stage_shape plan rounds stage_index) InvalidProof)
               (\<lambda>expected. validate_stage_shape expected stage)) () (enumerate 0 (stages pr)))"

subsection \<open>The polynomials\<close>

definition stage1_root_values :: "nat \<Rightarrow> 'e::field list" where
  "stage1_root_values b = map (\<lambda>k. of_int (int k * (int k + 1))) [0..<b div 2]"

definition mul_root :: "'e::field list \<Rightarrow> 'e \<Rightarrow> 'e list" where
  "mul_root cs rt =
     foldl (\<lambda>nxt (idx, coeff).
              let nxt' = nxt[idx := nxt ! idx - coeff * rt]
              in nxt'[idx + 1 := nxt' ! (idx + 1) + coeff])
       (replicate (length cs + 1) 0) (enumerate 0 cs)"

definition poly_coeffs_from_roots :: "'e::field list \<Rightarrow> 'e list" where
  "poly_coeffs_from_roots roots = foldl mul_root [1] roots"

text \<open>\<open>slice::chunks\<close>.\<close>

fun chunks :: "nat \<Rightarrow> 'a list \<Rightarrow> 'a list list" where
  "chunks n [] = []"
| "chunks n (x # xs) = (x # take (n - 1) xs) # chunks n (drop (n - 1) xs)"

definition leaf_coeffs :: "digit_range_plan \<Rightarrow> 'e::field list list" where
  "leaf_coeffs plan = map poly_coeffs_from_roots (chunks 4 (stage1_root_values (plan_basis plan)))"

definition evaluate_range_polynomial :: "digit_range_plan \<Rightarrow> 'e::field \<Rightarrow> 'e" where
  "evaluate_range_polynomial plan range_image =
     foldl (\<lambda>val rt. val * (range_image - rt)) 1 (stage1_root_values (plan_basis plan))"

definition evaluate_leaf_polynomial :: "'e::field list \<Rightarrow> 'e \<Rightarrow> 'e" where
  "evaluate_leaf_polynomial cs range_image = foldl (\<lambda>acc coeff. acc * range_image + coeff) 0 (rev cs)"

fun batch_weights_from :: "'e::field \<Rightarrow> 'e \<Rightarrow> nat \<Rightarrow> 'e list" where
  "batch_weights_from weight gamma 0 = []"
| "batch_weights_from weight gamma (Suc count) = weight # batch_weights_from (weight * gamma) gamma count"

definition interstage_batch_weights :: "'e::field \<Rightarrow> nat \<Rightarrow> 'e list" where
  "interstage_batch_weights gamma count = batch_weights_from 1 gamma count"

definition batch_claims :: "'e::field list \<Rightarrow> 'e list \<Rightarrow> 'e result" where
  "batch_claims weights claims =
     (if length weights \<noteq> length claims then Inl (InvalidSize (length weights) (length claims))
      else Inr (foldl (\<lambda>acc (weight, claim). acc + weight * claim) 0 (zip weights claims)))"

definition add_scaled_prefix :: "'e::field list \<Rightarrow> 'e \<times> 'e list \<Rightarrow> 'e list" where
  "add_scaled_prefix batched = (\<lambda>(weight, polynomial).
     map (\<lambda>(coefficient, term). coefficient + weight * term) (zip batched polynomial)
       @ drop (length polynomial) batched)"

definition batch_leaf_polynomials :: "'e::field list \<Rightarrow> 'e list list \<Rightarrow> 'e list result" where
  "batch_leaf_polynomials weights leaf_polynomials =
     (if length weights \<noteq> length leaf_polynomials
      then Inl (InvalidSize (length weights) (length leaf_polynomials))
      else let max_len = foldr (\<lambda>p m. max (length p) m) leaf_polynomials 0 in
        Inr (foldl add_scaled_prefix (replicate max_len 0) (zip weights leaf_polynomials)))"

subsection \<open>The plan is well formed\<close>

lemma trailing_zeros_numerals [simp]:
  "trailing_zeros 4 = 2" "trailing_zeros 8 = 3" "trailing_zeros 16 = 4" "trailing_zeros 32 = 5"
  "trailing_zeros 64 = 6"
  using trailing_zeros_pow2 [of 2] trailing_zeros_pow2 [of 3] trailing_zeros_pow2 [of 4]
    trailing_zeros_pow2 [of 5] trailing_zeros_pow2 [of 6] by simp_all

lemma plan_new_Inr: "plan_new b = Inr plan \<longleftrightarrow> plan_ok plan \<and> plan_basis plan = b"
proof
  assume "plan_ok plan \<and> plan_basis plan = b"
  then have "b \<in> {4, 8, 16, 32, 64}" "trailing_zeros b = log_basis plan"
    by (auto simp: plan_ok_def plan_basis_def)
  then show "plan_new b = Inr plan" by (simp add: plan_new_def)
qed (auto simp: plan_new_def plan_ok_def plan_basis_def split: if_splits)

lemma plan_cases:
  assumes "plan_ok plan"
  obtains "log_basis plan = 2" | "log_basis plan = 3" | "log_basis plan = 4"
    | "log_basis plan = 5" | "log_basis plan = 6"
  using assms by (auto simp: plan_ok_def)

lemmas plan_defs = product_stage_arities_def product_stage_lane_count_def leaf_factor_count_def
  leaf_degree_def stage_count_def stage_shape_def plan_basis_def Let_def checked_mul_def usize_max_def

text \<open>Every planned stage has a shape: the tree of lanes closes at the leaf factors.\<close>

lemma stage_shape_total:
  assumes "plan_ok plan"
  shows "i < stage_count plan \<Longrightarrow> \<exists>sh. stage_shape plan rounds i = Some sh"
    and "stage_count plan \<le> i \<Longrightarrow> stage_shape plan rounds i = None"
  using assms by (cases rule: plan_cases; auto simp: plan_defs less_Suc_eq)+

lemma lanes_reach_leaves:
  assumes "plan_ok plan"
  shows "foldl (*) 1 (product_stage_arities plan) = leaf_factor_count plan"
  using assms by (cases rule: plan_cases) (simp_all add: plan_defs)

subsection \<open>Leaves and range polynomial\<close>

lemma mul_root_mul_linear: "mul_root cs rt = coeffs (mul_linear (- rt, 1 - rt) (UniPoly cs))"
proof -
  have "enumerate 0 cs = map (\<lambda>i. (i, cs ! i)) [0..<length cs]"
    by (rule nth_equalityI) (simp_all add: nth_enumerate_eq)
  then show ?thesis by (simp add: mul_root_def mul_linear_def foldl_map Let_def)
qed

lemma horner_mul_root [simp]: "horner (mul_root cs rt) x = horner cs x * (x - rt)"
  using evaluate_mul_linear [of "- rt" "1 - rt" "UniPoly cs" x]
  by (simp add: mul_root_mul_linear evaluate_horner algebra_simps)

lemma foldl_update_length:
  "(\<And>acc x. length (f acc x) = length acc) \<Longrightarrow> length (foldl f acc xs) = length acc"
  by (induction xs arbitrary: acc) simp_all

lemma length_mul_root [simp]: "length (mul_root cs rt) = Suc (length cs)"
  unfolding mul_root_def by (subst foldl_update_length) (auto simp: Let_def)

lemma horner_from_roots: "horner (poly_coeffs_from_roots rs) x = prod_list (map (\<lambda>r. x - r) rs)"
proof -
  have "horner (foldl mul_root cs rs) x = horner cs x * prod_list (map (\<lambda>r. x - r) rs)" for cs
    by (induction rs arbitrary: cs) (simp_all add: mult.assoc)
  from this [of "[1]"] show ?thesis by (simp add: poly_coeffs_from_roots_def)
qed

lemma length_from_roots [simp]: "length (poly_coeffs_from_roots rs) = Suc (length rs)"
proof -
  have "length (foldl mul_root cs rs) = length cs + length rs" for cs
    by (induction rs arbitrary: cs) simp_all
  then show ?thesis by (simp add: poly_coeffs_from_roots_def)
qed

lemma evaluate_leaf_horner: "evaluate_leaf_polynomial cs x = horner cs x"
  using evaluate_horner [of "UniPoly cs" x] by (simp add: evaluate_leaf_polynomial_def evaluate_def)

lemma concat_chunks: "concat (chunks n xs) = xs"
  by (induction n xs rule: chunks.induct) simp_all

lemma range_polynomial_roots:
  "evaluate_range_polynomial plan x = prod_list (map (\<lambda>r. x - r) (stage1_root_values (plan_basis plan)))"
  unfolding evaluate_range_polynomial_def
  using foldl_times [of 1 "map (\<lambda>r. x - r) (stage1_root_values (plan_basis plan))"] by (simp add: foldl_map)

lemma range_polynomial_leaves:
  "evaluate_range_polynomial plan x = prod_list (map (\<lambda>cs. evaluate_leaf_polynomial cs x) (leaf_coeffs plan))"
proof -
  have "prod_list (map (\<lambda>r. x - r) (concat rss))
      = prod_list (map (\<lambda>rs. prod_list (map (\<lambda>r. x - r) rs)) rss)" for rss :: "'a list list"
    by (induction rss) simp_all
  from this [of "chunks 4 (stage1_root_values (plan_basis plan))"] show ?thesis
    unfolding concat_chunks
    by (simp add: range_polynomial_roots leaf_coeffs_def evaluate_leaf_horner horner_from_roots comp_def)
qed

text \<open>In the range image of \<open>w\<close> the two factors of each root are those of a digit and its mirror.\<close>

lemma digit_pairs:
  fixes w :: "'e::comm_ring_1"
  shows "prod_list (map (\<lambda>k. w * w + w - of_int (int k * (int k + 1))) [0..<n])
       = prod_list (map (\<lambda>k. w - of_int k) [- int n..int n - 1])"
proof (induction n)
  case (Suc n)
  have "[- int (Suc n)..int (Suc n) - 1] = (- int n - 1) # [- int n..int n - 1] @ [int n]"
  proof -
    have "[- int (Suc n)..int (Suc n) - 1] = (- int n - 1) # [- int n..int n]"
      by (subst upto_rec1) simp_all
    moreover have "[- int n..int n] = [- int n..int n - 1] @ [int n]" by (rule upto_rec2) simp
    ultimately show ?thesis by simp
  qed
  moreover have "w * w + w - of_int (int n * (int n + 1)) = (w - of_int (- int n - 1)) * (w - of_int (int n))"
    by (simp add: algebra_simps)
  ultimately show ?case by (simp only: upt_Suc_append map_append prod_list.append Suc.IH) (simp add: mult_ac)
qed simp

lemma range_polynomial_range_check:
  "evaluate_range_polynomial plan (w * w + w) = range_check_eval w (plan_basis plan)"
  using digit_pairs [of w "plan_basis plan div 2"]
  by (simp add: range_polynomial_roots stage1_root_values_def range_check_eval_def Let_def
      foldl_prod_of_int comp_def)

subsection \<open>Batching\<close>

lemma batch_weights_from_eq: "batch_weights_from w gamma n = map (\<lambda>i. w * gamma ^ i) [0..<n]"
proof (induction n arbitrary: w)
  case (Suc n)
  have "[0..<Suc n] = 0 # map Suc [0..<n]" by (simp add: upt_conv_Cons map_Suc_upt del: upt_Suc)
  with Suc show ?case by (simp add: comp_def mult.assoc del: upt_Suc)
qed simp

lemma interstage_batch_weights_eq: "interstage_batch_weights gamma n = map (\<lambda>i. gamma ^ i) [0..<n]"
  by (simp add: interstage_batch_weights_def batch_weights_from_eq)

lemma horner_add_scaled_prefix:
  "length p \<le> length acc \<Longrightarrow>
     length (add_scaled_prefix acc (w, p)) = length acc
   \<and> horner (add_scaled_prefix acc (w, p)) x = horner acc x + w * horner p x"
proof (induction p arbitrary: acc)
  case (Cons c p)
  then obtain a acc' where acc: "acc = a # acc'" "length p \<le> length acc'" by (cases acc) auto
  with Cons.IH [OF acc(2)] show ?case by (simp add: add_scaled_prefix_def algebra_simps)
qed (simp add: add_scaled_prefix_def)

lemma foldl_add_scaled_prefix:
  "\<forall>(w, p) \<in> set wps. length p \<le> length acc \<Longrightarrow>
     horner (foldl add_scaled_prefix acc wps) x = horner acc x + sum_list (map (\<lambda>(w, p). w * horner p x) wps)"
proof (induction wps arbitrary: acc)
  case (Cons wp wps)
  obtain w p where wp: "wp = (w, p)" by force
  with Cons.prems have p: "length p \<le> length acc" by simp
  note step = horner_add_scaled_prefix [OF p, of w x]
  then have "\<forall>(w', p') \<in> set wps. length p' \<le> length (add_scaled_prefix acc (w, p))" using Cons.prems by auto
  from Cons.IH [OF this] step show ?case by (simp add: wp add.assoc)
qed simp

lemma foldr_max_length: "p \<in> set ps \<Longrightarrow> length p \<le> foldr (\<lambda>p m. max (length p) m) ps 0"
  by (induction ps) (auto simp: le_max_iff_disj)

text \<open>The batched leaf is the weighted sum of the leaves.\<close>

lemma batch_leaf_polynomials_eq:
  assumes "length weights = length leaves"
  shows "\<exists>batched. batch_leaf_polynomials weights leaves = Inr batched
       \<and> (\<forall>x. evaluate_leaf_polynomial batched x
            = sum_list (map (\<lambda>(w, p). w * evaluate_leaf_polynomial p x) (zip weights leaves)))"
proof -
  have "\<forall>(w, p) \<in> set (zip weights leaves). length p \<le> foldr (\<lambda>p m. max (length p) m) leaves 0"
    by (auto dest: set_zip_rightD intro: foldr_max_length)
  then show ?thesis
    using assms by (simp add: batch_leaf_polynomials_def Let_def evaluate_leaf_horner foldl_add_scaled_prefix)
qed

lemma batch_claims_eq:
  "length weights = length claims \<Longrightarrow>
     batch_claims weights claims = Inr (sum_list (map2 (*) weights claims))"
  using foldl_plus_sum_list [of "\<lambda>(w, c). w * c" 0 "zip weights claims"]
  by (simp add: batch_claims_def case_prod_unfold)

subsection \<open>The shape check\<close>

definition proof_stage_shape :: "'e stage1_stage_proof \<Rightarrow> stage1_stage_shape \<Rightarrow> bool" where
  "proof_stage_shape stage sh \<longleftrightarrow>
     length (eq_round_polys (stage_sumcheck_proof stage)) = fst (shape_sumcheck sh)
     \<and> (\<forall>p \<in> set (eq_round_polys (stage_sumcheck_proof stage)).
          length (coeffs_except_constant_term p) = snd (shape_sumcheck sh))
     \<and> length (child_claims stage) = shape_child_claims sh"

lemma try_fold_check:
  "try_fold (\<lambda>_ x. if P x then Inl (e x) else Inr ()) () xs = Inr () \<longleftrightarrow> (\<forall>x \<in> set xs. \<not> P x)"
  by (induction xs) auto

lemma try_fold_unit_all:
  "try_fold (\<lambda>_. f) () xs = Inr () \<longleftrightarrow> (\<forall>x \<in> set xs. f x = Inr ())"
  by (induction xs) (auto simp: bindE_Inr_iff)

lemma validate_stage_shape_iff:
  "validate_stage_shape sh stage = Inr () \<longleftrightarrow> proof_stage_shape stage sh"
  by (cases "shape_sumcheck sh")
     (auto simp: validate_stage_shape_def proof_stage_shape_def Let_def try_fold_check bindE_Inr_iff
       split: if_splits)

lemma validate_proof_shape_iff:
  assumes "plan_ok plan"
  shows "validate_proof_shape plan pr rounds = Inr () \<longleftrightarrow>
     length (stages pr) = stage_count plan \<and>
     (\<forall>i < stage_count plan. proof_stage_shape (stages pr ! i) (the (stage_shape plan rounds i)))"
proof -
  have "(\<forall>x \<in> set (enumerate 0 (stages pr)). Q x) \<longleftrightarrow> (\<forall>i < length (stages pr). Q (i, stages pr ! i))"
    for Q by (auto simp: in_set_enumerate_eq)
  moreover have "bindE (ok_or (stage_shape plan rounds i) InvalidProof) (\<lambda>sh. validate_stage_shape sh stage) = Inr ()
      \<longleftrightarrow> proof_stage_shape stage (the (stage_shape plan rounds i))" if "i < stage_count plan" for i stage
    using stage_shape_total(1) [OF assms that, of rounds] by (auto simp: validate_stage_shape_iff)
  ultimately show ?thesis
    by (simp add: validate_proof_shape_def try_fold_unit_all) blast
qed

subsection \<open>Properties\<close>

text \<open>
  C28: The digit-range plan checks balanced digits.  For every supported basis, the product of
  the planned leaf polynomials at the range image \<open>w * (w + 1)\<close> equals the degree-\<open>b\<close>
  range-check polynomial at \<open>w\<close>, so it vanishes exactly when \<open>w\<close> is the image of a digit
  in \<open>[-b/2, b/2)\<close>; there are as many leaves as the product stages have lanes, each of the
  planned degree.
\<close>

theorem digit_range_plan_correct:
  fixes w :: "'e::field"
  assumes "plan_new b = Inr plan"
  shows "prod_list (map (\<lambda>cs. evaluate_leaf_polynomial cs (w * (w + 1))) (leaf_coeffs plan)) = range_check_eval w b
    \<and> (prod_list (map (\<lambda>cs. evaluate_leaf_polynomial cs (w * (w + 1))) (leaf_coeffs plan)) = 0 \<longleftrightarrow>
           (\<exists>k. - int (b div 2) \<le> k \<and> k < int (b div 2) \<and> w = of_int k))
    \<and> length (leaf_coeffs plan :: 'e list list) = foldl (*) 1 (product_stage_arities plan)
    \<and> (\<forall>cs \<in> set (leaf_coeffs plan :: 'e list list). length cs = Suc (leaf_degree plan))"
proof -
  from assms have plan: "plan_ok plan" and b: "plan_basis plan = b" by (simp_all add: plan_new_Inr)
  have "prod_list (map (\<lambda>cs. evaluate_leaf_polynomial cs (w * (w + 1))) (leaf_coeffs plan)) = range_check_eval w b"
    using range_polynomial_range_check [of plan w]
    by (simp add: range_polynomial_leaves b distrib_left)
  moreover have "range_check_eval w b = 0 \<longleftrightarrow> (\<exists>k. - int (b div 2) \<le> k \<and> k < int (b div 2) \<and> w = of_int k)"
    by (simp only: range_check_zero_iff)
  moreover have "length (leaf_coeffs plan :: 'e list list) = foldl (*) 1 (product_stage_arities plan)"
    "\<forall>cs \<in> set (leaf_coeffs plan :: 'e list list). length cs = Suc (leaf_degree plan)"
    using plan by (cases rule: plan_cases; simp add: plan_defs leaf_coeffs_def stage1_root_values_def upt_rec)+
  ultimately show ?thesis by simp
qed

theorem digit_range_plan_correct_witness:
  "\<exists>plan. plan_new 16 = Inr plan
     \<and> prod_list (map (\<lambda>cs. evaluate_leaf_polynomial cs ((- 8) * (- 8 + 1 :: rat))) (leaf_coeffs plan)) = 0"
proof -
  obtain plan where plan: "plan_new 16 = Inr plan" by (simp add: plan_new_def)
  with digit_range_plan_correct [OF plan, of "- 8 :: rat"] show ?thesis by (auto intro!: exI [of _ "- 8"])
qed

text \<open>
  C29: The proof-shape check is exact.  It accepts a stage-1 proof if and only if the proof has
  as many stages as the plan and every stage has the planned number of rounds, of coefficients
  in every round message, and of child claims; a planned stage always has a shape.
\<close>

theorem stage1_shape_check_exact:
  assumes "plan_new b = Inr plan"
  shows "validate_proof_shape plan pr rounds = Inr () \<longleftrightarrow>
     length (stages pr) = stage_count plan
     \<and> (\<forall>i < stage_count plan. \<exists>sh. stage_shape plan rounds i = Some sh
          \<and> length (eq_round_polys (stage_sumcheck_proof (stages pr ! i))) = fst (shape_sumcheck sh)
          \<and> (\<forall>p \<in> set (eq_round_polys (stage_sumcheck_proof (stages pr ! i))).
               length (coeffs_except_constant_term p) = snd (shape_sumcheck sh))
          \<and> length (child_claims (stages pr ! i)) = shape_child_claims sh)"
proof -
  have plan: "plan_ok plan" using assms by (simp add: plan_new_Inr)
  show ?thesis
    unfolding validate_proof_shape_iff [OF plan] proof_stage_shape_def
    using stage_shape_total(1) [OF plan, of _ rounds] by (metis option.sel)
qed

theorem stage1_shape_check_exact_witness:
  "\<exists>plan. plan_new 8 = Inr plan \<and> validate_proof_shape plan
     \<lparr>stages = [\<lparr>stage_sumcheck_proof = EqFactoredSumcheckProof [EqFactoredUniPoly [1, 2, 3, 4 :: rat]],
                  child_claims = []\<rparr>], range_image_evaluation = 0\<rparr> 1 = Inr ()"
proof -
  have plan: "plan_new 8 = Inr \<lparr>log_basis = 3\<rparr>" by (simp add: plan_new_def)
  show ?thesis
    by (rule exI [of _ "\<lparr>log_basis = 3\<rparr>"], rule conjI [OF plan])
       (subst stage1_shape_check_exact [OF plan], simp add: plan_defs)
qed

end
