(* ===== verification/Stage1Verifier.thy ===== *)
theory Stage1Verifier
  imports EqFactored DigitRange GrindingPlan
begin

text \<open>
  \<^verbatim>\<open>akita-verifier/src/stages/stage1.rs\<close>: the verifier of the balanced-digit range check.
  A product tree of equality-factored sumchecks reduces the range claim to claims about its
  lanes, batches them with powers of an inter-stage challenge, and ends in one sumcheck for the
  batched leaf polynomial of the range image.  Every challenge is preceded by its scheduled
  proof-of-work query.  Its soundness is shown in \<open>Stage1Sound\<close>.
\<close>

subsection \<open>The transcript of the stage\<close>

record ('t, 'e) stage1_transcript =
  tr_append_bytes :: "string \<Rightarrow> byte list \<Rightarrow> 't \<Rightarrow> 't"
  tr_append_ext :: "string \<Rightarrow> 'e \<Rightarrow> 't \<Rightarrow> 't"
  tr_sample_ext :: "string \<Rightarrow> 't \<Rightarrow> 'e \<times> 't"
  tr_grind_query :: "grinding_site \<Rightarrow> 't \<Rightarrow> 't result"
  tr_codec :: "('e, unit) codec"

definition sample_grinded_sumcheck_challenge ::
  "('t, 'e) stage1_transcript \<Rightarrow> sumcheck_protocol \<Rightarrow> u32 \<Rightarrow> u32 \<Rightarrow> u32 \<Rightarrow> 't \<Rightarrow> ('e \<times> 't) result" where
  "sample_grinded_sumcheck_challenge T protocol level stage rnd t =
     bindE (tr_grind_query T (SumcheckRound protocol level stage rnd) t)
       (\<lambda>t1. Inr (tr_sample_ext T ''ak/c/scr'' t1))"

definition append_digit_range_child_claims ::
  "('t, 'e) stage1_transcript \<Rightarrow> 'e list \<Rightarrow> 't \<Rightarrow> 't" where
  "append_digit_range_child_claims T claims t = foldl (\<lambda>t claim. tr_append_ext T ''ak/a/sci'' claim t) t claims"

text \<open>
  The sampling closure of a stage.  Its captured round counter is part of the driver's state; the
  counter is increased after a challenge and must not overflow.
\<close>

definition stage_driver :: "('t, 'e) stage1_transcript \<Rightarrow> u32 \<Rightarrow> u32 \<Rightarrow> ('t \<times> u32, 'e) fiat_shamir" where
  "stage_driver T level stage =
     \<lparr>append_bytes = (\<lambda>label bytes (t, rnd). (tr_append_bytes T label bytes t, rnd)),
      sample_challenge = (\<lambda>(t, rnd).
        bindE (sample_grinded_sumcheck_challenge T Stage1 level stage rnd t)
          (\<lambda>(challenge, t'). if rnd = u32_max then Inl InvalidProof else Inr (challenge, (t', rnd + 1)))),
      scalar_codec = tr_codec T\<rparr>"

definition stage_index_u32 :: "nat \<Rightarrow> u32 result" where
  "stage_index_u32 i = (if i < 2 ^ 32 then Inr (of_nat i) else Inl InvalidProof)"

subsection \<open>The two verifier instances\<close>

text \<open>\<open>slice::chunks_exact\<close>.\<close>

function chunks_exact :: "nat \<Rightarrow> 'a list \<Rightarrow> 'a list list" where
  "chunks_exact n xs = (if n = 0 \<or> length xs < n then [] else take n xs # chunks_exact n (drop n xs))"
  by pat_completeness auto
termination
  by (relation "measure (\<lambda>(n, xs). length xs)") auto

declare chunks_exact.simps [simp del]

definition product_output :: "'e::field list \<Rightarrow> nat \<Rightarrow> 'e list \<Rightarrow> 'e" where
  "product_output batch_weights arity claims =
     foldl (\<lambda>acc (weight, cs). acc + weight * foldl (\<lambda>p c. p * c) 1 cs) 0
       (zip batch_weights (chunks_exact arity claims))"

definition product_subcheck_verifier ::
  "nat \<Rightarrow> 'e::field list \<Rightarrow> 'e \<Rightarrow> 'e list \<Rightarrow> 'e list \<Rightarrow> nat
    \<Rightarrow> ('e gruen_split_eq option, 'e) eq_factored_verifier" where
  "product_subcheck_verifier elem_size equality_point claim claims batch_weights arity =
     \<lparr>ev_num_rounds = length equality_point, ev_degree_bound = arity, ev_input_claim = claim,
      start_round_state = gruen_start elem_size equality_point,
      rs_current_tau = gruen_round_tau, rs_ingest_challenge = gruen_round_ingest,
      ev_expected_output_claim = (\<lambda>_ _. Inr (product_output batch_weights arity claims))\<rparr>"

definition range_leaf_verifier ::
  "nat \<Rightarrow> 'e::field list \<Rightarrow> 'e \<Rightarrow> 'e list \<Rightarrow> 'e
    \<Rightarrow> ('e gruen_split_eq option, 'e) eq_factored_verifier" where
  "range_leaf_verifier elem_size equality_point claim poly_coeffs range_image =
     \<lparr>ev_num_rounds = length equality_point, ev_degree_bound = length poly_coeffs - 1, ev_input_claim = claim,
      start_round_state = gruen_start elem_size equality_point,
      rs_current_tau = gruen_round_tau, rs_ingest_challenge = gruen_round_ingest,
      ev_expected_output_claim = (\<lambda>_ _. Inr (evaluate_leaf_polynomial poly_coeffs range_image))\<rparr>"

subsection \<open>The product prefix\<close>

text \<open>
  What one product stage saw and drew.  The loop returns the list of these beside its own state;
  the verifier drops it, the soundness statement reads it.
\<close>

record 'e stage_log =
  log_point :: "'e list"
  log_claim :: 'e
  log_weights :: "'e list"
  log_arity :: nat
  log_proof :: "'e stage1_stage_proof"
  log_challenges :: "'e list"
  log_gamma :: 'e

fun product_stages ::
  "('t, 'e::field) stage1_transcript \<Rightarrow> nat \<Rightarrow> u32 \<Rightarrow> nat \<Rightarrow> (nat \<times> 'e stage1_stage_proof) list
    \<Rightarrow> 'e list \<Rightarrow> 'e \<Rightarrow> 'e list \<Rightarrow> 't
    \<Rightarrow> ('e stage_log list \<times> 'e list \<times> 'e \<times> 'e list \<times> 't) result" where
  "product_stages T sz level i [] point claim weights t = Inr ([], point, claim, weights, t)"
| "product_stages T sz level i ((arity, stage) # rest) point claim weights t =
     bindE (stage_index_u32 i)
       (\<lambda>stage_u32.
          bindE (eq_verify (stage_driver T level stage_u32)
                   (product_subcheck_verifier sz point claim (child_claims stage) weights arity)
                   (stage_sumcheck_proof stage) (t, 0))
       (\<lambda>(challenges, (t1, _)).
          let t2 = append_digit_range_child_claims T (child_claims stage) t1 in
          bindE (tr_grind_query T (Stage1InterstageBatch level stage_u32) t2)
       (\<lambda>t3.
          let (gamma, t4) = tr_sample_ext T ''ak/c/scib'' t3;
              weights' = interstage_batch_weights gamma (length (child_claims stage)) in
          bindE (batch_claims weights' (child_claims stage))
       (\<lambda>claim'.
          bindE (product_stages T sz level (Suc i) rest challenges claim' weights' t4)
       (\<lambda>(log, result). Inr (\<lparr>log_point = point, log_claim = claim, log_weights = weights, log_arity = arity,
              log_proof = stage, log_challenges = challenges, log_gamma = gamma\<rparr> # log, result))))))"

definition stage_shape_matches :: "digit_range_plan \<Rightarrow> nat \<Rightarrow> nat \<Rightarrow> 'e stage1_stage_proof \<Rightarrow> unit result" where
  "stage_shape_matches plan rounds stage_index stage =
     bindE (ok_or (stage_shape plan rounds stage_index) InvalidProof)
       (\<lambda>expected. let polys = eq_round_polys (stage_sumcheck_proof stage) in
          if length polys \<noteq> fst (shape_sumcheck expected)
             \<or> length (child_claims stage) \<noteq> shape_child_claims expected
             \<or> list_ex (\<lambda>p. length (coeffs_except_constant_term p) \<noteq> snd (shape_sumcheck expected)) polys
          then Inl InvalidProof else Inr ())"

record 'e range_leaf_input =
  leaf_equality_point :: "'e list"
  leaf_input_claim :: 'e
  polynomial_coefficients :: "'e list"

definition verify_product_prefix_log ::
  "('t, 'e::field) stage1_transcript \<Rightarrow> nat \<Rightarrow> 'e list \<Rightarrow> digit_range_plan \<Rightarrow> 'e stage1_stage_proof list \<Rightarrow> u32 \<Rightarrow> 't
    \<Rightarrow> ('e stage_log list \<times> 'e range_leaf_input \<times> 't) result" where
  "verify_product_prefix_log T sz point plan product_stage_proofs level t =
     (let arities = product_stage_arities plan in
      if length product_stage_proofs \<noteq> length arities
      then Inl (InvalidSize (length arities) (length product_stage_proofs))
      else bindE (try_fold (\<lambda>_ (i, stage). stage_shape_matches plan (length point) i stage) ()
                    (enumerate 0 product_stage_proofs))
        (\<lambda>_. bindE (product_stages T sz level 0 (zip arities product_stage_proofs) point 0 [1] t)
           (\<lambda>(log, point', claim', weights', t').
              bindE (batch_leaf_polynomials weights' (leaf_coeffs plan))
                (\<lambda>cs. Inr (log, \<lparr>leaf_equality_point = point', leaf_input_claim = claim',
                                 polynomial_coefficients = cs\<rparr>, t')))))"

definition verify_product_prefix ::
  "('t, 'e::field) stage1_transcript \<Rightarrow> nat \<Rightarrow> 'e list \<Rightarrow> digit_range_plan \<Rightarrow> 'e stage1_stage_proof list \<Rightarrow> u32 \<Rightarrow> 't
    \<Rightarrow> ('e range_leaf_input \<times> 't) result" where
  "verify_product_prefix T sz point plan product_stage_proofs level t =
     bindE (verify_product_prefix_log T sz point plan product_stage_proofs level t) (\<lambda>(_, leaf, t'). Inr (leaf, t'))"

definition stage1_verify ::
  "('t, 'e::field) stage1_transcript \<Rightarrow> nat \<Rightarrow> 'e digit_range_equality_point \<Rightarrow> digit_range_plan
    \<Rightarrow> 'e stage1_proof \<Rightarrow> u32 \<Rightarrow> 't \<Rightarrow> ('e list \<times> 't) result" where
  "stage1_verify T sz point plan pr level t =
     bindE (validate_proof_shape plan pr (length (coordinates point)))
       (\<lambda>_. if stages pr = [] then Inl InvalidProof
         else let leaf_stage_proof = last (stages pr); product_stage_proofs = butlast (stages pr) in
           bindE (verify_product_prefix T sz (coordinates point) plan product_stage_proofs level t)
             (\<lambda>(leaf, t1). bindE (stage_index_u32 (length product_stage_proofs))
             (\<lambda>stage. bindE (eq_verify (stage_driver T level stage)
                 (range_leaf_verifier sz (leaf_equality_point leaf) (leaf_input_claim leaf)
                    (polynomial_coefficients leaf) (range_image_evaluation pr))
                 (stage_sumcheck_proof leaf_stage_proof) (t1, 0))
             (\<lambda>(challenges, (t', _)). Inr (challenges, t')))))"

end
