(* ===== verification/Stage1Sound.thy ===== *)
theory Stage1Sound
  imports Stage1Verifier
begin

text \<open>
  Soundness of the digit-range verifier of \<^verbatim>\<open>akita-verifier/src/stages/stage1.rs\<close>.  A false
  range claim is followed through the product tree: each stage either fails to catch it, because
  a round challenge or the batching challenge fell into a small set that was fixed before the
  draw, or hands a false batched claim to the next stage, and the leaf sumcheck is the last one.
\<close>

subsection \<open>Multilinear functions and the weighted cube sum\<close>

definition multilinear :: "('e::field list \<Rightarrow> 'e) \<Rightarrow> nat \<Rightarrow> bool" where
  "multilinear f n \<longleftrightarrow> (\<forall>p x q. length p + length q + 1 = n \<longrightarrow>
     f (p @ [x] @ q) = (1 - x) * f (p @ [0] @ q) + x * f (p @ [1] @ q))"

lemma multilinearD:
  "multilinear f n \<Longrightarrow> length p + length q + 1 = n \<Longrightarrow>
     f (p @ [x] @ q) = (1 - x) * f (p @ [0] @ q) + x * f (p @ [1] @ q)"
  unfolding multilinear_def by blast

lemma eq_sum_multilinear:
  "multilinear f n \<Longrightarrow> length p + length ts = n \<Longrightarrow> eq_sum f ts p = f (p @ ts)"
proof (induction ts arbitrary: p)
  case (Cons t ts)
  then have "eq_sum f ts (p @ [c]) = f (p @ [c] @ ts)" for c by simp
  moreover have "f (p @ [t] @ ts) = (1 - t) * f (p @ [0] @ ts) + t * f (p @ [1] @ ts)"
    using Cons.prems by (intro multilinearD) simp_all
  ultimately show ?case by simp
qed simp

lemma eq_weight_insert:
  "eq_weight (p @ [x] @ q) b = (1 - x) * eq_weight (p @ [0] @ q) b + x * eq_weight (p @ [1] @ q) b"
  by (simp add: eq_weight_append algebra_simps)

lemma mle_at_multilinear: "multilinear (mle_at evs) n"
  unfolding multilinear_def mle_at_def
proof (intro allI impI)
  fix p q :: "'a list" and x :: 'a
  have "(\<Sum>b < 2 ^ length (p @ [x] @ q). padded evs b * eq_weight (p @ [x] @ q) b)
      = (\<Sum>b < 2 ^ length (p @ [x] @ q). (1 - x) * (padded evs b * eq_weight (p @ [0] @ q) b)
           + x * (padded evs b * eq_weight (p @ [1] @ q) b))"
    by (rule sum.cong) (simp_all only: eq_weight_insert [of p x q] distrib_left mult.left_commute refl)
  then show "(\<Sum>b < 2 ^ length (p @ [x] @ q). padded evs b * eq_weight (p @ [x] @ q) b)
      = (1 - x) * (\<Sum>b < 2 ^ length (p @ [0] @ q). padded evs b * eq_weight (p @ [0] @ q) b)
        + x * (\<Sum>b < 2 ^ length (p @ [1] @ q). padded evs b * eq_weight (p @ [1] @ q) b)"
    by (simp add: sum.distrib sum_distrib_left)
qed

text \<open>On Boolean points the extension is the table, and the cube sum sees Boolean points only.\<close>

definition boolean_point :: "'e::field list \<Rightarrow> bool" where
  "boolean_point xs \<longleftrightarrow> set xs \<subseteq> {0, 1}"

fun point_index :: "'e::field list \<Rightarrow> nat" where
  "point_index [] = 0"
| "point_index (x # xs) = (if x = 1 then 1 else 0) + 2 * point_index xs"

lemma point_index_less: "point_index xs < 2 ^ length xs"
  by (induction xs) auto

lemma eq_weight_boolean:
  "boolean_point xs \<Longrightarrow> b < 2 ^ length xs \<Longrightarrow> eq_weight xs b = (if b = point_index xs then 1 else 0)"
proof (induction xs arbitrary: b)
  case (Cons x xs)
  then have x: "x = 0 \<or> x = 1" and xs: "boolean_point xs" and b: "b div 2 < 2 ^ length xs"
    by (auto simp: boolean_point_def)
  have "b = (if x = 1 then 1 else 0) + 2 * point_index xs
      \<longleftrightarrow> (odd b \<longleftrightarrow> x = 1) \<and> b div 2 = point_index xs" by (cases "x = 1") (simp, presburger, simp, presburger)
  with x Cons.IH [OF xs b] show ?case by auto
qed simp

lemma mle_at_boolean:
  assumes "boolean_point xs" and "length evs = 2 ^ length xs"
  shows "mle_at evs xs = evs ! point_index xs"
proof -
  have "mle_at evs xs = (\<Sum>b < 2 ^ length xs. if b = point_index xs then padded evs b else 0)"
    unfolding mle_at_def using assms(1) by (intro sum.cong) (simp_all add: eq_weight_boolean)
  then show ?thesis using assms(2) point_index_less [of xs] by (simp add: padded_def)
qed

lemma eq_sum_cong_boolean:
  assumes "\<And>xs. boolean_point xs \<Longrightarrow> length xs = length p + length ts \<Longrightarrow> f xs = g xs" and "boolean_point p"
  shows "eq_sum f ts p = eq_sum g ts p"
  using assms
proof (induction ts arbitrary: p)
  case (Cons t ts)
  have "boolean_point (p @ [c])" if "c \<in> {0, 1}" for c using Cons.prems(2) that by (auto simp: boolean_point_def)
  then have "eq_sum f ts (p @ [c]) = eq_sum g ts (p @ [c])" if "c \<in> {0, 1}" for c
    using that Cons.prems by (intro Cons.IH) auto
  then show ?case by simp
qed simp

subsection \<open>Degrees of products and sums\<close>

definition degree_list :: "('e::field \<Rightarrow> 'e) \<Rightarrow> nat \<Rightarrow> bool" where
  "degree_list h d \<longleftrightarrow> (\<exists>cs. length cs \<le> Suc d \<and> (\<forall>x. h x = horner cs x))"

lemma degree_listI: "length cs \<le> Suc d \<Longrightarrow> (\<And>x. h x = horner cs x) \<Longrightarrow> degree_list h d"
  by (auto simp: degree_list_def)

lemma degree_list_const: "degree_list (\<lambda>_. c) d"
  by (rule degree_listI [of "[c]"]) simp_all

lemma degree_list_mono: "degree_list h d \<Longrightarrow> d \<le> e \<Longrightarrow> degree_list h e"
  by (auto simp: degree_list_def intro: order_trans)

lemma degree_list_add:
  assumes "degree_list g d" and "degree_list h d"
  shows "degree_list (\<lambda>x. g x + h x) d"
proof -
  obtain us vs where us: "length us \<le> Suc d" "\<And>x. g x = horner us x" and vs: "length vs \<le> Suc d" "\<And>x. h x = horner vs x"
    using assms by (auto simp: degree_list_def)
  obtain ds where "length ds = max (length us) (length vs)" "\<And>x. horner ds x = horner us x + horner vs x"
    using horner_add by blast
  with us vs show ?thesis by (intro degree_listI [of ds]) simp_all
qed

lemma horner_mult: "\<exists>ds. length ds = length us + length vs - 1 \<and> (\<forall>x. horner ds x = horner us x * horner vs x)"
  if "us \<noteq> []" "vs \<noteq> []" for us :: "'e::field list"
  using that
proof (induction us)
  case (Cons u us)
  show ?case
  proof (cases "us = []")
    case True
    then show ?thesis using Cons.prems by (intro exI [of _ "map ((*) u) vs"]) (simp add: horner_scale)
  next
    case False
    with Cons obtain ds where ds: "length ds = length us + length vs - 1" "\<And>x. horner ds x = horner us x * horner vs x"
      by auto
    obtain es where "length es = max (length (map ((*) u) vs)) (length (0 # ds))"
        "\<And>x. horner es x = horner (map ((*) u) vs) x + horner (0 # ds) x" using horner_add by blast
    then show ?thesis using ds False Cons.prems(2)
      by (intro exI [of _ es]) (auto simp: horner_scale algebra_simps Suc_le_eq)
  qed
qed simp

lemma degree_list_mult:
  assumes "degree_list g d" and "degree_list h e"
  shows "degree_list (\<lambda>x. g x * h x) (d + e)"
proof -
  have nonempty: "\<exists>cs. cs \<noteq> [] \<and> length cs \<le> Suc d \<and> (\<forall>x. k x = horner cs x)" if "degree_list k d" for k :: "'a \<Rightarrow> 'a" and d
  proof -
    obtain cs where cs: "length cs \<le> Suc d" "\<And>x. k x = horner cs x" using \<open>degree_list k d\<close> by (auto simp: degree_list_def)
    show ?thesis by (cases "cs = []") (use cs in \<open>auto intro: exI [of _ "[0]"] exI [of _ cs]\<close>)
  qed
  obtain us vs where us: "us \<noteq> []" "length us \<le> Suc d" "\<And>x. g x = horner us x"
    and vs: "vs \<noteq> []" "length vs \<le> Suc e" "\<And>x. h x = horner vs x"
    using nonempty assms by metis
  obtain ds where "length ds = length us + length vs - 1" "\<And>x. horner ds x = horner us x * horner vs x"
    using horner_mult [OF us(1) vs(1)] by blast
  with us vs show ?thesis by (intro degree_listI [of ds]) simp_all
qed

lemma degree_list_prod:
  "\<forall>h \<in> set hs. degree_list h d \<Longrightarrow> degree_list (\<lambda>x. prod_list (map (\<lambda>h. h x) hs)) (length hs * d)"
proof (induction hs)
  case (Cons h hs)
  then show ?case using degree_list_mult [of h d "\<lambda>x. prod_list (map (\<lambda>h. h x) hs)" "length hs * d"] by simp
qed (simp add: degree_list_const)

lemma degree_list_sum:
  "\<forall>h \<in> set hs. degree_list h d \<Longrightarrow> degree_list (\<lambda>x. sum_list (map (\<lambda>h. h x) hs)) d"
  by (induction hs) (simp_all add: degree_list_const degree_list_add)

lemma multilinear_degree_list:
  assumes "multilinear f n" and "length p + length q + 1 = n"
  shows "degree_list (\<lambda>x. f (p @ [x] @ q)) 1"
proof (rule degree_listI)
  show "f (p @ [x] @ q) = horner [f (p @ [0] @ q), f (p @ [1] @ q) - f (p @ [0] @ q)] x" for x
    unfolding multilinearD [OF assms, of x] by (simp add: algebra_simps)
qed simp

lemma individual_degree_iff:
  "individual_degree f n d \<longleftrightarrow> (\<forall>p q. length p + length q + 1 = n \<longrightarrow> degree_list (\<lambda>x. f (p @ [x] @ q)) d)"
  by (simp add: individual_degree_def degree_list_def)

subsection \<open>Distinct coefficient lists agree rarely\<close>

text \<open>Coefficients of the quotient by \<open>x - a\<close>.\<close>

fun synth :: "'e::field \<Rightarrow> 'e list \<Rightarrow> 'e list" where
  "synth a [] = []"
| "synth a (c # cs) = (if cs = [] then [] else horner cs a # synth a cs)"

lemma length_synth [simp]: "length (synth a cs) = length cs - 1"
  by (induction cs) auto

lemma horner_synth: "horner cs x - horner cs a = (x - a) * horner (synth a cs) x"
proof (induction cs)
  case (Cons c cs)
  have "horner (c # cs) x - horner (c # cs) a = (x - a) * horner cs a + x * (horner cs x - horner cs a)"
    by (simp add: algebra_simps)
  also have "\<dots> = (x - a) * (horner cs a + x * horner (synth a cs) x)" by (simp add: Cons.IH algebra_simps)
  finally show ?case by auto
qed simp

lemma synth_zero: "\<forall>d \<in> set (synth a cs). d = 0 \<Longrightarrow> \<forall>c \<in> set (tl cs). c = 0"
proof (induction cs)
  case (Cons c cs)
  show ?case
  proof (cases cs)
    case (Cons c' cs')
    with Cons.prems have "horner cs a = 0" "\<forall>d \<in> set (synth a cs). d = 0" by auto
    with Cons.IH have tl: "\<forall>c \<in> set (tl cs). c = 0" by blast
    have "horner vs a = 0" if "\<forall>c \<in> set vs. c = 0" for vs using that by (induction vs) simp_all
    with tl Cons \<open>horner cs a = 0\<close> show ?thesis by auto
  qed simp
qed simp

lemma nonzero_root_bound:
  fixes cs :: "'e::field list"
  assumes "\<exists>c \<in> set cs. c \<noteq> 0"
  shows "finite {x. horner cs x = 0} \<and> card {x. horner cs x = 0} < length cs"
  using assms
proof (induction "length cs" arbitrary: cs rule: less_induct)
  case less
  show ?case
  proof (cases "\<exists>a. horner cs a = 0")
    case False
    then show ?thesis using less.prems by (cases cs) auto
  next
    case True
    then obtain a where a: "horner cs a = 0" by blast
    have nz: "\<exists>d \<in> set (synth a cs). d \<noteq> 0"
    proof (rule ccontr)
      assume "\<not> ?thesis"
      then have tl: "\<forall>c \<in> set (tl cs). c = 0" using synth_zero by blast
      obtain c ds where cs: "cs = c # ds" using less.prems by (cases cs) auto
      have "horner vs a = 0" if "\<forall>c \<in> set vs. c = 0" for vs using that by (induction vs) simp_all
      with tl cs a have "c = 0" by simp
      with tl cs less.prems show False by auto
    qed
    have len: "length (synth a cs) < length cs" using less.prems by (cases cs) auto
    from less.hyps [OF this nz] have IH: "finite {x. horner (synth a cs) x = 0}"
        "card {x. horner (synth a cs) x = 0} < length cs - 1" by simp_all
    have "{x. horner cs x = 0} = insert a {x. horner (synth a cs) x = 0}"
      using horner_synth [of cs _ a] a by auto
    then show ?thesis using IH card_insert_le_m1 [of "length cs - 1" "{x. horner (synth a cs) x = 0}" a]
      by (auto intro: le_less_trans [OF card_insert_le_m1])
  qed
qed

lemma distinct_coeffs_agree:
  fixes us :: "'e::field list"
  assumes "length us = length vs" and "us \<noteq> vs"
  shows "finite {x. horner us x = horner vs x} \<and> card {x. horner us x = horner vs x} < length us"
proof -
  have "horner (map2 (-) us vs) x = horner us x - horner vs x" for x
    using assms(1) by (induction us vs rule: list_induct2) (simp_all add: right_diff_distrib)
  then have "{x. horner us x = horner vs x} = {x. horner (map2 (-) us vs) x = 0}" by simp
  moreover have "\<exists>c \<in> set (map2 (-) us vs). c \<noteq> 0"
    using assms by (induction us vs rule: list_induct2) auto
  ultimately show ?thesis using nonzero_root_bound [of "map2 (-) us vs"] assms(1) by simp
qed

subsection \<open>Lanes\<close>

text \<open>
  A lane of the tree is a list of leaf polynomials; its value on a range image is their product,
  and \<open>lane_mle S g\<close> is the multilinear extension of that value over the table \<open>S\<close> of range
  images.
\<close>

definition lane_value :: "'e::field list list \<Rightarrow> 'e \<Rightarrow> 'e" where
  "lane_value g s = prod_list (map (\<lambda>cs. evaluate_leaf_polynomial cs s) g)"

definition lane_mle :: "'e::field list \<Rightarrow> 'e list list \<Rightarrow> 'e list \<Rightarrow> 'e" where
  "lane_mle S g = mle_at (map (lane_value g) S)"

definition batched_lanes :: "'e::field list \<Rightarrow> 'e list \<Rightarrow> 'e list list list \<Rightarrow> 'e list \<Rightarrow> 'e" where
  "batched_lanes S weights lanes x = sum_list (map (\<lambda>(w, g). w * lane_mle S g x) (zip weights lanes))"

definition product_fun :: "'e::field list \<Rightarrow> 'e list \<Rightarrow> nat \<Rightarrow> 'e list list list \<Rightarrow> 'e list \<Rightarrow> 'e" where
  "product_fun S weights arity lanes x =
     sum_list (map (\<lambda>(w, grp). w * prod_list (map (\<lambda>g. lane_mle S g x) grp)) (zip weights (chunks_exact arity lanes)))"

definition leaf_fun :: "'e::field list \<Rightarrow> 'e list \<Rightarrow> 'e list \<Rightarrow> 'e" where
  "leaf_fun S poly x = evaluate_leaf_polynomial poly (mle_at S x)"

lemma lane_value_concat: "lane_value (concat gs) s = prod_list (map (\<lambda>g. lane_value g s) gs)"
  by (induction gs) (simp_all add: lane_value_def)

lemma lane_mle_boolean:
  "boolean_point x \<Longrightarrow> length S = 2 ^ length x \<Longrightarrow> lane_mle S g x = lane_value g (S ! point_index x)"
  using point_index_less [of x] by (simp add: lane_mle_def mle_at_boolean)

lemma chunks_exact_map: "chunks_exact n (map f xs) = map (map f) (chunks_exact n xs)"
proof (induction n xs rule: chunks_exact.induct)
  case (1 n xs)
  show ?case
  proof (cases "n = 0 \<or> length xs < n")
    case False
    with 1 show ?thesis
      by (subst chunks_exact.simps, subst (2) chunks_exact.simps) (simp add: drop_map take_map)
  qed (simp add: chunks_exact.simps)
qed

lemma chunks_exact_length: "c \<in> set (chunks_exact n xs) \<Longrightarrow> length c = n"
proof (induction n xs rule: chunks_exact.induct)
  case (1 n xs)
  show ?case
  proof (cases "n = 0 \<or> length xs < n")
    case True
    with 1 show ?thesis by (simp add: chunks_exact.simps)
  next
    case False
    with 1 show ?thesis by (subst (asm) (2) chunks_exact.simps) auto
  qed
qed

lemma product_output_true:
  "product_output weights arity (map (\<lambda>g. lane_mle S g x) lanes) = product_fun S weights arity lanes x"
proof -
  have prod: "foldl (\<lambda>p c. p * c) 1 cs = prod_list cs" for cs :: "'a list"
    using foldl_times [of 1 cs] by simp
  show ?thesis
    using foldl_plus_sum_list [of "\<lambda>(w, cs). w * prod_list cs" 0 "zip weights (chunks_exact arity (map (\<lambda>g. lane_mle S g x) lanes))"]
    by (simp add: product_output_def product_fun_def prod case_prod_unfold chunks_exact_map zip_map2 comp_def)
qed

lemma sum_list_linear:
  fixes a b :: "'e::comm_ring_1"
  shows "(\<And>y. y \<in> set ys \<Longrightarrow> f y = a * g y + b * h y) \<Longrightarrow>
     sum_list (map f ys) = a * sum_list (map g ys) + b * sum_list (map h ys)"
  by (induction ys) (simp_all add: algebra_simps)

lemma batched_lanes_multilinear: "multilinear (batched_lanes S weights lanes) n"
  unfolding multilinear_def
proof (intro allI impI)
  fix p q :: "'a list" and x :: 'a
  assume n: "length p + length q + 1 = n"
  have lin: "lane_mle S g (p @ [x] @ q) = (1 - x) * lane_mle S g (p @ [0] @ q) + x * lane_mle S g (p @ [1] @ q)" for g
    unfolding lane_mle_def by (rule multilinearD [OF mle_at_multilinear n])
  show "batched_lanes S weights lanes (p @ [x] @ q)
      = (1 - x) * batched_lanes S weights lanes (p @ [0] @ q) + x * batched_lanes S weights lanes (p @ [1] @ q)"
    unfolding batched_lanes_def by (intro sum_list_linear) (simp only: split_beta lin distrib_left mult.left_commute)
qed

lemma eq_sum_product:
  assumes "length S = 2 ^ length point" and "lanes = map concat (chunks_exact arity children)"
  shows "eq_sum (product_fun S weights arity children) point [] = batched_lanes S weights lanes point"
proof -
  have "eq_sum (product_fun S weights arity children) point [] = eq_sum (batched_lanes S weights lanes) point []"
  proof (rule eq_sum_cong_boolean)
    fix x :: "'a list"
    assume x: "boolean_point x" "length x = length ([] :: 'a list) + length point"
    then have "lane_mle S g x = lane_value g (S ! point_index x)" for g
      using assms(1) by (intro lane_mle_boolean) simp_all
    then show "product_fun S weights arity children x = batched_lanes S weights lanes x"
      by (simp add: product_fun_def batched_lanes_def assms(2) zip_map2 case_prod_unfold comp_def lane_value_concat)
  qed (simp add: boolean_point_def)
  also have "\<dots> = batched_lanes S weights lanes point"
    using eq_sum_multilinear [OF batched_lanes_multilinear, of "[]" point] by simp
  finally show ?thesis .
qed

lemma product_fun_degree: "individual_degree (product_fun S weights arity children) n arity"
  unfolding individual_degree_iff
proof (intro allI impI)
  fix p q :: "'a list"
  assume n: "length p + length q + 1 = n"
  have lane: "degree_list (\<lambda>x. lane_mle S g (p @ [x] @ q)) 1" for g
    unfolding lane_mle_def by (rule multilinear_degree_list [OF mle_at_multilinear n])
  have "degree_list (\<lambda>x. w * prod_list (map (\<lambda>g. lane_mle S g (p @ [x] @ q)) grp)) arity"
    if "grp \<in> set (chunks_exact arity children)" for w grp
  proof -
    have "degree_list (\<lambda>x. prod_list (map (\<lambda>h. h x) (map (\<lambda>g x. lane_mle S g (p @ [x] @ q)) grp)))
        (length (map (\<lambda>g x. lane_mle S g (p @ [x] @ q)) grp) * 1)"
      by (rule degree_list_prod) (use lane in auto)
    then have "degree_list (\<lambda>x. prod_list (map (\<lambda>g. lane_mle S g (p @ [x] @ q)) grp)) arity"
      using chunks_exact_length [OF that] by (simp add: comp_def del: append_Cons append.simps)
    from degree_list_mult [OF degree_list_const [of w 0] this] show ?thesis by simp
  qed
  then have "degree_list (\<lambda>x. sum_list (map (\<lambda>h. h x)
      (map (\<lambda>(w, grp) x. w * prod_list (map (\<lambda>g. lane_mle S g (p @ [x] @ q)) grp)) (zip weights (chunks_exact arity children))))) arity"
    by (intro degree_list_sum) (auto dest: set_zip_rightD)
  then show "degree_list (\<lambda>x. product_fun S weights arity children (p @ [x] @ q)) arity"
    by (simp add: product_fun_def comp_def case_prod_unfold del: append_Cons append.simps)
qed

lemma leaf_fun_degree: "individual_degree (leaf_fun S poly) n (length poly - 1)"
  unfolding individual_degree_iff
proof (intro allI impI)
  fix p q :: "'a list"
  assume n: "length p + length q + 1 = n"
  have h: "degree_list (\<lambda>x. mle_at S (p @ [x] @ q)) 1"
    by (rule multilinear_degree_list [OF mle_at_multilinear n])
  have "degree_list (\<lambda>x. horner cs (mle_at S (p @ [x] @ q))) (length cs - 1)" for cs
  proof (induction cs)
    case (Cons c cs)
    show ?case
    proof (cases "cs = []")
      case False
      then have "degree_list (\<lambda>x. mle_at S (p @ [x] @ q) * horner cs (mle_at S (p @ [x] @ q))) (length cs)"
        using degree_list_mult [OF h Cons.IH] by (cases cs) simp_all
      from degree_list_add [OF degree_list_const [of c "length cs"] this] show ?thesis by simp
    qed (simp add: degree_list_const)
  qed (simp add: degree_list_const)
  then show "degree_list (\<lambda>x. leaf_fun S poly (p @ [x] @ q)) (length poly - 1)"
    by (simp add: leaf_fun_def evaluate_leaf_horner)
qed

lemma eq_sum_leaf:
  assumes "length S = 2 ^ length point" and "length weights = length leaves"
    and "batch_leaf_polynomials weights leaves = Inr poly"
  shows "eq_sum (leaf_fun S poly) point [] = batched_lanes S weights (map (\<lambda>l. [l]) leaves) point"
proof -
  have poly: "evaluate_leaf_polynomial poly x
      = sum_list (map (\<lambda>(w, p). w * evaluate_leaf_polynomial p x) (zip weights leaves))" for x
    using batch_leaf_polynomials_eq [OF assms(2)] assms(3) by auto
  have "eq_sum (leaf_fun S poly) point [] = eq_sum (batched_lanes S weights (map (\<lambda>l. [l]) leaves)) point []"
  proof (rule eq_sum_cong_boolean)
    fix x :: "'a list"
    assume x: "boolean_point x" "length x = length ([] :: 'a list) + length point"
    then have "lane_mle S g x = lane_value g (S ! point_index x)" "mle_at S x = S ! point_index x" for g
      using assms(1) by (simp_all add: lane_mle_boolean mle_at_boolean)
    then show "leaf_fun S poly x = batched_lanes S weights (map (\<lambda>l. [l]) leaves) x"
      by (simp add: leaf_fun_def poly batched_lanes_def zip_map2 case_prod_unfold comp_def lane_value_def)
  qed (simp add: boolean_point_def)
  also have "\<dots> = batched_lanes S weights (map (\<lambda>l. [l]) leaves) point"
    using eq_sum_multilinear [OF batched_lanes_multilinear, of "[]" point] by simp
  finally show ?thesis .
qed

subsection \<open>A false claim through the tree\<close>

definition bad_gammas :: "'e::field list \<Rightarrow> 'e list \<Rightarrow> 'e set" where
  "bad_gammas claims truth = {gamma. horner claims gamma = horner truth gamma}"

text \<open>A product stage failed to catch a false claim: a round challenge or the batching challenge was bad.\<close>

definition stage_bad :: "'e::field list \<Rightarrow> 'e list list list \<Rightarrow> 'e stage_log \<Rightarrow> bool" where
  "stage_bad S children L \<longleftrightarrow>
     (\<exists>i < length (log_point L).
        let bad = eq_bad_challenges (product_fun S (log_weights L) (log_arity L) children) (log_point L) (log_claim L)
              (take (Suc i) (eq_round_polys (stage_sumcheck_proof (log_proof L)))) (take i (log_challenges L))
        in log_challenges L ! i \<in> bad \<and> finite bad \<and> card bad \<le> log_arity L)
     \<or> (let bad = bad_gammas (child_claims (log_proof L)) (map (\<lambda>g. lane_mle S g (log_challenges L)) children)
        in log_gamma L \<in> bad \<and> finite bad \<and> card bad < length children)"

fun lane_chain :: "'a list list \<Rightarrow> nat list \<Rightarrow> 'a list list list \<Rightarrow> bool" where
  "lane_chain parents [] [] \<longleftrightarrow> True"
| "lane_chain parents (arity # arities) (children # levels) \<longleftrightarrow>
     parents = map concat (chunks_exact arity children) \<and> lane_chain children arities levels"
| "lane_chain parents _ _ \<longleftrightarrow> False"

lemma weights_horner:
  "sum_list (map2 (*) (interstage_batch_weights gamma (length cs)) cs) = horner cs gamma"
proof -
  have "sum_list (map2 (*) (map (\<lambda>i. gamma ^ i) [0..<length cs]) cs) = (\<Sum>i < length cs. gamma ^ i * cs ! i)"
    by (simp add: sum_list_sum_nth atLeast0LessThan)
  then show ?thesis by (simp add: interstage_batch_weights_eq horner_sum mult.commute)
qed

lemma batched_lanes_horner:
  "batched_lanes S (interstage_batch_weights gamma (length lanes)) lanes x = horner (map (\<lambda>g. lane_mle S g x) lanes) gamma"
proof -
  have "batched_lanes S w lanes x = sum_list (map2 (*) w (map (\<lambda>g. lane_mle S g x) lanes))" for w
    by (simp add: batched_lanes_def zip_map2 case_prod_unfold comp_def)
  then show ?thesis using weights_horner [of gamma "map (\<lambda>g. lane_mle S g x) lanes"] by simp
qed

lemma product_stage_sound:
  assumes acc: "eq_verify D (product_subcheck_verifier sz point claim claims weights arity) pr t = Inr (rs, t')"
    and S: "length S = 2 ^ length point" and lanes: "lanes = map concat (chunks_exact arity children)"
    and truth: "claims = map (\<lambda>g. lane_mle S g rs) children"
    and false_claim: "claim \<noteq> batched_lanes S weights lanes point"
  shows "\<exists>i < length point. let bad = eq_bad_challenges (product_fun S weights arity children) point claim
       (take (Suc i) (eq_round_polys pr)) (take i rs) in rs ! i \<in> bad \<and> finite bad \<and> card bad \<le> arity"
proof -
  let ?V = "product_subcheck_verifier sz point claim claims weights arity"
  have V: "uses_gruen sz point ?V" by (simp add: uses_gruen_def product_subcheck_verifier_def)
  have "\<exists>i < length point.
       rs ! i \<in> eq_bad_challenges (product_fun S weights arity children) point (ev_input_claim ?V) (take (Suc i) (eq_round_polys pr)) (take i rs)
     \<and> finite (eq_bad_challenges (product_fun S weights arity children) point (ev_input_claim ?V) (take (Suc i) (eq_round_polys pr)) (take i rs))
     \<and> card (eq_bad_challenges (product_fun S weights arity children) point (ev_input_claim ?V) (take (Suc i) (eq_round_polys pr)) (take i rs))
         \<le> ev_degree_bound ?V"
  proof (rule eq_factored_false_claim [OF product_fun_degree _ V acc])
    show "arity \<le> ev_degree_bound ?V" by (simp add: product_subcheck_verifier_def)
    show "ev_expected_output_claim ?V q rs = Inr (product_fun S weights arity children rs)" for q
      by (simp add: product_subcheck_verifier_def truth product_output_true)
    show "ev_input_claim ?V \<noteq> eq_sum (product_fun S weights arity children) point []"
      using false_claim by (simp add: product_subcheck_verifier_def eq_sum_product [OF S lanes])
  qed
  then show ?thesis by (simp add: product_subcheck_verifier_def Let_def)
qed

lemma product_stages_length:
  "product_stages T sz level i steps point claim weights t = Inr (logs, r) \<Longrightarrow> length logs = length steps"
proof (induction steps arbitrary: i point claim weights t logs r)
  case (Cons step steps)
  then obtain L logs' i' point' claim' weights' t' where
    "product_stages T sz level i' steps point' claim' weights' t' = Inr (logs', r)" "logs = L # logs'"
    by (cases step) (auto simp: bindE_Inr_iff Let_def split_beta)
  with Cons.IH show ?case by auto
qed simp

lemma product_stages_sound:
  assumes "product_stages T sz level i (zip arities proofs) point claim weights t = Inr (logs, point', claim', weights', t')"
    and "length proofs = length arities" and "lane_chain lanes arities levels"
    and "list_all2 (\<lambda>pr children. length (child_claims pr) = length children) proofs levels"
    and "length S = 2 ^ length point" and "length weights = length lanes"
    and "claim \<noteq> batched_lanes S weights lanes point"
  shows "length logs = length levels \<and> ((\<exists>k < length logs. stage_bad S (levels ! k) (logs ! k))
     \<or> length point' = length point \<and> length weights' = length (last (lanes # levels))
       \<and> claim' \<noteq> batched_lanes S weights' (last (lanes # levels)) point')"
  using assms
proof (induction arities arbitrary: i proofs point claim weights t logs lanes levels)
  case Nil
  then show ?case by (cases levels) auto
next
  case (Cons arity arities)
  obtain pr proofs' where proofs: "proofs = pr # proofs'" "length proofs' = length arities"
    using Cons.prems(2) by (cases proofs) auto
  obtain children levels' where levels: "levels = children # levels'"
    and lanes: "lanes = map concat (chunks_exact arity children)" and chain: "lane_chain children arities levels'"
    using Cons.prems(3) by (cases levels) auto
  have cc: "length (child_claims pr) = length children"
    and ccs: "list_all2 (\<lambda>pr children. length (child_claims pr) = length children) proofs' levels'"
    using Cons.prems(4) by (simp_all add: proofs levels)
  let ?c = "child_claims pr"
  obtain st rs t1 rnd t3 gamma t4 logs' where step:
      "eq_verify (stage_driver T level st) (product_subcheck_verifier sz point claim ?c weights arity)
         (stage_sumcheck_proof pr) (t, 0) = Inr (rs, (t1, rnd))"
      "product_stages T sz level (Suc i) (zip arities proofs') rs
         (sum_list (map2 (*) (interstage_batch_weights gamma (length ?c)) ?c)) (interstage_batch_weights gamma (length ?c)) t4
         = Inr (logs', point', claim', weights', t')"
      "logs = \<lparr>log_point = point, log_claim = claim, log_weights = weights, log_arity = arity,
              log_proof = pr, log_challenges = rs, log_gamma = gamma\<rparr> # logs'"
    using Cons.prems(1)
    by (auto simp: proofs bindE_Inr_iff Let_def split_beta batch_claims_eq interstage_batch_weights_eq)
  let ?L = "\<lparr>log_point = point, log_claim = claim, log_weights = weights, log_arity = arity,
              log_proof = pr, log_challenges = rs, log_gamma = gamma\<rparr>"
  let ?truth = "map (\<lambda>g. lane_mle S g rs) children"
  have rs: "length rs = length point"
    using eq_verify_Inr [OF _ step(1), of sz point] by (simp add: uses_gruen_def product_subcheck_verifier_def)
  show ?case
  proof (cases "stage_bad S children ?L")
    case True
    have "length logs' = length levels'"
      using product_stages_length [OF step(2)] proofs(2) list_all2_lengthD [OF ccs] by simp
    with True show ?thesis by (auto simp: step(3) levels intro: exI [of _ 0])
  next
    case False
    have "?c \<noteq> ?truth"
      using False product_stage_sound [OF step(1) Cons.prems(5) lanes _ Cons.prems(7)]
      by (auto simp: stage_bad_def)
    with distinct_coeffs_agree [of ?c ?truth] cc
    have "finite (bad_gammas ?c ?truth) \<and> card (bad_gammas ?c ?truth) < length children"
      by (simp add: bad_gammas_def)
    with False have "gamma \<notin> bad_gammas ?c ?truth" by (auto simp: stage_bad_def Let_def)
    then have "sum_list (map2 (*) (interstage_batch_weights gamma (length ?c)) ?c)
        \<noteq> batched_lanes S (interstage_batch_weights gamma (length ?c)) children rs"
      unfolding weights_horner by (simp add: cc batched_lanes_horner bad_gammas_def)
    moreover have "length S = 2 ^ length rs" "length (interstage_batch_weights gamma (length ?c)) = length children"
      using Cons.prems(5) rs cc by (simp_all add: interstage_batch_weights_eq)
    ultimately have "length logs' = length levels' \<and> ((\<exists>k < length logs'. stage_bad S (levels' ! k) (logs' ! k))
     \<or> length point' = length rs \<and> length weights' = length (last (children # levels'))
       \<and> claim' \<noteq> batched_lanes S weights' (last (children # levels')) point')"
      by (intro Cons.IH [OF step(2) proofs(2) chain ccs])
    then show ?thesis using rs by (auto simp: step(3) levels intro: exI [of _ "Suc _"])
  qed
qed

subsection \<open>The lanes of a plan\<close>

definition plan_levels :: "digit_range_plan \<Rightarrow> 'e::field list list list list" where
  "plan_levels plan =
     (if log_basis plan \<in> {4, 5} then [map (\<lambda>l. [l]) (leaf_coeffs plan)]
      else if log_basis plan = 6 then [chunks 4 (leaf_coeffs plan), map (\<lambda>l. [l]) (leaf_coeffs plan)]
      else [])"

lemma leaf_coeffs_length:
  assumes "plan_ok plan"
  shows "length (leaf_coeffs plan :: 'e::field list list) = leaf_factor_count plan"
  using assms by (cases rule: plan_cases; simp add: plan_defs leaf_coeffs_def stage1_root_values_def upt_rec)

lemma plan_levels_chain:
  assumes "plan_ok plan"
  shows "lane_chain [leaf_coeffs plan :: 'e::field list list] (product_stage_arities plan) (plan_levels plan)"
    and "last ([leaf_coeffs plan] # plan_levels plan) = map (\<lambda>l. [l]) (leaf_coeffs plan :: 'e list list)"
    and "map length (plan_levels plan :: 'e list list list list)
           = map (\<lambda>i. the (product_stage_lane_count plan i)) [0..<length (product_stage_arities plan)]"
proof -
  note len = leaf_coeffs_length [OF assms, where 'e = 'e]
  have ex: "\<exists>a b c d. xs = [a, b, c, d]" if "length xs = 4" for xs :: "'e list list"
    using that by (auto simp: numeral_eq_Suc length_Suc_conv)
  have ex2: "\<exists>a b. xs = [a, b]" if "length xs = 2" for xs :: "'e list list"
    using that by (auto simp: numeral_eq_Suc length_Suc_conv)
  have ex8: "\<exists>a b c d e f g h. xs = [a, b, c, d, e, f, g, h]" if "length xs = 8" for xs :: "'e list list"
    using that by (auto simp: numeral_eq_Suc length_Suc_conv)
  have ex1: "\<exists>a. xs = [a]" if "length xs = Suc 0" for xs :: "'e list list"
    using that by (auto simp: length_Suc_conv)
  show "lane_chain [leaf_coeffs plan :: 'e list list] (product_stage_arities plan) (plan_levels plan)"
    using assms len
    by (cases rule: plan_cases)
       (auto simp: plan_defs plan_levels_def chunks_exact.simps dest!: ex ex2 ex8 ex1)
  show "last ([leaf_coeffs plan] # plan_levels plan) = map (\<lambda>l. [l]) (leaf_coeffs plan :: 'e list list)"
    using assms len by (cases rule: plan_cases) (auto simp: plan_defs plan_levels_def dest!: ex1)
  show "map length (plan_levels plan :: 'e list list list list)
           = map (\<lambda>i. the (product_stage_lane_count plan i)) [0..<length (product_stage_arities plan)]"
    using assms len by (cases rule: plan_cases) (auto simp: plan_defs plan_levels_def upt_rec dest!: ex8)
qed

lemma shape_fold_matches:
  assumes "plan_ok plan"
    and "try_fold (\<lambda>_ (i, stage). stage_shape_matches plan rounds i stage) () (enumerate 0 proofs) = Inr ()"
    and "length proofs = length (product_stage_arities plan)"
  shows "list_all2 (\<lambda>pr children. length (child_claims pr) = length children) proofs
       (plan_levels plan :: 'e::field list list list list)"
proof -
  have matches: "stage_shape_matches plan rounds i (proofs ! i) = Inr ()" if "i < length proofs" for i
  proof -
    have "(i, proofs ! i) \<in> set (enumerate 0 proofs)" using that by (simp add: in_set_enumerate_eq)
    then show ?thesis using assms(2) by (fastforce simp: try_fold_unit_all)
  qed
  have "length (child_claims (proofs ! i)) = the (product_stage_lane_count plan i)" if "i < length proofs" for i
    using matches [OF that] that assms(3)
    by (auto simp: stage_shape_matches_def stage_shape_def Let_def bindE_Inr_iff ok_or_Inr_iff split: if_splits)
  moreover have "length (plan_levels plan ! i :: 'e list list list) = the (product_stage_lane_count plan i)"
      and "length (plan_levels plan :: 'e list list list list) = length proofs"
    if "i < length proofs" for i
    using plan_levels_chain(3) [OF assms(1), where 'e = 'e] that assms(3)
    by (metis (no_types, lifting) length_map length_upt diff_zero nth_map nth_upt add_0)+
  moreover have "length (plan_levels plan :: 'e list list list list) = length proofs"
    using plan_levels_chain(3) [OF assms(1), where 'e = 'e] assms(3) by (metis length_map length_upt diff_zero)
  ultimately show ?thesis by (simp add: list_all2_conv_all_nth)
qed

subsection \<open>Soundness of the stage\<close>

text \<open>The leaf sumcheck failed to catch a false claim.\<close>

definition leaf_bad :: "'e::field list \<Rightarrow> 'e range_leaf_input \<Rightarrow> 'e stage1_stage_proof \<Rightarrow> 'e list \<Rightarrow> bool" where
  "leaf_bad S leaf stage rs \<longleftrightarrow>
     (\<exists>i < length (leaf_equality_point leaf).
        let bad = eq_bad_challenges (leaf_fun S (polynomial_coefficients leaf)) (leaf_equality_point leaf)
              (leaf_input_claim leaf) (take (Suc i) (eq_round_polys (stage_sumcheck_proof stage))) (take i rs)
        in rs ! i \<in> bad \<and> finite bad \<and> card bad \<le> length (polynomial_coefficients leaf) - 1)"

lemma leaf_sound:
  assumes acc: "eq_verify D (range_leaf_verifier sz point claim poly (mle_at S rs)) pr t = Inr (rs, t')"
    and S: "length S = 2 ^ length point" and w: "length weights = length leaves"
    and poly: "batch_leaf_polynomials weights leaves = Inr poly"
    and false_claim: "claim \<noteq> batched_lanes S weights (map (\<lambda>l. [l]) leaves) point"
  shows "\<exists>i < length point. let bad = eq_bad_challenges (leaf_fun S poly) point claim
       (take (Suc i) (eq_round_polys pr)) (take i rs) in rs ! i \<in> bad \<and> finite bad \<and> card bad \<le> length poly - 1"
proof -
  let ?V = "range_leaf_verifier sz point claim poly (mle_at S rs)"
  have V: "uses_gruen sz point ?V" by (simp add: uses_gruen_def range_leaf_verifier_def)
  have "\<exists>i < length point.
       rs ! i \<in> eq_bad_challenges (leaf_fun S poly) point (ev_input_claim ?V) (take (Suc i) (eq_round_polys pr)) (take i rs)
     \<and> finite (eq_bad_challenges (leaf_fun S poly) point (ev_input_claim ?V) (take (Suc i) (eq_round_polys pr)) (take i rs))
     \<and> card (eq_bad_challenges (leaf_fun S poly) point (ev_input_claim ?V) (take (Suc i) (eq_round_polys pr)) (take i rs))
         \<le> ev_degree_bound ?V"
  proof (rule eq_factored_false_claim [OF leaf_fun_degree _ V acc])
    show "length poly - 1 \<le> ev_degree_bound ?V" by (simp add: range_leaf_verifier_def)
    show "ev_expected_output_claim ?V q rs = Inr (leaf_fun S poly rs)" for q
      by (simp add: range_leaf_verifier_def leaf_fun_def)
    show "ev_input_claim ?V \<noteq> eq_sum (leaf_fun S poly) point []"
      using false_claim by (simp add: range_leaf_verifier_def eq_sum_leaf [OF S w poly])
  qed
  then show ?thesis by (simp add: range_leaf_verifier_def Let_def)
qed


text \<open>A concrete run: basis 4, range image constantly 1, which no digit has, equality point 0 and challenge 1.\<close>

definition constant_transcript :: "'e \<Rightarrow> (unit, 'e) stage1_transcript" where
  "constant_transcript r =
     \<lparr>tr_append_bytes = (\<lambda>_ _ t. t), tr_append_ext = (\<lambda>_ _ t. t), tr_sample_ext = (\<lambda>_ t. (r, t)),
      tr_grind_query = (\<lambda>_ t. Inr t), tr_codec = unit_codec\<rparr>"

definition false_range_proof :: "rat stage1_proof" where
  "false_range_proof =
     \<lparr>stages = [\<lparr>stage_sumcheck_proof = EqFactoredSumcheckProof [EqFactoredUniPoly [- 1, 0]], child_claims = []\<rparr>],
      range_image_evaluation = 1\<rparr>"

lemma gruen_new_one: "gruen_new 16 [t :: rat] = Inr \<lparr>tau = [t], current_round = 0, current_scalar = 1,
     E_first = [[1]], E_second = [[1]]\<rparr>"
  by (simp add: gruen_new_def with_initial_scalar_def Let_def evals_cached_def evals_cached_with_scaling_def
        table_len_def pow2_exact checked_mul_def checked_sub_def check_element_budget_def usize_max_def
        MAX_MATERIALIZED_EQ_TABLE_BYTES_def)

lemma false_range_leaf: "batch_leaf_polynomials [1] (leaf_coeffs \<lparr>log_basis = 2\<rparr>) = Inr [0, - 2, 1 :: rat]"
  by (simp add: batch_leaf_polynomials_def leaf_coeffs_def stage1_root_values_def upt_rec plan_defs
      add_scaled_prefix_def poly_coeffs_from_roots_def mul_root_def enumerate_eq_zip)

lemma false_range_accepted:
  "stage1_verify (constant_transcript 1) 16 \<lparr>coordinates = [0], low_variable_count = 0\<rparr> \<lparr>log_basis = 2\<rparr>
     false_range_proof 0 () = Inr ([1], ())"
proof -
  have shape: "validate_proof_shape \<lparr>log_basis = 2\<rparr> false_range_proof 1 = Inr ()"
    by (simp add: validate_proof_shape_def false_range_proof_def plan_defs validate_stage_shape_def)
  have prefix: "verify_product_prefix (constant_transcript 1) 16 [0] \<lparr>log_basis = 2\<rparr> [] 0 ()
      = Inr (\<lparr>leaf_equality_point = [0], leaf_input_claim = 0, polynomial_coefficients = [0, - 2, 1 :: rat]\<rparr>, ())"
    by (simp add: verify_product_prefix_def verify_product_prefix_log_def plan_defs false_range_leaf)
  have leaf: "eq_verify (stage_driver (constant_transcript 1) 0 0) (range_leaf_verifier 16 [0] 0 [0, - 2, 1] 1)
      (EqFactoredSumcheckProof [EqFactoredUniPoly [- 1, 0 :: rat]]) ((), 0) = Inr ([1], ((), 1))"
    by (simp add: eq_verify_def range_leaf_verifier_def gruen_start_def gruen_new_one eq_factored_degree_def append_claim_def
      append_eq_round_def append_serde_def stage_driver_def constant_transcript_def sample_grinded_sumcheck_challenge_def
      gruen_round_tau_def gruen_round_ingest_def gruen_bind_def current_tau_def evaluate_leaf_polynomial_def
      advance_eq_factored_claim_def nonconstant_term_sum_at_one_def eval_nonconstant_terms_def u32_max_def)
  show ?thesis
    using shape by (simp add: stage1_verify_def false_range_proof_def prefix leaf stage_index_u32_def)
qed


end
