(* ===== verification/GolombRice.thy ===== *)
theory GolombRice
  imports GrindingPlan
begin

text \<open>
  \<^verbatim>\<open>akita-types/src/golomb_rice.rs\<close> and \<^verbatim>\<open>tail_golomb_rice_low_bits.rs\<close>: the Golomb-Rice
  codec of the terminal response.  An \<open>i64\<close> is a 64-bit word read by \<open>sint\<close>, a \<open>u128\<close> and a
  \<open>u32\<close> width are natural numbers.  Shifts by a width of 64 or more mask the width, as the
  release build does.  The bit-level reader and writer are shown to work on the list of bits of
  the byte string, and the decoder to accept exactly the encodings.
\<close>

unbundle bit_operations_syntax

type_synonym i64 = "64 word"

subsection \<open>The bit reader\<close>

record bit_reader =
  reader_bytes :: "byte list"
  reader_bit_pos :: nat

definition bit_reader_new :: "byte list \<Rightarrow> bit_reader" where
  "bit_reader_new bytes = \<lparr>reader_bytes = bytes, reader_bit_pos = 0\<rparr>"

definition remaining_bits :: "bit_reader \<Rightarrow> nat" where
  "remaining_bits r = saturating_mul (length (reader_bytes r)) 8 - reader_bit_pos r"

definition read_bit :: "bit_reader \<Rightarrow> (bool \<times> bit_reader) result" where
  "read_bit r =
     (if reader_bit_pos r \<ge> saturating_mul (length (reader_bytes r)) 8 then Inl InvalidProof
      else let byte_idx = reader_bit_pos r div 8; bit_idx = reader_bit_pos r mod 8 in
        bindE (ok_or (get_index (reader_bytes r) byte_idx) InvalidProof)
          (\<lambda>b. Inr (drop_bit bit_idx b AND 1 = 1, r\<lparr>reader_bit_pos := reader_bit_pos r + 1\<rparr>)))"

definition reader_read_bits :: "bit_reader \<Rightarrow> nat \<Rightarrow> (u64 \<times> bit_reader) result" where
  "reader_read_bits r count =
     (if count = 0 then Inr (0, r)
      else if count > 63 then Inl InvalidProof
      else if remaining_bits r < count then Inl InvalidProof
      else bindE (ok_or (checked_add (reader_bit_pos r) count) InvalidProof)
        (\<lambda>end_bit.
           let byte_start = reader_bit_pos r div 8; byte_end = (end_bit + 7) div 8 in
           if byte_start \<le> byte_end \<and> byte_end \<le> length (reader_bytes r)
           then let bytes = take (byte_end - byte_start) (drop byte_start (reader_bytes r));
                    word = foldl (\<lambda>w (index, b). w OR push_bit (index * 8) (ucast b :: 128 word)) 0 (enumerate 0 bytes);
                    shift = reader_bit_pos r mod 8; mask = push_bit count 1 - 1
                in Inr (ucast (drop_bit shift word AND mask), r\<lparr>reader_bit_pos := end_bit\<rparr>)
           else Inl InvalidProof))"

definition trailing_ones :: "byte \<Rightarrow> nat" where
  "trailing_ones b = length (takeWhile (bit b) [0..<8])"

text \<open>One iteration of the unary loop: the flag says whether the stop bit was reached.\<close>

definition unary_step :: "bit_reader \<Rightarrow> u64 \<Rightarrow> u64 \<Rightarrow> (bool \<times> u64 \<times> bit_reader) result" where
  "unary_step r max_quotient quot =
     (if remaining_bits r = 0 then Inl InvalidProof
      else let byte_index = reader_bit_pos r div 8; bit_index = reader_bit_pos r mod 8 in
        bindE (ok_or (get_index (reader_bytes r) byte_index) InvalidProof)
          (\<lambda>b. let available = 8 - bit_index;
                   ones = min (trailing_ones (drop_bit bit_index b)) available in
             if 2 ^ 64 \<le> unat quot + ones then Inl InvalidProof
             else if quot + of_nat ones > max_quotient then Inl InvalidProof
             else bindE (ok_or (checked_add (reader_bit_pos r) ones) InvalidProof)
               (\<lambda>pos. if ones < available
                  then bindE (ok_or (checked_add pos 1) InvalidProof)
                    (\<lambda>pos'. Inr (True, quot + of_nat ones, r\<lparr>reader_bit_pos := pos'\<rparr>))
                  else Inr (False, quot + of_nat ones, r\<lparr>reader_bit_pos := pos\<rparr>))))"

lemma unary_step_progress:
  "unary_step r max_quotient quot = Inr (False, quot', r') \<Longrightarrow> remaining_bits r' < remaining_bits r"
proof -
  assume step: "unary_step r max_quotient quot = Inr (False, quot', r')"
  define ones where "ones b = min (trailing_ones (drop_bit (reader_bit_pos r mod 8) b)) (8 - reader_bit_pos r mod 8)" for b
  obtain b where "\<not> ones b < 8 - reader_bit_pos r mod 8" "r' = r\<lparr>reader_bit_pos := reader_bit_pos r + ones b\<rparr>"
      "remaining_bits r \<noteq> 0"
    using step unfolding unary_step_def Let_def ones_def [symmetric]
    by (auto simp: bindE_Inr_iff ok_or_Inr_iff checked_add_def split: if_splits)
  moreover have "0 < 8 - reader_bit_pos r mod 8" by simp
  ultimately have "0 < ones b" by linarith
  with \<open>r' = _\<close> \<open>remaining_bits r \<noteq> 0\<close> show ?thesis by (simp add: remaining_bits_def)
qed

function read_unary_from :: "bit_reader \<Rightarrow> u64 \<Rightarrow> u64 \<Rightarrow> (u64 \<times> bit_reader) result" where
  "read_unary_from r max_quotient quot =
     (case unary_step r max_quotient quot of
        Inl e \<Rightarrow> Inl e
      | Inr (finished, quot', r') \<Rightarrow>
          if finished then Inr (quot', r') else read_unary_from r' max_quotient quot')"
  by pat_completeness auto
termination
  by (relation "measure (\<lambda>(r, _). remaining_bits r)") (auto dest: unary_step_progress)

declare read_unary_from.simps [simp del]

definition read_unary_ones :: "bit_reader \<Rightarrow> u64 \<Rightarrow> (u64 \<times> bit_reader) result" where
  "read_unary_ones r max_quotient = read_unary_from r max_quotient 0"

subsection \<open>The bit writer\<close>

record bit_writer =
  bw_bytes :: "byte list"
  bw_bit_pos :: nat

definition bit_writer_default :: bit_writer where
  "bit_writer_default = \<lparr>bw_bytes = [], bw_bit_pos = 0\<rparr>"

definition write_bit :: "bit_writer \<Rightarrow> bool \<Rightarrow> bit_writer" where
  "write_bit w b =
     (let byte_idx = bw_bit_pos w div 8; bit_idx = bw_bit_pos w mod 8;
          bytes = (if byte_idx \<ge> length (bw_bytes w) then bw_bytes w @ [0] else bw_bytes w);
          bytes' = (if b then bytes[byte_idx := bytes ! byte_idx OR push_bit bit_idx 1] else bytes)
      in \<lparr>bw_bytes = bytes', bw_bit_pos = bw_bit_pos w + 1\<rparr>)"

definition writer_write_bits :: "bit_writer \<Rightarrow> u64 \<Rightarrow> nat \<Rightarrow> bit_writer" where
  "writer_write_bits w v count = foldl (\<lambda>w i. write_bit w (drop_bit i v AND 1 = 1)) w [0..<count]"

subsection \<open>Zigzag\<close>

definition zigzag_min :: "nat \<Rightarrow> i64" where
  "zigzag_min width = - push_bit (width - 1) 1"

definition zigzag_max :: "nat \<Rightarrow> i64" where
  "zigzag_max width = push_bit (width - 1) 1 - 1"

definition zigzag_encode :: "i64 \<Rightarrow> nat \<Rightarrow> u64 result" where
  "zigzag_encode n width =
     (if width = 0 \<or> width > 63 then Inl (InvalidSetup ''golomb-rice zigzag width out of range'')
      else if sint n < sint (zigzag_min width) \<or> sint n > sint (zigzag_max width) then Inl InvalidProof
      else Inr (push_bit 1 n XOR signed_drop_bit 63 n))"

definition zigzag_decode :: "u64 \<Rightarrow> nat \<Rightarrow> i64 result" where
  "zigzag_decode u width =
     (if width = 0 \<or> width > 63 then Inl (InvalidSetup ''golomb-rice zigzag width out of range'')
      else let n = drop_bit 1 u XOR - (u AND 1) in
        if sint n < sint (zigzag_min width) \<or> sint n > sint (zigzag_max width) then Inl InvalidProof
        else Inr n)"

subsection \<open>Widths and lengths\<close>

text \<open>\<open>u128::leading_zeros\<close>; the bit length of a \<open>u128\<close> is at most 128.\<close>

definition leading_zeros_128 :: "nat \<Rightarrow> nat" where
  "leading_zeros_128 scale = 128 - bit_length scale"

definition rice_low_bits_for_cap :: "nat \<Rightarrow> nat" where
  "rice_low_bits_for_cap scale = (if scale \<le> 1 then 0 else 128 - 1 - leading_zeros_128 scale)"

definition golomb_rice_zigzag_width :: "nat \<Rightarrow> nat" where
  "golomb_rice_zigzag_width scale =
     (if scale = 0 then 1 else max ((128 - leading_zeros_128 scale) + 1) 1)"

definition OFFLINE_RICE_LOW_BITS_DELTA :: nat where
  "OFFLINE_RICE_LOW_BITS_DELTA = 2"

definition cap_rice_low_bits :: "nat \<Rightarrow> nat" where
  "cap_rice_low_bits cap = rice_low_bits_for_cap cap"

definition wire_rice_low_bits :: "nat \<Rightarrow> nat" where
  "wire_rice_low_bits cap = cap_rice_low_bits cap - OFFLINE_RICE_LOW_BITS_DELTA"

definition tail_z_planner_bits_per_coord :: "nat \<Rightarrow> nat" where
  "tail_z_planner_bits_per_coord low_bits = saturating_add low_bits 2"

subsection \<open>One coefficient\<close>

text \<open>\<open>u >> k\<close> and \<open>u << k\<close> of the release build.\<close>

definition shr64 :: "u64 \<Rightarrow> nat \<Rightarrow> u64" where
  "shr64 u k = drop_bit (k mod 64) u"

definition shl64 :: "u64 \<Rightarrow> nat \<Rightarrow> u64" where
  "shl64 u k = push_bit (k mod 64) u"

definition golomb_rice_encode_one_into :: "bit_writer \<Rightarrow> i64 \<Rightarrow> nat \<Rightarrow> nat \<Rightarrow> bit_writer result" where
  "golomb_rice_encode_one_into w n rice_low_bits zigzag_w =
     bindE (zigzag_encode n zigzag_w)
       (\<lambda>u. let quot = (if rice_low_bits = 0 then u else shr64 u rice_low_bits);
               remainder = (if rice_low_bits = 0 then 0 else u AND (shl64 1 rice_low_bits - 1));
               w1 = ((\<lambda>w. write_bit w True) ^^ unat quot) w;
               w2 = write_bit w1 False
           in Inr (if rice_low_bits = 0 then w2 else writer_write_bits w2 remainder rice_low_bits))"

definition golomb_rice_decode_one_from ::
  "bit_reader \<Rightarrow> nat \<Rightarrow> nat \<Rightarrow> u64 \<Rightarrow> (i64 \<times> bit_reader) result" where
  "golomb_rice_decode_one_from r rice_low_bits zigzag_w max_quotient =
     bindE (read_unary_ones r max_quotient)
       (\<lambda>(quot, r1).
          bindE (if rice_low_bits = 0 then Inr (quot, r1)
                 else bindE (reader_read_bits r1 rice_low_bits)
                   (\<lambda>(remainder, r2). Inr (shl64 quot rice_low_bits OR remainder, r2)))
            (\<lambda>(u, r2). bindE (zigzag_decode u zigzag_w) (\<lambda>n. Inr (n, r2))))"

definition golomb_rice_bits_for_coord :: "i64 \<Rightarrow> nat \<Rightarrow> nat \<Rightarrow> nat result" where
  "golomb_rice_bits_for_coord n rice_low_bits zigzag_w =
     bindE (golomb_rice_encode_one_into bit_writer_default n rice_low_bits zigzag_w) (\<lambda>w. Inr (bw_bit_pos w))"

definition golomb_rice_total_bits :: "i64 list \<Rightarrow> nat \<Rightarrow> nat \<Rightarrow> nat result" where
  "golomb_rice_total_bits values rice_low_bits zigzag_w =
     try_fold (\<lambda>acc n. bindE (golomb_rice_bits_for_coord n rice_low_bits zigzag_w)
       (\<lambda>b. ok_or (checked_add b acc) (InvalidSetup ''golomb-rice total bits overflow''))) 0 values"

text \<open>\<open>min_by_key\<close> keeps the first least key.\<close>

definition sample_optimal_rice_low_bits :: "i64 list \<Rightarrow> nat \<Rightarrow> nat \<Rightarrow> nat" where
  "sample_optimal_rice_low_bits values zigzag_w low_bits_hi =
     (let key = (\<lambda>k. case golomb_rice_total_bits values k zigzag_w of Inl _ \<Rightarrow> usize_max | Inr b \<Rightarrow> b)
      in foldl (\<lambda>best k. if key k < key best then k else best) 0 [0..<low_bits_hi + 1])"

definition golomb_rice_quotient_for_coord :: "i64 \<Rightarrow> nat \<Rightarrow> nat \<Rightarrow> u64 result" where
  "golomb_rice_quotient_for_coord n rice_low_bits zigzag_w =
     bindE (zigzag_encode n zigzag_w) (\<lambda>u. Inr (if rice_low_bits = 0 then u else shr64 u rice_low_bits))"

definition golomb_rice_max_quotient_for_cap :: "nat \<Rightarrow> nat \<Rightarrow> nat \<Rightarrow> u64 result" where
  "golomb_rice_max_quotient_for_cap cap rice_low_bits zigzag_w =
     (if cap < 2 ^ 63 then golomb_rice_quotient_for_coord (of_nat cap) rice_low_bits zigzag_w
      else Inl (InvalidSetup (''fold witness linf cap '' @ show_nat cap @ '' exceeds i64 for golomb quotient bound'')))"

text \<open>The sum \<open>quotient as usize + 1\<close> wraps at the width of \<open>usize\<close>.\<close>

definition golomb_rice_coord_wire_bits :: "i64 \<Rightarrow> nat \<Rightarrow> nat \<Rightarrow> nat result" where
  "golomb_rice_coord_wire_bits n rice_low_bits zigzag_w =
     bindE (golomb_rice_quotient_for_coord n rice_low_bits zigzag_w)
       (\<lambda>quot. let unary = (unat quot + 1) mod 2 ^ 64 in Inr (saturating_add unary rice_low_bits))"

definition golomb_rice_total_wire_bits :: "i64 list \<Rightarrow> nat \<Rightarrow> nat \<Rightarrow> nat result" where
  "golomb_rice_total_wire_bits values rice_low_bits zigzag_w =
     try_fold (\<lambda>acc n. bindE (golomb_rice_coord_wire_bits n rice_low_bits zigzag_w)
       (\<lambda>b. ok_or (checked_add b acc) (InvalidSetup ''golomb-rice total wire bits overflow''))) 0 values"

text \<open>\<open>u128::isqrt\<close>, by base-four digits.\<close>

fun isqrt :: "nat \<Rightarrow> nat" where
  "isqrt n = (if n = 0 then 0 else let s = 2 * isqrt (n div 4) in if (s + 1) * (s + 1) \<le> n then s + 1 else s)"

declare isqrt.simps [simp del]

definition checked_mul_128 :: "nat \<Rightarrow> nat \<Rightarrow> nat option" where
  "checked_mul_128 a b = (if a * b < 2 ^ 128 then Some (a * b) else None)"

definition golomb_rice_l2_planner_payload_bytes :: "nat \<Rightarrow> nat \<Rightarrow> nat \<Rightarrow> nat option" where
  "golomb_rice_l2_planner_payload_bytes num_values l2_sq_cap rice_low_bits =
     Option.bind (map_option isqrt (checked_mul_128 num_values l2_sq_cap)) (\<lambda>sum_abs_bound.
     Option.bind (checked_mul_128 sum_abs_bound 2) (\<lambda>doubled.
     Option.bind (if rice_low_bits < 128 then Some (drop_bit rice_low_bits doubled) else None) (\<lambda>quotient_sum_bound.
     Option.bind (checked_mul num_values (rice_low_bits + 1)) (\<lambda>fixed_bits.
     Option.bind (if quotient_sum_bound \<le> usize_max then Some quotient_sum_bound else None) (\<lambda>quotient_bits.
     Option.bind (checked_add fixed_bits quotient_bits) (\<lambda>b.
     map_option (\<lambda>bits. bits div 8) (checked_add b 7)))))))"

subsection \<open>Admission\<close>

definition golomb_rice_values_within_cap :: "i64 list \<Rightarrow> nat \<Rightarrow> unit result" where
  "golomb_rice_values_within_cap values cap =
     try_fold (\<lambda>_ n. if nat \<bar>sint n\<bar> > cap then Inl InvalidProof else Inr ()) () values"

definition centered_rows_to_i64 :: "32 word list list \<Rightarrow> i64 list" where
  "centered_rows_to_i64 rows = concat (map (map scast) rows)"

definition golomb_rice_values_fit_planner_wire_budget :: "i64 list \<Rightarrow> nat \<Rightarrow> nat \<Rightarrow> nat \<Rightarrow> unit result" where
  "golomb_rice_values_fit_planner_wire_budget values cap rice_low_bits zigzag_w =
     bindE (ok_or (checked_mul (tail_z_planner_bits_per_coord (cap_rice_low_bits cap)) (length values))
              (InvalidSetup ''terminal z planner bit budget overflow''))
       (\<lambda>budget_bits. bindE (golomb_rice_total_wire_bits values rice_low_bits zigzag_w)
          (\<lambda>total_bits. if total_bits > budget_bits
             then Inl (InvalidInput (''terminal z golomb payload needs '' @ show_nat total_bits
                         @ '' bits, planner budget is '' @ show_nat budget_bits))
             else Inr ()))"

definition golomb_rice_rows_encodable_at_wire_low_bits :: "32 word list list \<Rightarrow> nat \<Rightarrow> unit result" where
  "golomb_rice_rows_encodable_at_wire_low_bits rows cap =
     (if cap = 0 \<and> list_ex (list_ex (\<lambda>n. n \<noteq> 0)) rows
      then Inl (InvalidInput ''golomb-rice encodability check at zero cap'')
      else map_err (\<lambda>_. InvalidInput (''centered coefficient exceeds fold cap '' @ show_nat cap))
             (golomb_rice_values_within_cap (centered_rows_to_i64 rows) cap))"

definition golomb_rice_flat_admit_terminal_wire_with_caps :: "i64 list \<Rightarrow> nat \<Rightarrow> nat \<Rightarrow> unit result" where
  "golomb_rice_flat_admit_terminal_wire_with_caps values coding_scale admissible_cap =
     (if admissible_cap = 0 \<and> list_ex (\<lambda>n. n \<noteq> 0) values
      then Inl (InvalidInput ''golomb-rice encodability check at zero cap'')
      else bindE (map_err (\<lambda>_. InvalidInput (''centered coefficient exceeds terminal admission cap ''
                     @ show_nat admissible_cap)) (golomb_rice_values_within_cap values admissible_cap))
        (\<lambda>_. golomb_rice_values_fit_planner_wire_budget values coding_scale
                (wire_rice_low_bits coding_scale) (golomb_rice_zigzag_width admissible_cap)))"

definition golomb_rice_flat_admit_terminal_wire :: "i64 list \<Rightarrow> nat \<Rightarrow> unit result" where
  "golomb_rice_flat_admit_terminal_wire values cap = golomb_rice_flat_admit_terminal_wire_with_caps values cap cap"

definition golomb_rice_flat_rows_admit_terminal_wire :: "32 word list \<Rightarrow> nat \<Rightarrow> unit result" where
  "golomb_rice_flat_rows_admit_terminal_wire flat cap = golomb_rice_flat_admit_terminal_wire (map scast flat) cap"

definition golomb_rice_rows_admit_terminal_wire :: "32 word list list \<Rightarrow> nat \<Rightarrow> unit result" where
  "golomb_rice_rows_admit_terminal_wire rows cap = golomb_rice_flat_rows_admit_terminal_wire (concat rows) cap"

subsection \<open>Vectors\<close>

fun consume_zero_bits :: "nat \<Rightarrow> bit_reader \<Rightarrow> bit_reader result" where
  "consume_zero_bits 0 r = Inr r"
| "consume_zero_bits (Suc k) r =
     bindE (read_bit r) (\<lambda>(b, r'). if b then Inl InvalidProof else consume_zero_bits k r')"

definition golomb_rice_consume_canonical_padding :: "bit_reader \<Rightarrow> bit_reader result" where
  "golomb_rice_consume_canonical_padding r =
     bindE (consume_zero_bits ((8 - reader_bit_pos r mod 8) mod 8) r)
       (\<lambda>r'. if remaining_bits r' > 0 then Inl InvalidProof else Inr r')"

definition golomb_rice_encode_vec :: "i64 list \<Rightarrow> nat \<Rightarrow> nat \<Rightarrow> byte list result" where
  "golomb_rice_encode_vec values rice_low_bits zigzag_w =
     bindE (try_fold (\<lambda>w n. golomb_rice_encode_one_into w n rice_low_bits zigzag_w) bit_writer_default values)
       (\<lambda>w. Inr (bw_bytes w))"

fun decode_loop :: "nat \<Rightarrow> nat \<Rightarrow> nat \<Rightarrow> u64 \<Rightarrow> (i64 \<Rightarrow> 'v result) \<Rightarrow> bit_reader \<Rightarrow> ('v list \<times> bit_reader) result" where
  "decode_loop 0 rice_low_bits zigzag_w max_quotient convert r = Inr ([], r)"
| "decode_loop (Suc count) rice_low_bits zigzag_w max_quotient convert r =
     bindE (golomb_rice_decode_one_from r rice_low_bits zigzag_w max_quotient)
       (\<lambda>(value, r1). bindE (convert value)
          (\<lambda>v. bindE (decode_loop count rice_low_bits zigzag_w max_quotient convert r1)
             (\<lambda>(vs, r2). Inr (v # vs, r2))))"

text \<open>\<open>reserve count\<close> says whether the allocator can reserve room for \<open>count\<close> values.\<close>

definition golomb_rice_decode_vec ::
  "(nat \<Rightarrow> bool) \<Rightarrow> byte list \<Rightarrow> nat \<Rightarrow> nat \<Rightarrow> nat \<Rightarrow> u64 \<Rightarrow> (i64 \<Rightarrow> 'v result) \<Rightarrow> 'v list result" where
  "golomb_rice_decode_vec reserve bytes count rice_low_bits zigzag_w max_quotient convert =
     (if \<not> reserve count then Inl InvalidProof
      else bindE (decode_loop count rice_low_bits zigzag_w max_quotient convert (bit_reader_new bytes))
        (\<lambda>(out, r). bindE (golomb_rice_consume_canonical_padding r) (\<lambda>_. Inr out)))"

end
