(* ===== verification/GolombRiceCorrect.thy ===== *)
theory GolombRiceCorrect
  imports GolombRice
begin

text \<open>
  The Golomb-Rice codec is exact.  Reader and writer are related to the list of bits of the byte
  string, the decoder and the encoder to the concatenation of the code words, and the planner's
  length formulas to its length.
\<close>

subsection \<open>Bytes as bits\<close>

definition byte_bits :: "byte list \<Rightarrow> bool list" where
  "byte_bits bs = concat (map (\<lambda>b. map (bit b) [0..<8]) bs)"

lemma length_byte_bits [simp]: "length (byte_bits bs) = 8 * length bs"
  by (induction bs) (simp_all add: byte_bits_def)

lemma byte_bits_append: "byte_bits (bs @ cs) = byte_bits bs @ byte_bits cs"
  by (simp add: byte_bits_def)

lemma nth_byte_bits: "i < 8 * length bs \<Longrightarrow> byte_bits bs ! i = bit (bs ! (i div 8)) (i mod 8)"
proof (induction bs arbitrary: i)
  case (Cons b bs)
  have split: "byte_bits (b # bs) = map (bit b) [0..<8] @ byte_bits bs" by (simp add: byte_bits_def)
  show ?case
  proof (cases "i < 8")
    case False
    then obtain j where j: "i = 8 + j" using le_Suc_ex by (metis linorder_not_less)
    with Cons.prems have "j < 8 * length bs" by simp
    with Cons.IH [OF this] show ?thesis by (simp add: split nth_append j)
  qed (simp add: split nth_append)
qed simp

lemma byte_bits_inj: "byte_bits bs = byte_bits cs \<Longrightarrow> bs = cs"
proof (rule nth_equalityI)
  assume eq: "byte_bits bs = byte_bits cs"
  then have "8 * length bs = 8 * length cs" by (metis length_byte_bits)
  then show len: "length bs = length cs" by simp
  fix i assume i: "i < length bs"
  show "bs ! i = cs ! i"
  proof (rule bit_word_eqI)
    fix k assume "k < LENGTH(8)"
    then have k: "k < 8" by simp
    with i len have "i * 8 + k < 8 * length bs" "i * 8 + k < 8 * length cs" by linarith+
    from nth_byte_bits [OF this(1)] nth_byte_bits [OF this(2)] eq k show "bit (bs ! i) k \<longleftrightarrow> bit (cs ! i) k" by simp
  qed
qed

lemma and_one_bit: "drop_bit k w AND 1 = 1 \<longleftrightarrow> bit w k"
  by (simp add: bit_iff_odd_drop_bit and_one_eq odd_iff_mod_2_eq_one)

lemma div8_less_stop: "a < e \<Longrightarrow> a div 8 < (e + 7) div (8 :: nat)"
proof -
  assume "a < e"
  then have "(a + 8) div 8 \<le> (e + 7) div 8" by (intro div_le_mono) simp
  then show ?thesis by simp
qed

subsection \<open>The reader on bits\<close>

definition reader_ok :: "bit_reader \<Rightarrow> bool" where
  "reader_ok r \<longleftrightarrow> 8 * length (reader_bytes r) \<le> usize_max \<and> reader_bit_pos r \<le> 8 * length (reader_bytes r)"

definition rest_bits :: "bit_reader \<Rightarrow> bool list" where
  "rest_bits r = drop (reader_bit_pos r) (byte_bits (reader_bytes r))"

definition advance :: "bit_reader \<Rightarrow> nat \<Rightarrow> bit_reader" where
  "advance r k = r\<lparr>reader_bit_pos := reader_bit_pos r + k\<rparr>"

lemma length_rest_bits: "length (rest_bits r) = 8 * length (reader_bytes r) - reader_bit_pos r"
  by (simp add: rest_bits_def)

lemma remaining_bits_eq: "reader_ok r \<Longrightarrow> remaining_bits r = length (rest_bits r)"
  by (simp add: remaining_bits_def length_rest_bits reader_ok_def saturating_mul_def)

lemma rest_bits_advance [simp]: "rest_bits (advance r k) = drop k (rest_bits r)"
  by (simp add: rest_bits_def advance_def add.commute)

lemma advance_ok: "reader_ok r \<Longrightarrow> k \<le> length (rest_bits r) \<Longrightarrow> reader_ok (advance r k)"
  by (auto simp: reader_ok_def advance_def length_rest_bits)

lemma advance_advance [simp]: "advance (advance r j) k = advance r (j + k)"
  by (simp add: advance_def add.assoc)

lemma advance_0 [simp]: "advance r 0 = r"
  by (simp add: advance_def)

lemma advance_inj: "advance r j = advance r k \<longleftrightarrow> j = k"
  by (metis advance_def add_left_cancel bit_reader.select_convs(2) bit_reader.surjective bit_reader.update_convs(2))

lemma nth_rest_bits:
  assumes "i < length (rest_bits r)"
  shows "rest_bits r ! i = bit (reader_bytes r ! ((reader_bit_pos r + i) div 8)) ((reader_bit_pos r + i) mod 8)"
proof -
  have "reader_bit_pos r + i < 8 * length (reader_bytes r)" using assms by (simp add: length_rest_bits)
  then show ?thesis by (simp add: rest_bits_def nth_byte_bits)
qed

lemma rest_bits_index: "0 < length (rest_bits r) \<Longrightarrow> reader_bit_pos r div 8 < length (reader_bytes r)"
  by (simp add: length_rest_bits less_mult_imp_div_less mult.commute)

lemma read_bit_eq:
  assumes "reader_ok r"
  shows "read_bit r = (case rest_bits r of [] \<Rightarrow> Inl InvalidProof | b # _ \<Rightarrow> Inr (b, advance r 1))"
proof (cases "rest_bits r")
  case Nil
  then have "8 * length (reader_bytes r) \<le> reader_bit_pos r" using length_rest_bits [of r] by simp
  with assms Nil show ?thesis by (simp add: read_bit_def reader_ok_def saturating_mul_def mult.commute)
next
  case (Cons b bs)
  then have pos: "0 < length (rest_bits r)" by simp
  have "b = bit (reader_bytes r ! (reader_bit_pos r div 8)) (reader_bit_pos r mod 8)"
    using nth_rest_bits [OF pos] by (simp add: Cons)
  with assms Cons pos rest_bits_index [OF pos] show ?thesis
    by (simp add: read_bit_def reader_ok_def saturating_mul_def length_rest_bits get_index_def and_one_bit advance_def)
qed

subsubsection \<open>Fixed widths\<close>

lemma bit_or_bytes:
  fixes bs :: "byte list"
  shows "bit (foldl (\<lambda>w (index, b). w OR push_bit (index * 8) (ucast b :: 128 word)) w0 (enumerate k bs)) m \<longleftrightarrow>
     bit w0 m \<or> m < 128 \<and> k * 8 \<le> m \<and> m div 8 - k < length bs \<and> bit (bs ! (m div 8 - k)) (m mod 8)"
proof (induction bs arbitrary: w0 k)
  case (Cons b bs)
  have here: "bit (push_bit (k * 8) (ucast b :: 128 word)) m \<longleftrightarrow> m < 128 \<and> k * 8 \<le> m \<and> m div 8 = k \<and> bit b (m mod 8)"
  proof (cases "k * 8 \<le> m \<and> m < 128")
    case True
    have "bit b (m - k * 8) \<longleftrightarrow> m div 8 = k \<and> bit b (m mod 8)"
    proof (cases "m div 8 = k")
      case True
      then have "m - k * 8 = m mod 8" by (metis minus_div_mult_eq_mod)
      with True show ?thesis by simp
    next
      case False
      with \<open>k * 8 \<le> m \<and> m < 128\<close> have "8 \<le> m - k * 8" by linarith
      then show ?thesis using False bit_imp_le_length [of b "m - k * 8"] by auto
    qed
    with True show ?thesis by (auto simp: bit_push_bit_iff bit_ucast_iff)
  qed (auto simp: bit_push_bit_iff bit_ucast_iff)
  note IH = Cons.IH [of "w0 OR push_bit (k * 8) (ucast b)" "Suc k"]
  show ?case
  proof (cases "m div 8 - k")
    case 0
    then have "m div 8 \<le> k" by simp
    then have "m < Suc k * 8" by (subst div_less_iff_less_mult [symmetric]) simp_all
    then have "\<not> Suc k * 8 \<le> m" by simp
    moreover have "m div 8 = k" if "k * 8 \<le> m" using that 0 by linarith
    ultimately show ?thesis using IH 0 by (auto simp: bit_or_iff here)
  next
    case (Suc j)
    then have "Suc k \<le> m div 8" by simp
    then have "Suc k * 8 \<le> m" by (subst less_eq_div_iff_mult_less_eq [symmetric]) simp_all
    moreover have "m div 8 - Suc k = j" "m div 8 \<noteq> k" using Suc by simp_all
    ultimately show ?thesis using IH Suc by (auto simp: bit_or_iff here)
  qed
qed simp

definition bits_value :: "bool list \<Rightarrow> u64" where
  "bits_value bs = horner_sum of_bool 2 bs"

lemma bit_bits_value: "bit (bits_value bs) n \<longleftrightarrow> n < 64 \<and> n < length bs \<and> bs ! n"
  by (simp add: bits_value_def bit_horner_sum_bit_word_iff)

lemma reader_read_bits_eq:
  assumes ok: "reader_ok r" and count: "0 < count" "count \<le> 63"
  shows "reader_read_bits r count =
     (if length (rest_bits r) < count then Inl InvalidProof
      else Inr (bits_value (take count (rest_bits r)), advance r count))"
proof (cases "length (rest_bits r) < count")
  case True
  with assms show ?thesis by (simp add: reader_read_bits_def remaining_bits_eq)
next
  case False
  let ?p = "reader_bit_pos r" and ?bs = "reader_bytes r"
  let ?start = "?p div 8" and ?stop = "(?p + count + 7) div 8"
  let ?bytes = "take (?stop - ?start) (drop ?start ?bs)"
  let ?word = "foldl (\<lambda>w (index, b). w OR push_bit (index * 8) (ucast b :: 128 word)) 0 (enumerate 0 ?bytes)"
  have fits: "?p + count \<le> 8 * length ?bs" "?p + count \<le> usize_max"
    using False ok count(1) by (auto simp: length_rest_bits reader_ok_def)
  have range: "?start \<le> ?stop" "?stop \<le> length ?bs" using fits(1) by linarith+
  have val: "(ucast (drop_bit (?p mod 8) ?word AND (push_bit count 1 - 1)) :: u64) = bits_value (take count (rest_bits r))"
  proof (rule bit_word_eqI)
    fix n assume "n < LENGTH(64)"
    then have n: "n < 64" by simp
    have mask: "bit (push_bit count 1 - 1 :: 128 word) n \<longleftrightarrow> n < count"
      using count n by (simp add: push_bit_of_1 bit_mask_iff flip: mask_eq_exp_minus_1)
    show "bit (ucast (drop_bit (?p mod 8) ?word AND (push_bit count 1 - 1)) :: u64) n
        \<longleftrightarrow> bit (bits_value (take count (rest_bits r))) n"
    proof (cases "n < count")
      case True
      let ?m = "n + ?p mod 8"
      have split: "?p + n = ?m + ?start * 8" by simp
      have start: "?start + ?m div 8 = (?p + n) div 8" "?m mod 8 = (?p + n) mod 8"
        unfolding split by (rule div_mult_self1 [symmetric], simp) (rule mod_mult_self1 [symmetric])
      have "(?p + n) div 8 < ?stop" using True by (intro div8_less_stop) simp
      then have "?m div 8 < ?stop - ?start" unfolding less_diff_conv by (simp only: start(1) add.commute)
      then have m: "?m div 8 < length ?bytes" using diff_le_mono [OF range(2), of ?start] by simp
      have small: "?m < 128" using n pos_mod_bound [of 8 ?p] by simp
      have "?bytes ! (?m div 8) = ?bs ! ((?p + n) div 8)" using m start order_trans [OF range] by simp
      then have "bit ?word ?m \<longleftrightarrow> bit (?bs ! ((?p + n) div 8)) ((?p + n) mod 8)"
        using m start small by (simp add: bit_or_bytes)
      with True n False mask show ?thesis
        by (simp add: bit_ucast_iff bit_and_iff bit_drop_bit_eq bit_bits_value nth_rest_bits add.commute)
    qed (use mask in \<open>simp add: bit_ucast_iff bit_and_iff bit_bits_value\<close>)
  qed
  show ?thesis
    using False assms fits range val
    by (simp add: reader_read_bits_def remaining_bits_eq checked_add_def Let_def advance_def)
qed

subsubsection \<open>Unary runs\<close>

definition run_length :: "bool list \<Rightarrow> nat" where
  "run_length bs = length (takeWhile id bs)"

lemma run_length_append:
  "run_length (xs @ ys) = (if run_length xs < length xs then run_length xs else length xs + run_length ys)"
proof (induction xs)
  case (Cons x xs)
  then show ?case by (cases x) (auto simp: run_length_def)
qed (simp add: run_length_def)

lemma run_length_le: "run_length bs \<le> length bs"
  by (simp add: run_length_def length_takeWhile_le)

lemma trailing_ones_drop_bit:
  assumes "k < 8"
  shows "trailing_ones (drop_bit k b) = run_length (map (bit b) [k..<8])"
proof -
  have split: "[0..<8] = [0..<8 - k] @ [8 - k..<8]" using upt_add_eq_append [of 0 "8 - k" k] assms by simp
  have "trailing_ones (drop_bit k b) = run_length (map (\<lambda>i. bit b (k + i)) [0..<8])"
    by (simp add: trailing_ones_def run_length_def takeWhile_map comp_def bit_drop_bit_eq)
  also have "\<dots> = run_length (map (\<lambda>i. bit b (k + i)) ([0..<8 - k] @ [8 - k..<8]))" by (simp only: split)
  also have "\<dots> = run_length (map (\<lambda>i. bit b (k + i)) [0..<8 - k] @ map (\<lambda>_. False) [8 - k..<8])"
  proof -
    have "map (\<lambda>i. bit b (k + i)) [8 - k..<8] = map (\<lambda>_. False) [8 - k..<8]"
      using bit_imp_le_length [of b] by (intro map_cong) force+
    then show ?thesis by (simp only: map_append)
  qed
  also have "\<dots> = run_length (map (\<lambda>i. bit b (k + i)) [0..<8 - k])"
    using run_length_le [of "map (\<lambda>i. bit b (k + i)) [0..<8 - k]"]
    by (auto simp: run_length_append map_replicate_const) (simp_all add: run_length_def)
  also have "map (\<lambda>i. bit b (k + i)) [0..<8 - k] = map (bit b) [k..<8]"
    using assms by (intro nth_equalityI) simp_all
  finally show ?thesis .
qed

text \<open>The bits of the current byte that are still to be read.\<close>

lemma rest_bits_chunk:
  assumes "reader_bit_pos r < 8 * length (reader_bytes r)"
  shows "take (8 - reader_bit_pos r mod 8) (rest_bits r)
       = map (bit (reader_bytes r ! (reader_bit_pos r div 8))) [reader_bit_pos r mod 8..<8]"
    and "8 - reader_bit_pos r mod 8 \<le> length (rest_bits r)"
proof -
  let ?p = "reader_bit_pos r" and ?k = "reader_bit_pos r mod 8"
  have "?p div 8 < length (reader_bytes r)" using assms by (simp add: less_mult_imp_div_less mult.commute)
  then have "8 * (?p div 8) + 8 \<le> 8 * length (reader_bytes r)" by simp
  moreover have "?p = 8 * (?p div 8) + ?k" by simp
  ultimately show len: "8 - ?k \<le> length (rest_bits r)" unfolding length_rest_bits by linarith
  show "take (8 - ?k) (rest_bits r) = map (bit (reader_bytes r ! (?p div 8))) [?k..<8]"
  proof (rule nth_equalityI)
    show "length (take (8 - ?k) (rest_bits r)) = length (map (bit (reader_bytes r ! (?p div 8))) [?k..<8])"
      using len by simp
    fix i assume "i < length (take (8 - ?k) (rest_bits r))"
    then have i: "i < 8 - ?k" "i < length (rest_bits r)" by simp_all
    have split: "?p + i = (?k + i) + (?p div 8) * 8" by simp
    have "(?p + i) div 8 = ?p div 8 \<and> (?p + i) mod 8 = ?k + i"
      unfolding split div_mult_self1 [OF zero_neq_numeral [symmetric]] mod_mult_self1 using i(1) by simp
    with i show "take (8 - ?k) (rest_bits r) ! i = map (bit (reader_bytes r ! (?p div 8))) [?k..<8] ! i"
      by (simp add: nth_rest_bits)
  qed
qed

lemma le_if_sum: "(a :: nat) \<le> b \<Longrightarrow> a \<le> (if a < b then a else b + c)"
  by simp

lemma unary_glue:
  "(if t < l \<and> u + a + t \<le> m then Inr (q + of_nat a + of_nat t, advance r (a + (t + 1))) else e)
     = (if a + t < a + l \<and> u + (a + t) \<le> m then Inr (q + of_nat (a + t), advance r (a + t + 1)) else e)"
  by (simp add: ac_simps)

lemma unary_step_eq:
  fixes r max_quotient quot
  defines "p \<equiv> reader_bit_pos r"
  assumes "reader_ok r" and "rest_bits r \<noteq> []" and idx: "p div 8 < length (reader_bytes r)"
    and available: "8 - p mod 8 = available"
    and ones: "min (trailing_ones (drop_bit (p mod 8) (reader_bytes r ! (p div 8)))) available = ones"
    and quot: "unat quot + ones \<le> unat max_quotient" and room: "p + ones \<le> usize_max"
  shows "ones < available \<Longrightarrow> p + ones < usize_max \<Longrightarrow>
           unary_step r max_quotient quot = Inr (True, quot + of_nat ones, advance r (ones + 1))"
    and "\<not> ones < available \<Longrightarrow> unary_step r max_quotient quot = Inr (False, quot + of_nat ones, advance r ones)"
proof -
  have q64: "unat quot + ones < 2 ^ 64" using quot unat_lt2p [of max_quotient] by simp
  then have "unat (quot + of_nat ones) = unat quot + ones" by (simp add: unat_word_ariths unat_of_nat)
  then have "\<not> max_quotient < quot + of_nat ones" using quot by (simp add: word_less_nat_alt)
  then have step: "unary_step r max_quotient quot =
      (if ones < available then bindE (ok_or (checked_add (p + ones) 1) InvalidProof)
         (\<lambda>pos'. Inr (True, quot + of_nat ones, r\<lparr>reader_bit_pos := pos'\<rparr>))
       else Inr (False, quot + of_nat ones, r\<lparr>reader_bit_pos := p + ones\<rparr>))"
    using q64 room idx assms(2,3) unfolding unary_step_def Let_def p_def [symmetric] available ones
    by (simp add: remaining_bits_eq get_index_def checked_add_def available ones)
  show "unary_step r max_quotient quot = Inr (True, quot + of_nat ones, advance r (ones + 1))"
    if "ones < available" "p + ones < usize_max"
    using that step by (simp add: checked_add_def advance_def p_def)
  show "unary_step r max_quotient quot = Inr (False, quot + of_nat ones, advance r ones)" if "\<not> ones < available"
    using that step by (simp add: advance_def p_def)
qed

lemma read_unary_from_eq:
  assumes "reader_ok r" and "unat quot \<le> unat max_quotient"
  shows "read_unary_from r max_quotient quot =
     (let t = run_length (rest_bits r) in
      if t < length (rest_bits r) \<and> unat quot + t \<le> unat max_quotient
      then Inr (quot + of_nat t, advance r (t + 1)) else Inl InvalidProof)"
  using assms
proof (induction r max_quotient quot rule: read_unary_from.induct)
  case (1 r max_quotient quot)
  let ?p = "reader_bit_pos r" and ?bs = "reader_bytes r"
  let ?available = "8 - ?p mod 8"
  show ?case
  proof (cases "rest_bits r = []")
    case True
    then have "unary_step r max_quotient quot = Inl InvalidProof"
      using 1(2) by (simp add: unary_step_def Let_def remaining_bits_eq)
    with True show ?thesis by (simp add: read_unary_from.simps [of r])
  next
    case False
    then have "0 < length (rest_bits r)" by simp
    then have p: "?p < 8 * length ?bs" unfolding length_rest_bits by simp
    note chunk = rest_bits_chunk [OF p]
    let ?ones = "run_length (take ?available (rest_bits r))"
    let ?tail = "drop ?available (rest_bits r)"
    have split: "rest_bits r = take ?available (rest_bits r) @ ?tail" by simp
    have len: "length (take ?available (rest_bits r)) = ?available" using chunk(2) by simp
    have t: "run_length (rest_bits r) = (if ?ones < ?available then ?ones else ?available + run_length ?tail)"
      by (subst split) (simp only: run_length_append len)
    have ones: "min (trailing_ones (drop_bit (?p mod 8) (?bs ! (?p div 8)))) ?available = ?ones"
      unfolding chunk(1) using run_length_le [of "map (bit (?bs ! (?p div 8))) [?p mod 8..<8]"]
      by (simp add: trailing_ones_drop_bit)
    have le: "?ones \<le> ?available" using run_length_le [of "take ?available (rest_bits r)"] len by simp
    have idx: "?p div 8 < length ?bs" using p by (simp add: less_mult_imp_div_less mult.commute)
    have max64: "unat max_quotient < 2 ^ 64" using unsigned_less [of max_quotient] by simp
    have sum: "unat (quot + of_nat ?ones) = unat quot + ?ones" if "unat quot + ?ones < 2 ^ 64"
      using that by (simp add: unat_word_ariths unat_of_nat)
    show ?thesis
    proof (cases "unat quot + ?ones \<le> unat max_quotient")
      case False
      have "unary_step r max_quotient quot = Inl InvalidProof"
        using False \<open>rest_bits r \<noteq> []\<close> idx 1(2) sum
        by (cases "unat quot + ?ones < 2 ^ 64")
           (simp_all add: unary_step_def Let_def remaining_bits_eq get_index_def ones word_less_nat_alt)
      moreover have "?ones \<le> run_length (rest_bits r)" unfolding t by (rule le_if_sum [OF le])
      ultimately show ?thesis using False by (simp add: read_unary_from.simps [of r] Let_def)
    next
      case True
      then have q64: "unat quot + ?ones < 2 ^ 64" using max64 by simp
      have bound: "?p + ?available \<le> usize_max" "?p + ?available \<le> 8 * length ?bs"
        using chunk(2) p 1(2) by (auto simp: length_rest_bits reader_ok_def)
      show ?thesis
      proof (cases "?ones < ?available")
        case stop: True
        have "?p + ?ones < ?p + ?available" by (rule add_strict_left_mono [OF stop])
        then have room: "?p + ?ones < usize_max" by (rule order.strict_trans2 [OF _ bound(1)])
        have "unary_step r max_quotient quot = Inr (True, quot + of_nat ?ones, advance r (?ones + 1))"
          by (rule unary_step_eq(1) [OF 1(2) \<open>rest_bits r \<noteq> []\<close> idx refl ones True less_imp_le [OF room] stop room])
        with True stop t chunk(2) show ?thesis by (simp add: read_unary_from.simps [of r] Let_def)
      next
        case go: False
        then have ones_eq: "?ones = ?available" using le by simp
        have room: "?p + ?ones \<le> usize_max" unfolding ones_eq by (rule bound(1))
        have "unary_step r max_quotient quot = Inr (False, quot + of_nat ?ones, advance r ?ones)"
          by (rule unary_step_eq(2) [OF 1(2) \<open>rest_bits r \<noteq> []\<close> idx refl ones True room go])
        then have step: "unary_step r max_quotient quot = Inr (False, quot + of_nat ?available, advance r ?available)"
          unfolding ones_eq .
        have ok': "reader_ok (advance r ?available)" by (rule advance_ok [OF 1(2) chunk(2)])
        have unat: "unat (quot + of_nat ?available) = unat quot + ?available" using sum [OF q64] ones_eq by simp
        have le': "unat (quot + of_nat ?available) \<le> unat max_quotient" unfolding unat by (rule True [unfolded ones_eq])
        have "read_unary_from r max_quotient quot
            = read_unary_from (advance r ?available) max_quotient (quot + of_nat ?available)"
          by (subst read_unary_from.simps) (simp add: step)
        also have "\<dots> = (let t = run_length ?tail in
            if t < length ?tail \<and> unat quot + ?available + t \<le> unat max_quotient
            then Inr (quot + of_nat ?available + of_nat t, advance r (?available + (t + 1))) else Inl InvalidProof)"
          by (rule 1(1) [OF step refl refl _ ok' le', unfolded unat rest_bits_advance advance_advance]) simp
        finally have run: "read_unary_from r max_quotient quot = \<dots>" .
        have "run_length (rest_bits r) = ?available + run_length ?tail" using go t by (simp only: if_False)
        moreover have "length (rest_bits r) = ?available + length ?tail" by (subst split) (simp only: length_append len)
        ultimately show ?thesis unfolding run Let_def by (simp only: unary_glue)
      qed
    qed
  qed
qed

subsection \<open>Zigzag is a bijection\<close>

definition zz :: "i64 \<Rightarrow> u64" where
  "zz n = push_bit 1 n XOR signed_drop_bit 63 n"

definition unzz :: "u64 \<Rightarrow> i64" where
  "unzz u = drop_bit 1 u XOR - (u AND 1)"

lemma bit_zz: "bit (zz n) i \<longleftrightarrow> i < 64 \<and> ((0 < i \<and> bit n (i - 1)) \<noteq> bit n 63)"
  by (cases i) (auto simp: zz_def bit_xor_iff bit_push_bit_iff bit_signed_drop_bit_iff
      simp del: push_bit_Suc dest: bit_imp_le_length)

lemma bit_minus_low: "bit (- (u AND 1) :: u64) i \<longleftrightarrow> i < 64 \<and> bit u 0"
  by (cases "bit u 0") (simp_all add: and_one_eq bit_0 odd_iff_mod_2_eq_one even_iff_mod_2_eq_zero)

lemma bit_unzz: "bit (unzz u) i \<longleftrightarrow> i < 64 \<and> (bit u (Suc i) \<noteq> bit u 0)"
  using bit_imp_le_length [of u "Suc i"] by (auto simp: unzz_def bit_xor_iff bit_drop_bit_eq bit_minus_low)

lemma unzz_zz [simp]: "unzz (zz n) = n"
proof (rule bit_word_eqI)
  fix i assume "i < LENGTH(64)"
  then have "i = 63 \<or> i < 63" by auto
  then show "bit (unzz (zz n)) i \<longleftrightarrow> bit n i" by (auto simp: bit_unzz bit_zz)
qed

lemma zz_unzz [simp]: "zz (unzz u) = u"
proof (rule bit_word_eqI)
  fix i assume "i < LENGTH(64)"
  then show "bit (zz (unzz u)) i \<longleftrightarrow> bit u i"
    using bit_imp_le_length [of u 64] by (cases i) (auto simp: bit_unzz bit_zz)
qed

definition in_zigzag_range :: "nat \<Rightarrow> i64 \<Rightarrow> bool" where
  "in_zigzag_range width n \<longleftrightarrow> sint (zigzag_min width) \<le> sint n \<and> sint n \<le> sint (zigzag_max width)"

lemma zigzag_encode_Inr:
  "zigzag_encode n width = Inr u \<longleftrightarrow> 0 < width \<and> width \<le> 63 \<and> in_zigzag_range width n \<and> u = zz n"
  by (auto simp: zigzag_encode_def in_zigzag_range_def zz_def)

lemma zigzag_decode_Inr:
  "zigzag_decode u width = Inr n \<longleftrightarrow> 0 < width \<and> width \<le> 63 \<and> in_zigzag_range width n \<and> u = zz n"
proof -
  have "n = unzz u \<longleftrightarrow> u = zz n" by (metis unzz_zz zz_unzz)
  then show ?thesis by (auto simp: zigzag_decode_def in_zigzag_range_def Let_def unzz_def)
qed

text \<open>The value of the zigzag code and of the range bounds.\<close>

lemma sint_of_int_small: "- (2 ^ 63) \<le> x \<Longrightarrow> x < 2 ^ 63 \<Longrightarrow> sint (word_of_int x :: 64 word) = x"
  by (simp add: sint_sbintrunc' signed_take_bit_int_eq_self)

lemma sint_zigzag_bounds:
  assumes "0 < width" "width \<le> 63"
  shows "sint (zigzag_min width) = - (2 ^ (width - 1))" and "sint (zigzag_max width) = 2 ^ (width - 1) - 1"
proof -
  define x :: int where "x = 2 ^ (width - 1)"
  have "(2 :: int) ^ (width - 1) \<le> 2 ^ 62" using assms by (intro power_increasing) simp_all
  then have "0 < x" "x \<le> 2 ^ 62" by (simp_all add: x_def)
  then have "sint (word_of_int (- x) :: 64 word) = - x" "sint (word_of_int (x - 1) :: 64 word) = x - 1"
    by (intro sint_of_int_small; simp)+
  then show "sint (zigzag_min width) = - (2 ^ (width - 1))" "sint (zigzag_max width) = 2 ^ (width - 1) - 1"
    by (simp_all add: x_def zigzag_min_def zigzag_max_def)
qed

lemma uint_of_int_small: "0 \<le> x \<Longrightarrow> x < 2 ^ 64 \<Longrightarrow> uint (word_of_int x :: 64 word) = x"
  by (simp add: uint_word_of_int)

lemma zz_of_int: "zz n = word_of_int (if sint n < 0 then - 2 * sint n - 1 else 2 * sint n)"
proof -
  have n: "n = word_of_int (sint n)" by simp
  have neg: "bit n 63 \<longleftrightarrow> sint n < 0" using bit_last_iff [of n] by simp
  have "signed_drop_bit 63 n = (if sint n < 0 then - 1 else 0)"
  proof (rule bit_word_eqI)
    fix i assume "i < LENGTH(64)"
    then show "bit (signed_drop_bit 63 n) i \<longleftrightarrow> bit (if sint n < 0 then - 1 else 0 :: 64 word) i"
      by (cases "i = 0") (simp_all add: bit_signed_drop_bit_iff neg)
  qed
  then have "zz n = (if sint n < 0 then - (n * 2) - 1 else n * 2)"
    by (simp add: zz_def not_eq_complement push_bit_eq_mult)
  also have "\<dots> = word_of_int (if sint n < 0 then - 2 * sint n - 1 else 2 * sint n)"
    by (subst (2 3) n) simp
  finally show ?thesis .
qed

lemma uint_zz: "uint (zz n) = (if sint n < 0 then - 2 * sint n - 1 else 2 * sint n)"
proof -
  have "- (2 ^ 63) \<le> sint n" "sint n < 2 ^ 63" using sint_ge [of n] sint_lt [of n] by simp_all
  then show ?thesis unfolding zz_of_int by (intro uint_of_int_small) auto
qed

subsection \<open>One code word\<close>

definition rice_code :: "u64 \<Rightarrow> nat \<Rightarrow> bool list" where
  "rice_code u k = replicate (unat (drop_bit k u)) True @ False # map (bit u) [0..<k]"

lemma length_rice_code: "length (rice_code u k) = unat (drop_bit k u) + 1 + k"
  by (simp add: rice_code_def)

definition joined :: "nat \<Rightarrow> nat \<Rightarrow> bool list \<Rightarrow> u64" where
  "joined t k bs = shl64 (of_nat t) k OR bits_value (take k (drop (Suc t) bs))"

lemma run_length_replicate: "run_length (replicate t True @ False # bs) = t"
  by (induction t) (simp_all add: run_length_def)

lemma run_length_decomp:
  "run_length bs < length bs \<Longrightarrow> bs = replicate (run_length bs) True @ False # drop (Suc (run_length bs)) bs"
proof (induction bs)
  case (Cons b bs)
  then show ?case by (cases b) (auto simp: run_length_def)
qed simp

lemma bit_joined:
  assumes "k \<le> 63" "t < 2 ^ (64 - k)" "k \<le> length bs - Suc t"
  shows "bit (joined t k bs) i \<longleftrightarrow> (if i < k then bs ! (Suc t + i) else bit t (i - k))"
proof -
  have t: "bit (of_nat t :: u64) j \<longleftrightarrow> bit t j" if "j < 64" for j using that by (simp add: bit_of_nat_iff)
  have small: "i < 64" if "bit t (i - k)"
  proof (rule ccontr)
    assume "\<not> i < 64"
    have "(2 :: nat) ^ (64 - k) \<le> 2 ^ (i - k)" using \<open>\<not> i < 64\<close> by (intro power_increasing) simp_all
    with assms(2) have "t < 2 ^ (i - k)" by (rule order.strict_trans2)
    with that show False by (simp add: bit_iff_odd)
  qed
  show ?thesis
    using assms t [of "i - k"] small
    by (auto simp: joined_def shl64_def bit_or_iff bit_push_bit_iff bit_bits_value not_le)
qed

lemma drop_bit_joined:
  assumes "k \<le> 63" "t < 2 ^ (64 - k)" "k \<le> length bs - Suc t"
  shows "unat (drop_bit k (joined t k bs)) = t"
proof -
  have "drop_bit k (joined t k bs) = of_nat t"
  proof (rule bit_word_eqI)
    fix i assume "i < LENGTH(64)"
    then show "bit (drop_bit k (joined t k bs)) i \<longleftrightarrow> bit (of_nat t :: u64) i"
      by (simp add: bit_drop_bit_eq bit_joined [OF assms] bit_of_nat_iff)
  qed
  moreover have "t < 2 ^ 64" using assms(2) power_increasing [of "64 - k" 64 "2 :: nat"] by simp
  ultimately show ?thesis by (simp add: unat_of_nat)
qed

lemma unat_drop_bit_less: "k \<le> 63 \<Longrightarrow> unat (drop_bit k (u :: u64)) < 2 ^ (64 - k)"
proof -
  assume "k \<le> 63"
  then have "unat u < 2 ^ (64 - k) * 2 ^ k" using unat_lt2p [of u] by (simp flip: power_add)
  then have "unat u div 2 ^ k < 2 ^ (64 - k)" by (simp add: div_less_iff_less_mult)
  then show ?thesis unfolding unat_drop_bit_eq by (simp add: drop_bit_eq_div)
qed

lemma rice_code_prefix_iff:
  assumes k: "k \<le> 63"
  shows "(\<exists>tail. bs = rice_code u k @ tail) \<longleftrightarrow>
     run_length bs < length bs \<and> k \<le> length bs - Suc (run_length bs) \<and> run_length bs < 2 ^ (64 - k)
     \<and> u = joined (run_length bs) k bs"
proof
  assume "\<exists>tail. bs = rice_code u k @ tail"
  then obtain tail where bs: "bs = replicate (unat (drop_bit k u)) True @ False # map (bit u) [0..<k] @ tail"
    by (auto simp: rice_code_def)
  have t: "run_length bs = unat (drop_bit k u)" by (simp add: bs run_length_replicate)
  have len: "run_length bs < length bs" "k \<le> length bs - Suc (run_length bs)" by (simp_all add: t) (simp_all add: bs)
  have small: "run_length bs < 2 ^ (64 - k)" using unat_drop_bit_less [OF k] by (simp add: t)
  have "u = joined (run_length bs) k bs"
  proof (rule bit_word_eqI)
    fix i assume "i < LENGTH(64)"
    have "bs ! (Suc (run_length bs) + i) = bit u i" if "i < k"
      unfolding t using that by (simp add: bs nth_append)
    moreover have "bit (unat (drop_bit k u)) (i - k) \<longleftrightarrow> bit u i" if "\<not> i < k"
      using that by (simp add: bit_unsigned_iff bit_drop_bit_eq)
    ultimately show "bit u i \<longleftrightarrow> bit (joined (run_length bs) k bs) i"
      unfolding bit_joined [OF k small len(2)] by (simp add: t)
  qed
  with len small show "run_length bs < length bs \<and> k \<le> length bs - Suc (run_length bs)
      \<and> run_length bs < 2 ^ (64 - k) \<and> u = joined (run_length bs) k bs" by simp
next
  assume *: "run_length bs < length bs \<and> k \<le> length bs - Suc (run_length bs)
      \<and> run_length bs < 2 ^ (64 - k) \<and> u = joined (run_length bs) k bs"
  let ?t = "run_length bs" and ?d = "drop (Suc (run_length bs)) bs"
  have "map (bit u) [0..<k] = take k ?d"
    using * by (intro nth_equalityI) (simp_all add: bit_joined [OF k])
  moreover have "unat (drop_bit k u) = ?t" using * drop_bit_joined [OF k] by simp
  ultimately have "rice_code u k @ drop k ?d = replicate ?t True @ False # ?d"
    by (simp add: rice_code_def del: drop_drop)
  with run_length_decomp [of bs] * show "\<exists>tail. bs = rice_code u k @ tail" by metis
qed

lemma reader_read_bits_eq0:
  assumes "reader_ok r" "count \<le> 63"
  shows "reader_read_bits r count =
     (if length (rest_bits r) < count then Inl InvalidProof
      else Inr (bits_value (take count (rest_bits r)), advance r count))"
proof (cases "count = 0")
  case True
  then show ?thesis by (simp add: reader_read_bits_def bits_value_def)
qed (use assms reader_read_bits_eq in simp)

definition admissible :: "nat \<Rightarrow> nat \<Rightarrow> u64 \<Rightarrow> i64 \<Rightarrow> bool" where
  "admissible k width max_quotient n \<longleftrightarrow>
     0 < width \<and> width \<le> 63 \<and> in_zigzag_range width n \<and> drop_bit k (zz n) \<le> max_quotient"

lemma decode_one_Inr:
  assumes ok: "reader_ok r" and k: "k \<le> 63" and max: "unat max_quotient < 2 ^ (64 - k)"
  shows "golomb_rice_decode_one_from r k width max_quotient = Inr (n, r') \<longleftrightarrow>
     admissible k width max_quotient n \<and> (\<exists>tail. rest_bits r = rice_code (zz n) k @ tail)
     \<and> r' = advance r (length (rice_code (zz n) k))"
proof -
  let ?bs = "rest_bits r" and ?t = "run_length (rest_bits r)"
  have unary: "read_unary_ones r max_quotient =
      (if ?t < length ?bs \<and> ?t \<le> unat max_quotient then Inr (of_nat ?t, advance r (Suc ?t)) else Inl InvalidProof)"
    using read_unary_from_eq [OF ok, of 0 max_quotient] by (simp add: read_unary_ones_def Let_def)
  have decode: "golomb_rice_decode_one_from r k width max_quotient =
      bindE (read_unary_ones r max_quotient) (\<lambda>(quot, r1). bindE (reader_read_bits r1 k)
         (\<lambda>(remainder, r2). bindE (zigzag_decode (shl64 quot k OR remainder) width) (\<lambda>n. Inr (n, r2))))"
    by (cases "k = 0") (simp_all add: golomb_rice_decode_one_from_def bindE_assoc case_prod_unfold shl64_def
        reader_read_bits_def [of _ 0])
  have "golomb_rice_decode_one_from r k width max_quotient = Inr (n, r') \<longleftrightarrow>
      ?t < length ?bs \<and> ?t \<le> unat max_quotient \<and> k \<le> length ?bs - Suc ?t
      \<and> zigzag_decode (joined ?t k ?bs) width = Inr n \<and> r' = advance r (Suc ?t + k)"
  proof (cases "?t < length ?bs \<and> ?t \<le> unat max_quotient")
    case True
    then have "reader_ok (advance r (Suc ?t))" by (intro advance_ok [OF ok]) simp
    from reader_read_bits_eq0 [OF this k] True show ?thesis
      unfolding decode unary by (auto simp: joined_def bindE_Inr_iff not_less)
  qed (unfold decode unary, auto)
  also have "\<dots> \<longleftrightarrow> admissible k width max_quotient n \<and> (\<exists>tail. ?bs = rice_code (zz n) k @ tail)
     \<and> r' = advance r (length (rice_code (zz n) k))"
  proof -
    have "?t \<le> unat max_quotient \<Longrightarrow> ?t < 2 ^ (64 - k)" using max by simp
    then show ?thesis
      unfolding rice_code_prefix_iff [OF k] zigzag_decode_Inr admissible_def length_rice_code word_le_nat_alt
      using drop_bit_joined [OF k, of ?t ?bs] by auto
  qed
  finally show ?thesis .
qed

subsection \<open>The writer on bits\<close>

definition pad_len :: "nat \<Rightarrow> nat" where
  "pad_len n = (8 - n mod 8) mod 8"

lemma pad_len_cases:
  obtains "n mod 8 = 0" "pad_len n = 0" "pad_len (Suc n) = 7"
  | "n mod 8 \<noteq> 0" "pad_len n = 8 - n mod 8" "pad_len n = Suc (pad_len (Suc n))"
proof (cases "n mod 8 = 0")
  case False
  have "n mod 8 < 8" by simp
  then consider "n mod 8 = 1" | "n mod 8 = 2" | "n mod 8 = 3" | "n mod 8 = 4" | "n mod 8 = 5" | "n mod 8 = 6"
    | "n mod 8 = 7" using False by linarith
  then have "pad_len n = 8 - n mod 8" "pad_len n = Suc (pad_len (Suc n))"
    by (cases; simp add: pad_len_def mod_Suc)+
  with False that(2) show ?thesis by blast
qed (use that(1) in \<open>simp add: pad_len_def mod_Suc\<close>)

definition padded_bits :: "bool list \<Rightarrow> bool list" where
  "padded_bits bs = bs @ replicate (pad_len (length bs)) False"

definition writes :: "bit_writer \<Rightarrow> bool list \<Rightarrow> bool" where
  "writes w bs \<longleftrightarrow> bw_bit_pos w = length bs \<and> byte_bits (bw_bytes w) = padded_bits bs"

lemma writes_default: "writes bit_writer_default []"
  by (simp add: writes_def bit_writer_default_def padded_bits_def pad_len_def byte_bits_def)

lemma byte_bits_set:
  assumes "i < length bs" "k < 8"
  shows "byte_bits (bs[i := bs ! i OR push_bit k 1]) = (byte_bits bs)[8 * i + k := True]"
proof (rule nth_equalityI)
  fix j assume j: "j < length (byte_bits (bs[i := bs ! i OR push_bit k 1]))"
  then have "j < 8 * length bs" by simp
  then have lt: "j div 8 < length bs" by (simp add: less_mult_imp_div_less mult.commute)
  have eq: "j = 8 * i + k \<longleftrightarrow> j div 8 = i \<and> j mod 8 = k" using assms(2) by auto
  have "bit (push_bit k 1 :: byte) (j mod 8) \<longleftrightarrow> j mod 8 = k"
    using assms(2) by (auto simp: bit_exp_iff)
  then show "byte_bits (bs[i := bs ! i OR push_bit k 1]) ! j = (byte_bits bs)[8 * i + k := True] ! j"
    using j lt eq assms(1) by (auto simp: nth_byte_bits nth_list_update bit_or_iff)
qed simp

lemma length_padded_bits: "length (padded_bits bs) = length bs + pad_len (length bs)"
  by (simp add: padded_bits_def)

lemma writes_write_bit:
  assumes "writes w bs"
  shows "writes (write_bit w b) (bs @ [b])"
proof -
  let ?n = "length bs" and ?bytes = "bw_bytes w"
  have pos: "bw_bit_pos w = ?n" and bits: "byte_bits ?bytes = padded_bits bs" using assms by (simp_all add: writes_def)
  have len: "8 * length ?bytes = ?n + pad_len ?n"
    using arg_cong [OF bits, of length] by (simp add: length_padded_bits)
  define ext where "ext = (if length ?bytes \<le> ?n div 8 then ?bytes @ [0] else ?bytes)"
  have zero: "byte_bits [0] = False # replicate 7 False" by (simp add: byte_bits_def upt_rec numeral_eq_Suc)
  have ext_bits: "byte_bits ext = bs @ False # replicate (pad_len (Suc ?n)) False"
  proof (cases ?n rule: pad_len_cases)
    case 1
    then have "length ?bytes \<le> ?n div 8" using len by linarith
    with 1 zero show ?thesis
      by (simp add: ext_def byte_bits_append bits padded_bits_def)
  next
    case 2
    have "8 * length ?bytes = 8 * (?n div 8) + 8" using len 2(2) mult_div_mod_eq [of 8 ?n] mod_less_divisor [of 8 ?n] by linarith
    then have "\<not> length ?bytes \<le> ?n div 8" by simp
    with 2(3) show ?thesis by (simp add: ext_def bits padded_bits_def)
  qed
  have "8 * length ext = Suc (?n + pad_len (Suc ?n))" using arg_cong [OF ext_bits, of length] by simp
  then have idx: "?n div 8 < length ext" by linarith
  have set: "byte_bits (ext[?n div 8 := ext ! (?n div 8) OR push_bit (?n mod 8) 1])
      = bs @ True # replicate (pad_len (Suc ?n)) False"
    using byte_bits_set [OF idx, of "?n mod 8"] by (simp add: ext_bits)
  have "write_bit w b = \<lparr>bw_bytes = (if b then ext[?n div 8 := ext ! (?n div 8) OR push_bit (?n mod 8) 1] else ext),
      bw_bit_pos = ?n + 1\<rparr>" by (simp add: write_bit_def pos ext_def Let_def)
  then show ?thesis using set ext_bits by (cases b) (simp_all add: writes_def padded_bits_def)
qed

lemma writes_write_bits: "writes w bs \<Longrightarrow> writes (writer_write_bits w v k) (bs @ map (bit v) [0..<k])"
proof -
  assume w: "writes w bs"
  show ?thesis unfolding writer_write_bits_def
  proof (induction k)
    case (Suc k)
    from writes_write_bit [OF this] show ?case by (simp add: and_one_bit)
  qed (simp add: w)
qed

lemma writes_ones: "writes w bs \<Longrightarrow> writes (((\<lambda>w. write_bit w True) ^^ q) w) (bs @ replicate q True)"
proof (induction q)
  case (Suc q)
  then show ?case using writes_write_bit [of _ "bs @ replicate q True" True] by (simp add: replicate_append_same)
qed simp

lemma encode_one_Inr:
  assumes "k \<le> 63" and w: "writes w bs"
  shows "golomb_rice_encode_one_into w n k width = Inr w' \<Longrightarrow>
           0 < width \<and> width \<le> 63 \<and> in_zigzag_range width n \<and> writes w' (bs @ rice_code (zz n) k)"
    and "0 < width \<Longrightarrow> width \<le> 63 \<Longrightarrow> in_zigzag_range width n \<Longrightarrow> \<exists>w'. golomb_rice_encode_one_into w n k width = Inr w'"
proof -
  assume enc: "golomb_rice_encode_one_into w n k width = Inr w'"
  let ?u = "zz n"
  let ?w = "write_bit (((\<lambda>w. write_bit w True) ^^ unat (drop_bit k ?u)) w) False"
  have range: "0 < width \<and> width \<le> 63 \<and> in_zigzag_range width n"
    using enc by (auto simp: golomb_rice_encode_one_into_def bindE_Inr_iff zigzag_encode_Inr)
  have w': "w' = (if k = 0 then ?w else writer_write_bits ?w (?u AND (push_bit k 1 - 1)) k)"
    using enc assms(1) by (cases "k = 0")
      (auto simp: golomb_rice_encode_one_into_def bindE_Inr_iff zigzag_encode_Inr shr64_def shl64_def Let_def)
  have mask: "map (bit (?u AND (push_bit k 1 - 1))) [0..<k] = map (bit ?u) [0..<k]"
    using assms(1) by (auto simp: bit_and_iff push_bit_of_1 bit_mask_iff simp flip: mask_eq_exp_minus_1)
  have "writes ?w (bs @ replicate (unat (drop_bit k ?u)) True @ [False])"
    using writes_write_bit [OF writes_ones [OF w]] by simp
  note ones = this
  have "writes w' (bs @ rice_code ?u k)"
  proof (cases "k = 0")
    case True
    with ones show ?thesis by (simp add: w' rice_code_def)
  next
    case False
    from writes_write_bits [OF ones, of "?u AND (push_bit k 1 - 1)" k, unfolded mask] False show ?thesis
      unfolding w' rice_code_def by (simp only: if_False append_assoc append_Cons append_Nil)
  qed
  with range show "0 < width \<and> width \<le> 63 \<and> in_zigzag_range width n \<and> writes w' (bs @ rice_code (zz n) k)" by simp
qed (simp add: golomb_rice_encode_one_into_def bindE_Inr_iff zigzag_encode_Inr Let_def)

subsection \<open>Vectors as concatenated code words\<close>

definition codes :: "i64 list \<Rightarrow> nat \<Rightarrow> bool list" where
  "codes vals k = concat (map (\<lambda>n. rice_code (zz n) k) vals)"

lemma codes_simps [simp]: "codes [] k = []" "codes (n # ns) k = rice_code (zz n) k @ codes ns k"
  by (simp_all add: codes_def)

definition encodable :: "nat \<Rightarrow> i64 list \<Rightarrow> bool" where
  "encodable width vals \<longleftrightarrow> (\<forall>n \<in> set vals. 0 < width \<and> width \<le> 63 \<and> in_zigzag_range width n)"

lemma encode_fold:
  assumes k: "k \<le> 63" and "writes w bs"
  shows "\<exists>w'. (if encodable width vals
       then try_fold (\<lambda>w n. golomb_rice_encode_one_into w n k width) w vals = Inr w' \<and> writes w' (bs @ codes vals k)
       else \<nexists>v. try_fold (\<lambda>w n. golomb_rice_encode_one_into w n k width) w vals = Inr v)"
  using assms(2)
proof (induction vals arbitrary: w bs)
  case (Cons n ns)
  show ?case
  proof (cases "0 < width \<and> width \<le> 63 \<and> in_zigzag_range width n")
    case True
    then obtain w1 where w1: "golomb_rice_encode_one_into w n k width = Inr w1"
      using encode_one_Inr(2) [OF k Cons.prems] by blast
    with encode_one_Inr(1) [OF k Cons.prems] have "writes w1 (bs @ rice_code (zz n) k)" by blast
    from Cons.IH [OF this] True w1 show ?thesis by (auto simp: encodable_def split: if_splits)
  next
    case False
    then have "\<nexists>v. golomb_rice_encode_one_into w n k width = Inr v"
      using encode_one_Inr(1) [OF k Cons.prems] by blast
    with False show ?thesis by (auto simp: encodable_def bindE_Inr_iff)
  qed
qed (simp add: encodable_def)

lemma encode_vec_Inr:
  assumes "k \<le> 63"
  shows "golomb_rice_encode_vec vals k width = Inr bytes \<longleftrightarrow>
     encodable width vals \<and> byte_bits bytes = padded_bits (codes vals k)"
proof -
  obtain w where w: "if encodable width vals
       then try_fold (\<lambda>w n. golomb_rice_encode_one_into w n k width) bit_writer_default vals = Inr w
          \<and> writes w ([] @ codes vals k)
       else \<nexists>v. try_fold (\<lambda>w n. golomb_rice_encode_one_into w n k width) bit_writer_default vals = Inr v"
    using encode_fold [OF assms writes_default] by blast
  show ?thesis
  proof (cases "encodable width vals")
    case True
    with w show ?thesis by (auto simp: golomb_rice_encode_vec_def writes_def intro: byte_bits_inj)
  next
    case False
    with w show ?thesis by (auto simp: golomb_rice_encode_vec_def bindE_Inr_iff)
  qed
qed

lemma encode_vec_total:
  "k \<le> 63 \<Longrightarrow> encodable width vals \<Longrightarrow> \<exists>bytes. golomb_rice_encode_vec vals k width = Inr bytes"
  using encode_fold [OF _ writes_default, of k width vals] by (auto simp: golomb_rice_encode_vec_def)

lemma decode_loop_Inr:
  assumes k: "k \<le> 63" and max: "unat max_quotient < 2 ^ (64 - k)" and "reader_ok r"
  shows "decode_loop count k width max_quotient Inr r = Inr (vals, r') \<longleftrightarrow>
     length vals = count \<and> (\<forall>n \<in> set vals. admissible k width max_quotient n)
     \<and> (\<exists>tail. rest_bits r = codes vals k @ tail) \<and> r' = advance r (length (codes vals k))"
  using assms(3)
proof (induction count arbitrary: r vals)
  case 0
  then show ?case by auto
next
  case (Suc count)
  note one = decode_one_Inr [OF Suc.prems k max, of width]
  have ok': "reader_ok (advance r (length (rice_code (zz n) k)))" if "\<exists>tail. rest_bits r = rice_code (zz n) k @ tail" for n
    using that by (intro advance_ok [OF Suc.prems]) auto
  show ?case
  proof (cases vals)
    case Nil
    then show ?thesis by (auto simp: bindE_Inr_iff)
  next
    case (Cons n ns)
    have "decode_loop (Suc count) k width max_quotient Inr r = Inr (vals, r') \<longleftrightarrow>
        (\<exists>r1. golomb_rice_decode_one_from r k width max_quotient = Inr (n, r1)
           \<and> decode_loop count k width max_quotient Inr r1 = Inr (ns, r'))"
      by (auto simp: Cons bindE_Inr_iff)
    also have "\<dots> \<longleftrightarrow> length vals = Suc count \<and> (\<forall>n \<in> set vals. admissible k width max_quotient n)
       \<and> (\<exists>tail. rest_bits r = codes vals k @ tail) \<and> r' = advance r (length (codes vals k))"
      unfolding one using Suc.IH [OF ok', of n ns] by (auto simp: Cons)
    finally show ?thesis .
  qed
qed

lemma consume_zero_bits_Inr:
  "reader_ok r \<Longrightarrow> consume_zero_bits k r = Inr r' \<longleftrightarrow>
     (\<exists>tail. rest_bits r = replicate k False @ tail) \<and> r' = advance r k"
proof (induction k arbitrary: r)
  case (Suc k)
  show ?case
  proof (cases "rest_bits r")
    case (Cons b bs)
    have ok: "reader_ok (advance r 1)" by (rule advance_ok [OF Suc.prems]) (simp add: Cons)
    from Suc.IH [OF ok] Suc.prems show ?thesis by (auto simp: read_bit_eq Cons)
  qed (use Suc.prems in \<open>simp add: read_bit_eq\<close>)
qed auto

lemma consume_padding_ok:
  assumes "reader_ok r"
  shows "(\<exists>r'. golomb_rice_consume_canonical_padding r = Inr r') \<longleftrightarrow>
     rest_bits r = replicate (pad_len (reader_bit_pos r)) False"
proof -
  let ?k = "pad_len (reader_bit_pos r)"
  have ok: "reader_ok (advance r ?k)" if "rest_bits r = replicate ?k False @ tail" for tail
    using that by (intro advance_ok [OF assms]) simp
  show ?thesis
    unfolding golomb_rice_consume_canonical_padding_def pad_len_def [symmetric]
    using ok by (auto simp: bindE_Inr_iff consume_zero_bits_Inr [OF assms] remaining_bits_eq split: if_splits)
qed

lemma decode_vec_Inr:
  assumes k: "k \<le> 63" and max: "unat max_quotient < 2 ^ (64 - k)"
    and size: "8 * length bytes \<le> usize_max" and "reserve count"
  shows "golomb_rice_decode_vec reserve bytes count k width max_quotient Inr = Inr vals \<longleftrightarrow>
     length vals = count \<and> (\<forall>n \<in> set vals. admissible k width max_quotient n)
     \<and> byte_bits bytes = padded_bits (codes vals k)"
proof -
  let ?r = "bit_reader_new bytes" and ?c = "codes vals k"
  have ok: "reader_ok ?r" using size by (simp add: reader_ok_def bit_reader_new_def)
  have rest: "rest_bits ?r = byte_bits bytes" by (simp add: rest_bits_def bit_reader_new_def)
  have pos: "reader_bit_pos (advance ?r n) = n" for n by (simp add: advance_def bit_reader_new_def)
  have "golomb_rice_decode_vec reserve bytes count k width max_quotient Inr = Inr vals \<longleftrightarrow>
      (\<exists>r'. decode_loop count k width max_quotient Inr ?r = Inr (vals, r')
        \<and> (\<exists>r''. golomb_rice_consume_canonical_padding r' = Inr r''))"
    using assms(4) by (auto simp: golomb_rice_decode_vec_def bindE_Inr_iff)
  also have "\<dots> \<longleftrightarrow> length vals = count \<and> (\<forall>n \<in> set vals. admissible k width max_quotient n)
     \<and> (\<exists>tail. byte_bits bytes = ?c @ tail) \<and> drop (length ?c) (byte_bits bytes) = replicate (pad_len (length ?c)) False"
  proof -
    have "(\<exists>r''. golomb_rice_consume_canonical_padding (advance ?r (length ?c)) = Inr r'') \<longleftrightarrow>
        drop (length ?c) (byte_bits bytes) = replicate (pad_len (length ?c)) False"
      if "\<exists>tail. byte_bits bytes = ?c @ tail"
    proof -
      have "length ?c \<le> length (byte_bits bytes)" using that by (metis length_append le_add1)
      then have "reader_ok (advance ?r (length ?c))" by (intro advance_ok [OF ok]) (simp add: rest)
      from consume_padding_ok [OF this] show ?thesis by (simp add: rest pos)
    qed
    then show ?thesis unfolding decode_loop_Inr [OF k max ok] rest by blast
  qed
  also have "\<dots> \<longleftrightarrow> length vals = count \<and> (\<forall>n \<in> set vals. admissible k width max_quotient n)
     \<and> byte_bits bytes = padded_bits ?c" by (auto simp: padded_bits_def) 
  finally show ?thesis .
qed

subsection \<open>Lengths\<close>

lemma quotient_for_coord_Inr:
  "k \<le> 63 \<Longrightarrow> golomb_rice_quotient_for_coord n k width = Inr q \<longleftrightarrow>
     0 < width \<and> width \<le> 63 \<and> in_zigzag_range width n \<and> q = drop_bit k (zz n)"
  by (auto simp: golomb_rice_quotient_for_coord_def bindE_Inr_iff zigzag_encode_Inr shr64_def)

lemma unat_zz_bound: "in_zigzag_range width n \<Longrightarrow> 0 < width \<Longrightarrow> width \<le> 63 \<Longrightarrow> unat (zz n) < 2 ^ width"
proof -
  assume "in_zigzag_range width n" and w: "0 < width" "width \<le> 63"
  then have "- (2 ^ (width - 1)) \<le> sint n" "sint n < 2 ^ (width - 1)"
    by (auto simp: in_zigzag_range_def sint_zigzag_bounds [OF w])
  moreover have "(2 :: int) ^ width = 2 * 2 ^ (width - 1)" using w(1) by (simp flip: power_Suc)
  ultimately have "uint (zz n) < 2 ^ width" unfolding uint_zz by auto
  then show ?thesis by (metis of_nat_less_iff of_nat_numeral of_nat_power uint_nat)
qed

lemma unat_drop_bit_le: "unat (drop_bit k (u :: u64)) \<le> unat u"
  unfolding unat_drop_bit_eq by (simp add: drop_bit_eq_div)

lemma coord_wire_bits_Inr:
  assumes k: "k \<le> 63"
  shows "golomb_rice_coord_wire_bits n k width = Inr b \<longleftrightarrow>
     0 < width \<and> width \<le> 63 \<and> in_zigzag_range width n \<and> b = length (rice_code (zz n) k)"
proof -
  have "saturating_add ((unat (drop_bit k (zz n)) + 1) mod 2 ^ 64) k = length (rice_code (zz n) k)"
    if "0 < width" "width \<le> 63" "in_zigzag_range width n"
  proof -
    have "unat (zz n) < 2 ^ 63"
      using unat_zz_bound [OF that(3,1,2)] power_increasing [OF that(2), of "2 :: nat"] by simp
    then have "unat (drop_bit k (zz n)) < 2 ^ 63" using unat_drop_bit_le [of k "zz n"] by simp
    then show ?thesis using k by (simp add: length_rice_code saturating_add_def usize_max_def)
  qed
  then show ?thesis
    by (auto simp: golomb_rice_coord_wire_bits_def bindE_Inr_iff quotient_for_coord_Inr [OF k] Let_def)
qed

lemma bits_for_coord_Inr:
  assumes k: "k \<le> 63"
  shows "golomb_rice_bits_for_coord n k width = Inr b \<longleftrightarrow>
     0 < width \<and> width \<le> 63 \<and> in_zigzag_range width n \<and> b = length (rice_code (zz n) k)"
  using encode_one_Inr [OF k writes_default, where n = n and width = width]
  by (auto simp: golomb_rice_bits_for_coord_def bindE_Inr_iff writes_def)

lemma try_fold_checked_sum:
  assumes "a \<le> usize_max"
  shows "try_fold (\<lambda>acc n. bindE (f n) (\<lambda>b. ok_or (checked_add b acc) e)) a xs = Inr t \<longleftrightarrow>
     (\<exists>bs. map f xs = map Inr bs \<and> t = a + sum_list bs \<and> t \<le> usize_max)"
  using assms
proof (induction xs arbitrary: a)
  case (Cons x xs)
  have "try_fold (\<lambda>acc n. bindE (f n) (\<lambda>b. ok_or (checked_add b acc) e)) a (x # xs) = Inr t \<longleftrightarrow>
      (\<exists>b. f x = Inr b \<and> b + a \<le> usize_max
         \<and> try_fold (\<lambda>acc n. bindE (f n) (\<lambda>b. ok_or (checked_add b acc) e)) (b + a) xs = Inr t)"
    by (auto simp: bindE_Inr_iff ok_or_Inr_iff checked_add_def split: if_splits)
  also have "\<dots> \<longleftrightarrow> (\<exists>b bs. f x = Inr b \<and> map f xs = map Inr bs \<and> t = b + a + sum_list bs \<and> t \<le> usize_max)"
    using Cons.IH by fastforce
  also have "\<dots> \<longleftrightarrow> (\<exists>bs. map f (x # xs) = map Inr bs \<and> t = a + sum_list bs \<and> t \<le> usize_max)"
    by (auto simp: Cons_eq_map_conv ac_simps)
  finally show ?case .
qed auto

lemma code_lengths:
  assumes "\<And>n b. f n = Inr b \<longleftrightarrow> 0 < width \<and> width \<le> 63 \<and> in_zigzag_range width n \<and> b = length (rice_code (zz n) k)"
  shows "try_fold (\<lambda>acc n. bindE (f n) (\<lambda>b. ok_or (checked_add b acc) e)) 0 vals = Inr t \<longleftrightarrow>
     encodable width vals \<and> t = length (codes vals k) \<and> t \<le> usize_max"
proof -
  have "map f vals = map Inr bs \<longleftrightarrow> encodable width vals \<and> bs = map (\<lambda>n. length (rice_code (zz n) k)) vals" for bs
  proof (induction vals arbitrary: bs)
    case (Cons n ns)
    then show ?case using assms [of n] by (cases bs) (auto simp: encodable_def)
  qed (auto simp: encodable_def)
  then show ?thesis
    unfolding try_fold_checked_sum [OF zero_le] by (auto simp: codes_def length_concat comp_def)
qed

lemma total_wire_bits_Inr:
  "k \<le> 63 \<Longrightarrow> golomb_rice_total_wire_bits vals k width = Inr t \<longleftrightarrow>
     encodable width vals \<and> t = length (codes vals k) \<and> t \<le> usize_max"
  unfolding golomb_rice_total_wire_bits_def by (rule code_lengths) (rule coord_wire_bits_Inr)

lemma total_bits_Inr:
  "k \<le> 63 \<Longrightarrow> golomb_rice_total_bits vals k width = Inr t \<longleftrightarrow>
     encodable width vals \<and> t = length (codes vals k) \<and> t \<le> usize_max"
  unfolding golomb_rice_total_bits_def by (rule code_lengths) (rule bits_for_coord_Inr)

lemma padded_bytes_length: "byte_bits bytes = padded_bits bs \<Longrightarrow> length bytes = (length bs + 7) div 8"
proof -
  assume "byte_bits bytes = padded_bits bs"
  from arg_cong [OF this, of length] have "8 * length bytes = length bs + pad_len (length bs)"
    by (simp add: length_padded_bits)
  moreover have "pad_len (length bs) < 8" by (simp add: pad_len_def)
  ultimately show ?thesis by linarith
qed

subsection \<open>Caps and norms\<close>

lemma values_within_cap_Inr:
  "golomb_rice_values_within_cap vals cap = Inr () \<longleftrightarrow> (\<forall>n \<in> set vals. \<bar>sint n\<bar> \<le> int cap)"
  unfolding golomb_rice_values_within_cap_def by (induction vals) (auto simp: bindE_Inr_iff nat_le_iff split: if_splits)

lemma zigzag_width_cap:
  assumes "cap < 2 ^ 62"
  shows "0 < golomb_rice_zigzag_width cap" and "golomb_rice_zigzag_width cap \<le> 63"
    and "int cap < 2 ^ (golomb_rice_zigzag_width cap - 1)"
proof -
  have len: "bit_length cap \<le> 62" using assms by (simp add: bit_length_le_iff)
  then have width: "golomb_rice_zigzag_width cap = bit_length cap + 1"
    by (auto simp: golomb_rice_zigzag_width_def leading_zeros_128_def bit_length.simps [of 0])
  then show "0 < golomb_rice_zigzag_width cap" "golomb_rice_zigzag_width cap \<le> 63" using len by simp_all
  have "cap < 2 ^ bit_length cap" by (simp flip: bit_length_le_iff)
  then have "int cap < int (2 ^ bit_length cap)" by (simp only: of_nat_less_iff)
  then show "int cap < 2 ^ (golomb_rice_zigzag_width cap - 1)" by (simp add: width)
qed

lemma within_cap_admissible:
  assumes cap: "cap < 2 ^ 62" and k: "k \<le> 63" and n: "\<bar>sint n\<bar> \<le> int cap"
  shows "in_zigzag_range (golomb_rice_zigzag_width cap) n"
    and "golomb_rice_max_quotient_for_cap cap k (golomb_rice_zigzag_width cap) = Inr (drop_bit k (zz (of_nat cap)))"
    and "drop_bit k (zz n) \<le> drop_bit k (zz (of_nat cap))"
proof -
  note w = zigzag_width_cap [OF cap]
  have sint: "sint (of_nat cap :: 64 word) = int cap" using cap sint_of_int_small [of "int cap"] by simp
  have range: "in_zigzag_range (golomb_rice_zigzag_width cap) m" if "\<bar>sint m\<bar> \<le> int cap" for m
    unfolding in_zigzag_range_def sint_zigzag_bounds [OF w(1,2)] using that w(3) by linarith
  from range [OF n] show "in_zigzag_range (golomb_rice_zigzag_width cap) n" .
  have "golomb_rice_quotient_for_coord (of_nat cap) k (golomb_rice_zigzag_width cap) = Inr (drop_bit k (zz (of_nat cap)))"
    using range [of "of_nat cap"] w sint by (simp add: quotient_for_coord_Inr [OF k])
  then show "golomb_rice_max_quotient_for_cap cap k (golomb_rice_zigzag_width cap) = Inr (drop_bit k (zz (of_nat cap)))"
    using cap by (simp add: golomb_rice_max_quotient_for_cap_def)
  have "uint (zz n) \<le> uint (zz (of_nat cap))" using n by (auto simp: uint_zz sint)
  then have "zz n \<le> zz (of_nat cap)" by (simp only: word_le_def)
  then have "unat (zz n) div 2 ^ k \<le> unat (zz (of_nat cap)) div 2 ^ k" by (intro div_le_mono) (simp only: word_le_nat_alt)
  then show "drop_bit k (zz n) \<le> drop_bit k (zz (of_nat cap))"
    unfolding word_le_nat_alt unat_drop_bit_eq by (simp add: drop_bit_eq_div)
qed

lemma isqrt_bounds: "isqrt n * isqrt n \<le> n \<and> n < (isqrt n + 1) * (isqrt n + 1)"
proof (induction n rule: isqrt.induct)
  case (1 n)
  show ?case
  proof (cases "n = 0")
    case False
    define s where "s = isqrt (n div 4)"
    have IH: "s * s \<le> n div 4" "n div 4 < (s + 1) * (s + 1)" using 1 False by (simp_all add: s_def)
    have lower: "2 * s * (2 * s) \<le> n"
    proof -
      have "4 * (s * s) \<le> 4 * (n div 4)" using IH(1) by simp
      also have "\<dots> \<le> n" by simp
      finally show ?thesis by (simp add: algebra_simps)
    qed
    have upper: "n < (2 * s + 2) * (2 * s + 2)"
    proof -
      have "n div 4 + 1 \<le> (s + 1) * (s + 1)" using IH(2) by simp
      then have "4 * (n div 4) + 4 \<le> 4 * ((s + 1) * (s + 1))" by simp
      moreover have "n < 4 * (n div 4) + 4" by simp
      ultimately show ?thesis by (simp add: algebra_simps)
    qed
    have rec: "isqrt n = (if (2 * s + 1) * (2 * s + 1) \<le> n then 2 * s + 1 else 2 * s)"
      using False by (subst isqrt.simps) (simp add: s_def Let_def)
    show ?thesis unfolding rec using lower upper by (auto simp: algebra_simps)
  qed (simp add: isqrt.simps)
qed

lemma isqrt_le: "m * m \<le> n \<Longrightarrow> m \<le> isqrt n"
proof (rule ccontr)
  assume "m * m \<le> n" "\<not> m \<le> isqrt n"
  then have "(isqrt n + 1) * (isqrt n + 1) \<le> m * m" by (intro mult_le_mono) simp_all
  with \<open>m * m \<le> n\<close> isqrt_bounds [of n] show False by simp
qed

text \<open>Cauchy and Schwarz on a list.\<close>

lemma square_expand: "sum_list (map (\<lambda>x. (x - a) * (x - a)) xs)
    = sum_list (map (\<lambda>x. x * x) xs) - 2 * a * sum_list xs + int (length xs) * (a * a)"
  by (induction xs) (simp_all add: algebra_simps)

lemma sum_square_le: "sum_list xs * sum_list xs \<le> int (length xs) * sum_list (map (\<lambda>x. x * x) (xs :: int list))"
proof (induction xs)
  case (Cons a xs)
  have "0 \<le> sum_list (map (\<lambda>x. (x - a) * (x - a)) xs)" by (intro sum_list_nonneg) auto
  with Cons.IH show ?case unfolding square_expand by (simp add: algebra_simps)
qed simp

lemma sum_list_div_le: "sum_list (map (\<lambda>x. x div d) xs) \<le> sum_list xs div (d :: nat)"
proof (induction xs)
  case (Cons x xs)
  have "x div d + sum_list xs div d \<le> (x + sum_list xs) div d" by (simp add: div_add1_eq [of x])
  with Cons.IH show ?case by simp
qed simp

lemma quotient_sum_bound:
  "sum_list (map (\<lambda>n. unat (drop_bit k (zz n))) vals) \<le> drop_bit k (2 * sum_list (map (\<lambda>n. nat \<bar>sint n\<bar>) vals))"
proof -
  have le: "unat (zz n) \<le> 2 * nat \<bar>sint n\<bar>" for n
  proof -
    have "uint (zz n) \<le> 2 * \<bar>sint n\<bar>" by (simp add: uint_zz)
    then show ?thesis by (metis (no_types, lifting) abs_ge_zero int_nat_eq nat_int_comparison(3) of_nat_mult
      of_nat_numeral uint_nat)
  qed
  have "sum_list (map (\<lambda>n. unat (drop_bit k (zz n))) vals) = sum_list (map (\<lambda>x. x div 2 ^ k) (map (\<lambda>n. unat (zz n)) vals))"
    unfolding unat_drop_bit_eq by (simp add: drop_bit_eq_div comp_def)
  also have "\<dots> \<le> sum_list (map (\<lambda>n. unat (zz n)) vals) div 2 ^ k" by (rule sum_list_div_le)
  also have "\<dots> \<le> sum_list (map (\<lambda>n. 2 * nat \<bar>sint n\<bar>) vals) div 2 ^ k"
    by (intro div_le_mono sum_list_mono le)
  finally show ?thesis by (simp add: drop_bit_eq_div sum_list_const_mult)
qed

lemma abs_sum_isqrt:
  assumes "sum_list (map (\<lambda>n. sint n * sint n) vals) \<le> int l2"
  shows "sum_list (map (\<lambda>n. nat \<bar>sint n\<bar>) vals) \<le> isqrt (length vals * l2)"
proof (rule isqrt_le)
  let ?S = "sum_list (map (\<lambda>n. nat \<bar>sint n\<bar>) vals)"
  have S: "int ?S = sum_list (map (\<lambda>n. \<bar>sint n\<bar>) vals)" by (induction vals) simp_all
  have "int ?S * int ?S \<le> int (length vals) * sum_list (map (\<lambda>x. x * x) (map (\<lambda>n. \<bar>sint n\<bar>) vals))"
    unfolding S using sum_square_le [of "map (\<lambda>n. \<bar>sint n\<bar>) vals"] by simp
  also have "map (\<lambda>x. x * x) (map (\<lambda>n. \<bar>sint n\<bar>) vals) = map (\<lambda>n. sint n * sint n) vals" by simp
  also have "int (length vals) * sum_list (map (\<lambda>n. sint n * sint n) vals) \<le> int (length vals) * int l2"
    using assms by (intro mult_left_mono) simp_all
  finally show "?S * ?S \<le> length vals * l2" by (simp flip: of_nat_mult)
qed

lemma length_codes: "length (codes vals k) = sum_list (map (\<lambda>n. unat (drop_bit k (zz n))) vals) + length vals * (k + 1)"
  by (induction vals) (simp_all add: length_rice_code)

subsection \<open>Properties\<close>

text \<open>
  C31: The terminal-response codec is exact.  With a zigzag width up to 63, up to 63 low bits and
  a quotient bound that leaves room for them, decoding a byte string to \<open>count\<close> values succeeds
  with the given values if and only if the string is the encoding of these values, there are
  \<open>count\<close> of them and none has a larger quotient: every vector has one encoding, and truncated
  strings, non-zero padding, trailing bytes and overlong unary runs are rejected.
\<close>

theorem golomb_rice_codec_exact:
  assumes "rice_low_bits \<le> 63" and "unat max_quotient < 2 ^ (64 - rice_low_bits)"
    and "8 * length bytes \<le> usize_max" and "reserve count"
  shows "golomb_rice_decode_vec reserve bytes count rice_low_bits width max_quotient Inr = Inr vals \<longleftrightarrow>
     golomb_rice_encode_vec vals rice_low_bits width = Inr bytes \<and> length vals = count
     \<and> (\<forall>n \<in> set vals. \<exists>q. golomb_rice_quotient_for_coord n rice_low_bits width = Inr q \<and> q \<le> max_quotient)"
  unfolding decode_vec_Inr [where reserve = reserve and count = count, OF assms] encode_vec_Inr [OF assms(1)] quotient_for_coord_Inr [OF assms(1)]
  by (auto simp: admissible_def encodable_def)

text \<open>
  C32: An admitted response survives the wire.  If the admission check passes for a coding scale
  and an admission cap, then the quotient bound of the cap exists, the values encode at the wire
  parameters, the payload stays within the planner's bit budget rounded up to bytes, and decoding
  it under that bound returns the values.
\<close>

theorem golomb_rice_admitted_roundtrip:
  assumes "golomb_rice_flat_admit_terminal_wire_with_caps vals coding_scale cap = Inr ()"
    and cap: "cap < 2 ^ 62" and scale: "coding_scale < 2 ^ 66" and "reserve (length vals)"
    and room: "(cap_rice_low_bits coding_scale + 2) * length vals + 7 \<le> usize_max"
  shows "\<exists>max_quotient bytes.
     golomb_rice_max_quotient_for_cap cap (wire_rice_low_bits coding_scale) (golomb_rice_zigzag_width cap) = Inr max_quotient
     \<and> golomb_rice_encode_vec vals (wire_rice_low_bits coding_scale) (golomb_rice_zigzag_width cap) = Inr bytes
     \<and> 8 * length bytes \<le> (cap_rice_low_bits coding_scale + 2) * length vals + 7
     \<and> golomb_rice_decode_vec reserve bytes (length vals) (wire_rice_low_bits coding_scale)
          (golomb_rice_zigzag_width cap) max_quotient Inr = Inr vals"
proof -
  let ?k = "wire_rice_low_bits coding_scale" and ?w = "golomb_rice_zigzag_width cap"
  let ?q = "drop_bit ?k (zz (of_nat cap))"
  have len: "bit_length coding_scale \<le> 66" using scale by (simp add: bit_length_le_iff)
  then have low: "cap_rice_low_bits coding_scale \<le> 65"
    by (auto simp: cap_rice_low_bits_def rice_low_bits_for_cap_def leading_zeros_128_def)
  then have k: "?k \<le> 63" by (simp add: wire_rice_low_bits_def OFFLINE_RICE_LOW_BITS_DELTA_def)
  have adm: "\<forall>n \<in> set vals. \<bar>sint n\<bar> \<le> int cap"
      "golomb_rice_values_fit_planner_wire_budget vals coding_scale ?k ?w = Inr ()"
    using assms(1) by (auto simp: golomb_rice_flat_admit_terminal_wire_with_caps_def bindE_Inr_iff map_err_Inr_iff
        values_within_cap_Inr split: if_splits)
  have "saturating_add (cap_rice_low_bits coding_scale) 2 = cap_rice_low_bits coding_scale + 2"
    using low by (simp add: saturating_add_def usize_max_def)
  then have budget: "encodable ?w vals" "length (codes vals ?k) \<le> (cap_rice_low_bits coding_scale + 2) * length vals"
    using adm(2) by (auto simp: golomb_rice_values_fit_planner_wire_budget_def bindE_Inr_iff ok_or_Inr_iff
        checked_mul_def tail_z_planner_bits_per_coord_def total_wire_bits_Inr [OF k] split: if_splits)
  note within = within_cap_admissible [OF cap k]
  obtain bytes where bytes: "golomb_rice_encode_vec vals ?k ?w = Inr bytes" using encode_vec_total [OF k budget(1)] by blast
  then have "length bytes = (length (codes vals ?k) + 7) div 8"
    by (intro padded_bytes_length) (simp add: encode_vec_Inr [OF k])
  with budget(2) have size: "8 * length bytes \<le> (cap_rice_low_bits coding_scale + 2) * length vals + 7" by linarith
  have "golomb_rice_decode_vec reserve bytes (length vals) ?k ?w ?q Inr = Inr vals"
    unfolding decode_vec_Inr [where reserve = reserve and count = "length vals",
      OF k unat_drop_bit_less [OF k] order_trans [OF size room] assms(4)]
    using bytes adm(1) within(1,3) zigzag_width_cap [OF cap] by (auto simp: encode_vec_Inr [OF k] admissible_def)
  with bytes size within(2) [of 0] show ?thesis by auto
qed

text \<open>
  C33: The norm-based payload estimate is an upper bound.  Whenever the planner's estimate for a
  number of values and a bound on the sum of their squares exists, every vector of that many
  values within that norm that encodes has an encoding no longer than the estimate.
\<close>

theorem golomb_rice_l2_estimate_bounds_payload:
  assumes "rice_low_bits \<le> 63"
    and "golomb_rice_l2_planner_payload_bytes (length vals) l2_sq_cap rice_low_bits = Some estimate"
    and "sum_list (map (\<lambda>n. sint n * sint n) vals) \<le> int l2_sq_cap"
    and "golomb_rice_encode_vec vals rice_low_bits width = Inr bytes"
  shows "length bytes \<le> estimate"
proof -
  let ?k = rice_low_bits and ?root = "isqrt (length vals * l2_sq_cap)"
  have est: "estimate = (length vals * (?k + 1) + drop_bit ?k (?root * 2) + 7) div 8"
    using assms(2) by (auto simp: golomb_rice_l2_planner_payload_bytes_def Option.bind_eq_Some_conv checked_mul_128_def
        checked_mul_def checked_add_def split: if_splits)
  have "drop_bit ?k (2 * sum_list (map (\<lambda>n. nat \<bar>sint n\<bar>) vals)) \<le> drop_bit ?k (?root * 2)"
    unfolding drop_bit_eq_div using abs_sum_isqrt [OF assms(3)] by (intro div_le_mono) simp
  with quotient_sum_bound [of ?k vals]
  have "length (codes vals ?k) \<le> length vals * (?k + 1) + drop_bit ?k (?root * 2)" by (simp add: length_codes)
  moreover have "length bytes = (length (codes vals ?k) + 7) div 8"
    using assms(4) by (intro padded_bytes_length) (simp add: encode_vec_Inr [OF assms(1)])
  ultimately show ?thesis unfolding est by (simp add: div_le_mono)
qed

theorem golomb_rice_codec_exact_witness:
  "golomb_rice_decode_vec (\<lambda>_. True) [6] 2 1 4 3 Inr = Inr [- 1, 1]"
proof -
  have zz: "zz (- 1) = 1" "zz 1 = 2" by (simp_all add: zz_of_int)
  have range: "in_zigzag_range 4 (- 1)" "in_zigzag_range 4 1"
    by (simp_all add: in_zigzag_range_def sint_zigzag_bounds)
  have "golomb_rice_encode_vec [- 1, 1] 1 4 = Inr [6]"
  proof -
    have "codes [- 1, 1] 1 = [False, True, True, False, False]" by (simp add: zz rice_code_def upt_rec bit_0)
    moreover have "byte_bits [6] = [False, True, True, False, False, False, False, False]"
      by (simp add: byte_bits_def upt_rec bit_0)
    moreover have "padded_bits [False, True, True, False, False] = [False, True, True, False, False, False, False, False]"
    proof -
      have "pad_len (Suc (Suc (Suc (Suc (Suc 0))))) = Suc (Suc (Suc 0))" by (simp add: pad_len_def)
      then show ?thesis by (simp add: padded_bits_def)
    qed
    moreover have "encodable 4 [- 1, 1]" by (simp add: encodable_def range)
    ultimately show ?thesis using encode_vec_Inr [of 1 "[- 1, 1]" 4 "[6]"] by (simp only:)
  qed
  moreover have "golomb_rice_quotient_for_coord n 1 4 = Inr (drop_bit 1 (zz n)) \<and> drop_bit 1 (zz n) \<le> 3"
    if "n \<in> {- 1, 1}" for n
    using that range zz by (auto simp: quotient_for_coord_Inr)
  ultimately show ?thesis
    using golomb_rice_codec_exact [of 1 3 "[6]" "\<lambda>_. True" 2 4 "[- 1, 1]"] by (auto simp: usize_max_def)
qed

lemma sample_values: "encodable 3 [3, - 3]" "length (codes [3, - 3] 2) = 8" "golomb_rice_zigzag_width 3 = 3"
  "cap_rice_low_bits 16 = 4"
proof -
  have zz: "zz 3 = 6" "zz (- 3) = 5" by (simp_all add: zz_of_int)
  show "encodable 3 [3, - 3]" by (simp add: encodable_def in_zigzag_range_def sint_zigzag_bounds)
  show "length (codes [3, - 3] 2) = 8" by (simp add: length_rice_code zz)
  show "golomb_rice_zigzag_width 3 = 3" "cap_rice_low_bits 16 = 4"
    by (simp_all add: golomb_rice_zigzag_width_def cap_rice_low_bits_def rice_low_bits_for_cap_def
        leading_zeros_128_def bit_length.simps)
qed

theorem golomb_rice_admitted_roundtrip_witness:
  "\<exists>max_quotient bytes.
     golomb_rice_max_quotient_for_cap 3 (wire_rice_low_bits 16) (golomb_rice_zigzag_width 3) = Inr max_quotient
     \<and> golomb_rice_encode_vec [3, - 3] (wire_rice_low_bits 16) (golomb_rice_zigzag_width 3) = Inr bytes
     \<and> 8 * length bytes \<le> (cap_rice_low_bits 16 + 2) * length [3, - 3 :: i64] + 7
     \<and> golomb_rice_decode_vec (\<lambda>_. True) bytes (length [3, - 3 :: i64]) (wire_rice_low_bits 16)
          (golomb_rice_zigzag_width 3) max_quotient Inr = Inr [3, - 3]"
proof (rule golomb_rice_admitted_roundtrip)
  have k: "wire_rice_low_bits 16 = 2" by (simp add: wire_rice_low_bits_def OFFLINE_RICE_LOW_BITS_DELTA_def sample_values)
  have "golomb_rice_total_wire_bits [3, - 3] 2 3 = Inr 8"
    using sample_values by (subst total_wire_bits_Inr) (simp_all add: usize_max_def)
  moreover have "golomb_rice_values_within_cap [3, - 3] 3 = Inr ()" by (simp add: values_within_cap_Inr)
  ultimately show "golomb_rice_flat_admit_terminal_wire_with_caps [3, - 3] 16 3 = Inr ()"
    by (simp add: golomb_rice_flat_admit_terminal_wire_with_caps_def golomb_rice_values_fit_planner_wire_budget_def
        tail_z_planner_bits_per_coord_def saturating_add_def checked_mul_def usize_max_def sample_values k)
qed (simp_all add: sample_values usize_max_def)

theorem golomb_rice_l2_estimate_bounds_payload_witness:
  "\<exists>bytes. golomb_rice_encode_vec [3, - 3] 1 3 = Inr bytes \<and> length bytes \<le> 2"
proof -
  obtain bytes where bytes: "golomb_rice_encode_vec [3, - 3] 1 3 = Inr bytes"
    using encode_vec_total [of 1 3 "[3, - 3]"] sample_values(1) by auto
  have "golomb_rice_l2_planner_payload_bytes (length [3, - 3 :: i64]) 18 1 = Some 2"
    by (simp add: golomb_rice_l2_planner_payload_bytes_def checked_mul_128_def checked_mul_def checked_add_def
        usize_max_def isqrt.simps Let_def drop_bit_eq_div)
  from golomb_rice_l2_estimate_bounds_payload [OF _ this _ bytes] bytes show ?thesis by simp
qed

end
