(* ===== verification/Xof.thy ===== *)
theory Xof
  imports GrindingPlan
begin

text \<open>
  \<^verbatim>\<open>akita-challenges/src/sampler/xof.rs\<close>: the buffered cursor over one SHAKE256 stream per fold
  coordinate.  The permutation \<open>keccak::f1600\<close> is a parameter \<open>kc\<close> on states of 25 lanes.  The
  shown refinement is that every read of the cursor, across lane, block and buffer boundaries,
  returns the next bytes of one stream.
\<close>

unbundle bit_operations_syntax

type_synonym keccak = "u64 list \<Rightarrow> u64 list"

definition SHAKE256_RATE :: nat where "SHAKE256_RATE = 136"
definition SHAKE_DOMAIN_SUFFIX :: byte where "SHAKE_DOMAIN_SUFFIX = 0x1f"
definition GROUP_ROOT_LEN :: nat where "GROUP_ROOT_LEN = 32"
definition COORDINATE_INPUT_LEN :: nat where "COORDINATE_INPUT_LEN = GROUP_ROOT_LEN + 8"
definition XOF_BUFFER_SIZE :: nat where "XOF_BUFFER_SIZE = 128"

subsection \<open>The indexed stream\<close>

definition xor_state_byte :: "u64 list \<Rightarrow> nat \<Rightarrow> byte \<Rightarrow> u64 list" where
  "xor_state_byte st index b =
     st[index div 8 := st ! (index div 8) XOR push_bit (8 * (index mod 8)) (ucast b)]"

definition xof_absorb_bytes :: "u64 list \<Rightarrow> nat \<Rightarrow> byte list \<Rightarrow> u64 list" where
  "xof_absorb_bytes st offset bytes =
     foldl (\<lambda>st (index, b). xor_state_byte st (offset + index) b) st (enumerate 0 bytes)"

definition indexed_prefix_new :: "byte list \<Rightarrow> string + u64 list" where
  "indexed_prefix_new seed =
     (if length seed \<noteq> GROUP_ROOT_LEN
      then Inl ''indexed sparse challenge group root must be exactly 32 bytes''
      else Inr (xof_absorb_bytes (replicate 25 0) 0 seed))"

record shake_reader =
  sr_state :: "u64 list"
  sr_pos :: nat

definition prefix_reader :: "keccak \<Rightarrow> u64 list \<Rightarrow> u64 \<Rightarrow> shake_reader" where
  "prefix_reader kc prefix coordinate_index =
     (let st1 = xof_absorb_bytes prefix GROUP_ROOT_LEN (to_le_bytes 8 coordinate_index);
          st2 = xor_state_byte st1 COORDINATE_INPUT_LEN SHAKE_DOMAIN_SUFFIX;
          st3 = xor_state_byte st2 (SHAKE256_RATE - 1) 0x80
      in \<lparr>sr_state = kc st3, sr_pos = 0\<rparr>)"

text \<open>The inner copy loop of \<open>read\<close>: lane by lane up to \<open>end_pos\<close>.\<close>

function copy_lanes :: "u64 list \<Rightarrow> nat \<Rightarrow> nat \<Rightarrow> byte list" where
  "copy_lanes st pos end_pos =
     (if pos < end_pos
      then let lane = to_le_bytes 8 (st ! (pos div 8)); lane_offset = pos mod 8;
               lane_take = min (8 - lane_offset) (end_pos - pos)
           in take lane_take (drop lane_offset lane) @ copy_lanes st (pos + lane_take) end_pos
      else [])"
  by pat_completeness auto
termination
  by (relation "measure (\<lambda>(_, pos, end_pos). end_pos - pos)") (auto simp: min_def)

declare copy_lanes.simps [simp del]

text \<open>
  The outer loop, for the \<open>n\<close> bytes still to be written.  A position beyond the rate would be an
  arithmetic underflow in the code; no reader has one.
\<close>

function shake_read :: "keccak \<Rightarrow> shake_reader \<Rightarrow> nat \<Rightarrow> byte list \<times> shake_reader" where
  "shake_read kc r n =
     (if n = 0 \<or> SHAKE256_RATE < sr_pos r then ([], r)
      else let r1 = (if sr_pos r = SHAKE256_RATE then \<lparr>sr_state = kc (sr_state r), sr_pos = 0\<rparr> else r);
               tk = min (SHAKE256_RATE - sr_pos r1) n;
               end_pos = sr_pos r1 + tk;
               (bytes, r2) = shake_read kc (r1\<lparr>sr_pos := end_pos\<rparr>) (n - tk)
           in (copy_lanes (sr_state r1) (sr_pos r1) end_pos @ bytes, r2))"
  by pat_completeness auto
termination
  by (relation "measure (\<lambda>(_, _, n). n)") (auto simp: SHAKE256_RATE_def)

declare shake_read.simps [simp del]

subsection \<open>The cursor\<close>

record xof_cursor =
  xc_reader :: shake_reader
  xc_buf :: "byte list"
  xc_pos :: nat
  xc_len :: nat

definition cursor_new :: xof_cursor where
  "cursor_new = \<lparr>xc_reader = \<lparr>sr_state = replicate 25 0, sr_pos = SHAKE256_RATE\<rparr>,
     xc_buf = replicate XOF_BUFFER_SIZE 0, xc_pos = 0, xc_len = 0\<rparr>"

definition refill :: "keccak \<Rightarrow> xof_cursor \<Rightarrow> xof_cursor" where
  "refill kc c =
     (let (bytes, r) = shake_read kc (xc_reader c) XOF_BUFFER_SIZE
      in c\<lparr>xc_reader := r, xc_buf := bytes, xc_pos := 0, xc_len := XOF_BUFFER_SIZE\<rparr>)"

definition reset_indexed_prefix :: "keccak \<Rightarrow> xof_cursor \<Rightarrow> u64 list \<Rightarrow> u64 \<Rightarrow> xof_cursor" where
  "reset_indexed_prefix kc c prefix coordinate_index =
     refill kc (c\<lparr>xc_reader := prefix_reader kc prefix coordinate_index, xc_pos := 0, xc_len := 0\<rparr>)"

definition next_u8 :: "keccak \<Rightarrow> xof_cursor \<Rightarrow> byte \<times> xof_cursor" where
  "next_u8 kc c =
     (let c1 = (if xc_len c \<le> xc_pos c then refill kc c else c)
      in (xc_buf c1 ! xc_pos c1, c1\<lparr>xc_pos := xc_pos c1 + 1\<rparr>))"

lemma refill_room [simp]: "xc_pos (refill kc c) = 0" "xc_len (refill kc c) = XOF_BUFFER_SIZE"
  by (simp_all add: refill_def case_prod_unfold Let_def)

function fill_bytes :: "keccak \<Rightarrow> xof_cursor \<Rightarrow> nat \<Rightarrow> byte list \<times> xof_cursor" where
  "fill_bytes kc c n =
     (if n = 0 then ([], c)
      else let c1 = (if xc_len c \<le> xc_pos c then refill kc c else c);
               tk = min (xc_len c1 - xc_pos c1) n;
               (bytes, c2) = fill_bytes kc (c1\<lparr>xc_pos := xc_pos c1 + tk\<rparr>) (n - tk)
           in (take tk (drop (xc_pos c1) (xc_buf c1)) @ bytes, c2))"
  by pat_completeness auto
termination
  by (relation "measure (\<lambda>(_, _, n). n)") (auto simp: XOF_BUFFER_SIZE_def)

declare fill_bytes.simps [simp del]

fun next_bytes :: "keccak \<Rightarrow> xof_cursor \<Rightarrow> nat \<Rightarrow> byte list \<times> xof_cursor" where
  "next_bytes kc c 0 = ([], c)"
| "next_bytes kc c (Suc n) =
     (let (b, c1) = next_u8 kc c; (bs, c2) = next_bytes kc c1 n in (b # bs, c2))"

definition next_u32 :: "keccak \<Rightarrow> xof_cursor \<Rightarrow> u32 \<times> xof_cursor" where
  "next_u32 kc c =
     (if xc_pos c + 4 \<le> xc_len c
      then (from_le_bytes (take 4 (drop (xc_pos c) (xc_buf c))), c\<lparr>xc_pos := xc_pos c + 4\<rparr>)
      else let (tmp, c') = next_bytes kc c 4 in (from_le_bytes tmp, c'))"

subsection \<open>Rejection sampling\<close>

text \<open>The three \<open>loop\<close>s differ in the draw; \<open>None\<close> is a loop that never accepts.\<close>

partial_function (option) reject_loop :: "('c \<Rightarrow> nat \<times> 'c) \<Rightarrow> nat \<Rightarrow> 'c \<Rightarrow> (nat \<times> 'c) option" where
  "reject_loop draw modl c =
     (let (val, c') = draw c in if val < modl then Some (val, c') else reject_loop draw modl c')"

definition draw_u8 :: "keccak \<Rightarrow> nat \<Rightarrow> xof_cursor \<Rightarrow> nat \<times> xof_cursor" where
  "draw_u8 kc bits c =
     (let mask = ucast (push_bit bits 1 - 1 :: 16 word) :: byte; (b, c') = next_u8 kc c in (unat (b AND mask), c'))"

definition draw_u16 :: "keccak \<Rightarrow> nat \<Rightarrow> xof_cursor \<Rightarrow> nat \<times> xof_cursor" where
  "draw_u16 kc bits c =
     (let mask = 2 ^ bits - 1; (lo, c1) = next_u8 kc c; (hi, c2) = next_u8 kc c1
      in ((unat lo OR push_bit 8 (unat hi)) AND mask, c2))"

definition draw_u32 :: "keccak \<Rightarrow> nat \<Rightarrow> xof_cursor \<Rightarrow> nat \<times> xof_cursor" where
  "draw_u32 kc bits c = (let mask = 2 ^ bits - 1; (v, c') = next_u32 kc c in (unat v AND mask, c'))"

text \<open>The bit length of \<open>modl - 1\<close> is \<open>usize::BITS\<close> less its leading zeros.\<close>

definition next_usize_mod :: "keccak \<Rightarrow> xof_cursor \<Rightarrow> nat \<Rightarrow> (nat \<times> xof_cursor) option" where
  "next_usize_mod kc c modl =
     (if modl = 1 then Some (0, c)
      else let bits = bit_length (modl - 1) in
        if bits \<le> 8 then reject_loop (draw_u8 kc bits) modl c
        else if bits \<le> 16 then reject_loop (draw_u16 kc bits) modl c
        else reject_loop (draw_u32 kc bits) modl c)"

subsection \<open>The stream of a reader\<close>

definition lane_byte :: "u64 list \<Rightarrow> nat \<Rightarrow> byte" where
  "lane_byte st q = to_le_bytes 8 (st ! (q div 8)) ! (q mod 8)"

definition shake_byte :: "keccak \<Rightarrow> shake_reader \<Rightarrow> nat \<Rightarrow> byte" where
  "shake_byte kc r i =
     lane_byte ((kc ^^ ((sr_pos r + i) div SHAKE256_RATE)) (sr_state r)) ((sr_pos r + i) mod SHAKE256_RATE)"

lemma copy_lanes_eq: "copy_lanes st pos end_pos = map (lane_byte st) [pos..<end_pos]"
proof (induction st pos end_pos rule: copy_lanes.induct)
  case (1 st pos end_pos)
  show ?case
  proof (cases "pos < end_pos")
    case True
    define tk where "tk = min (8 - pos mod 8) (end_pos - pos)"
    have tk: "tk \<le> 8 - pos mod 8" "pos + tk \<le> end_pos" using True by (auto simp: tk_def)
    have "take tk (drop (pos mod 8) (to_le_bytes 8 (st ! (pos div 8)))) = map (lane_byte st) [pos..<pos + tk]"
    proof (rule nth_equalityI)
      fix i assume "i < length (take tk (drop (pos mod 8) (to_le_bytes 8 (st ! (pos div 8)))))"
      then have i: "i < tk" by simp
      then have k: "pos mod 8 + i < 8" using tk(1) by linarith
      have split: "pos + i = (pos mod 8 + i) + (pos div 8) * 8" by simp
      have "(pos + i) div 8 = pos div 8" "(pos + i) mod 8 = pos mod 8 + i"
        unfolding split div_mult_self1 [OF zero_neq_numeral [symmetric]] mod_mult_self1 using k by simp_all
      with i k show "take tk (drop (pos mod 8) (to_le_bytes 8 (st ! (pos div 8)))) ! i
          = map (lane_byte st) [pos..<pos + tk] ! i" by (simp add: lane_byte_def)
    qed (use tk in simp)
    moreover have "copy_lanes st (pos + tk) end_pos = map (lane_byte st) [pos + tk..<end_pos]"
      using 1 [OF True refl refl] by (simp add: tk_def)
    moreover have "[pos..<end_pos] = [pos..<pos + tk] @ [pos + tk..<end_pos]"
      using tk(2) upt_add_eq_append [of pos "pos + tk" "end_pos - (pos + tk)"] by simp
    ultimately show ?thesis
      using True by (subst copy_lanes.simps) (simp add: Let_def tk_def)
  qed (simp add: copy_lanes.simps)
qed

lemma shake_read_spec:
  "sr_pos r \<le> SHAKE256_RATE \<Longrightarrow> shake_read kc r n = (bs, r') \<Longrightarrow>
     bs = map (shake_byte kc r) [0..<n] \<and> (\<forall>i. shake_byte kc r' i = shake_byte kc r (n + i)) \<and> sr_pos r' \<le> SHAKE256_RATE"
proof (induction kc r n arbitrary: bs r' rule: shake_read.induct)
  case (1 kc r n)
  show ?case
  proof (cases "n = 0")
    case True
    then show ?thesis using 1(2,3) by (simp add: shake_read.simps [of kc r])
  next
    case False
    define r1 where "r1 = (if sr_pos r = SHAKE256_RATE then \<lparr>sr_state = kc (sr_state r), sr_pos = 0\<rparr> else r)"
    define tk where "tk = min (SHAKE256_RATE - sr_pos r1) n"
    let ?r2 = "r1\<lparr>sr_pos := sr_pos r1 + tk\<rparr>"
    have same: "shake_byte kc r1 i = shake_byte kc r i" for i
      by (simp add: r1_def shake_byte_def SHAKE256_RATE_def funpow_swap1)
    have pos: "sr_pos r1 < SHAKE256_RATE" using 1(2) by (auto simp: r1_def SHAKE256_RATE_def)
    have tk: "sr_pos r1 + tk \<le> SHAKE256_RATE" "tk \<le> n" using pos by (simp_all add: tk_def)
    obtain bs2 where rec: "shake_read kc ?r2 (n - tk) = (bs2, r')"
        "bs = copy_lanes (sr_state r1) (sr_pos r1) (sr_pos r1 + tk) @ bs2"
      using 1(2,3) False
      by (subst (asm) shake_read.simps) (auto simp: Let_def r1_def [symmetric] tk_def [symmetric] split: prod.splits)
    have r2: "sr_pos ?r2 \<le> SHAKE256_RATE" using tk by simp
    have shift: "shake_byte kc ?r2 i = shake_byte kc r1 (tk + i)" for i by (simp add: shake_byte_def add.assoc)
    have IH: "bs2 = map (shake_byte kc ?r2) [0..<n - tk]" "\<forall>i. shake_byte kc r' i = shake_byte kc ?r2 (n - tk + i)"
        "sr_pos r' \<le> SHAKE256_RATE"
      using 1(1) [OF _ r1_def tk_def refl r2 rec(1)] False 1(2) by auto
    have "copy_lanes (sr_state r1) (sr_pos r1) (sr_pos r1 + tk) = map (shake_byte kc r1) [0..<tk]"
      using tk(1) by (intro nth_equalityI) (simp_all add: copy_lanes_eq shake_byte_def)
    moreover have "bs2 = map (shake_byte kc r1) [tk..<n]"
      using tk(2) by (intro nth_equalityI) (simp_all add: IH(1) shift)
    moreover have "[0..<n] = [0..<tk] @ [tk..<n]" using tk(2) upt_add_eq_append [of 0 tk "n - tk"] by simp
    ultimately show ?thesis using rec(2) IH(2,3) tk(2) by (simp add: same shift)
  qed
qed

subsection \<open>The stream of a cursor\<close>

definition cursor_ok :: "xof_cursor \<Rightarrow> bool" where
  "cursor_ok c \<longleftrightarrow> sr_pos (xc_reader c) \<le> SHAKE256_RATE \<and> xc_pos c \<le> xc_len c \<and> xc_len c \<le> length (xc_buf c)"

definition cursor_byte :: "keccak \<Rightarrow> xof_cursor \<Rightarrow> nat \<Rightarrow> byte" where
  "cursor_byte kc c i =
     (let buffered = xc_len c - xc_pos c in
      if i < buffered then xc_buf c ! (xc_pos c + i) else shake_byte kc (xc_reader c) (i - buffered))"

lemma refill_spec:
  assumes "sr_pos (xc_reader c) \<le> SHAKE256_RATE"
  shows "cursor_ok (refill kc c)" and "cursor_byte kc (refill kc c) = shake_byte kc (xc_reader c)"
    and "xc_pos (refill kc c) < xc_len (refill kc c)"
proof -
  obtain bs r where read: "shake_read kc (xc_reader c) XOF_BUFFER_SIZE = (bs, r)" by fastforce
  note spec = shake_read_spec [OF assms read]
  then show "cursor_ok (refill kc c)" by (simp add: refill_def read cursor_ok_def)
  show "cursor_byte kc (refill kc c) = shake_byte kc (xc_reader c)"
  proof
    fix i
    show "cursor_byte kc (refill kc c) i = shake_byte kc (xc_reader c) i"
      using spec by (simp add: refill_def read cursor_byte_def)
  qed
  show "xc_pos (refill kc c) < xc_len (refill kc c)" by (simp add: XOF_BUFFER_SIZE_def)
qed

text \<open>The cursor that both reads start from: refilled when exhausted, with the same stream.\<close>

lemma ensure_spec:
  assumes ok: "cursor_ok c" and c1: "c1 = (if xc_len c \<le> xc_pos c then refill kc c else c)"
  shows "cursor_ok c1" and "cursor_byte kc c1 = cursor_byte kc c" and "xc_pos c1 < xc_len c1"
proof -
  have "cursor_byte kc c = shake_byte kc (xc_reader c)" if "xc_len c \<le> xc_pos c"
    using that by (auto simp: cursor_byte_def)
  then show "cursor_ok c1" "cursor_byte kc c1 = cursor_byte kc c" "xc_pos c1 < xc_len c1"
    using ok refill_spec [of c kc] by (auto simp: c1 cursor_ok_def)
qed

lemma advance_cursor:
  assumes "cursor_ok c" and "xc_pos c + n \<le> xc_len c"
  shows "cursor_ok (c\<lparr>xc_pos := xc_pos c + n\<rparr>)" and "cursor_byte kc (c\<lparr>xc_pos := xc_pos c + n\<rparr>) i = cursor_byte kc c (n + i)"
    and "take n (drop (xc_pos c) (xc_buf c)) = map (cursor_byte kc c) [0..<n]"
proof -
  show "cursor_ok (c\<lparr>xc_pos := xc_pos c + n\<rparr>)" using assms by (simp add: cursor_ok_def)
  have "xc_len c - (xc_pos c + n) = (xc_len c - xc_pos c) - n" by simp
  then show "cursor_byte kc (c\<lparr>xc_pos := xc_pos c + n\<rparr>) i = cursor_byte kc c (n + i)"
    using assms(2) by (auto simp: cursor_byte_def Let_def ac_simps)
  show "take n (drop (xc_pos c) (xc_buf c)) = map (cursor_byte kc c) [0..<n]"
    using assms by (intro nth_equalityI) (auto simp: cursor_ok_def cursor_byte_def Let_def)
qed

text \<open>The contract the samplers rely on: reads return consecutive bytes of one stream.\<close>

locale byte_source =
  fixes ok :: "'c \<Rightarrow> bool" and byte_at :: "'c \<Rightarrow> nat \<Rightarrow> byte"
    and next8 :: "'c \<Rightarrow> byte \<times> 'c" and fill :: "'c \<Rightarrow> nat \<Rightarrow> byte list \<times> 'c"
  assumes next8: "ok c \<Longrightarrow> next8 c = (b, c') \<Longrightarrow> b = byte_at c 0 \<and> ok c' \<and> byte_at c' = (\<lambda>i. byte_at c (Suc i))"
    and fill: "ok c \<Longrightarrow> fill c n = (bs, c') \<Longrightarrow>
        bs = map (byte_at c) [0..<n] \<and> ok c' \<and> byte_at c' = (\<lambda>i. byte_at c (n + i))"
begin

lemma fill_append:
  assumes "ok c" and "fill c m = (xs, c1)" and "fill c1 n = (ys, c2)"
  shows "xs @ ys = map (byte_at c) [0..<m + n] \<and> ok c2 \<and> byte_at c2 = (\<lambda>i. byte_at c (m + n + i))"
proof -
  note first = fill [OF assms(1,2)]
  note second = fill [OF _ assms(3)]
  have "xs @ ys = map (byte_at c) [0..<m] @ map (\<lambda>i. byte_at c (m + i)) [0..<n]" using first second by simp
  also have "\<dots> = map (byte_at c) [0..<m + n]"
    by (rule nth_equalityI) (auto simp: nth_append)
  finally show ?thesis using first second by (simp add: add.assoc)
qed

text \<open>A masked draw that first succeeds at the \<open>k\<close>-th byte makes the rejection loop return it.\<close>

lemma reject_loop_first:
  assumes "ok c" and draw: "\<And>d. ok d \<Longrightarrow> draw d = (f (fst (next8 d)), snd (next8 d))"
    and "f (byte_at c k) < m" and "\<And>j. j < k \<Longrightarrow> \<not> f (byte_at c j) < m"
  shows "\<exists>c'. reject_loop draw m c = Some (f (byte_at c k), c') \<and> ok c' \<and> byte_at c' = (\<lambda>i. byte_at c (Suc k + i))"
  using assms(1,3,4)
proof (induction k arbitrary: c)
  case 0
  obtain b c' where n: "next8 c = (b, c')" by fastforce
  from next8 [OF 0(1) n] 0 show ?case by (simp add: reject_loop.simps [of draw] draw [OF 0(1)] n)
next
  case (Suc k)
  obtain b c1 where n: "next8 c = (b, c1)" by fastforce
  note step = next8 [OF Suc.prems(1) n]
  then have "f (byte_at c1 k) < m" "\<And>j. j < k \<Longrightarrow> \<not> f (byte_at c1 j) < m" using Suc.prems(2,3) by auto
  from Suc.IH [OF _ this] step obtain c' where
    "reject_loop draw m c1 = Some (f (byte_at c1 k), c')" "ok c'" "byte_at c' = (\<lambda>i. byte_at c1 (Suc k + i))" by blast
  with step Suc.prems(3) [of 0] show ?case
    by (simp add: reject_loop.simps [of draw m c] draw [OF Suc.prems(1)] n)
qed

end

lemma next_u8_spec:
  assumes "cursor_ok c" and "next_u8 kc c = (b, c')"
  shows "b = cursor_byte kc c 0 \<and> cursor_ok c' \<and> cursor_byte kc c' = (\<lambda>i. cursor_byte kc c (Suc i))"
proof -
  define c1 where "c1 = (if xc_len c \<le> xc_pos c then refill kc c else c)"
  note c1 = ensure_spec [OF assms(1) c1_def]
  have "xc_pos c1 + 1 \<le> xc_len c1" using c1(3) by simp
  note adv = advance_cursor [OF c1(1) this]
  have "take 1 (drop (xc_pos c1) (xc_buf c1)) = [xc_buf c1 ! xc_pos c1]"
    using c1(1,3) by (simp add: take_Suc_conv_app_nth cursor_ok_def)
  then have "xc_buf c1 ! xc_pos c1 = cursor_byte kc c1 0" using adv(3) [of kc] by simp
  with adv(1,2) c1(2) assms(2) show ?thesis by (auto simp: next_u8_def c1_def [symmetric] Let_def)
qed

lemma fill_bytes_spec:
  "cursor_ok c \<Longrightarrow> fill_bytes kc c n = (bs, c') \<Longrightarrow>
     bs = map (cursor_byte kc c) [0..<n] \<and> cursor_ok c' \<and> cursor_byte kc c' = (\<lambda>i. cursor_byte kc c (n + i))"
proof (induction kc c n arbitrary: bs c' rule: fill_bytes.induct)
  case (1 kc c n)
  show ?case
  proof (cases "n = 0")
    case True
    then show ?thesis using 1(2,3) by (simp add: fill_bytes.simps [of kc c])
  next
    case False
    define c1 where "c1 = (if xc_len c \<le> xc_pos c then refill kc c else c)"
    define tk where "tk = min (xc_len c1 - xc_pos c1) n"
    note c1 = ensure_spec [OF 1(2) c1_def]
    have tk: "xc_pos c1 + tk \<le> xc_len c1" "tk \<le> n" using c1(3) by (auto simp: tk_def)
    note adv = advance_cursor [OF c1(1) tk(1)]
    obtain bs2 where rec: "fill_bytes kc (c1\<lparr>xc_pos := xc_pos c1 + tk\<rparr>) (n - tk) = (bs2, c')"
        "bs = take tk (drop (xc_pos c1) (xc_buf c1)) @ bs2"
      using 1(3) False
      by (subst (asm) fill_bytes.simps) (auto simp: Let_def c1_def [symmetric] tk_def [symmetric] split: prod.splits)
    have IH: "bs2 = map (\<lambda>i. cursor_byte kc c1 (tk + i)) [0..<n - tk]" "cursor_ok c'"
        "cursor_byte kc c' = (\<lambda>i. cursor_byte kc c1 (tk + (n - tk + i)))"
      using 1(1) [OF False c1_def tk_def adv(1) rec(1)] by (simp_all add: adv(2))
    have "bs2 = map (cursor_byte kc c1) [tk..<n]"
      using tk(2) by (intro nth_equalityI) (simp_all add: IH(1))
    moreover have "[0..<n] = [0..<tk] @ [tk..<n]" using tk(2) upt_add_eq_append [of 0 tk "n - tk"] by simp
    ultimately have bs: "bs = map (cursor_byte kc c1) [0..<n]" using rec(2) adv(3) [of kc] by (simp only: map_append)
    have "tk + (n - tk + i) = n + i" for i using tk(2) by simp
    then have "cursor_byte kc c' = (\<lambda>i. cursor_byte kc c1 (n + i))" using IH(3) by (simp only:)
    with bs IH(2) show ?thesis unfolding c1(2) by blast
  qed
qed

interpretation xof: byte_source cursor_ok "cursor_byte kc" "next_u8 kc" "fill_bytes kc" for kc
  by unfold_locales (rule next_u8_spec fill_bytes_spec; assumption)+

lemma next_bytes_spec:
  "cursor_ok c \<Longrightarrow> next_bytes kc c n = (bs, c') \<Longrightarrow>
     bs = map (cursor_byte kc c) [0..<n] \<and> cursor_ok c' \<and> cursor_byte kc c' = (\<lambda>i. cursor_byte kc c (n + i))"
proof (induction n arbitrary: c bs)
  case (Suc n)
  obtain b c1 bs2 where step: "next_u8 kc c = (b, c1)" "next_bytes kc c1 n = (bs2, c')" "bs = b # bs2"
    using Suc.prems(2) by (auto split: prod.splits)
  note first = next_u8_spec [OF Suc.prems(1) step(1)]
  with Suc.IH [OF _ step(2)] step(3) show ?case by (simp add: map_upt_Suc del: upt_Suc)
qed simp

lemma next_u32_spec:
  assumes "cursor_ok c" and "next_u32 kc c = (v, c')"
  shows "v = from_le_bytes (map (cursor_byte kc c) [0..<4]) \<and> cursor_ok c'
       \<and> cursor_byte kc c' = (\<lambda>i. cursor_byte kc c (4 + i))"
proof (cases "xc_pos c + 4 \<le> xc_len c")
  case True
  from advance_cursor [OF assms(1) True] True assms(2) show ?thesis by (auto simp: next_u32_def)
next
  case False
  with assms(2) obtain tmp where "next_bytes kc c 4 = (tmp, c')" "v = from_le_bytes tmp"
    by (auto simp: next_u32_def split: prod.splits)
  with next_bytes_spec [OF assms(1)] show ?thesis by simp
qed

subsection \<open>Uniformity of the masked draw\<close>

lemma mask_u8: "bits \<le> 8 \<Longrightarrow> (ucast (push_bit bits 1 - 1 :: 16 word) :: byte) = mask bits"
proof (rule bit_word_eqI)
  fix n assume "bits \<le> 8" "n < LENGTH(8)"
  then show "bit (ucast (push_bit bits 1 - 1 :: 16 word) :: byte) n \<longleftrightarrow> bit (mask bits :: byte) n"
    by (simp add: bit_ucast_iff push_bit_of_1 bit_mask_iff flip: mask_eq_exp_minus_1)
qed

lemma draw_u8_eq:
  assumes "bits \<le> 8"
  shows "draw_u8 kc bits c = (unat (fst (next_u8 kc c)) mod 2 ^ bits, snd (next_u8 kc c))"
proof -
  have "unat (b AND mask bits :: byte) = unat b mod 2 ^ bits" for b
  proof -
    have "unat (b AND mask bits) = take_bit bits (unat b)" by (simp only: unsigned_take_bit_eq flip: take_bit_eq_mask)
    then show ?thesis by (simp add: take_bit_eq_mod)
  qed
  then show ?thesis using mask_u8 [OF assms] by (simp add: draw_u8_def Let_def case_prod_unfold)
qed

text \<open>Every residue has the same number of bytes.\<close>

lemma byte_residue_card:
  assumes "bits \<le> 8" and "v < 2 ^ bits"
  shows "card {b :: byte. unat b mod 2 ^ bits = v} = 2 ^ (8 - bits)"
proof -
  let ?f = "\<lambda>q. of_nat (v + 2 ^ bits * q) :: byte" and ?g = "\<lambda>b :: byte. unat b div 2 ^ bits"
  have small: "v + 2 ^ bits * q < 256" if "q < 2 ^ (8 - bits)" for q
  proof -
    have "v + 2 ^ bits * q < 2 ^ bits * Suc q" using assms(2) by simp
    also have "\<dots> \<le> 2 ^ bits * 2 ^ (8 - bits)" using that by (intro mult_le_mono) simp_all
    also have "\<dots> = 256" using assms(1) by (simp flip: power_add)
    finally show ?thesis .
  qed
  have unat: "unat (?f q) = v + 2 ^ bits * q" if "q < 2 ^ (8 - bits)" for q
    using small [OF that] by (simp add: unat_of_nat del: of_nat_add of_nat_mult)
  have less: "?g b < 2 ^ (8 - bits)" for b
  proof -
    have "unat b < 2 ^ (8 - bits) * 2 ^ bits" using unat_lt2p [of b] assms(1) by (simp flip: power_add)
    then show ?thesis by (simp add: div_less_iff_less_mult)
  qed
  have "bij_betw ?f {..<2 ^ (8 - bits)} {b. unat b mod 2 ^ bits = v}"
  proof (rule bij_betw_byWitness [where f' = ?g])
    show "\<forall>q \<in> {..<2 ^ (8 - bits)}. ?g (?f q) = q" using unat assms(2) by (auto simp del: of_nat_add of_nat_mult)
    show "\<forall>b \<in> {b. unat b mod 2 ^ bits = v}. ?f (?g b) = b"
    proof
      fix b :: byte assume "b \<in> {b. unat b mod 2 ^ bits = v}"
      then have "v + 2 ^ bits * ?g b = unat b" using mod_mult_div_eq [of "unat b" "2 ^ bits"] by auto
      then have "?f (?g b) = of_nat (unat b)" by (rule arg_cong)
      then show "?f (?g b) = b" by simp
    qed
    show "?f ` {..<2 ^ (8 - bits)} \<subseteq> {b. unat b mod 2 ^ bits = v}"
      using unat assms(2) by (auto simp del: of_nat_add of_nat_mult)
    show "?g ` {b. unat b mod 2 ^ bits = v} \<subseteq> {..<2 ^ (8 - bits)}" using less by auto
  qed
  from bij_betw_same_card [OF this] show ?thesis by simp
qed

subsection \<open>Properties\<close>

text \<open>
  C37: The buffered cursor refines the SHAKE stream of its coordinate.  After a reset, a bulk read,
  a four-byte word, a single byte and another bulk read return consecutive bytes of one stream,
  whose byte \<open>i\<close> is byte \<open>i mod 136\<close> of the state after \<open>i div 136\<close> further permutations; the
  previous contents of the cursor do not matter.
\<close>

theorem xof_cursor_refines_stream:
  "\<exists>c1 c2 c3 c4. let s = (\<lambda>i. lane_byte ((kc ^^ (i div 136)) (sr_state (prefix_reader kc prefix index))) (i mod 136)) in
     fill_bytes kc (reset_indexed_prefix kc c prefix index) m = (map s [0..<m], c1)
     \<and> next_u32 kc c1 = (from_le_bytes (map s [m..<m + 4]), c2)
     \<and> next_u8 kc c2 = (s (m + 4), c3)
     \<and> fill_bytes kc c3 n = (map s [m + 5..<m + 5 + n], c4)"
proof -
  let ?start = "reset_indexed_prefix kc c prefix index"
  let ?s = "\<lambda>i. lane_byte ((kc ^^ (i div 136)) (sr_state (prefix_reader kc prefix index))) (i mod 136)"
  have pos: "sr_pos (prefix_reader kc prefix index) = 0" by (simp add: prefix_reader_def Let_def)
  let ?c = "c\<lparr>xc_reader := prefix_reader kc prefix index, xc_pos := 0, xc_len := 0\<rparr>"
  have ok0: "cursor_ok ?start" and s0: "cursor_byte kc ?start = ?s"
    using refill_spec(1,2) [of ?c kc] pos
    by (simp_all add: reset_indexed_prefix_def shake_byte_def [abs_def] SHAKE256_RATE_def)
  obtain b1 c1 where r1: "fill_bytes kc ?start m = (b1, c1)" by fastforce
  note f1 = fill_bytes_spec [OF ok0 r1]
  obtain v c2 where r2: "next_u32 kc c1 = (v, c2)" by fastforce
  note f2 = next_u32_spec [OF _ r2]
  obtain b c3 where r3: "next_u8 kc c2 = (b, c3)" by fastforce
  note f3 = next_u8_spec [OF _ r3]
  obtain b4 c4 where r4: "fill_bytes kc c3 n = (b4, c4)" by fastforce
  note f4 = fill_bytes_spec [OF _ r4]
  have shift: "map (\<lambda>i. ?s (k + i)) [0..<l] = map ?s [k..<k + l]" for k l by (rule nth_equalityI) simp_all
  have "b1 = map ?s [0..<m]" "v = from_le_bytes (map (\<lambda>i. ?s (m + i)) [0..<4])" "b = ?s (m + 4)"
      "b4 = map (\<lambda>i. ?s (m + 5 + i)) [0..<n]"
    using f1 f2 f3 f4 by (simp_all add: s0 add.assoc)
  with r1 r2 r3 r4 show ?thesis unfolding shift Let_def by blast
qed



end
