(* ===== verification/PositionSample.thy ===== *)
theory PositionSample
  imports Xof
begin

text \<open>
  \<^verbatim>\<open>akita-challenges/src/sampler/position_sample.rs\<close>: distinct positions by a partial
  Fisher-Yates shuffle, on a flat permutation array or on a virtual permutation that keeps the
  touched entries in an open-addressing table with generation stamps.  The table is shown to
  implement a finite map, and the two shuffles to return the same positions from the same stream.
\<close>

unbundle bit_operations_syntax

definition MAX_STACK_RING_DIM :: nat where "MAX_STACK_RING_DIM = 2048"
definition MAX_STACK_TIER_RING_DIM :: nat where "MAX_STACK_TIER_RING_DIM = 2048"

subsection \<open>The virtual permutation\<close>

record position_scratch =
  ps_keys :: "nat list"
  ps_values :: "nat list"
  ps_generations :: "u32 list"
  ps_generation :: u32

definition position_scratch_new :: position_scratch where
  "position_scratch_new = \<lparr>ps_keys = [], ps_values = [], ps_generations = [], ps_generation = 0\<rparr>"

text \<open>\<open>Vec::resize\<close> to a larger length.\<close>

definition resize_zero :: "'a::zero list \<Rightarrow> nat \<Rightarrow> 'a list" where
  "resize_zero xs n = xs @ replicate (n - length xs) 0"

text \<open>\<open>reserve\<close> says whether the allocator grants a number of further entries.\<close>

definition scratch_prepare :: "(nat \<Rightarrow> bool) \<Rightarrow> position_scratch \<Rightarrow> nat \<Rightarrow> position_scratch result" where
  "scratch_prepare reserve s weight =
     bindE (ok_or (Option.bind (checked_mul weight 4) checked_next_power_of_two)
              (InvalidInput ''sparse permutation size overflow''))
       (\<lambda>size. let capacity = max size 4 in
          if capacity \<le> length (ps_keys s) then Inr s
          else bindE (ok_or (checked_sub capacity (length (ps_keys s))) InvalidProof)
            (\<lambda>additional.
               if \<not> reserve additional then Inl (InvalidInput ''sparse permutation allocation failed'')
               else Inr (s\<lparr>ps_keys := resize_zero (ps_keys s) capacity,
                           ps_values := resize_zero (ps_values s) capacity,
                           ps_generations := resize_zero (ps_generations s) capacity\<rparr>)))"

definition scratch_clear :: "position_scratch \<Rightarrow> position_scratch" where
  "scratch_clear s =
     (let s1 = s\<lparr>ps_generation := ps_generation s + 1\<rparr> in
      if ps_generation s1 = 0
      then s1\<lparr>ps_generations := map (\<lambda>_. 0) (ps_generations s1), ps_generation := 1\<rparr>
      else s1)"

fun probe :: "position_scratch \<Rightarrow> nat \<Rightarrow> nat \<Rightarrow> nat \<Rightarrow> nat \<Rightarrow> (nat \<times> bool) result" where
  "probe s key msk slot 0 = Inl (InvalidSetup ''sparse permutation scratch capacity exhausted'')"
| "probe s key msk slot (Suc k) =
     (if length (ps_generations s) \<le> slot then Inl InvalidProof
      else if ps_generations s ! slot \<noteq> ps_generation s then Inr (slot, False)
      else if slot < length (ps_keys s) \<and> ps_keys s ! slot = key then Inr (slot, True)
      else probe s key msk ((slot + 1) mod 2 ^ 64 AND msk) k)"

definition find_slot :: "position_scratch \<Rightarrow> nat \<Rightarrow> (nat \<times> bool) result" where
  "find_slot s key =
     bindE (ok_or (checked_sub (length (ps_keys s)) 1) (InvalidSetup ''sparse permutation scratch is empty''))
       (\<lambda>msk. probe s key msk (key AND msk) (length (ps_keys s)))"

definition scratch_get :: "position_scratch \<Rightarrow> nat \<Rightarrow> nat result" where
  "scratch_get s key =
     bindE (find_slot s key)
       (\<lambda>(slot, occupied).
          if occupied
          then if slot < length (ps_values s) then Inr (ps_values s ! slot) else Inl InvalidProof
          else Inr key)"

definition scratch_insert :: "position_scratch \<Rightarrow> nat \<Rightarrow> nat \<Rightarrow> position_scratch result" where
  "scratch_insert s key val =
     bindE (find_slot s key)
       (\<lambda>(slot, _).
          if length (ps_keys s) \<le> slot then Inl InvalidProof
          else if length (ps_values s) \<le> slot then Inl InvalidProof
          else if length (ps_generations s) \<le> slot then Inl InvalidProof
          else Inr (s\<lparr>ps_keys := (ps_keys s)[slot := key], ps_values := (ps_values s)[slot := val],
                      ps_generations := (ps_generations s)[slot := ps_generation s]\<rparr>))"

subsection \<open>The two shuffles\<close>

text \<open>
  A draw that never returns makes the loop \<open>None\<close>.  The sparse loop works on any table with a
  \<open>get\<close> and an \<open>insert\<close>; the code's table is \<open>position_scratch\<close>.
\<close>

fun sparse_loop ::
  "('s \<Rightarrow> nat \<Rightarrow> nat result) \<Rightarrow> ('s \<Rightarrow> nat \<Rightarrow> nat \<Rightarrow> 's result)
    \<Rightarrow> ('c \<Rightarrow> nat \<Rightarrow> (nat \<times> 'c) option) \<Rightarrow> nat \<Rightarrow> nat \<Rightarrow> nat \<Rightarrow> 'c \<Rightarrow> 's
    \<Rightarrow> (nat list \<times> 'c \<times> 's) result option" where
  "sparse_loop get insrt draw universe i 0 c s = Some (Inr ([], c, s))"
| "sparse_loop get insrt draw universe i (Suc k) c s =
     (case draw c (universe - i) of
        None \<Rightarrow> None
      | Some (offset, c1) \<Rightarrow>
          let j = i + offset in
          (case bindE (get s i) (\<lambda>left. bindE (get s j) (\<lambda>right.
                  bindE (insrt s i right) (\<lambda>s1. bindE (insrt s1 j left) (\<lambda>s2.
                    if right < 2 ^ 32 then Inr (right, s2) else Inl InvalidProof)))) of
             Inl e \<Rightarrow> Some (Inl e)
           | Inr (right, s2) \<Rightarrow>
               map_option (\<lambda>res. bindE res (\<lambda>(out, c2, s3). Inr (right # out, c2, s3)))
                 (sparse_loop get insrt draw universe (Suc i) k c1 s2)))"

definition sample_distinct_positions_into_sparse ::
  "keccak \<Rightarrow> (nat \<Rightarrow> bool) \<Rightarrow> xof_cursor \<Rightarrow> nat \<Rightarrow> nat \<Rightarrow> position_scratch
    \<Rightarrow> (nat list \<times> xof_cursor \<times> position_scratch) result option" where
  "sample_distinct_positions_into_sparse kc reserve c universe count s =
     (case scratch_prepare reserve s count of
        Inl e \<Rightarrow> Some (Inl e)
      | Inr s1 \<Rightarrow>
          sparse_loop scratch_get scratch_insert (next_usize_mod kc) universe 0 count c (scratch_clear s1))"

definition swap_at :: "nat list \<Rightarrow> nat \<Rightarrow> nat \<Rightarrow> nat list" where
  "swap_at xs i j = xs[i := xs ! j, j := xs ! i]"

fun dense_loop ::
  "('c \<Rightarrow> nat \<Rightarrow> (nat \<times> 'c) option) \<Rightarrow> nat \<Rightarrow> nat \<Rightarrow> nat \<Rightarrow> 'c \<Rightarrow> nat list \<Rightarrow> (nat list \<times> 'c) option" where
  "dense_loop draw universe i 0 c perm = Some ([], c)"
| "dense_loop draw universe i (Suc k) c perm =
     Option.bind (draw c (universe - i))
       (\<lambda>(offset, c1). let perm' = swap_at perm i (i + offset) in
          map_option (\<lambda>(out, c2). (perm' ! i # out, c2)) (dense_loop draw universe (Suc i) k c1 perm'))"

text \<open>\<open>tier_max\<close> is the largest value of the entry type, \<open>u8\<close> or \<open>u16\<close>, and \<open>n\<close> the array length.\<close>

definition sample_distinct_positions_into_stack ::
  "keccak \<Rightarrow> nat \<Rightarrow> nat \<Rightarrow> xof_cursor \<Rightarrow> nat \<Rightarrow> nat \<Rightarrow> (nat list \<times> xof_cursor) result option" where
  "sample_distinct_positions_into_stack kc tier_max n c universe count =
     (if universe < count \<or> n < universe \<or> MAX_STACK_TIER_RING_DIM < n
      then Some (Inl (InvalidInput ''permutation tier has invalid dimensions''))
      else if tier_max < universe - 1 then Some (Inl InvalidProof)
      else let perm = [0..<universe] @ replicate (n - universe) 0
           in map_option Inr (dense_loop (next_usize_mod kc) universe 0 count c perm))"

definition sample_distinct_positions_into ::
  "keccak \<Rightarrow> (nat \<Rightarrow> bool) \<Rightarrow> xof_cursor \<Rightarrow> nat \<Rightarrow> nat \<Rightarrow> position_scratch
    \<Rightarrow> (nat list \<times> xof_cursor \<times> position_scratch) result option" where
  "sample_distinct_positions_into kc reserve c universe count s =
     (if universe > saturating_mul count 64
      then sample_distinct_positions_into_sparse kc reserve c universe count s
      else if universe > MAX_STACK_TIER_RING_DIM
      then Some (Inl (InvalidInput (''ring dimension must be <= '' @ show_nat MAX_STACK_RING_DIM)))
      else let (tier_max, n) =
             (if universe \<le> 8 then (255, 8) else if universe \<le> 16 then (255, 16)
              else if universe \<le> 32 then (255, 32) else if universe \<le> 64 then (255, 64)
              else if universe \<le> 128 then (255, 128) else if universe \<le> 256 then (255, 256)
              else if universe \<le> 512 then (65535, 512) else if universe \<le> 1024 then (65535, 1024)
              else (65535, MAX_STACK_TIER_RING_DIM))
           in map_option (\<lambda>res. bindE res (\<lambda>(out, c'). Inr (out, c', s)))
                (sample_distinct_positions_into_stack kc tier_max n c universe count))"

text \<open>A draw from a range stays in it, whatever the state of the source.\<close>

definition draws_in_range :: "('c \<Rightarrow> nat \<Rightarrow> (nat \<times> 'c) option) \<Rightarrow> bool" where
  "draws_in_range draw \<longleftrightarrow> (\<forall>c d offset c'. draw c d = Some (offset, c') \<longrightarrow> 0 < d \<longrightarrow> offset < d)"

lemma in_rangeD: "draws_in_range draw \<Longrightarrow> draw c d = Some (offset, c') \<Longrightarrow> 0 < d \<Longrightarrow> offset < d"
  by (auto simp: draws_in_range_def)

subsection \<open>The table is a map\<close>

text \<open>Whoever shuffles needs a table that behaves as a map for a number of further insertions.\<close>

locale position_table =
  fixes get :: "'s \<Rightarrow> nat \<Rightarrow> nat result" and insrt :: "'s \<Rightarrow> nat \<Rightarrow> nat \<Rightarrow> 's result"
    and holds :: "'s \<Rightarrow> (nat \<rightharpoonup> nat) \<Rightarrow> nat \<Rightarrow> bool"
  assumes get: "holds s m (Suc r) \<Longrightarrow> get s k = Inr (case m k of None \<Rightarrow> k | Some v \<Rightarrow> v)"
    and insrt: "holds s m (Suc r) \<Longrightarrow> \<exists>s'. insrt s k v = Inr s' \<and> holds s' (m(k \<mapsto> v)) r"
begin

definition represents :: "nat \<Rightarrow> (nat \<rightharpoonup> nat) \<Rightarrow> nat list \<Rightarrow> bool" where
  "represents universe m perm \<longleftrightarrow> universe \<le> length perm
     \<and> (\<forall>x < universe. perm ! x = (case m x of None \<Rightarrow> x | Some v \<Rightarrow> v) \<and> perm ! x < universe)"

lemma represents_swap:
  assumes rep: "represents universe m perm" and i: "i < universe" and j: "j < universe"
  shows "represents universe (m(i \<mapsto> perm ! j, j \<mapsto> perm ! i)) (swap_at perm i j)"
    and "swap_at perm i j ! i = perm ! j"
proof -
  have len: "universe \<le> length perm" using rep by (simp add: represents_def)
  have nth: "swap_at perm i j ! x = (if x = j then perm ! i else if x = i then perm ! j else perm ! x)" if "x < universe" for x
    using that len i j by (simp add: swap_at_def nth_list_update)
  have at: "perm ! x = (case m x of None \<Rightarrow> x | Some v \<Rightarrow> v)" "perm ! x < universe" if "x < universe" for x
    using rep that unfolding represents_def by blast+
  have "universe \<le> length (swap_at perm i j)" using len by (simp add: swap_at_def)
  moreover have "swap_at perm i j ! x = (case (m(i \<mapsto> perm ! j, j \<mapsto> perm ! i)) x of None \<Rightarrow> x | Some v \<Rightarrow> v)
      \<and> swap_at perm i j ! x < universe" if "x < universe" for x
    unfolding nth [OF that] using at(2) [OF i] at(2) [OF j] at [OF that] by (simp only: fun_upd_apply if_split option.case) simp
  ultimately show "represents universe (m(i \<mapsto> perm ! j, j \<mapsto> perm ! i)) (swap_at perm i j)"
    unfolding represents_def by blast
  show "swap_at perm i j ! i = perm ! j" unfolding nth [OF i] by simp
qed

lemma sparse_simulates_dense:
  assumes "draws_in_range draw" and "universe \<le> 2 ^ 32"
    and "i + k \<le> universe" and "holds s m (2 * k)" and "represents universe m perm"
  shows "case dense_loop draw universe i k c perm of
       None \<Rightarrow> sparse_loop get insrt draw universe i k c s = None
     | Some (out, c') \<Rightarrow> \<exists>s' m'. sparse_loop get insrt draw universe i k c s = Some (Inr (out, c', s')) \<and> holds s' m' 0"
  using assms(3-5)
proof (induction k arbitrary: i c s m perm)
  case (Suc k)
  show ?case
  proof (cases "draw c (universe - i)")
    case (Some r)
    obtain offset c1 where draw: "draw c (universe - i) = Some (offset, c1)" using Some by (cases r) simp
    let ?j = "i + offset" and ?perm = "swap_at perm i (i + offset)"
    have "offset < universe - i" using in_rangeD [OF assms(1) draw] Suc.prems(1) by simp
    then have ij: "i < universe" "?j < universe" by simp_all
    note rep = represents_swap [OF Suc.prems(3) ij]
    have room: "holds s m (Suc (Suc (2 * k)))" using Suc.prems(2) by simp
    have gets: "get s x = Inr (perm ! x)" "perm ! x < universe" if "x < universe" for x
      using get [OF room, of x] Suc.prems(3) that by (auto simp: represents_def)
    obtain s1 where s1: "insrt s i (perm ! ?j) = Inr s1" "holds s1 (m(i \<mapsto> perm ! ?j)) (Suc (2 * k))"
      using insrt [OF room] by blast
    obtain s2 where s2: "insrt s1 ?j (perm ! i) = Inr s2" "holds s2 (m(i \<mapsto> perm ! ?j, ?j \<mapsto> perm ! i)) (2 * k)"
      using insrt [OF s1(2)] by blast
    have small: "perm ! ?j < 2 ^ 32" using gets(2) [OF ij(2)] assms(2) by simp
    have "Suc i + k \<le> universe" using Suc.prems(1) by simp
    from Suc.IH [OF this s2(2) rep(1), of c1] show ?thesis
      using draw gets ij s1(1) s2(1) rep(2) small
      by (cases "dense_loop draw universe (Suc i) k c1 ?perm") (auto simp: Let_def)
  qed simp
qed auto

end

definition occ :: "position_scratch \<Rightarrow> nat \<Rightarrow> bool" where
  "occ s i \<longleftrightarrow> i < length (ps_keys s) \<and> ps_generations s ! i = ps_generation s"

definition path :: "position_scratch \<Rightarrow> nat \<Rightarrow> nat \<Rightarrow> nat" where
  "path s key d = (key + d) mod length (ps_keys s)"

text \<open>Every occupied entry is reachable from its home slot over occupied entries only.\<close>

definition table_ok :: "position_scratch \<Rightarrow> bool" where
  "table_ok s \<longleftrightarrow> (\<exists>e. length (ps_keys s) = 2 ^ e) \<and> length (ps_keys s) < 2 ^ 64
     \<and> length (ps_values s) = length (ps_keys s) \<and> length (ps_generations s) = length (ps_keys s)
     \<and> (\<forall>g \<in> set (ps_generations s). g \<le> ps_generation s)
     \<and> (\<forall>i j. occ s i \<longrightarrow> occ s j \<longrightarrow> ps_keys s ! i = ps_keys s ! j \<longrightarrow> i = j)
     \<and> (\<forall>i. occ s i \<longrightarrow> (\<exists>d. i = path s (ps_keys s ! i) d \<and> (\<forall>m < d. occ s (path s (ps_keys s ! i) m))))"

definition table_map :: "position_scratch \<Rightarrow> nat \<rightharpoonup> nat" where
  "table_map s k =
     (case filter (\<lambda>i. occ s i \<and> ps_keys s ! i = k) [0..<length (ps_keys s)] of
        [] \<Rightarrow> None | i # _ \<Rightarrow> Some (ps_values s ! i))"

definition table_holds :: "position_scratch \<Rightarrow> (nat \<rightharpoonup> nat) \<Rightarrow> nat \<Rightarrow> bool" where
  "table_holds s m r \<longleftrightarrow> table_ok s \<and> table_map s = m \<and> card {i. occ s i} + r \<le> length (ps_keys s)"

lemma occ_less: "occ s i \<Longrightarrow> i < length (ps_keys s)"
  by (simp add: occ_def)

lemma table_map_Some:
  assumes "table_ok s" and "occ s i"
  shows "table_map s (ps_keys s ! i) = Some (ps_values s ! i)"
proof -
  let ?xs = "filter (\<lambda>j. occ s j \<and> ps_keys s ! j = ps_keys s ! i) [0..<length (ps_keys s)]"
  have "i \<in> set ?xs" using assms(2) by (auto simp: occ_def)
  then obtain j js where xs: "?xs = j # js" by (cases ?xs) auto
  then have "j \<in> set ?xs" by simp
  then have "occ s j \<and> ps_keys s ! j = ps_keys s ! i" by simp
  with assms have "j = i" by (auto simp: table_ok_def)
  with xs show ?thesis by (simp add: table_map_def)
qed

lemma table_map_None: "(\<And>i. occ s i \<Longrightarrow> ps_keys s ! i \<noteq> k) \<Longrightarrow> table_map s k = None"
  by (auto simp: table_map_def filter_empty_conv split: list.split dest: sym)

lemma mask_mod: "length xs = 2 ^ e \<Longrightarrow> k AND (length xs - 1) = k mod length xs"
  for k :: nat
proof -
  assume "length xs = 2 ^ e"
  moreover have "k AND mask e = k mod 2 ^ e" by (simp only: take_bit_eq_mod flip: take_bit_eq_mask)
  ultimately show ?thesis by (simp only: mask_eq_exp_minus_1)
qed

lemma path_Suc:
  assumes "length (ps_keys s) = 2 ^ e" and "length (ps_keys s) < 2 ^ 64"
  shows "(path s key d + 1) mod 2 ^ 64 AND (length (ps_keys s) - 1) = path s key (Suc d)"
proof -
  have pos: "0 < length (ps_keys s)" using assms(1) by simp
  have "path s key d < length (ps_keys s)" unfolding path_def by (rule mod_less_divisor [OF pos])
  then have "(path s key d + 1) mod 2 ^ 64 = path s key d + 1" using assms(2) by simp
  then have "(path s key d + 1) mod 2 ^ 64 AND (length (ps_keys s) - 1) = Suc (path s key d) mod length (ps_keys s)"
    by (simp only: mask_mod [OF assms(1)] Suc_eq_plus1)
  then show ?thesis by (simp add: path_def mod_Suc_eq)
qed

lemma probe_spec:
  assumes ok: "table_ok s" and "j + fuel = length (ps_keys s)"
    and "\<exists>d. j \<le> d \<and> d < length (ps_keys s) \<and> \<not> (occ s (path s key d) \<and> ps_keys s ! path s key d \<noteq> key)"
  shows "\<exists>d. j \<le> d \<and> \<not> (occ s (path s key d) \<and> ps_keys s ! path s key d \<noteq> key)
     \<and> (\<forall>m. j \<le> m \<longrightarrow> m < d \<longrightarrow> occ s (path s key m) \<and> ps_keys s ! path s key m \<noteq> key)
     \<and> probe s key (length (ps_keys s) - 1) (path s key j) fuel = Inr (path s key d, occ s (path s key d))"
  using assms(2,3)
proof (induction fuel arbitrary: j)
  case (Suc fuel)
  let ?n = "length (ps_keys s)"
  have pos: "0 < ?n" and gens: "length (ps_generations s) = ?n" using ok Suc.prems(1) by (auto simp: table_ok_def)
  have less: "path s key j < ?n" unfolding path_def by (rule mod_less_divisor [OF pos])
  show ?case
  proof (cases "occ s (path s key j) \<and> ps_keys s ! path s key j \<noteq> key")
    case True
    obtain e where e: "?n = 2 ^ e" "?n < 2 ^ 64" using ok by (auto simp: table_ok_def)
    have "\<exists>d. Suc j \<le> d \<and> d < ?n \<and> \<not> (occ s (path s key d) \<and> ps_keys s ! path s key d \<noteq> key)"
      using Suc.prems(2) True by (metis Suc_leI le_neq_implies_less)
    from Suc.IH [OF _ this] Suc.prems(1) obtain d where d: "Suc j \<le> d"
        "\<not> (occ s (path s key d) \<and> ps_keys s ! path s key d \<noteq> key)"
        "\<forall>m. Suc j \<le> m \<longrightarrow> m < d \<longrightarrow> occ s (path s key m) \<and> ps_keys s ! path s key m \<noteq> key"
        "probe s key (?n - 1) (path s key (Suc j)) fuel = Inr (path s key d, occ s (path s key d))" by auto
    have "probe s key (?n - 1) (path s key j) (Suc fuel) = probe s key (?n - 1) (path s key (Suc j)) fuel"
      using True gens less by (simp only: probe.simps path_Suc [OF e]) (simp add: occ_def)
    moreover have "occ s (path s key m) \<and> ps_keys s ! path s key m \<noteq> key" if "j \<le> m" "m < d" for m
      using that d(3) True by (cases "m = j") auto
    ultimately show ?thesis using d by (intro exI [of _ d]) auto
  next
    case False
    then show ?thesis using gens less by (intro exI [of _ j]) (auto simp: occ_def)
  qed
qed auto

lemma path_covers:
  assumes "i < length (ps_keys s)"
  shows "\<exists>d. d < length (ps_keys s) \<and> path s key d = i"
proof -
  let ?n = "length (ps_keys s)"
  have pos: "0 < ?n" using assms by linarith
  have "path s key ((i + ?n - key mod ?n) mod ?n) = (key mod ?n + (i + ?n - key mod ?n)) mod ?n"
    unfolding path_def by (simp add: mod_simps)
  also have "\<dots> = i" using assms mod_less_divisor [OF pos, of key] by simp
  finally show ?thesis using mod_less_divisor [OF pos] by blast
qed

lemma find_slot_spec:
  assumes ok: "table_ok s" and room: "card {i. occ s i} < length (ps_keys s)"
  shows "\<exists>d. find_slot s key = Inr (path s key d, occ s (path s key d)) \<and> path s key d < length (ps_keys s)
     \<and> (\<forall>m < d. occ s (path s key m))
     \<and> (occ s (path s key d) \<longrightarrow> ps_keys s ! path s key d = key)
     \<and> (\<not> occ s (path s key d) \<longrightarrow> (\<forall>i. occ s i \<longrightarrow> ps_keys s ! i \<noteq> key))"
proof -
  let ?n = "length (ps_keys s)"
  obtain e where e: "?n = 2 ^ e" using ok by (auto simp: table_ok_def)
  have pos: "0 < ?n" using e by simp
  have "\<exists>i < ?n. \<not> occ s i"
  proof (rule ccontr)
    assume "\<not> ?thesis"
    then have "{i. occ s i} = {..<?n}" using occ_less by auto
    then show False using room by simp
  qed
  then obtain d0 where d0: "d0 < ?n" "\<not> occ s (path s key d0)" using path_covers by metis
  have find: "find_slot s key = probe s key (?n - 1) (path s key 0) ?n"
  proof -
    have "checked_sub ?n 1 = Some (?n - 1)" using pos by (simp add: checked_sub_def Suc_le_eq)
    then show ?thesis by (simp only: find_slot_def ok_or_simps bindE_simps mask_mod [OF e] path_def add_0_right)
  qed
  obtain d where d: "\<not> (occ s (path s key d) \<and> ps_keys s ! path s key d \<noteq> key)"
      "\<forall>m < d. occ s (path s key m) \<and> ps_keys s ! path s key m \<noteq> key"
      "find_slot s key = Inr (path s key d, occ s (path s key d))"
    using probe_spec [OF ok, of 0 ?n key] d0 unfolding find by auto
  have "ps_keys s ! i \<noteq> key" if free: "\<not> occ s (path s key d)" and i: "occ s i" for i
  proof
    assume key: "ps_keys s ! i = key"
    obtain d' where d': "i = path s key d'" "\<forall>m < d'. occ s (path s key m)"
      using ok i key by (auto simp: table_ok_def)
    have "\<not> d < d'" using d'(2) free by blast
    moreover have "\<not> d' < d" using d(2) d'(1) key by blast
    ultimately show False using d'(1) i free by simp
  qed
  moreover have "path s key d < ?n" unfolding path_def by (rule mod_less_divisor [OF pos])
  ultimately show ?thesis using d by (intro exI [of _ d]) auto
qed

lemma table_get:
  assumes "table_holds s m (Suc r)"
  shows "scratch_get s k = Inr (case m k of None \<Rightarrow> k | Some v \<Rightarrow> v)"
proof -
  have ok: "table_ok s" and m: "m = table_map s" and room: "card {i. occ s i} < length (ps_keys s)"
    using assms by (auto simp: table_holds_def)
  obtain d where d: "find_slot s k = Inr (path s k d, occ s (path s k d))" "path s k d < length (ps_keys s)"
      "occ s (path s k d) \<longrightarrow> ps_keys s ! path s k d = k"
      "\<not> occ s (path s k d) \<longrightarrow> (\<forall>i. occ s i \<longrightarrow> ps_keys s ! i \<noteq> k)"
    using find_slot_spec [OF ok room, of k] by blast
  show ?thesis
  proof (cases "occ s (path s k d)")
    case True
    with d(3) table_map_Some [OF ok True] have "table_map s k = Some (ps_values s ! path s k d)" by simp
    with True d ok show ?thesis by (simp add: scratch_get_def m table_ok_def)
  next
    case False
    with d(4) have "table_map s k = None" by (intro table_map_None) blast
    with False d show ?thesis by (simp add: scratch_get_def m)
  qed
qed

text \<open>The slot an insertion of \<open>k\<close> goes to, and the table after it.\<close>

definition slot_for :: "position_scratch \<Rightarrow> nat \<Rightarrow> nat \<Rightarrow> bool" where
  "slot_for s k p \<longleftrightarrow> p < length (ps_keys s) \<and> (\<exists>d. p = path s k d \<and> (\<forall>j < d. occ s (path s k j)))
     \<and> (occ s p \<longrightarrow> ps_keys s ! p = k) \<and> (\<forall>i. occ s i \<longrightarrow> i \<noteq> p \<longrightarrow> ps_keys s ! i \<noteq> k)"

definition put :: "position_scratch \<Rightarrow> nat \<Rightarrow> nat \<Rightarrow> nat \<Rightarrow> position_scratch" where
  "put s p k v = s\<lparr>ps_keys := (ps_keys s)[p := k], ps_values := (ps_values s)[p := v],
      ps_generations := (ps_generations s)[p := ps_generation s]\<rparr>"

lemma insert_put:
  assumes ok: "table_ok s" and room: "card {i. occ s i} < length (ps_keys s)"
  shows "\<exists>p. slot_for s k p \<and> scratch_insert s k v = Inr (put s p k v)"
proof -
  obtain d where d: "find_slot s k = Inr (path s k d, occ s (path s k d))" "path s k d < length (ps_keys s)"
      "\<forall>j < d. occ s (path s k j)" "occ s (path s k d) \<longrightarrow> ps_keys s ! path s k d = k"
      "\<not> occ s (path s k d) \<longrightarrow> (\<forall>i. occ s i \<longrightarrow> ps_keys s ! i \<noteq> k)"
    using find_slot_spec [OF ok room, of k] by blast
  have "ps_keys s ! i \<noteq> k" if "occ s i" "i \<noteq> path s k d" for i
    using that d(4,5) ok by (cases "occ s (path s k d)") (auto simp: table_ok_def)
  then have "slot_for s k (path s k d)" using d by (auto simp: slot_for_def)
  moreover have "scratch_insert s k v = Inr (put s (path s k d) k v)"
    using d(1,2) ok by (simp add: scratch_insert_def put_def table_ok_def)
  ultimately show ?thesis by blast
qed

lemma put_facts:
  assumes "table_ok s" and "p < length (ps_keys s)"
  shows "length (ps_keys (put s p k v)) = length (ps_keys s)" "path (put s p k v) = path s"
    and "occ (put s p k v) i \<longleftrightarrow> occ s i \<or> i = p"
    and "i < length (ps_keys s) \<Longrightarrow> ps_keys (put s p k v) ! i = (if i = p then k else ps_keys s ! i)"
    and "i < length (ps_keys s) \<Longrightarrow> ps_values (put s p k v) ! i = (if i = p then v else ps_values s ! i)"
  using assms by (auto simp: put_def path_def [abs_def] occ_def table_ok_def nth_list_update)

lemma put_inj:
  assumes ok: "table_ok s" and slot: "slot_for s k p"
    and "occ (put s p k v) i" "occ (put s p k v) j" "ps_keys (put s p k v) ! i = ps_keys (put s p k v) ! j"
  shows "i = j"
proof -
  have p: "p < length (ps_keys s)" using slot by (simp add: slot_for_def)
  note f = put_facts [OF ok p]
  have less: "i < length (ps_keys s)" "j < length (ps_keys s)" using assms(3,4) occ_less [of "put s p k v"] f(1) by auto
  have keys: "(if i = p then k else ps_keys s ! i) = (if j = p then k else ps_keys s ! j)"
    using assms(5) by (simp only: f(4) [OF less(1)] f(4) [OF less(2)])
  have old: "occ s x" if "occ (put s p k v) x" "x \<noteq> p" for x using that by (simp add: f(3))
  show ?thesis
  proof (cases "i = p \<or> j = p")
    case True
    then show ?thesis using keys slot old assms(3,4) unfolding slot_for_def by metis
  next
    case False
    with keys have "ps_keys s ! i = ps_keys s ! j" by simp
    with ok old [OF assms(3)] old [OF assms(4)] False show ?thesis unfolding table_ok_def by blast
  qed
qed

lemma put_ok:
  assumes ok: "table_ok s" and slot: "slot_for s k p"
  shows "table_ok (put s p k v)"
proof -
  let ?s = "put s p k v"
  have p: "p < length (ps_keys s)" using slot by (simp add: slot_for_def)
  note f = put_facts [OF ok p, where k = k and v = v]
  have "\<exists>d. i = path ?s (ps_keys ?s ! i) d \<and> (\<forall>j < d. occ ?s (path ?s (ps_keys ?s ! i) j))" if "occ ?s i" for i
  proof (cases "i = p")
    case True
    obtain d where d: "p = path s k d" "\<forall>j < d. occ s (path s k j)" using slot by (auto simp: slot_for_def)
    have "\<forall>j < d. occ ?s (path s k j)" using d(2) by (simp add: f(3))
    with d(1) show ?thesis unfolding True f(2) f(4) [OF p] by (simp only: if_True simp_thms) blast
  next
    case False
    with that have i: "occ s i" by (simp add: f(3))
    then obtain d where "i = path s (ps_keys s ! i) d" "\<forall>j < d. occ s (path s (ps_keys s ! i) j)"
      using ok unfolding table_ok_def by blast
    then show ?thesis using False unfolding f(2) f(4) [OF occ_less [OF i]] by (auto simp: f(3))
  qed
  moreover have "(\<exists>e. length (ps_keys ?s) = 2 ^ e) \<and> length (ps_keys ?s) < 2 ^ 64
     \<and> length (ps_values ?s) = length (ps_keys ?s) \<and> length (ps_generations ?s) = length (ps_keys ?s)
     \<and> (\<forall>g \<in> set (ps_generations ?s). g \<le> ps_generation ?s)"
    using ok set_update_subset_insert [of "ps_generations s" p "ps_generation s"] by (auto simp: table_ok_def put_def)
  ultimately show ?thesis unfolding table_ok_def using put_inj [OF ok slot] by blast
qed

lemma put_map:
  assumes ok: "table_ok s" and slot: "slot_for s k p"
  shows "table_map (put s p k v) = (table_map s)(k \<mapsto> v)"
proof
  fix x
  let ?s = "put s p k v"
  have p: "p < length (ps_keys s)" using slot by (simp add: slot_for_def)
  note f = put_facts [OF ok p, where k = k and v = v] and ok' = put_ok [OF ok slot, of v]
  show "table_map ?s x = ((table_map s)(k \<mapsto> v)) x"
  proof (cases "\<exists>i. occ ?s i \<and> ps_keys ?s ! i = x")
    case True
    then obtain i where i: "occ ?s i" "ps_keys ?s ! i = x" by blast
    have less: "i < length (ps_keys s)" using occ_less [OF i(1)] f(1) by simp
    have x: "table_map ?s x = Some (ps_values ?s ! i)" using table_map_Some [OF ok' i(1)] i(2) by simp
    show ?thesis
    proof (cases "i = p")
      case False
      with i have o: "occ s i" "ps_keys s ! i = x" by (simp_all add: f(3) f(4) [OF less])
      then have "x \<noteq> k" using slot False by (auto simp: slot_for_def)
      with table_map_Some [OF ok o(1)] o(2) False x show ?thesis by (simp add: f(5) [OF less])
    qed (use i(2) x f(4,5) [OF p] in simp)
  next
    case False
    then have "x \<noteq> k" using f(3) f(4) [OF p] by metis
    moreover have "ps_keys s ! i \<noteq> x" if "occ s i" for i
      using that False \<open>x \<noteq> k\<close> slot f(3) f(4) [OF occ_less [OF that]] unfolding slot_for_def by metis
    ultimately show ?thesis using False table_map_None [of s x] table_map_None [of ?s x] by auto
  qed
qed

lemma table_insert:
  assumes "table_holds s m (Suc r)"
  shows "\<exists>s'. scratch_insert s k v = Inr s' \<and> table_holds s' (m(k \<mapsto> v)) r"
proof -
  let ?n = "length (ps_keys s)"
  have ok: "table_ok s" and m: "m = table_map s" and card: "card {i. occ s i} + Suc r \<le> ?n"
    using assms by (auto simp: table_holds_def)
  obtain p where p: "slot_for s k p" "scratch_insert s k v = Inr (put s p k v)" using insert_put [OF ok] card by fastforce
  have less: "p < ?n" using p(1) by (simp add: slot_for_def)
  note f = put_facts [OF ok less, where k = k and v = v]
  have "{i. occ (put s p k v) i} = insert p {i. occ s i}" by (auto simp: f(3))
  moreover have "finite {i. occ s i}" by (rule finite_subset [of _ "{..<?n}"]) (auto dest: occ_less)
  ultimately have "card {i. occ (put s p k v) i} \<le> Suc (card {i. occ s i})" by (simp add: card_insert_if)
  with card have "table_holds (put s p k v) (m(k \<mapsto> v)) r"
    using put_ok [OF ok p(1)] put_map [OF ok p(1)] f(1) by (simp add: table_holds_def m)
  with p(2) show ?thesis by blast
qed

interpretation scratch: position_table scratch_get scratch_insert table_holds
  by unfold_locales (rule table_get table_insert; assumption)+

subsection \<open>Reuse of the table\<close>

text \<open>No stamp is ahead of the current generation, so that a new generation empties the table.\<close>

definition scratch_wf :: "position_scratch \<Rightarrow> bool" where
  "scratch_wf s \<longleftrightarrow> (ps_keys s = [] \<or> (\<exists>e. length (ps_keys s) = 2 ^ e)) \<and> length (ps_keys s) < 2 ^ 64
     \<and> length (ps_values s) = length (ps_keys s) \<and> length (ps_generations s) = length (ps_keys s)
     \<and> (\<forall>g \<in> set (ps_generations s). g \<le> ps_generation s)"

lemma table_ok_wf: "table_ok s \<Longrightarrow> scratch_wf s"
  by (auto simp: table_ok_def scratch_wf_def)

lemma scratch_wf_new [simp]: "scratch_wf position_scratch_new"
  by (simp add: scratch_wf_def position_scratch_new_def)

lemma next_power_of_two_Some:
  assumes "checked_next_power_of_two n = Some p"
  shows "(\<exists>e. p = 2 ^ e) \<and> n \<le> p \<and> p \<le> usize_max"
proof -
  have p: "p = next_pow2_from 1 n" "p \<le> usize_max"
    using assms by (auto simp: checked_next_power_of_two_def Let_def split: if_splits)
  obtain e where "next_pow2_from 1 n = 2 ^ e" "n \<le> 2 ^ e" using next_pow2_from_pow [of 0 n] by auto
  with p show ?thesis by metis
qed

lemma resize_facts:
  assumes "length xs \<le> n"
  shows "length (resize_zero xs n) = n" and "set (resize_zero xs n) \<subseteq> insert 0 (set xs)"
  using assms by (auto simp: resize_zero_def)

lemma prepare_wf:
  assumes wf: "scratch_wf s" and prep: "scratch_prepare reserve s count = Inr s'"
  shows "scratch_wf s' \<and> ps_keys s' \<noteq> [] \<and> 4 * count \<le> length (ps_keys s')"
proof -
  obtain p where p: "Option.bind (checked_mul count 4) checked_next_power_of_two = Some p"
      and s': "s' = (if max p 4 \<le> length (ps_keys s) then s
        else s\<lparr>ps_keys := resize_zero (ps_keys s) (max p 4), ps_values := resize_zero (ps_values s) (max p 4),
               ps_generations := resize_zero (ps_generations s) (max p 4)\<rparr>)"
    using prep unfolding scratch_prepare_def Let_def by (auto simp: result_simps split: if_splits)
  have "checked_next_power_of_two (count * 4) = Some p"
    using p by (auto simp: checked_mul_def split: if_splits)
  from next_power_of_two_Some [OF this] obtain e where e: "p = 2 ^ e" "count * 4 \<le> p" "p \<le> usize_max" by blast
  have "max p 4 = 2 ^ (if 4 \<le> p then e else 2)" using e(1) by auto
  then have cap: "\<exists>k. max p 4 = 2 ^ k" "max p 4 < 2 ^ 64" "4 * count \<le> max p 4"
    using e by (blast, simp_all add: usize_max_def)
  show ?thesis
  proof (cases "max p 4 \<le> length (ps_keys s)")
    case True
    with cap(3) have "4 * count \<le> length (ps_keys s)" "ps_keys s \<noteq> []" by (linarith, auto)
    with True wf show ?thesis by (simp add: s')
  next
    case False
    then have len: "length (ps_keys s) \<le> max p 4" by linarith
    have "\<forall>g \<in> set (ps_generations s'). g \<le> ps_generation s'"
      using False wf len resize_facts(2) [of "ps_generations s" "max p 4"] by (auto simp: s' scratch_wf_def)
    moreover have lens: "length (ps_keys s') = max p 4" "length (ps_values s') = max p 4" "length (ps_generations s') = max p 4"
      using False wf len by (simp_all add: s' scratch_wf_def resize_facts del: max.bounded_iff)
    moreover have "ps_keys s' \<noteq> []" using lens(1) by auto
    ultimately show ?thesis unfolding scratch_wf_def using cap by metis
  qed
qed

lemma clear_no_stamp:
  assumes "\<forall>g \<in> set (ps_generations s). g \<le> ps_generation s" and "g \<in> set (ps_generations (scratch_clear s))"
  shows "g < ps_generation (scratch_clear s)"
proof (cases "ps_generation s + 1 = 0")
  case False
  then have "1 + ps_generation s \<noteq> 0" by (simp add: add.commute)
  from unatSuc [OF this] have "ps_generation s < ps_generation s + 1" by (simp add: word_less_nat_alt add.commute)
  with False assms show ?thesis by (auto simp: scratch_clear_def Let_def)
qed (use assms(2) in \<open>auto simp: scratch_clear_def Let_def\<close>)

lemma clear_holds:
  assumes wf: "scratch_wf s" and "ps_keys s \<noteq> []" and "r \<le> length (ps_keys s)"
  shows "table_holds (scratch_clear s) Map.empty r"
proof -
  let ?s = "scratch_clear s"
  have lens: "ps_keys ?s = ps_keys s" "ps_values ?s = ps_values s" "length (ps_generations ?s) = length (ps_generations s)"
    by (simp_all add: scratch_clear_def Let_def)
  have stamp: "g < ps_generation ?s" if "g \<in> set (ps_generations ?s)" for g
    using clear_no_stamp [OF _ that] wf by (simp add: scratch_wf_def)
  have free: "\<not> occ ?s i" for i
  proof
    assume "occ ?s i"
    then have "i < length (ps_generations ?s)" "ps_generations ?s ! i = ps_generation ?s"
      using wf lens by (auto simp: occ_def scratch_wf_def)
    with stamp [OF nth_mem] show False by force
  qed
  have "table_ok ?s" using wf assms(2) lens free stamp by (auto simp: table_ok_def scratch_wf_def dest!: stamp)
  moreover have "table_map ?s = Map.empty" by (intro ext table_map_None) (simp add: free)
  ultimately show ?thesis using assms(3) lens(1) free by (simp add: table_holds_def)
qed

subsection \<open>Draws and positions\<close>

lemma reject_loop_accepts: "reject_loop draw m c = Some r \<Longrightarrow> fst r < m"
proof (rule reject_loop.raw_induct [where P = "\<lambda>draw m c r. fst r < m"])
  fix loop and draw :: "'a \<Rightarrow> nat \<times> 'a" and m c r
  assume "\<And>draw m c r. loop draw m c = Some r \<Longrightarrow> fst r < m"
    and "(let (v, c') = draw c in if v < m then Some (v, c') else loop draw m c') = Some r"
  then show "fst r < m" by (auto simp: case_prod_unfold Let_def split: if_splits)
qed

lemma next_usize_mod_in_range [simp]: "draws_in_range (next_usize_mod kc)"
  by (auto simp: draws_in_range_def next_usize_mod_def Let_def split: if_splits dest: reject_loop_accepts)

text \<open>The partial shuffle of the identity permutation, the reference of both routines.\<close>

definition partial_shuffle :: "keccak \<Rightarrow> xof_cursor \<Rightarrow> nat \<Rightarrow> nat \<Rightarrow> (nat list \<times> xof_cursor) option" where
  "partial_shuffle kc c universe count = dense_loop (next_usize_mod kc) universe 0 count c [0..<universe]"

lemma dense_loop_pad:
  assumes "draws_in_range draw"
  shows "i + k \<le> universe \<Longrightarrow> length perm = universe \<Longrightarrow>
    dense_loop draw universe i k c (perm @ pad) = dense_loop draw universe i k c perm"
proof (induction k arbitrary: i c perm)
  case (Suc k)
  have step: "swap_at (perm @ pad) i (i + offset) = swap_at perm i (i + offset) @ pad
      \<and> length (swap_at perm i (i + offset)) = universe" if "draw c (universe - i) = Some (offset, c1)" for offset c1
  proof -
    have "i + offset < universe" "i < universe" using in_rangeD [OF assms that] Suc.prems(1) by simp_all
    then show ?thesis using Suc.prems(2) by (simp add: swap_at_def list_update_append nth_append)
  qed
  show ?case
    by (rule option.exhaust [of "draw c (universe - i)"])
      (use Suc step in \<open>auto simp: Let_def nth_append\<close>)
qed simp

lemma dense_loop_distinct:
  assumes range: "draws_in_range draw"
  shows "i + k \<le> length perm \<Longrightarrow> distinct perm \<Longrightarrow> dense_loop draw (length perm) i k c perm = Some (out, c')
    \<Longrightarrow> length out = k \<and> distinct out \<and> set out \<subseteq> set (drop i perm)"
proof (induction k arbitrary: i c perm out)
  case (Suc k)
  obtain offset c1 where draw: "draw c (length perm - i) = Some (offset, c1)"
    using Suc.prems(3) by (cases "draw c (length perm - i)") auto
  let ?j = "i + offset" and ?perm = "swap_at perm i (i + offset)"
  have ij: "i < length perm" "?j < length perm" using in_rangeD [OF range draw] Suc.prems(1) by simp_all
  obtain out' where out': "dense_loop draw (length ?perm) (Suc i) k c1 ?perm = Some (out', c')" "out = ?perm ! i # out'"
    using Suc.prems(3) draw by (auto simp: Let_def swap_at_def)
  have dist: "distinct ?perm" using Suc.prems(2) ij by (simp add: swap_at_def distinct_swap)
  have same: "set (drop i ?perm) = set (drop i perm)"
  proof -
    have "drop i ?perm = (drop i perm)[0 := drop i perm ! offset, offset := drop i perm ! 0]"
      using ij by (simp add: swap_at_def drop_update_swap)
    with ij show ?thesis by (simp only:) (rule set_swap; simp)
  qed
  have head: "drop i ?perm = ?perm ! i # drop (Suc i) ?perm"
    by (rule Cons_nth_drop_Suc [symmetric]) (use ij in \<open>simp add: swap_at_def\<close>)
  have "distinct (drop i ?perm)" using dist by (rule distinct_drop)
  with Suc.IH [OF _ dist out'(1)] Suc.prems(1) show ?case
    unfolding out'(2) same [symmetric] head by (auto simp: swap_at_def)
qed simp

lemma sparse_is_shuffle:
  assumes wf: "scratch_wf s" and prep: "scratch_prepare reserve s count = Inr s1"
    and "universe \<le> 2 ^ 32" and "count \<le> universe"
  shows "case partial_shuffle kc c universe count of
       None \<Rightarrow> sample_distinct_positions_into_sparse kc reserve c universe count s = None
     | Some (out, c') \<Rightarrow> \<exists>s'. sample_distinct_positions_into_sparse kc reserve c universe count s = Some (Inr (out, c', s'))
         \<and> scratch_wf s'"
proof -
  note p = prepare_wf [OF wf prep]
  have holds: "table_holds (scratch_clear s1) Map.empty (2 * count)" by (rule clear_holds) (use p in auto)
  have rep: "scratch.represents universe Map.empty [0..<universe]" by (simp add: scratch.represents_def)
  have wf': "scratch_wf s'" if "table_holds s' m' 0" for s' m' using that table_ok_wf by (simp add: table_holds_def)
  from scratch.sparse_simulates_dense [OF next_usize_mod_in_range assms(3) _ holds rep, of 0 kc c] assms(4)
  show ?thesis unfolding partial_shuffle_def sample_distinct_positions_into_sparse_def prep
    by (auto split: option.splits intro: wf')
qed

lemma stack_is_shuffle:
  assumes "count \<le> universe" and "universe \<le> n" and "n \<le> MAX_STACK_TIER_RING_DIM" and "universe - 1 \<le> tier_max"
  shows "sample_distinct_positions_into_stack kc tier_max n c universe count
    = map_option Inr (partial_shuffle kc c universe count)"
  using assms dense_loop_pad [OF next_usize_mod_in_range, of 0 count universe "[0..<universe]" kc c "replicate (n - universe) 0"]
  by (simp add: sample_distinct_positions_into_stack_def partial_shuffle_def)

lemma partial_shuffle_positions:
  assumes "partial_shuffle kc c universe count = Some (out, c')" and "count \<le> universe"
  shows "length out = count \<and> distinct out \<and> set out \<subseteq> {..<universe}"
  using dense_loop_distinct [OF next_usize_mod_in_range, of 0 count "[0..<universe]" kc c out c'] assms
  by (auto simp: partial_shuffle_def)

lemma prepare_granted:
  assumes "count \<le> 2048" and "\<And>n. reserve n"
  shows "\<exists>s1. scratch_prepare reserve s count = Inr s1"
proof -
  obtain e where e: "next_pow2_from 1 (count * 4) = 2 ^ e" "0 < e \<longrightarrow> 2 ^ (e - 1) < count * 4"
    using next_pow2_from_pow [of 0 "count * 4"] by auto
  have "(2::nat) ^ e \<le> 2 * 2 ^ (e - 1)" by (cases e) simp_all
  with e(2) assms(1) have "2 ^ e \<le> usize_max" by (cases "e = 0") (simp_all add: usize_max_def)
  then have "Option.bind (checked_mul count 4) checked_next_power_of_two = Some (2 ^ e)"
    using e(1) assms(1) by (simp add: checked_mul_def checked_next_power_of_two_def usize_max_def)
  then show ?thesis using assms(2)
    by (cases "max (2 ^ e) 4 \<le> length (ps_keys s)") (simp_all add: scratch_prepare_def Let_def checked_sub_def del: max.bounded_iff)
qed

lemma stack_tier:
  assumes "universe \<le> 2048" and "\<not> saturating_mul count 64 < universe"
  shows "\<exists>tier n. sample_distinct_positions_into kc reserve c universe count s =
      map_option (\<lambda>res. bindE res (\<lambda>(out, c'). Inr (out, c', s))) (sample_distinct_positions_into_stack kc tier n c universe count)
    \<and> universe \<le> n \<and> n \<le> MAX_STACK_TIER_RING_DIM \<and> universe - 1 \<le> tier"
  using assms unfolding sample_distinct_positions_into_def MAX_STACK_TIER_RING_DIM_def Let_def
  by (simp split: if_split) fastforce

lemma dispatch_is_shuffle:
  assumes "scratch_wf s" and "universe \<le> MAX_STACK_RING_DIM" and "count \<le> universe" and "\<And>n. reserve n"
  shows "case partial_shuffle kc c universe count of
       None \<Rightarrow> sample_distinct_positions_into kc reserve c universe count s = None
     | Some (out, c') \<Rightarrow>
         \<exists>s'. sample_distinct_positions_into kc reserve c universe count s = Some (Inr (out, c', s')) \<and> scratch_wf s'"
proof (cases "universe > saturating_mul count 64")
  case True
  have small: "universe \<le> 2048" using assms(2) by (simp add: MAX_STACK_RING_DIM_def)
  obtain s1 where "scratch_prepare reserve s count = Inr s1"
    using prepare_granted assms(3,4) small by (metis le_trans)
  from sparse_is_shuffle [OF assms(1) this _ assms(3), of kc c] True small
  show ?thesis unfolding sample_distinct_positions_into_def by simp
next
  case False
  have small: "universe \<le> 2048" using assms(2) by (simp add: MAX_STACK_RING_DIM_def)
  obtain tier n where tier: "sample_distinct_positions_into kc reserve c universe count s =
      map_option (\<lambda>res. bindE res (\<lambda>(out, c'). Inr (out, c', s))) (sample_distinct_positions_into_stack kc tier n c universe count)"
    "universe \<le> n" "n \<le> MAX_STACK_TIER_RING_DIM" "universe - 1 \<le> tier"
    using stack_tier [OF small False] by blast
  show ?thesis unfolding tier(1) stack_is_shuffle [OF assms(3) tier(2-4)]
    using assms(1) by (auto split: option.split)
qed

text \<open>
  C36: Drawing the positions of a challenge.  For every ring dimension the sampler accepts and a
  weight within it, \<open>sample_distinct_positions_into\<close> returns exactly what the partial
  Fisher-Yates shuffle of the identity permutation returns on the same stream, whichever tier it
  dispatches to: the \<open>u8\<close> and \<open>u16\<close> arrays or the hashed virtual permutation, whose table may
  have been used for any earlier draws.  The same number of stream bytes is consumed, the call fails
  in no other way than an allocation that is refused, it diverges only when the shuffle does, and
  the table stays fit for the next draw.  The positions are distinct and below the dimension.
\<close>

theorem positions_are_the_shuffle:
  assumes "scratch_wf s" and "universe \<le> MAX_STACK_RING_DIM" and "count \<le> universe" and "\<And>n. reserve n"
  shows "case partial_shuffle kc c universe count of
       None \<Rightarrow> sample_distinct_positions_into kc reserve c universe count s = None
     | Some (out, c') \<Rightarrow> length out = count \<and> distinct out \<and> set out \<subseteq> {..<universe}
         \<and> (\<exists>s'. sample_distinct_positions_into kc reserve c universe count s = Some (Inr (out, c', s')) \<and> scratch_wf s')"
  using dispatch_is_shuffle [where kc = kc and c = c, OF assms] partial_shuffle_positions [OF _ assms(3), of kc c]
  by (auto split: option.splits)

theorem positions_are_the_shuffle_witness:
  "\<exists>c' s'. sample_distinct_positions_into id (\<lambda>_. True)
      \<lparr>xc_reader = \<lparr>sr_state = [], sr_pos = 0\<rparr>, xc_buf = [127, 5, 9], xc_pos = 0, xc_len = 3\<rparr> 65 1 position_scratch_new
    = Some (Inr ([5], c', s'))"
proof -
  let ?c = "\<lparr>xc_reader = \<lparr>sr_state = [], sr_pos = 0\<rparr>, xc_buf = [127, 5, 9], xc_pos = 0, xc_len = 3\<rparr> :: xof_cursor"
  have "next_usize_mod id ?c 65 = Some (5, ?c\<lparr>xc_pos := 2\<rparr>)"
    by (simp add: next_usize_mod_def bit_length.simps reject_loop.simps draw_u8_eq next_u8_def)
  then have "partial_shuffle id ?c 65 1 = Some ([5], ?c\<lparr>xc_pos := 2\<rparr>)"
    by (simp add: partial_shuffle_def swap_at_def)
  then show ?thesis
    using positions_are_the_shuffle [of position_scratch_new 65 1 "\<lambda>_. True" id ?c] by (auto simp: MAX_STACK_RING_DIM_def)
qed

end
