(* ===== verification/SparseChallenge.thy ===== *)
theory SparseChallenge
  imports Serialization
begin

text \<open>
  \<^verbatim>\<open>akita-challenges/src/config.rs\<close> and \<^verbatim>\<open>challenge.rs\<close>: the families of sparse fold challenges,
  their production ladder with its entropy floors, and the challenge values with their validation
  and their evaluation at precomputed powers.
\<close>

unbundle bit_operations_syntax

definition MIN_FOLD_CHALLENGE_ENTROPY_BITS :: nat where "MIN_FOLD_CHALLENGE_ENTROPY_BITS = 128"
definition D64_PRODUCTION_PM1_COUNT :: nat where "D64_PRODUCTION_PM1_COUNT = 31"
definition D64_PRODUCTION_PM2_COUNT :: nat where "D64_PRODUCTION_PM2_COUNT = 10"
definition D64_L2_OP_NORM_PM1_COUNT :: nat where "D64_L2_OP_NORM_PM1_COUNT = 31"
definition D64_L2_OP_NORM_PM2_COUNT :: nat where "D64_L2_OP_NORM_PM2_COUNT = 11"
definition D128_L2_OP_NORM_PM1_COUNT :: nat where "D128_L2_OP_NORM_PM1_COUNT = 31"
definition D128_L2_OP_NORM_PM2_COUNT :: nat where "D128_L2_OP_NORM_PM2_COUNT = 0"

subsection \<open>Families\<close>

record challenge_config =
  count_pm1 :: nat
  count_pm2 :: nat

record op_norm_rejection =
  onr_threshold :: u32
  onr_fractional_bits :: u32
  onr_root_coordinate_error_units :: u32
  onr_rounding_margin_units :: u32

definition D64_SELECTIVE_L2 :: op_norm_rejection where
  "D64_SELECTIVE_L2 = \<lparr>onr_threshold = 18, onr_fractional_bits = 48,
     onr_root_coordinate_error_units = 4, onr_rounding_margin_units = 600\<rparr>"

definition D128_SELECTIVE_L2 :: op_norm_rejection where
  "D128_SELECTIVE_L2 = \<lparr>onr_threshold = 13, onr_fractional_bits = 48,
     onr_root_coordinate_error_units = 4, onr_rounding_margin_units = 351\<rparr>"

definition rejection_validate :: "op_norm_rejection \<Rightarrow> nat \<Rightarrow> challenge_config \<Rightarrow> string + unit" where
  "rejection_validate p ring_d cfg =
     (let covered =
        (if p = D64_SELECTIVE_L2
         then ring_d = 64 \<and> count_pm1 cfg = D64_L2_OP_NORM_PM1_COUNT \<and> count_pm2 cfg = D64_L2_OP_NORM_PM2_COUNT
         else if p = D128_SELECTIVE_L2
         then ring_d = 128 \<and> count_pm1 cfg = D128_L2_OP_NORM_PM1_COUNT \<and> count_pm2 cfg = D128_L2_OP_NORM_PM2_COUNT
         else False)
      in if \<not> covered then Inl ''unsupported operator-norm rejection policy or challenge family'' else Inr ())"

definition rejection_domain_separator_bytes :: "op_norm_rejection \<Rightarrow> byte list" where
  "rejection_domain_separator_bytes p =
     2 # to_le_bytes 4 (onr_threshold p) @ to_le_bytes 4 (onr_fractional_bits p)
       @ to_le_bytes 4 (onr_root_coordinate_error_units p) @ to_le_bytes 4 (onr_rounding_margin_units p)"

definition D64_SELECTIVE_L2_CHALLENGE_CONFIG :: challenge_config where
  "D64_SELECTIVE_L2_CHALLENGE_CONFIG =
     \<lparr>count_pm1 = D64_L2_OP_NORM_PM1_COUNT, count_pm2 = D64_L2_OP_NORM_PM2_COUNT\<rparr>"

definition D128_SELECTIVE_L2_CHALLENGE_CONFIG :: challenge_config where
  "D128_SELECTIVE_L2_CHALLENGE_CONFIG =
     \<lparr>count_pm1 = D128_L2_OP_NORM_PM1_COUNT, count_pm2 = D128_L2_OP_NORM_PM2_COUNT\<rparr>"

definition selective_l2_challenge_config :: "nat \<Rightarrow> challenge_config option" where
  "selective_l2_challenge_config ring_d =
     (if ring_d = 64 then Some D64_SELECTIVE_L2_CHALLENGE_CONFIG
      else if ring_d = 128 then Some D128_SELECTIVE_L2_CHALLENGE_CONFIG else None)"

definition selective_l2_operator_norm_rejection :: "nat \<Rightarrow> challenge_config \<Rightarrow> op_norm_rejection option" where
  "selective_l2_operator_norm_rejection ring_d cfg =
     Option.bind (if ring_d = 64 then Some D64_SELECTIVE_L2 else if ring_d = 128 then Some D128_SELECTIVE_L2 else None)
       (\<lambda>p. case rejection_validate p ring_d cfg of Inr _ \<Rightarrow> Some p | Inl _ \<Rightarrow> None)"

definition PRODUCTION_FOLD_CHALLENGE_RING_DIMS :: "nat list" where
  "PRODUCTION_FOLD_CHALLENGE_RING_DIMS = [64, 128, 256, 512, 1024, 2048]"

definition PRODUCTION_FOLD_CHALLENGE_LADDER :: "(nat \<times> nat \<times> nat \<times> nat) list" where
  "PRODUCTION_FOLD_CHALLENGE_LADDER =
     [(64, D64_PRODUCTION_PM1_COUNT, D64_PRODUCTION_PM2_COUNT, 128), (128, 31, 0, 129), (256, 23, 0, 131),
      (512, 19, 0, 132), (1024, 16, 0, 131), (2048, 14, 0, 131)]"

definition pm1_only :: "nat \<Rightarrow> challenge_config" where
  "pm1_only n = \<lparr>count_pm1 = n, count_pm2 = 0\<rparr>"

definition production_for_ring_dim :: "nat \<Rightarrow> challenge_config option" where
  "production_for_ring_dim ring_d =
     map_option (\<lambda>(_, pm1, pm2, _). \<lparr>count_pm1 = pm1, count_pm2 = pm2\<rparr>)
       (find (\<lambda>(d, _). d = ring_d) PRODUCTION_FOLD_CHALLENGE_LADDER)"

definition matches_production_ladder :: "challenge_config \<Rightarrow> nat \<Rightarrow> bool" where
  "matches_production_ladder cfg ring_d \<longleftrightarrow> production_for_ring_dim ring_d = Some cfg"

definition config_weight :: "challenge_config \<Rightarrow> nat" where
  "config_weight cfg = saturating_add (count_pm1 cfg) (count_pm2 cfg)"

definition config_l1_norm :: "challenge_config \<Rightarrow> nat" where
  "config_l1_norm cfg = saturating_add (count_pm1 cfg) (saturating_mul 2 (count_pm2 cfg))"

text \<open>The sums and products of \<open>u128\<close> saturate at its largest value.\<close>

definition challenge_l2_sq_max :: "challenge_config \<Rightarrow> nat" where
  "challenge_l2_sq_max cfg = min (count_pm1 cfg + min (4 * count_pm2 cfg) (2 ^ 128 - 1)) (2 ^ 128 - 1)"

definition nonzero_count_max :: "challenge_config \<Rightarrow> nat" where
  "nonzero_count_max cfg = config_weight cfg"

definition infinity_norm :: "challenge_config \<Rightarrow> nat" where
  "infinity_norm cfg = (if 0 < count_pm2 cfg then 2 else 1)"

text \<open>
  The floating-point support estimate is a parameter: \<open>below cfg d bits\<close> says that
  \<open>log2_support_bits\<close> computes less than \<open>bits\<close>.  The precision of \<open>f64::log2\<close> is unspecified.
\<close>

definition validate_min_entropy :: "(challenge_config \<Rightarrow> nat \<Rightarrow> nat \<Rightarrow> bool) \<Rightarrow> challenge_config \<Rightarrow> nat \<Rightarrow> nat \<Rightarrow> string + unit" where
  "validate_min_entropy below cfg d required_bits =
     (if below cfg d required_bits
      then Inl ''sparse challenge family has insufficient min-entropy for security floor'' else Inr ())"

definition validate_min_entropy_for_ring_dim ::
  "(challenge_config \<Rightarrow> nat \<Rightarrow> nat \<Rightarrow> bool) \<Rightarrow> challenge_config \<Rightarrow> nat \<Rightarrow> nat \<Rightarrow> string + unit" where
  "validate_min_entropy_for_ring_dim below cfg ring_dim required_bits =
     (case find (\<lambda>(d, pm1, pm2, _). d = ring_dim \<and> pm1 = count_pm1 cfg \<and> pm2 = count_pm2 cfg) PRODUCTION_FOLD_CHALLENGE_LADDER of
        Some (_, _, _, support_floor_bits) \<Rightarrow>
          if required_bits \<le> support_floor_bits then Inr ()
          else Inl ''sparse challenge family has insufficient min-entropy for security floor''
      | None \<Rightarrow>
          if ring_dim \<in> set PRODUCTION_FOLD_CHALLENGE_RING_DIMS then validate_min_entropy below cfg ring_dim required_bits
          else Inl ''unsupported ring dimension for fold-challenge entropy audit'')"

definition config_validate_dyn :: "challenge_config \<Rightarrow> nat \<Rightarrow> string + unit" where
  "config_validate_dyn cfg ring_d =
     (if (case checked_add (count_pm1 cfg) (count_pm2 cfg) of None \<Rightarrow> True | Some w \<Rightarrow> ring_d < w)
      then Inl ''count_pm1 + count_pm2 must be <= ring degree D'' else Inr ())"

definition validate_for_ring_dim :: "(challenge_config \<Rightarrow> nat \<Rightarrow> nat \<Rightarrow> bool) \<Rightarrow> challenge_config \<Rightarrow> nat \<Rightarrow> string + unit" where
  "validate_for_ring_dim below cfg ring_d =
     (case config_validate_dyn cfg ring_d of
        Inl e \<Rightarrow> Inl e
      | Inr _ \<Rightarrow> validate_min_entropy_for_ring_dim below cfg ring_d MIN_FOLD_CHALLENGE_ENTROPY_BITS)"

definition config_domain_separator_bytes :: "challenge_config \<Rightarrow> byte list" where
  "config_domain_separator_bytes cfg =
     0 # to_le_bytes 8 (of_nat (count_pm1 cfg) :: u64) @ to_le_bytes 8 (of_nat (count_pm2 cfg) :: u64)"

subsection \<open>Challenges\<close>

text \<open>Positions are \<open>u32\<close>, coefficients \<open>i8\<close> values.\<close>

record sparse_challenge =
  sc_positions :: "nat list"
  sc_coeffs :: "int list"

text \<open>\<open>mul_base\<close> is the product of an extension element with an embedded small integer.\<close>

definition accumulate_small_signed :: "('e \<Rightarrow> int \<Rightarrow> 'e) \<Rightarrow> 'e::field \<Rightarrow> 'e \<Rightarrow> int \<Rightarrow> 'e" where
  "accumulate_small_signed mul_base acc val coeff =
     (if coeff = 1 then acc + val
      else if coeff = - 1 then acc - val
      else if coeff = 2 then acc + val + val
      else if coeff = - 2 then acc - val - val
      else acc + mul_base val coeff)"

definition INLINE_WORDS :: nat where "INLINE_WORDS = 32"

fun validate_terms :: "nat \<Rightarrow> u64 list \<Rightarrow> (nat \<times> int) list \<Rightarrow> unit result" where
  "validate_terms ring_d seen [] = Inr ()"
| "validate_terms ring_d seen ((idx, coeff) # terms) =
     (if ring_d \<le> idx
      then Inl (InvalidInput (''sparse challenge position '' @ show_nat idx @ '' out of range for D='' @ show_nat ring_d))
      else if coeff = 0 then Inl (InvalidInput ''sparse challenge coefficients must be non-zero'')
      else if length seen \<le> idx div 64 then Inl InvalidProof
      else let mask = push_bit (idx mod 64) 1 in
        if seen ! (idx div 64) AND mask \<noteq> 0 then Inl (InvalidInput ''sparse challenge positions must be unique'')
        else validate_terms ring_d (seen[idx div 64 := seen ! (idx div 64) OR mask]) terms)"

definition challenge_validate_dyn :: "(nat \<Rightarrow> bool) \<Rightarrow> sparse_challenge \<Rightarrow> nat \<Rightarrow> unit result" where
  "challenge_validate_dyn reserve ch ring_d =
     (if length (sc_positions ch) \<noteq> length (sc_coeffs ch)
      then Inl (InvalidInput ''sparse challenge positions/coeffs length mismatch'')
      else let word_count = (ring_d + 63) div 64 in
        if INLINE_WORDS < word_count \<and> \<not> reserve word_count
        then Inl (InvalidInput ''challenge dimension is too large'')
        else validate_terms ring_d (replicate word_count 0) (zip (sc_positions ch) (sc_coeffs ch)))"

fun eval_terms :: "('e \<Rightarrow> int \<Rightarrow> 'e) \<Rightarrow> 'e::field list \<Rightarrow> 'e \<Rightarrow> (nat \<times> int) list \<Rightarrow> 'e result" where
  "eval_terms mul_base alpha_pows acc [] = Inr acc"
| "eval_terms mul_base alpha_pows acc ((idx, coeff) # terms) =
     (if length alpha_pows \<le> idx
      then Inl (InvalidInput (''sparse challenge position '' @ show_nat idx @ '' out of range for D='' @ show_nat (length alpha_pows)))
      else if coeff = 0 then Inl (InvalidInput ''sparse challenge coefficients must be non-zero'')
      else eval_terms mul_base alpha_pows (accumulate_small_signed mul_base acc (alpha_pows ! idx) coeff) terms)"

definition eval_at_pows :: "('e \<Rightarrow> int \<Rightarrow> 'e) \<Rightarrow> sparse_challenge \<Rightarrow> 'e::field list \<Rightarrow> 'e result" where
  "eval_at_pows mul_base ch alpha_pows =
     (if length (sc_positions ch) \<noteq> length (sc_coeffs ch)
      then Inl (InvalidInput ''sparse challenge positions/coeffs length mismatch'')
      else eval_terms mul_base alpha_pows 0 (zip (sc_positions ch) (sc_coeffs ch)))"

subsection \<open>The polynomial of a challenge\<close>

text \<open>The coefficient of \<open>X ^ i\<close>: the sum of the terms at position \<open>i\<close>.\<close>

definition challenge_poly :: "sparse_challenge \<Rightarrow> nat \<Rightarrow> int" where
  "challenge_poly ch i = (\<Sum>(p, c) \<leftarrow> zip (sc_positions ch) (sc_coeffs ch). if p = i then c else 0)"

text \<open>The polynomials of a family.\<close>

definition challenge_family :: "nat \<Rightarrow> challenge_config \<Rightarrow> (nat \<Rightarrow> int) set" where
  "challenge_family d cfg = {f. (\<forall>i. f i \<noteq> 0 \<longrightarrow> i < d) \<and> (\<forall>i. \<bar>f i\<bar> \<le> 2)
     \<and> card {i. \<bar>f i\<bar> = 1} = count_pm1 cfg \<and> card {i. \<bar>f i\<bar> = 2} = count_pm2 cfg}"

subsection \<open>The size of a family\<close>

definition family_parts :: "nat \<Rightarrow> nat \<Rightarrow> nat \<Rightarrow> (nat set \<times> nat set \<times> nat set) set" where
  "family_parts d a b = (SIGMA A : {A. A \<subseteq> {..<d} \<and> card A = a}.
     SIGMA B : {B. B \<subseteq> {..<d} - A \<and> card B = b}. Pow (A \<union> B))"

definition signed_poly :: "nat set \<times> nat set \<times> nat set \<Rightarrow> nat \<Rightarrow> int" where
  "signed_poly = (\<lambda>(A, B, N) i. (if i \<in> N then - 1 else 1) * (if i \<in> A then 1 else if i \<in> B then 2 else 0))"

lemma card_family_parts:
  assumes "a + b \<le> d"
  shows "card (family_parts d a b) = (d choose (a + b)) * ((a + b) choose a) * 2 ^ (a + b)"
proof -
  have inner: "card (SIGMA B : {B. B \<subseteq> {..<d} - A \<and> card B = b}. Pow (A \<union> B)) = (d - a choose b) * 2 ^ (a + b)"
    if A: "A \<subseteq> {..<d}" "card A = a" for A
  proof -
    have fin: "finite A" using A(1) finite_subset by blast
    have sub: "finite B" "card (Pow (A \<union> B)) = 2 ^ (a + b)" if B: "B \<subseteq> {..<d} - A" "card B = b" for B
    proof -
      show "finite B" using B(1) finite_subset by blast
      moreover have "A \<inter> B = {}" using B(1) by auto
      ultimately show "card (Pow (A \<union> B)) = 2 ^ (a + b)" using fin A(2) B(2) by (simp add: card_Pow card_Un_disjoint)
    qed
    have "card {B. B \<subseteq> {..<d} - A \<and> card B = b} = (d - a choose b)"
      using A fin by (simp add: n_subsets card_Diff_subset)
    moreover have "finite {B. B \<subseteq> {..<d} - A \<and> card B = b}" by (rule finite_subset [of _ "Pow {..<d}"]) auto
    moreover have "(\<Sum>B | B \<subseteq> {..<d} - A \<and> card B = b. card (Pow (A \<union> B))) = (\<Sum>B | B \<subseteq> {..<d} - A \<and> card B = b. 2 ^ (a + b))"
      by (rule sum.cong [OF refl]) (use sub in blast)
    moreover have "\<forall>B \<in> {B. B \<subseteq> {..<d} - A \<and> card B = b}. finite (Pow (A \<union> B))" using sub(1) fin by simp
    ultimately show ?thesis by (subst card_SigmaI) simp_all
  qed
  have finA: "finite {A. A \<subseteq> {..<d} \<and> card A = a}" by (rule finite_subset [of _ "Pow {..<d}"]) auto
  have finB: "finite (SIGMA B : {B. B \<subseteq> {..<d} - A \<and> card B = b}. Pow (A \<union> B))" if "A \<subseteq> {..<d}" for A
    by (rule finite_subset [of _ "Pow {..<d} \<times> Pow {..<d}"]) (use that in auto)
  have "card (family_parts d a b) = (d choose a) * ((d - a choose b) * 2 ^ (a + b))"
    unfolding family_parts_def using finA finB inner by (subst card_SigmaI) (auto simp: n_subsets)
  moreover have "(d choose (a + b)) * ((a + b) choose a) = (d choose a) * (d - a choose b)"
    using choose_mult [of a "a + b" d] assms by simp
  ultimately show ?thesis by (simp add: mult.assoc)
qed

lemma family_bij: "bij_betw signed_poly (family_parts d (count_pm1 cfg) (count_pm2 cfg)) (challenge_family d cfg)"
proof (rule bij_betw_byWitness [where f' = "\<lambda>f. ({i. \<bar>f i\<bar> = 1}, {i. \<bar>f i\<bar> = 2}, {i. f i < 0})"])
  have parts: "{i. \<bar>signed_poly (A, B, N) i\<bar> = 1} = A \<and> {i. \<bar>signed_poly (A, B, N) i\<bar> = 2} = B
      \<and> {i. signed_poly (A, B, N) i < 0} = N" if "A \<inter> B = {}" "N \<subseteq> A \<union> B" for A B N
    using that by (auto simp: signed_poly_def split: if_splits)
  show "\<forall>p \<in> family_parts d (count_pm1 cfg) (count_pm2 cfg).
      ({i. \<bar>signed_poly p i\<bar> = 1}, {i. \<bar>signed_poly p i\<bar> = 2}, {i. signed_poly p i < 0}) = p"
  proof
    fix p assume "p \<in> family_parts d (count_pm1 cfg) (count_pm2 cfg)"
    then obtain A B N where p: "p = (A, B, N)" "B \<subseteq> {..<d} - A" "N \<subseteq> A \<union> B" by (auto simp: family_parts_def)
    have "A \<inter> B = {}" using p(2) by auto
    from parts [OF this p(3)] show "({i. \<bar>signed_poly p i\<bar> = 1}, {i. \<bar>signed_poly p i\<bar> = 2}, {i. signed_poly p i < 0}) = p"
      unfolding p(1) by (elim conjE) (simp only:)
  qed
  show "signed_poly ` family_parts d (count_pm1 cfg) (count_pm2 cfg) \<subseteq> challenge_family d cfg"
  proof (rule image_subsetI)
    fix p assume "p \<in> family_parts d (count_pm1 cfg) (count_pm2 cfg)"
    then obtain A B N where p: "p = (A, B, N)" "A \<subseteq> {..<d}" "card A = count_pm1 cfg" "B \<subseteq> {..<d} - A"
        "card B = count_pm2 cfg" "N \<subseteq> A \<union> B" by (auto simp: family_parts_def)
    have "A \<inter> B = {}" using p(4) by auto
    note eqs = parts [OF this p(6)]
    have "\<forall>i. signed_poly p i \<noteq> 0 \<longrightarrow> i < d" "\<forall>i. \<bar>signed_poly p i\<bar> \<le> 2"
      using p(2,4) unfolding p(1) signed_poly_def by (auto split: if_splits)
    moreover have "card {i. \<bar>signed_poly p i\<bar> = 1} = count_pm1 cfg" "card {i. \<bar>signed_poly p i\<bar> = 2} = count_pm2 cfg"
      using eqs p(3,5) unfolding p(1) by simp_all
    ultimately show "signed_poly p \<in> challenge_family d cfg" by (simp add: challenge_family_def)
  qed
  show "(\<lambda>f. ({i. \<bar>f i\<bar> = 1}, {i. \<bar>f i\<bar> = 2}, {i. f i < 0})) ` challenge_family d cfg
      \<subseteq> family_parts d (count_pm1 cfg) (count_pm2 cfg)"
  proof (rule image_subsetI)
    fix f assume f: "f \<in> challenge_family d cfg"
    have small: "\<bar>f i\<bar> = 1 \<or> \<bar>f i\<bar> = 2" if "f i < 0" for i 
    proof -
      have "\<bar>f i\<bar> \<le> 2" using f by (simp add: challenge_family_def)
      with that show ?thesis by arith
    qed
    have below: "i < d" if "f i \<noteq> 0" for i using f that by (auto simp: challenge_family_def)
    have "\<bar>f i\<bar> = 1 \<Longrightarrow> i < d" "\<bar>f i\<bar> = 2 \<Longrightarrow> i < d" for i using below [of i] by auto
    then have "{i. \<bar>f i\<bar> = 1} \<subseteq> {..<d}" "{i. \<bar>f i\<bar> = 2} \<subseteq> {..<d} - {i. \<bar>f i\<bar> = 1}" by auto
    moreover have "{i. f i < 0} \<subseteq> {i. \<bar>f i\<bar> = 1} \<union> {i. \<bar>f i\<bar> = 2}" using small by blast
    ultimately show "({i. \<bar>f i\<bar> = 1}, {i. \<bar>f i\<bar> = 2}, {i. f i < 0}) \<in> family_parts d (count_pm1 cfg) (count_pm2 cfg)"
      using f by (simp add: family_parts_def challenge_family_def)
  qed
  show "\<forall>f \<in> challenge_family d cfg. signed_poly ({i. \<bar>f i\<bar> = 1}, {i. \<bar>f i\<bar> = 2}, {i. f i < 0}) = f"
  proof (intro ballI ext)
    fix f i assume "f \<in> challenge_family d cfg"
    then have "\<bar>f i\<bar> \<le> 2" by (simp add: challenge_family_def)
    then have "f i = - 2 \<or> f i = - 1 \<or> f i = 0 \<or> f i = 1 \<or> f i = 2" by arith
    then show "signed_poly ({i. \<bar>f i\<bar> = 1}, {i. \<bar>f i\<bar> = 2}, {i. f i < 0}) i = f i" by (auto simp: signed_poly_def)
  qed
qed

lemma card_challenge_family:
  assumes "count_pm1 cfg + count_pm2 cfg \<le> d"
  shows "card (challenge_family d cfg) = (d choose (count_pm1 cfg + count_pm2 cfg))
    * ((count_pm1 cfg + count_pm2 cfg) choose count_pm1 cfg) * 2 ^ (count_pm1 cfg + count_pm2 cfg)"
  using bij_betw_same_card [OF family_bij [of d cfg]] card_family_parts [OF assms] by simp

lemma pow2_le_iff:
  fixes n :: nat
  assumes "2 ^ b \<le> n" and "n < 2 ^ Suc b"
  shows "2 ^ k \<le> n \<longleftrightarrow> k \<le> b"
proof
  assume "2 ^ k \<le> n"
  with assms(2) have "(2::nat) ^ k < 2 ^ Suc b" by linarith
  then show "k \<le> b" by (simp only: power_strict_increasing_iff less_Suc_eq_le)
next
  assume "k \<le> b"
  then have "(2::nat) ^ k \<le> 2 ^ b" by (rule power_increasing) simp
  with assms(1) show "2 ^ k \<le> n" by linarith
qed

text \<open>Binomial coefficients along a diagonal of Pascal's triangle, by one product and one quotient each.\<close>

fun choose_up :: "nat \<Rightarrow> nat \<Rightarrow> nat \<Rightarrow> nat \<Rightarrow> nat" where
  "choose_up m i 0 acc = acc"
| "choose_up m i (Suc r) acc = choose_up (Suc m) (Suc i) r (acc * Suc m div Suc i)"

lemma choose_up_eq: "choose_up m i r (m choose i) = (m + r) choose (i + r)"
proof (induction r arbitrary: m i)
  case (Suc r)
  have "(m choose i) * Suc m div Suc i = Suc m choose Suc i"
    using Suc_times_binomial [of i m] by (metis mult.commute nonzero_mult_div_cancel_left nat.distinct(1))
  with Suc [of "Suc m" "Suc i"] show ?case by simp
qed simp

lemma choose_by_up: "k \<le> n \<Longrightarrow> n choose k = choose_up (n - k) 0 k 1"
  using choose_up_eq [of "n - k" 0 k] by simp

lemma choose_up_numeral:
  "choose_up m i (numeral r) acc = choose_up (m + 1) (i + 1) (pred_numeral r) (acc * (m + 1) div (i + 1))"
  "choose_up m i 1 acc = acc * (m + 1) div (i + 1)"
  by (simp_all add: numeral_eq_Suc)

lemma ladder_binomials:
  "(64::nat) choose 41 = 146721427591999680"
  "(41::nat) choose 31 = 1121099408"
  "(128::nat) choose 31 = 487523932866731766328239100800"
  "(256::nat) choose 23 = 342501182731570982968933340256000"
  "(512::nat) choose 19 = 17547200367473852705950620267968000"
  "(1024::nat) choose 16 = 62090774884893856698834397859880896"
  "(2048::nat) choose 14 = 250536597062533443452870083130762240"
  by (simp_all add: choose_by_up choose_up_numeral del: One_nat_def)

lemma ladder_support:
  assumes "(d, a, b, bits) \<in> set PRODUCTION_FOLD_CHALLENGE_LADDER"
  shows "a + b \<le> d \<and> 2 ^ bits \<le> (d choose (a + b)) * ((a + b) choose a) * 2 ^ (a + b)
    \<and> (d choose (a + b)) * ((a + b) choose a) * 2 ^ (a + b) < 2 ^ Suc bits"
  using assms unfolding PRODUCTION_FOLD_CHALLENGE_LADDER_def D64_PRODUCTION_PM1_COUNT_def D64_PRODUCTION_PM2_COUNT_def
  by (simp only: set_simps insert_iff empty_iff simp_thms prod.inject) (elim disjE conjE; simp add: ladder_binomials)

lemma production_entry:
  assumes "production_for_ring_dim d = Some cfg"
  obtains bits where "(d, count_pm1 cfg, count_pm2 cfg, bits) \<in> set PRODUCTION_FOLD_CHALLENGE_LADDER"
    and "find (\<lambda>(d', pm1, pm2, _). d' = d \<and> pm1 = count_pm1 cfg \<and> pm2 = count_pm2 cfg) PRODUCTION_FOLD_CHALLENGE_LADDER
      = Some (d, count_pm1 cfg, count_pm2 cfg, bits)"
  using assms unfolding production_for_ring_dim_def PRODUCTION_FOLD_CHALLENGE_LADDER_def
  by (auto split: if_splits)

text \<open>
  C39: The entropy floors of the production ladder.  For every ring dimension of the ladder the audit
  of the production family accepts a security requirement exactly when the family has at least that
  many bits of support, the support being the number of different challenge polynomials with the
  family's counts of coefficients of magnitude one and two below the dimension: the tabulated floors
  are the exact integer logarithms.  In particular every production family passes the check at 128
  bits, whatever the floating-point estimate of the other families would be.
\<close>

theorem entropy_ladder_exact:
  assumes "production_for_ring_dim d = Some cfg"
  shows "(validate_min_entropy_for_ring_dim below cfg d bits = Inr () \<longleftrightarrow> 2 ^ bits \<le> card (challenge_family d cfg))
    \<and> validate_for_ring_dim below cfg d = Inr ()"
proof -
  obtain fl where fl: "(d, count_pm1 cfg, count_pm2 cfg, fl) \<in> set PRODUCTION_FOLD_CHALLENGE_LADDER"
    "find (\<lambda>(d', pm1, pm2, _). d' = d \<and> pm1 = count_pm1 cfg \<and> pm2 = count_pm2 cfg) PRODUCTION_FOLD_CHALLENGE_LADDER
      = Some (d, count_pm1 cfg, count_pm2 cfg, fl)"
    using production_entry [OF assms] by blast
  note s = ladder_support [OF fl(1)]
  have iff: "validate_min_entropy_for_ring_dim below cfg d b = Inr () \<longleftrightarrow> b \<le> fl" for b
    unfolding validate_min_entropy_for_ring_dim_def fl(2) by simp
  have "2 ^ bits \<le> card (challenge_family d cfg) \<longleftrightarrow> bits \<le> fl"
    using s pow2_le_iff card_challenge_family [of cfg d] by simp
  moreover have "128 \<le> fl \<and> d \<le> 2048" using fl(1) by (auto simp: PRODUCTION_FOLD_CHALLENGE_LADDER_def)
  ultimately show ?thesis using iff s
    by (simp add: validate_for_ring_dim_def config_validate_dyn_def checked_add_def usize_max_def MIN_FOLD_CHALLENGE_ENTROPY_BITS_def)
qed

theorem entropy_ladder_exact_witness:
  "2 ^ 128 \<le> card (challenge_family 64 \<lparr>count_pm1 = 31, count_pm2 = 10\<rparr>)
    \<and> \<not> 2 ^ 129 \<le> card (challenge_family 64 \<lparr>count_pm1 = 31, count_pm2 = 10\<rparr>)"
proof -
  have p: "production_for_ring_dim 64 = Some \<lparr>count_pm1 = 31, count_pm2 = 10\<rparr>"
    by (simp add: production_for_ring_dim_def PRODUCTION_FOLD_CHALLENGE_LADDER_def
        D64_PRODUCTION_PM1_COUNT_def D64_PRODUCTION_PM2_COUNT_def)
  have "validate_min_entropy_for_ring_dim (\<lambda>_ _ _. True) \<lparr>count_pm1 = 31, count_pm2 = 10\<rparr> 64 b = Inr () \<longleftrightarrow> b \<le> 128" for b
    by (simp add: validate_min_entropy_for_ring_dim_def PRODUCTION_FOLD_CHALLENGE_LADDER_def
        D64_PRODUCTION_PM1_COUNT_def D64_PRODUCTION_PM2_COUNT_def)
  with entropy_ladder_exact [OF p, of "\<lambda>_ _ _. True" 128] entropy_ladder_exact [OF p, of "\<lambda>_ _ _. True" 129]
  show ?thesis by simp
qed

subsection \<open>Validation and evaluation\<close>

text \<open>The set of positions a bit table has seen.\<close>

definition seen_set :: "u64 list \<Rightarrow> nat set" where
  "seen_set seen = {p. p div 64 < length seen \<and> bit (seen ! (p div 64)) (p mod 64)}"

lemma seen_set_replicate [simp]: "seen_set (replicate n 0) = {}"
  by (auto simp: seen_set_def)

lemma seen_test: "p div 64 < length seen \<Longrightarrow> seen ! (p div 64) AND push_bit (p mod 64) 1 \<noteq> 0 \<longleftrightarrow> p \<in> seen_set seen"
  by (simp add: seen_set_def bit_iff_and_push_bit_not_eq_0)

lemma seen_mark:
  assumes "p div 64 < length seen"
  shows "seen_set (seen[p div 64 := seen ! (p div 64) OR push_bit (p mod 64) 1]) = insert p (seen_set seen)"
proof -
  have "bit (x OR push_bit (p mod 64) 1) (q mod 64) \<longleftrightarrow> bit x (q mod 64) \<or> q mod 64 = p mod 64" for x :: u64 and q
    by (auto simp: bit_or_iff bit_exp_iff possible_bit_word)
  moreover have "q = p \<longleftrightarrow> q div 64 = p div 64 \<and> q mod 64 = p mod 64" for q by (metis div_mult_mod_eq)
  ultimately show ?thesis using assms by (auto simp: seen_set_def nth_list_update)
qed

lemma validate_terms_iff:
  assumes "ring_d \<le> 64 * length seen"
  shows "validate_terms ring_d seen terms = Inr () \<longleftrightarrow>
    (\<forall>(p, c) \<in> set terms. p < ring_d \<and> c \<noteq> 0) \<and> distinct (map fst terms) \<and> fst ` set terms \<inter> seen_set seen = {}"
  using assms
proof (induction terms arbitrary: seen)
  case (Cons t terms)
  obtain p c where t: "t = (p, c)" by fastforce
  show ?case
  proof (cases "p < ring_d \<and> c \<noteq> 0 \<and> p \<notin> seen_set seen")
    case True
    then have less: "p div 64 < length seen" using Cons.prems by (simp add: less_mult_imp_div_less mult.commute)
    with True have free: "seen ! (p div 64) AND push_bit (p mod 64) 1 = 0" using seen_test by blast
    let ?seen = "seen[p div 64 := seen ! (p div 64) OR push_bit (p mod 64) 1]"
    have "validate_terms ring_d seen (t # terms) = validate_terms ring_d ?seen terms"
      using True less free by (simp add: t Let_def)
    with Cons.IH [of ?seen] Cons.prems seen_mark [OF less] True show ?thesis by (auto simp: t)
  next
    case False
    then show ?thesis using seen_test [of p seen] by (auto simp: t Let_def)
  qed
qed simp

text \<open>The invariants the code documents for a challenge of ring dimension \<open>d\<close>.\<close>

definition sampler_invariants :: "sparse_challenge \<Rightarrow> nat \<Rightarrow> bool" where
  "sampler_invariants ch d \<longleftrightarrow> length (sc_positions ch) = length (sc_coeffs ch)
     \<and> (\<forall>p \<in> set (sc_positions ch). p < d) \<and> distinct (sc_positions ch) \<and> (\<forall>c \<in> set (sc_coeffs ch). c \<noteq> 0)"

lemma zip_all_iff:
  "length xs = length ys \<Longrightarrow> (\<forall>(x, y) \<in> set (zip xs ys). P x \<and> Q y) \<longleftrightarrow> (\<forall>x \<in> set xs. P x) \<and> (\<forall>y \<in> set ys. Q y)"
  by (induction xs ys rule: list_induct2) auto

lemma validate_dyn_iff:
  assumes "d \<le> 64 * INLINE_WORDS \<or> (\<forall>n. reserve n)"
  shows "challenge_validate_dyn reserve ch d = Inr () \<longleftrightarrow> sampler_invariants ch d"
proof (cases "length (sc_positions ch) = length (sc_coeffs ch)")
  case True
  have cover: "d \<le> 64 * ((d + 63) div 64)" by linarith
  have "\<not> (INLINE_WORDS < (d + 63) div 64 \<and> \<not> reserve ((d + 63) div 64))" using assms by (auto simp: INLINE_WORDS_def)
  then have "challenge_validate_dyn reserve ch d
      = validate_terms d (replicate ((d + 63) div 64) 0) (zip (sc_positions ch) (sc_coeffs ch))"
    using True by (auto simp: challenge_validate_dyn_def Let_def)
  then show ?thesis using validate_terms_iff [of d "replicate ((d + 63) div 64) 0"] cover True
    by (simp add: zip_all_iff sampler_invariants_def) blast
qed (simp add: challenge_validate_dyn_def sampler_invariants_def)

lemma accumulate_eq:
  assumes "\<And>v c. mul_base v c = v * of_int c"
  shows "accumulate_small_signed mul_base acc v c = acc + of_int c * v"
  by (simp add: accumulate_small_signed_def assms algebra_simps)

lemma eval_terms_iff:
  assumes "\<And>v c. mul_base v c = v * of_int c"
  shows "eval_terms mul_base pows acc terms = Inr y \<longleftrightarrow>
    (\<forall>(p, c) \<in> set terms. p < length pows \<and> c \<noteq> 0) \<and> y = acc + (\<Sum>(p, c) \<leftarrow> terms. of_int c * pows ! p)"
proof (induction terms arbitrary: acc)
  case (Cons t terms)
  obtain p c where t: "t = (p, c)" by fastforce
  show ?case unfolding t
    by (cases "p < length pows \<and> c \<noteq> 0") (auto simp: Cons.IH accumulate_eq [OF assms] add.assoc)
qed auto

lemma terms_by_position:
  fixes pows :: "'e::field list"
  assumes "\<forall>(p, c) \<in> set terms. p < d"
  shows "(\<Sum>(p, c) \<leftarrow> terms. of_int c * pows ! p)
    = (\<Sum>i < d. of_int (\<Sum>(p, c) \<leftarrow> terms. if p = i then c else 0) * pows ! i)"
  using assms
proof (induction terms)
  case (Cons t terms)
  obtain p c where t: "t = (p, c)" by fastforce
  have "(\<Sum>i < d. of_int (if p = i then c else 0) * pows ! i) = (\<Sum>i < d. if i = p then of_int c * pows ! i else 0)"
    by (rule sum.cong) auto
  also have "\<dots> = of_int c * pows ! p" using Cons.prems by (simp add: t)
  finally show ?case using Cons by (simp add: t distrib_right sum.distrib)
qed simp

text \<open>
  C40: Validation and evaluation of a sparse challenge.  The bit-table validation accepts exactly the
  challenges with the documented invariants: as many coefficients as positions, every position below
  the ring dimension and none twice, no zero coefficient.  The evaluation at \<open>d\<close> precomputed powers,
  with its shortcuts for coefficients of magnitude one and two, returns a value exactly when the
  shape, range and non-zero checks hold, and the value is then the polynomial of the challenge
  against the powers, \<open>\<Sum>i<d. c\<^sub>i \<cdot> \<alpha>\<^sub>i\<close>, repeated positions adding up.  The product with an embedded
  integer is assumed to be the field's.
\<close>

theorem challenge_validation_and_evaluation:
  fixes pows :: "'e::field list"
  assumes "\<And>v c. mul_base v c = v * of_int c" and "length pows \<le> 64 * INLINE_WORDS \<or> (\<forall>n. reserve n)"
  shows "(challenge_validate_dyn reserve ch (length pows) = Inr () \<longleftrightarrow> sampler_invariants ch (length pows))
    \<and> (eval_at_pows mul_base ch pows = Inr y \<longleftrightarrow>
         length (sc_positions ch) = length (sc_coeffs ch)
         \<and> (\<forall>p \<in> set (sc_positions ch). p < length pows) \<and> (\<forall>c \<in> set (sc_coeffs ch). c \<noteq> 0)
         \<and> y = (\<Sum>i < length pows. of_int (challenge_poly ch i) * pows ! i))"
proof -
  let ?terms = "zip (sc_positions ch) (sc_coeffs ch)"
  have "eval_at_pows mul_base ch pows = Inr y \<longleftrightarrow> length (sc_positions ch) = length (sc_coeffs ch)
      \<and> (\<forall>(p, c) \<in> set ?terms. p < length pows \<and> c \<noteq> 0) \<and> y = (\<Sum>(p, c) \<leftarrow> ?terms. of_int c * pows ! p)"
    using eval_terms_iff [OF assms(1), of pows 0 ?terms y] by (simp add: eval_at_pows_def)
  moreover have "(\<Sum>(p, c) \<leftarrow> ?terms. of_int c * pows ! p) = (\<Sum>i < length pows. of_int (challenge_poly ch i) * pows ! i)"
    if "\<forall>(p, c) \<in> set ?terms. p < length pows \<and> c \<noteq> 0"
    unfolding challenge_poly_def by (rule terms_by_position) (use that in auto)
  moreover note zip_all_iff [of "sc_positions ch" "sc_coeffs ch" "\<lambda>p. p < length pows" "\<lambda>c. c \<noteq> 0"]
  ultimately have "eval_at_pows mul_base ch pows = Inr y \<longleftrightarrow> length (sc_positions ch) = length (sc_coeffs ch)
      \<and> (\<forall>p \<in> set (sc_positions ch). p < length pows) \<and> (\<forall>c \<in> set (sc_coeffs ch). c \<noteq> 0)
      \<and> y = (\<Sum>i < length pows. of_int (challenge_poly ch i) * pows ! i)" by argo
  with validate_dyn_iff [OF assms(2), of ch] show ?thesis by (simp only: simp_thms)
qed

theorem challenge_validation_and_evaluation_witness:
  "challenge_validate_dyn (\<lambda>_. False) \<lparr>sc_positions = [2, 0], sc_coeffs = [- 2, 1]\<rparr> 3 = Inr ()
    \<and> eval_at_pows (\<lambda>v c. v * of_int c) \<lparr>sc_positions = [2, 0], sc_coeffs = [- 2, 1]\<rparr> [1, 5, 25 :: rat] = Inr (- 49)"
proof -
  let ?ch = "\<lparr>sc_positions = [2, 0], sc_coeffs = [- 2, 1]\<rparr> :: sparse_challenge"
  have poly: "challenge_poly ?ch 0 = 1" "challenge_poly ?ch (Suc 0) = 0" "challenge_poly ?ch (Suc (Suc 0)) = - 2"
    by (simp_all add: challenge_poly_def)
  have "challenge_validate_dyn (\<lambda>_. False) ?ch (length [1, 5, 25 :: rat]) = Inr () \<longleftrightarrow> sampler_invariants ?ch (length [1, 5, 25 :: rat])"
    "eval_at_pows (\<lambda>v c. v * of_int c) ?ch [1, 5, 25 :: rat] = Inr (- 49) \<longleftrightarrow>
       length (sc_positions ?ch) = length (sc_coeffs ?ch)
       \<and> (\<forall>p \<in> set (sc_positions ?ch). p < length [1, 5, 25 :: rat]) \<and> (\<forall>c \<in> set (sc_coeffs ?ch). c \<noteq> 0)
       \<and> - 49 = (\<Sum>i < length [1, 5, 25 :: rat]. of_int (challenge_poly ?ch i) * [1, 5, 25 :: rat] ! i)"
    using challenge_validation_and_evaluation
      [of "\<lambda>v c. v * of_int c" "[1, 5, 25 :: rat]" "\<lambda>_. False" ?ch "- 49"] by (simp_all add: INLINE_WORDS_def)
  then show ?thesis by (simp add: sampler_invariants_def lessThan_Suc poly numeral_3_eq_3)
qed

end
