(* ===== verification/Sampler.thy ===== *)
theory Sampler
  imports PositionSample SparseChallenge
begin

text \<open>
  \<^verbatim>\<open>akita-challenges/src/sampler/signed_sparse.rs\<close> and \<^verbatim>\<open>sampler/mod.rs\<close>: one signed sparse candidate
  from a stream, the worker that draws the challenge of a coordinate with or without operator-norm
  rejection, the sequential and the parallel batch, and the batch seeded by the transcript.  The
  operator-norm table is a parameter: its entries are the type \<open>'tab\<close> and \<open>accept\<close> is
  \<open>accept_strict_parts\<close>.  A draw that never ends is \<open>None\<close>.
\<close>

unbundle bit_operations_syntax

definition SIGN_BYTE_CHUNK :: nat where "SIGN_BYTE_CHUNK = 64"
definition MAX_OP_NORM_ATTEMPTS :: nat where "MAX_OP_NORM_ATTEMPTS = 4096"
definition PARALLEL_SAMPLING_WORK_THRESHOLD :: nat where "PARALLEL_SAMPLING_WORK_THRESHOLD = 2 ^ 14"

subsection \<open>One candidate\<close>

record signed_sparse_scratch =
  ss_positions :: "nat list"
  ss_coeffs :: "int list"
  ss_position_scratch :: position_scratch
  ss_total :: nat

definition signed_sparse_new :: "nat \<Rightarrow> nat \<Rightarrow> signed_sparse_scratch" where
  "signed_sparse_new pm1 pm2 =
     \<lparr>ss_positions = replicate (pm1 + pm2) 0, ss_coeffs = [], ss_position_scratch = position_scratch_new,
      ss_total = pm1 + pm2\<rparr>"

text \<open>\<open>Vec::resize\<close>.\<close>

definition vec_resize :: "int list \<Rightarrow> nat \<Rightarrow> int list" where
  "vec_resize xs n = take n xs @ replicate (n - length xs) 0"

text \<open>The coefficient at index \<open>i\<close> for the random byte \<open>b\<close>, and the stores of one chunk.\<close>

definition signed_coeff :: "nat \<Rightarrow> nat \<Rightarrow> byte \<Rightarrow> int" where
  "signed_coeff pm1 i b =
     (let magnitude = (if i < pm1 then 1 else 2) in if b AND 1 = 0 then magnitude else - magnitude)"

fun store_signs :: "nat \<Rightarrow> nat \<Rightarrow> byte list \<Rightarrow> int list \<Rightarrow> int list" where
  "store_signs pm1 i [] cs = cs"
| "store_signs pm1 i (b # bytes) cs = store_signs pm1 (Suc i) bytes (cs[i := signed_coeff pm1 i b])"

function sign_loop :: "keccak \<Rightarrow> nat \<Rightarrow> nat \<Rightarrow> nat \<Rightarrow> xof_cursor \<Rightarrow> int list \<Rightarrow> int list \<times> xof_cursor" where
  "sign_loop kc pm1 tot written c cs =
     (if written < tot
      then let tk = min (tot - written) SIGN_BYTE_CHUNK; (sign_bytes, c1) = fill_bytes kc c tk
           in sign_loop kc pm1 tot (written + tk) c1 (store_signs pm1 written sign_bytes cs)
      else (cs, c))"
  by pat_completeness auto
termination
  by (relation "measure (\<lambda>(_, _, tot, written, _). tot - written)") (auto simp: SIGN_BYTE_CHUNK_def)

declare sign_loop.simps [simp del]

definition signed_sparse_sample ::
  "keccak \<Rightarrow> (nat \<Rightarrow> bool) \<Rightarrow> signed_sparse_scratch \<Rightarrow> xof_cursor \<Rightarrow> nat \<Rightarrow> nat \<Rightarrow> nat
    \<Rightarrow> (signed_sparse_scratch \<times> xof_cursor) result option" where
  "signed_sparse_sample kc reserve s c d pm1 pm2 =
     map_option (\<lambda>res. bindE res (\<lambda>(positions, c1, ps).
         let (cs, c2) = sign_loop kc pm1 (ss_total s) 0 c1 (vec_resize (ss_coeffs s) (ss_total s))
         in Inr (s\<lparr>ss_positions := positions, ss_coeffs := cs, ss_position_scratch := ps\<rparr>, c2)))
       (sample_distinct_positions_into kc reserve c d (length (ss_positions s)) (ss_position_scratch s))"

definition take_challenge :: "signed_sparse_scratch \<Rightarrow> sparse_challenge" where
  "take_challenge s = \<lparr>sc_positions = ss_positions s, sc_coeffs = ss_coeffs s\<rparr>"

subsection \<open>The worker of a coordinate\<close>

datatype 'tab sampling_policy = Unrestricted | OperatorNorm u32 'tab

text \<open>\<open>table64\<close> and \<open>table128\<close> are the two lazily built tables, or the message of a failed build.\<close>

definition sampling_policy_new ::
  "string + 'tab \<Rightarrow> string + 'tab \<Rightarrow> nat \<Rightarrow> challenge_config \<Rightarrow> op_norm_rejection option \<Rightarrow> 'tab sampling_policy result" where
  "sampling_policy_new table64 table128 ring_d cfg rejection =
     (case rejection of
        None \<Rightarrow> Inr Unrestricted
      | Some r \<Rightarrow>
          bindE (map_err InvalidSetup (rejection_validate r ring_d cfg)) (\<lambda>_.
            bindE (if r = D64_SELECTIVE_L2 then Inr table64
                   else if r = D128_SELECTIVE_L2 then Inr table128
                   else Inl (InvalidSetup ''unsupported operator-norm rejection policy''))
              (\<lambda>table. bindE (map_err InvalidSetup table) (\<lambda>table. Inr (OperatorNorm (onr_threshold r) table)))))"

record 'tab challenge_worker =
  wk_prefix :: "u64 list"
  wk_cursor :: xof_cursor
  wk_scratch :: signed_sparse_scratch
  wk_policy :: "'tab sampling_policy"

definition worker_new :: "u64 list \<Rightarrow> challenge_config \<Rightarrow> 'tab sampling_policy \<Rightarrow> 'tab challenge_worker" where
  "worker_new prefix cfg policy =
     \<lparr>wk_prefix = prefix, wk_cursor = cursor_new,
      wk_scratch = signed_sparse_new (count_pm1 cfg) (count_pm2 cfg), wk_policy = policy\<rparr>"

fun attempt_loop ::
  "keccak \<Rightarrow> (nat \<Rightarrow> bool) \<Rightarrow> ('tab \<Rightarrow> nat list \<Rightarrow> int list \<Rightarrow> u64 \<Rightarrow> bool result) \<Rightarrow> u64 \<Rightarrow> nat \<Rightarrow> challenge_config
    \<Rightarrow> u32 \<Rightarrow> 'tab \<Rightarrow> nat \<Rightarrow> signed_sparse_scratch \<Rightarrow> xof_cursor
    \<Rightarrow> (sparse_challenge \<times> signed_sparse_scratch \<times> xof_cursor) result option" where
  "attempt_loop kc reserve accept coordinate_index ring_d cfg threshold table 0 s c =
     Some (Inl (InvalidInput (''operator-norm rejection exceeded '' @ show_nat MAX_OP_NORM_ATTEMPTS
       @ '' attempts at coordinate '' @ show_nat (unat coordinate_index))))"
| "attempt_loop kc reserve accept coordinate_index ring_d cfg threshold table (Suc k) s c =
     (case signed_sparse_sample kc reserve s c ring_d (count_pm1 cfg) (count_pm2 cfg) of
        None \<Rightarrow> None
      | Some (Inl e) \<Rightarrow> Some (Inl e)
      | Some (Inr (s1, c1)) \<Rightarrow>
          (case accept table (ss_positions s1) (ss_coeffs s1) (ucast threshold) of
             Inl e \<Rightarrow> Some (Inl e)
           | Inr ok \<Rightarrow>
               if ok then Some (Inr (take_challenge s1, s1, c1))
               else attempt_loop kc reserve accept coordinate_index ring_d cfg threshold table k s1 c1))"

definition worker_sample ::
  "keccak \<Rightarrow> (nat \<Rightarrow> bool) \<Rightarrow> ('tab \<Rightarrow> nat list \<Rightarrow> int list \<Rightarrow> u64 \<Rightarrow> bool result)
    \<Rightarrow> 'tab challenge_worker \<Rightarrow> u64 \<Rightarrow> nat \<Rightarrow> challenge_config \<Rightarrow> (sparse_challenge \<times> 'tab challenge_worker) result option" where
  "worker_sample kc reserve accept w coordinate_index ring_d cfg =
     (let c = reset_indexed_prefix kc (wk_cursor w) (wk_prefix w) coordinate_index
      in map_option (\<lambda>res. bindE res (\<lambda>(ch, s, c'). Inr (ch, w\<lparr>wk_cursor := c', wk_scratch := s\<rparr>)))
        (case wk_policy w of
           Unrestricted \<Rightarrow>
             map_option (\<lambda>res. bindE res (\<lambda>(s, c'). Inr (take_challenge s, s, c')))
               (signed_sparse_sample kc reserve (wk_scratch w) c ring_d (count_pm1 cfg) (count_pm2 cfg))
         | OperatorNorm threshold table \<Rightarrow>
             attempt_loop kc reserve accept coordinate_index ring_d cfg threshold table MAX_OP_NORM_ATTEMPTS (wk_scratch w) c))"

subsection \<open>Batches\<close>

text \<open>Collecting results in order: the first error or the first draw that never ends decides.\<close>

fun collect_results :: "'a result option list \<Rightarrow> 'a list result option" where
  "collect_results [] = Some (Inr [])"
| "collect_results (r # rs) =
     (case r of
        None \<Rightarrow> None
      | Some (Inl e) \<Rightarrow> Some (Inl e)
      | Some (Inr x) \<Rightarrow> map_option (\<lambda>res. bindE res (\<lambda>xs. Inr (x # xs))) (collect_results rs))"

fun sequential_with ::
  "('w \<Rightarrow> u64 \<Rightarrow> ('a \<times> 'w) result option) \<Rightarrow> 'w \<Rightarrow> nat list \<Rightarrow> 'a list result option" where
  "sequential_with sample w [] = Some (Inr [])"
| "sequential_with sample w (i # is) =
     (case sample w (of_nat i) of
        None \<Rightarrow> None
      | Some (Inl e) \<Rightarrow> Some (Inl e)
      | Some (Inr (x, w')) \<Rightarrow> map_option (\<lambda>res. bindE res (\<lambda>xs. Inr (x # xs))) (sequential_with sample w' is))"

definition sample_indexed_challenges_sequential ::
  "keccak \<Rightarrow> (nat \<Rightarrow> bool) \<Rightarrow> ('tab \<Rightarrow> nat list \<Rightarrow> int list \<Rightarrow> u64 \<Rightarrow> bool result)
    \<Rightarrow> u64 list \<Rightarrow> nat \<Rightarrow> nat \<Rightarrow> challenge_config \<Rightarrow> 'tab sampling_policy \<Rightarrow> sparse_challenge list result option" where
  "sample_indexed_challenges_sequential kc reserve accept prefix ring_d n cfg policy =
     sequential_with (\<lambda>w i. worker_sample kc reserve accept w i ring_d cfg) (worker_new prefix cfg policy) [0..<n]"

text \<open>
  The parallel map hands every index to some worker that was made for this batch and may have drawn
  other coordinates before: \<open>ws prefix policy i\<close> is the worker that index \<open>i\<close> meets.  A build without the feature
  \<open>parallel\<close> is \<open>None\<close>.
\<close>

definition sample_indexed_challenges_from_seed ::
  "keccak \<Rightarrow> (nat \<Rightarrow> bool) \<Rightarrow> ('tab \<Rightarrow> nat list \<Rightarrow> int list \<Rightarrow> u64 \<Rightarrow> bool result) \<Rightarrow> string + 'tab \<Rightarrow> string + 'tab
    \<Rightarrow> (u64 list \<Rightarrow> 'tab sampling_policy \<Rightarrow> nat \<Rightarrow> 'tab challenge_worker) option
    \<Rightarrow> byte list \<Rightarrow> nat \<Rightarrow> nat \<Rightarrow> challenge_config \<Rightarrow> op_norm_rejection option \<Rightarrow> sparse_challenge list result option" where
  "sample_indexed_challenges_from_seed kc reserve accept table64 table128 par seed ring_d n cfg rejection =
     (if n = 0 then Some (Inr [])
      else case bindE (sampling_policy_new table64 table128 ring_d cfg rejection)
             (\<lambda>policy. bindE (map_err InvalidSetup (indexed_prefix_new seed)) (\<lambda>prefix. Inr (policy, prefix))) of
        Inl e \<Rightarrow> Some (Inl e)
      | Inr (policy, prefix) \<Rightarrow>
          (case par of
             None \<Rightarrow> sample_indexed_challenges_sequential kc reserve accept prefix ring_d n cfg policy
           | Some ws \<Rightarrow>
               (case checked_mul n (config_weight cfg) of
                  None \<Rightarrow> Some (Inl (InvalidSetup ''sparse challenge work overflow''))
                | Some work \<Rightarrow>
                    if PARALLEL_SAMPLING_WORK_THRESHOLD \<le> work
                    then collect_results
                      (map (\<lambda>i. map_option (map_sum id fst) (worker_sample kc reserve accept (ws prefix policy i) (of_nat i) ring_d cfg)) [0..<n])
                    else sample_indexed_challenges_sequential kc reserve accept prefix ring_d n cfg policy)))"

definition sample_sparse_challenges ::
  "('s, 'd) sponge_ops \<Rightarrow> keccak \<Rightarrow> (nat \<Rightarrow> bool) \<Rightarrow> ('tab \<Rightarrow> nat list \<Rightarrow> int list \<Rightarrow> u64 \<Rightarrow> bool result)
    \<Rightarrow> string + 'tab \<Rightarrow> string + 'tab \<Rightarrow> (u64 list \<Rightarrow> 'tab sampling_policy \<Rightarrow> nat \<Rightarrow> 'tab challenge_worker) option \<Rightarrow> 's akita_transcript
    \<Rightarrow> byte list \<Rightarrow> nat \<Rightarrow> nat \<Rightarrow> challenge_config \<Rightarrow> u32 \<Rightarrow> (sparse_challenge list \<times> 's akita_transcript) result option" where
  "sample_sparse_challenges S kc reserve accept table64 table128 par t label ring_d n cfg grind_nonce =
     (if MAX_STACK_RING_DIM < ring_d
      then Some (Inl (InvalidInput (''ring dimension '' @ show_nat ring_d @ '' exceeds supported stack sampler limit (''
        @ show_nat MAX_STACK_RING_DIM @ '')'')))
      else case config_validate_dyn cfg ring_d of
        Inl e \<Rightarrow> Some (Inl (InvalidInput (''invalid sparse challenge config: '' @ e)))
      | Inr _ \<Rightarrow>
          let absorb_buf = label @ to_le_bytes 8 (of_nat n :: u64) @ to_le_bytes 8 (of_nat ring_d :: u64)
                @ config_domain_separator_bytes cfg @ to_le_bytes 4 grind_nonce
          in Option.bind (absorb_bytes S t absorb_buf) (\<lambda>t1.
               Option.bind (squeeze_block S t1) (\<lambda>(seed, t2).
                 map_option (\<lambda>res. bindE res (\<lambda>chs. Inr (chs, t2)))
                   (sample_indexed_challenges_from_seed kc reserve accept table64 table128 par seed ring_d n cfg None))))"

subsection \<open>Cursors stay in shape\<close>

lemma reject_loop_keeps:
  assumes "\<And>c. ok c \<Longrightarrow> ok (snd (draw c))"
  shows "reject_loop draw m c = Some r \<Longrightarrow> ok c \<Longrightarrow> ok (snd r)"
proof -
  assume run: "reject_loop draw m c = Some r" and "ok c"
  have "(\<forall>c. ok c \<longrightarrow> ok (snd (draw c))) \<longrightarrow> ok c \<longrightarrow> ok (snd r)"
  proof (rule reject_loop.raw_induct [OF _ run, where P = "\<lambda>draw m c r. (\<forall>c. ok c \<longrightarrow> ok (snd (draw c))) \<longrightarrow> ok c \<longrightarrow> ok (snd r)"])
    fix loop and draw :: "'a \<Rightarrow> nat \<times> 'a" and m c r
    assume ih: "\<And>draw m c r. loop draw m c = Some r \<Longrightarrow> (\<forall>c. ok c \<longrightarrow> ok (snd (draw c))) \<longrightarrow> ok c \<longrightarrow> ok (snd r)"
      and "(let (v, c') = draw c in if v < m then Some (v, c') else loop draw m c') = Some r"
    then show "(\<forall>c. ok c \<longrightarrow> ok (snd (draw c))) \<longrightarrow> ok c \<longrightarrow> ok (snd r)"
      by (cases "fst (draw c) < m") (auto simp: case_prod_unfold Let_def)
  qed
  with assms \<open>ok c\<close> show ?thesis by blast
qed

lemma cursor_ok_reads:
  assumes "cursor_ok c"
  shows "cursor_ok (snd (next_u8 kc c))" and "cursor_ok (snd (next_u32 kc c))"
    and "cursor_ok (snd (fill_bytes kc c n))" and "length (fst (fill_bytes kc c n)) = n"
proof -
  show "cursor_ok (snd (next_u8 kc c))" by (cases "next_u8 kc c") (use next_u8_spec [OF assms] in auto)
  show "cursor_ok (snd (next_u32 kc c))" by (cases "next_u32 kc c") (use next_u32_spec [OF assms] in auto)
  obtain bs c' where run: "fill_bytes kc c n = (bs, c')" by fastforce
  from fill_bytes_spec [OF assms run] run show "cursor_ok (snd (fill_bytes kc c n))" "length (fst (fill_bytes kc c n)) = n"
    by simp_all
qed

lemma next_usize_mod_ok:
  assumes "cursor_ok c" and "next_usize_mod kc c m = Some (v, c')"
  shows "cursor_ok c'"
proof -
  have draws: "cursor_ok c \<Longrightarrow> cursor_ok (snd (draw_u8 kc b c))" "cursor_ok c \<Longrightarrow> cursor_ok (snd (draw_u16 kc b c))"
    "cursor_ok c \<Longrightarrow> cursor_ok (snd (draw_u32 kc b c))" for b c
    using cursor_ok_reads by (simp_all add: draw_u8_def draw_u16_def draw_u32_def case_prod_unfold Let_def)
  show ?thesis
  proof (cases "m = 1")
    case False
    with assms(2) obtain draw where "reject_loop draw m c = Some (v, c')" "\<And>c. cursor_ok c \<Longrightarrow> cursor_ok (snd (draw c))"
      using draws by (simp add: next_usize_mod_def Let_def split: if_splits)
    from reject_loop_keeps [OF this(2,1) assms(1)] show ?thesis by simp
  qed (use assms in \<open>simp add: next_usize_mod_def\<close>)
qed

lemma dense_loop_ok:
  "cursor_ok c \<Longrightarrow> dense_loop (next_usize_mod kc) universe i k c perm = Some (out, c') \<Longrightarrow> cursor_ok c'"
proof (induction k arbitrary: i c perm out)
  case (Suc k)
  obtain offset c1 out' where "next_usize_mod kc c (universe - i) = Some (offset, c1)"
      "dense_loop (next_usize_mod kc) universe (Suc i) k c1 (swap_at perm i (i + offset)) = Some (out', c')"
    using Suc.prems(2) by (auto simp: Let_def bind_eq_Some_conv)
  then show ?case using Suc.IH next_usize_mod_ok [OF Suc.prems(1)] by blast
qed simp

lemma reset_ok: "cursor_ok (reset_indexed_prefix kc c prefix i)"
  using refill_spec(1) by (simp add: reset_indexed_prefix_def prefix_reader_def Let_def)

lemma reset_forgets: "reset_indexed_prefix kc c prefix i = reset_indexed_prefix kc c' prefix i"
  by (simp add: reset_indexed_prefix_def refill_def case_prod_unfold Let_def)

subsection \<open>Signs\<close>

lemma store_signs_eq:
  "i + length bytes \<le> length cs \<Longrightarrow> store_signs pm1 i bytes cs
    = take i cs @ map (\<lambda>(j, b). signed_coeff pm1 j b) (enumerate i bytes) @ drop (i + length bytes) cs"
proof (induction bytes arbitrary: i cs)
  case (Cons b bytes)
  then have "Suc i + length bytes \<le> length (cs[i := signed_coeff pm1 i b])" by simp
  from Cons.IH [OF this] Cons.prems show ?case
    by (simp add: take_Suc_conv_app_nth upd_conv_take_nth_drop)
qed simp

lemma sign_loop_eq:
  assumes "cursor_ok c" and "written \<le> tot"
  shows "\<exists>bytes c'. length bytes = tot - written \<and> cursor_ok c'
    \<and> (\<forall>cs. length cs = tot \<longrightarrow> sign_loop kc pm1 tot written c cs
         = (take written cs @ map (\<lambda>(j, b). signed_coeff pm1 j b) (enumerate written bytes), c'))"
  using assms
proof (induction "tot - written" arbitrary: written c rule: less_induct)
  case less
  show ?case
  proof (cases "written < tot")
    case True
    let ?k = "min (tot - written) SIGN_BYTE_CHUNK"
    obtain bs c1 where fill: "fill_bytes kc c ?k = (bs, c1)" by fastforce
    have bs: "length bs = ?k" "cursor_ok c1" using cursor_ok_reads(3,4) [OF less.prems(1), of kc ?k] fill by simp_all
    have k: "0 < ?k" "written + ?k \<le> tot" using True by (auto simp: SIGN_BYTE_CHUNK_def)
    obtain bytes c' where ih: "length bytes = tot - (written + ?k)" "cursor_ok c'"
        "\<And>cs. length cs = tot \<Longrightarrow> sign_loop kc pm1 tot (written + ?k) c1 cs
          = (take (written + ?k) cs @ map (\<lambda>(j, b). signed_coeff pm1 j b) (enumerate (written + ?k) bytes), c')"
      using less.hyps [OF _ bs(2) k(2)] k True by force
    have "sign_loop kc pm1 tot written c cs
        = (take written cs @ map (\<lambda>(j, b). signed_coeff pm1 j b) (enumerate written (bs @ bytes)), c')" if "length cs = tot" for cs
    proof -
      have st: "store_signs pm1 written bs cs = take written cs @ map (\<lambda>(j, b). signed_coeff pm1 j b) (enumerate written bs)
          @ drop (written + ?k) cs" using store_signs_eq [of written bs cs pm1] bs(1) k(2) that by simp
      have "length (store_signs pm1 written bs cs) = tot" unfolding st using bs(1) k(2) that by simp
      from ih(3) [OF this] show ?thesis using True bs(1) k(2) that
        by (subst sign_loop.simps) (simp add: fill st enumerate_append_eq)
    qed
    then show ?thesis using ih(1,2) bs(1) k by (intro exI [of _ "bs @ bytes"] exI [of _ c']) simp
  next
    case False
    then show ?thesis using less.prems by (intro exI [of _ "[]"] exI [of _ c]) (auto simp: sign_loop.simps)
  qed
qed

subsection \<open>A candidate is a member of its family\<close>

definition signs_of :: "nat \<Rightarrow> byte list \<Rightarrow> int list" where
  "signs_of pm1 bytes = map (\<lambda>(j, b). signed_coeff pm1 j b) (enumerate 0 bytes)"

lemma signs_of_nth:
  "length (signs_of pm1 bytes) = length bytes"
  "j < length bytes \<Longrightarrow> \<bar>signs_of pm1 bytes ! j\<bar> = (if j < pm1 then 1 else 2)"
  by (simp_all add: signs_of_def nth_enumerate_eq signed_coeff_def Let_def)

lemma challenge_poly_nth:
  assumes "distinct ps" and "length ps = length cs"
  shows "j < length ps \<Longrightarrow> challenge_poly \<lparr>sc_positions = ps, sc_coeffs = cs\<rparr> (ps ! j) = cs ! j"
    and "i \<notin> set ps \<Longrightarrow> challenge_poly \<lparr>sc_positions = ps, sc_coeffs = cs\<rparr> i = 0"
proof -
  have poly: "challenge_poly \<lparr>sc_positions = ps, sc_coeffs = cs\<rparr> i = (\<Sum>k < length ps. if ps ! k = i then cs ! k else 0)" for i
    using assms(2) by (simp add: challenge_poly_def sum_list_sum_nth atLeast0LessThan)
  show "challenge_poly \<lparr>sc_positions = ps, sc_coeffs = cs\<rparr> i = 0" if "i \<notin> set ps"
    unfolding poly by (rule sum.neutral) (use that in auto)
  show "challenge_poly \<lparr>sc_positions = ps, sc_coeffs = cs\<rparr> (ps ! j) = cs ! j" if "j < length ps"
  proof -
    have "(\<Sum>k < length ps. if ps ! k = ps ! j then cs ! k else 0) = (\<Sum>k < length ps. if k = j then cs ! k else 0)"
      by (rule sum.cong) (use that assms(1) in \<open>auto simp: nth_eq_iff_index_eq\<close>)
    then show ?thesis unfolding poly using that by simp
  qed
qed

definition good_challenge :: "nat \<Rightarrow> challenge_config \<Rightarrow> sparse_challenge \<Rightarrow> bool" where
  "good_challenge d cfg ch \<longleftrightarrow> sampler_invariants ch d \<and> challenge_poly ch \<in> challenge_family d cfg"

lemma candidate_good:
  assumes "length ps = count_pm1 cfg + count_pm2 cfg" and "distinct ps" and "set ps \<subseteq> {..<d}"
    and "length bytes = length ps"
  shows "good_challenge d cfg \<lparr>sc_positions = ps, sc_coeffs = signs_of (count_pm1 cfg) bytes\<rparr>"
proof -
  let ?cs = "signs_of (count_pm1 cfg) bytes"
  let ?f = "challenge_poly \<lparr>sc_positions = ps, sc_coeffs = ?cs\<rparr>"
  have len: "length ?cs = length ps" by (simp add: signs_of_nth(1) assms(4))
  note at = challenge_poly_nth [OF assms(2) len [symmetric]]
  have mag: "\<bar>?f (ps ! j)\<bar> = (if j < count_pm1 cfg then 1 else 2)" if "j < length ps" for j
    using at(1) [OF that] signs_of_nth(2) that assms(4) by simp
  have cases: "(\<exists>j < length ps. i = ps ! j) \<or> ?f i = 0" for i using at(2) [of i] by (metis in_set_conv_nth)
  have level: "{i. \<bar>?f i\<bar> = v} = (!) ps ` {j. j < length ps \<and> (if j < count_pm1 cfg then 1 else 2) = v}"
    if "v \<noteq> 0" for v
  proof -
    have "\<bar>?f i\<bar> = v \<longleftrightarrow> (\<exists>j < length ps. i = ps ! j \<and> (if j < count_pm1 cfg then 1 else 2) = v)" for i
      using cases [of i] mag that by fastforce
    then show ?thesis by auto
  qed
  have inj: "inj_on ((!) ps) J" if "J \<subseteq> {..<length ps}" for J by (rule inj_on_nth [OF assms(2)]) (use that in auto)
  have "{j. j < length ps \<and> (if j < count_pm1 cfg then 1 else 2) = (1::int)} = {..<count_pm1 cfg}"
    "{j. j < length ps \<and> (if j < count_pm1 cfg then 1 else 2) = (2::int)} = {count_pm1 cfg..<length ps}"
    using assms(1) by auto
  then have "card {i. \<bar>?f i\<bar> = 1} = count_pm1 cfg" "card {i. \<bar>?f i\<bar> = 2} = count_pm2 cfg"
    unfolding level [of 1, simplified] level [of 2, simplified] using assms(1) by (simp_all add: card_image inj subset_eq)
  moreover have "\<bar>?f i\<bar> \<le> 2" for i using cases [of i] mag by fastforce
  moreover have "?f i \<noteq> 0 \<longrightarrow> i < d" for i using cases [of i] assms(3) by (metis lessThan_iff nth_mem subsetD)
  moreover have "c \<noteq> 0" if "c \<in> set ?cs" for c
  proof -
    from that obtain j where "j < length ?cs" "?cs ! j = c" unfolding in_set_conv_nth by blast
    then have "\<bar>c\<bar> = (if j < count_pm1 cfg then 1 else 2)" using signs_of_nth by auto
    then show ?thesis by (auto split: if_splits)
  qed
  ultimately show ?thesis using assms(2,3) len by (auto simp: good_challenge_def challenge_family_def sampler_invariants_def)
qed

text \<open>A scratch that belongs to the family, with an allocator that grants its requests.\<close>

definition scratch_ready :: "(nat \<Rightarrow> bool) \<Rightarrow> nat \<Rightarrow> challenge_config \<Rightarrow> signed_sparse_scratch \<Rightarrow> bool" where
  "scratch_ready reserve d cfg s \<longleftrightarrow> (\<forall>n. reserve n) \<and> d \<le> MAX_STACK_RING_DIM \<and> count_pm1 cfg + count_pm2 cfg \<le> d
     \<and> length (ss_positions s) = count_pm1 cfg + count_pm2 cfg \<and> ss_total s = count_pm1 cfg + count_pm2 cfg
     \<and> scratch_wf (ss_position_scratch s)"

lemma candidate_spec:
  assumes "cursor_ok c"
  shows "\<exists>r. \<forall>s. scratch_ready reserve d cfg s \<longrightarrow>
    (case r of
       None \<Rightarrow> signed_sparse_sample kc reserve s c d (count_pm1 cfg) (count_pm2 cfg) = None
     | Some (ch, c') \<Rightarrow> good_challenge d cfg ch \<and> cursor_ok c'
         \<and> (\<exists>s'. signed_sparse_sample kc reserve s c d (count_pm1 cfg) (count_pm2 cfg) = Some (Inr (s', c'))
              \<and> take_challenge s' = ch \<and> scratch_ready reserve d cfg s'))"
proof (cases "partial_shuffle kc c d (count_pm1 cfg + count_pm2 cfg)")
  case None
  then have "signed_sparse_sample kc reserve s c d (count_pm1 cfg) (count_pm2 cfg) = None" if "scratch_ready reserve d cfg s" for s
    using that dispatch_is_shuffle [of "ss_position_scratch s" d "count_pm1 cfg + count_pm2 cfg" reserve kc c]
    by (simp add: scratch_ready_def signed_sparse_sample_def)
  then show ?thesis by (intro exI [of _ None]) simp
next
  case (Some r)
  let ?tot = "count_pm1 cfg + count_pm2 cfg"
  obtain out c1 where run: "partial_shuffle kc c d ?tot = Some (out, c1)" using Some by (cases r) simp
  have c1: "cursor_ok c1" using dense_loop_ok [OF assms] run by (simp add: partial_shuffle_def)
  obtain bytes c2 where signs: "length bytes = ?tot" "cursor_ok c2"
      "\<And>cs. length cs = ?tot \<Longrightarrow> sign_loop kc (count_pm1 cfg) ?tot 0 c1 cs = (signs_of (count_pm1 cfg) bytes, c2)"
    using sign_loop_eq [OF c1, of 0 ?tot kc "count_pm1 cfg"] by (auto simp: signs_of_def)
  let ?ch = "\<lparr>sc_positions = out, sc_coeffs = signs_of (count_pm1 cfg) bytes\<rparr>"
  have "good_challenge d cfg ?ch \<and> cursor_ok c2
     \<and> (\<exists>s'. signed_sparse_sample kc reserve s c d (count_pm1 cfg) (count_pm2 cfg) = Some (Inr (s', c2))
          \<and> take_challenge s' = ?ch \<and> scratch_ready reserve d cfg s')" if s: "scratch_ready reserve d cfg s" for s
  proof -
    have "?tot \<le> d" using s by (simp add: scratch_ready_def)
    from partial_shuffle_positions [OF run this] have out: "length out = ?tot" "distinct out" "set out \<subseteq> {..<d}" by simp_all
    have "\<exists>ps. sample_distinct_positions_into kc reserve c d ?tot (ss_position_scratch s) = Some (Inr (out, c1, ps)) \<and> scratch_wf ps"
      using s dispatch_is_shuffle [of "ss_position_scratch s" d ?tot reserve kc c] run by (simp_all add: scratch_ready_def)
    then obtain ps where ps: "sample_distinct_positions_into kc reserve c d ?tot (ss_position_scratch s) = Some (Inr (out, c1, ps))"
      "scratch_wf ps" by blast
    have "length (vec_resize (ss_coeffs s) ?tot) = ?tot" by (simp add: vec_resize_def)
    from signs(3) [OF this] ps s have "\<exists>s'. signed_sparse_sample kc reserve s c d (count_pm1 cfg) (count_pm2 cfg) = Some (Inr (s', c2))
          \<and> take_challenge s' = ?ch \<and> scratch_ready reserve d cfg s'"
      using out(1) by (simp add: signed_sparse_sample_def scratch_ready_def take_challenge_def)
    moreover have "good_challenge d cfg ?ch" by (rule candidate_good) (use out signs(1) in simp_all)
    ultimately show ?thesis using signs(2) by blast
  qed
  then show ?thesis by (intro exI [of _ "Some (?ch, c2)"]) simp
qed

subsection \<open>Batches of a worker that starts every coordinate afresh\<close>

text \<open>
  The worker of a batch is reused, so that a draw must not depend on what it drew before: from any
  two usable states the same index gives the same result, and a usable state again.
\<close>

locale coordinate_worker =
  fixes sample :: "'w \<Rightarrow> u64 \<Rightarrow> ('a \<times> 'w) result option" and usable :: "'w \<Rightarrow> bool" and good :: "'a \<Rightarrow> bool"
  assumes same: "usable w \<Longrightarrow> usable w' \<Longrightarrow>
    rel_option (rel_sum (=) (\<lambda>(x, v) (x', v'). x = x' \<and> good x \<and> usable v \<and> usable v')) (sample w i) (sample w' i)"
begin

definition drawn :: "'w \<Rightarrow> nat \<Rightarrow> 'a result option" where
  "drawn w i = map_option (map_sum id fst) (sample w (of_nat i))"

lemma drawn_same: "usable w \<Longrightarrow> usable w' \<Longrightarrow> drawn w i = drawn w' i"
  using same [of w w' "of_nat i"] unfolding drawn_def
  by (auto elim!: option.rel_cases rel_sum.cases)

lemma drawn_good: "usable w \<Longrightarrow> drawn w i = Some (Inr x) \<Longrightarrow> good x"
  using same [of w w "of_nat i"] unfolding drawn_def
  by (auto elim!: option.rel_cases rel_sum.cases)

lemma sequential_eq:
  assumes "usable w"
  shows "usable v \<Longrightarrow> sequential_with sample v is = collect_results (map (drawn w) is)"
proof (induction "is" arbitrary: v)
  case (Cons i "is")
  have d: "drawn w i = map_option (map_sum id fst) (sample v (of_nat i))"
    by (rule drawn_same [OF assms Cons.prems, unfolded drawn_def [of v]])
  have next_ok: "usable v'" if "sample v (of_nat i) = Some (Inr (x, v'))" for x v'
    using same [OF Cons.prems Cons.prems, of "of_nat i"] that by simp
  show ?case using Cons.IH [OF next_ok] unfolding list.map collect_results.simps d sequential_with.simps
    by (auto split: option.split sum.split)
qed simp

lemma workers_eq:
  assumes "usable w" and "\<And>i. usable (ws i)"
  shows "collect_results (map (\<lambda>i. drawn (ws i) i) is) = collect_results (map (drawn w) is)"
  using drawn_same [OF assms(2) assms(1)] by (intro arg_cong [where f = collect_results] map_cong) simp_all

lemma collected_good:
  assumes "usable w"
  shows "collect_results (map (drawn w) is) = Some (Inr xs) \<Longrightarrow> length xs = length is \<and> (\<forall>x \<in> set xs. good x)"
proof (induction "is" arbitrary: xs)
  case (Cons i "is")
  obtain x ys where "drawn w i = Some (Inr x)" "collect_results (map (drawn w) is) = Some (Inr ys)" "xs = x # ys"
    using Cons.prems by (auto simp: result_simps split: option.splits sum.splits)
  with Cons.IH drawn_good [OF assms] show ?case by auto
qed simp

lemma collected_error:
  "collect_results (map (drawn w) is) = Some (Inl e) \<Longrightarrow> \<exists>i \<in> set is. drawn w i = Some (Inl e)"
proof (induction "is")
  case (Cons i "is")
  then show ?case by (auto simp: result_simps split: option.splits sum.splits)
qed simp

end

subsection \<open>The fold-challenge worker\<close>

text \<open>The policy accepts the parts of a challenge.\<close>

definition policy_accepts ::
  "('tab \<Rightarrow> nat list \<Rightarrow> int list \<Rightarrow> u64 \<Rightarrow> bool result) \<Rightarrow> 'tab sampling_policy \<Rightarrow> sparse_challenge \<Rightarrow> bool" where
  "policy_accepts accept policy ch =
     (case policy of
        Unrestricted \<Rightarrow> True
      | OperatorNorm threshold table \<Rightarrow> accept table (sc_positions ch) (sc_coeffs ch) (ucast threshold) = Inr True)"

definition worker_ready :: "(nat \<Rightarrow> bool) \<Rightarrow> nat \<Rightarrow> challenge_config \<Rightarrow> u64 list \<Rightarrow> 'tab sampling_policy \<Rightarrow> 'tab challenge_worker \<Rightarrow> bool" where
  "worker_ready reserve d cfg prefix policy w \<longleftrightarrow>
     wk_prefix w = prefix \<and> wk_policy w = policy \<and> scratch_ready reserve d cfg (wk_scratch w)"

lemma sample_same:
  assumes "cursor_ok c" and "scratch_ready reserve d cfg s" and "scratch_ready reserve d cfg s'"
  shows "rel_option (rel_sum (=) (\<lambda>(s, c) (s', c'). take_challenge s = take_challenge s' \<and> c = c'
      \<and> good_challenge d cfg (take_challenge s) \<and> cursor_ok c \<and> scratch_ready reserve d cfg s \<and> scratch_ready reserve d cfg s'))
    (signed_sparse_sample kc reserve s c d (count_pm1 cfg) (count_pm2 cfg))
    (signed_sparse_sample kc reserve s' c d (count_pm1 cfg) (count_pm2 cfg))"
proof -
  obtain r where r: "\<And>s. scratch_ready reserve d cfg s \<Longrightarrow>
    (case r of
       None \<Rightarrow> signed_sparse_sample kc reserve s c d (count_pm1 cfg) (count_pm2 cfg) = None
     | Some (ch, c') \<Rightarrow> good_challenge d cfg ch \<and> cursor_ok c'
         \<and> (\<exists>s'. signed_sparse_sample kc reserve s c d (count_pm1 cfg) (count_pm2 cfg) = Some (Inr (s', c'))
              \<and> take_challenge s' = ch \<and> scratch_ready reserve d cfg s'))"
    using candidate_spec [OF assms(1), of reserve d cfg kc] by blast
  show ?thesis using r [OF assms(2)] r [OF assms(3)] by (cases r) auto
qed

lemma attempt_same:
  "cursor_ok c \<Longrightarrow> scratch_ready reserve d cfg s \<Longrightarrow> scratch_ready reserve d cfg s' \<Longrightarrow>
    rel_option (rel_sum (=) (\<lambda>(ch, s, c) (ch', s', c'). ch = ch' \<and> good_challenge d cfg ch
        \<and> policy_accepts accept (OperatorNorm threshold table) ch
        \<and> scratch_ready reserve d cfg s \<and> scratch_ready reserve d cfg s'))
      (attempt_loop kc reserve accept i d cfg threshold table n s c)
      (attempt_loop kc reserve accept i d cfg threshold table n s' c)"
proof (induction n arbitrary: s s' c)
  case (Suc n)
  show ?case using sample_same [OF Suc.prems, of kc]
  proof (cases rule: option.rel_cases)
    case (Some r r')
    from Some(3) show ?thesis
    proof (cases rule: rel_sum.cases)
      case (2 p p')
      obtain s1 c1 s2 where p: "p = (s1, c1)" "p' = (s2, c1)" "take_challenge s1 = take_challenge s2"
          "good_challenge d cfg (take_challenge s1)" "cursor_ok c1" "scratch_ready reserve d cfg s1" "scratch_ready reserve d cfg s2"
        using 2(3) by (cases p, cases p') auto
      have parts: "ss_positions s2 = ss_positions s1" "ss_coeffs s2 = ss_coeffs s1" using p(3) by (simp_all add: take_challenge_def)
      show ?thesis using Suc.IH [OF p(5-7)] p
        by (auto simp: Some(1,2) 2(1,2) parts policy_accepts_def take_challenge_def split: sum.split)
    qed (simp add: Some)
  qed simp
qed simp

lemma worker_same:
  assumes "worker_ready reserve d cfg prefix policy w" and "worker_ready reserve d cfg prefix policy w'"
  shows "rel_option (rel_sum (=) (\<lambda>(x, v) (x', v'). x = x' \<and> (good_challenge d cfg x \<and> policy_accepts accept policy x)
      \<and> worker_ready reserve d cfg prefix policy v \<and> worker_ready reserve d cfg prefix policy v'))
    (worker_sample kc reserve accept w i d cfg) (worker_sample kc reserve accept w' i d cfg)"
proof -
  let ?c = "reset_indexed_prefix kc (wk_cursor w) prefix i"
  have c: "reset_indexed_prefix kc (wk_cursor w') prefix i = ?c" by (rule reset_forgets)
  note r = assms [unfolded worker_ready_def]
  show ?thesis
  proof (cases policy)
    case Unrestricted
    note sample_same [OF reset_ok [of kc "wk_cursor w" prefix i] conjunct2 [OF conjunct2 [OF r(1)]] conjunct2 [OF conjunct2 [OF r(2)]], of kc]
    with r show ?thesis
      unfolding worker_sample_def Let_def c
      by (auto simp: Unrestricted c policy_accepts_def worker_ready_def elim!: option.rel_cases rel_sum.cases)
  next
    case (OperatorNorm threshold table)
    note attempt_same [OF reset_ok [of kc "wk_cursor w" prefix i] conjunct2 [OF conjunct2 [OF r(1)]] conjunct2 [OF conjunct2 [OF r(2)]],
        of accept threshold table kc i MAX_OP_NORM_ATTEMPTS]
    with r show ?thesis
      unfolding worker_sample_def Let_def c
      by (auto simp: OperatorNorm c worker_ready_def elim!: option.rel_cases rel_sum.cases)
  qed
qed

interpretation fold: coordinate_worker "\<lambda>w i. worker_sample kc reserve accept w i d cfg" "worker_ready reserve d cfg prefix policy"
  "\<lambda>ch. good_challenge d cfg ch \<and> policy_accepts accept policy ch" for kc reserve accept d cfg prefix policy
  by unfold_locales (rule worker_same)

text \<open>The states a worker of a batch goes through: fresh, and after any draw that succeeded.\<close>

inductive worker_reached ::
  "keccak \<Rightarrow> (nat \<Rightarrow> bool) \<Rightarrow> ('tab \<Rightarrow> nat list \<Rightarrow> int list \<Rightarrow> u64 \<Rightarrow> bool result) \<Rightarrow> nat \<Rightarrow> challenge_config
    \<Rightarrow> u64 list \<Rightarrow> 'tab sampling_policy \<Rightarrow> 'tab challenge_worker \<Rightarrow> bool"
  for kc reserve accept d cfg prefix policy where
  fresh: "worker_reached kc reserve accept d cfg prefix policy (worker_new prefix cfg policy)"
| drew: "worker_reached kc reserve accept d cfg prefix policy w \<Longrightarrow>
    worker_sample kc reserve accept w i d cfg = Some (Inr (ch, w')) \<Longrightarrow>
    worker_reached kc reserve accept d cfg prefix policy w'"

text \<open>A parallel build hands every index a worker in one of these states.\<close>

definition schedule_ok ::
  "keccak \<Rightarrow> (nat \<Rightarrow> bool) \<Rightarrow> ('tab \<Rightarrow> nat list \<Rightarrow> int list \<Rightarrow> u64 \<Rightarrow> bool result) \<Rightarrow> nat \<Rightarrow> challenge_config
    \<Rightarrow> u64 list \<Rightarrow> 'tab sampling_policy \<Rightarrow> (u64 list \<Rightarrow> 'tab sampling_policy \<Rightarrow> nat \<Rightarrow> 'tab challenge_worker) option \<Rightarrow> bool" where
  "schedule_ok kc reserve accept d cfg prefix policy par \<longleftrightarrow>
     (\<forall>ws i. par = Some ws \<longrightarrow> worker_reached kc reserve accept d cfg prefix policy (ws prefix policy i))"

lemma worker_new_ready:
  assumes "d \<le> MAX_STACK_RING_DIM" and "config_validate_dyn cfg d = Inr ()" and "\<And>m. reserve m"
  shows "worker_ready reserve d cfg prefix policy (worker_new prefix cfg policy)"
  using assms by (auto simp: worker_ready_def worker_new_def scratch_ready_def signed_sparse_new_def config_validate_dyn_def
      checked_add_def split: if_splits)

lemma worker_reached_ready:
  assumes "worker_reached kc reserve accept d cfg prefix policy w"
    and "worker_ready reserve d cfg prefix policy (worker_new prefix cfg policy)"
  shows "worker_ready reserve d cfg prefix policy w"
  using assms
proof (induction rule: worker_reached.induct)
  case (drew w i ch w')
  then show ?case using worker_same [of reserve d cfg prefix policy w w accept kc i] by simp
qed simp

lemma from_seed_drawn:
  assumes new: "worker_ready reserve d cfg prefix policy (worker_new prefix cfg policy)"
    and "sampling_policy_new table64 table128 d cfg rejection = Inr policy" and "indexed_prefix_new seed = Inr prefix"
    and "n * config_weight cfg \<le> usize_max"
    and "schedule_ok kc reserve accept d cfg prefix policy par"
  shows "sample_indexed_challenges_from_seed kc reserve accept table64 table128 par seed d n cfg rejection
    = collect_results (map (fold.drawn kc reserve accept d cfg (worker_new prefix cfg policy)) [0..<n])"
proof -
  let ?w = "worker_new prefix cfg policy"
  have seq: "sample_indexed_challenges_sequential kc reserve accept prefix d n cfg policy
      = collect_results (map (fold.drawn kc reserve accept d cfg ?w) [0..<n])"
    unfolding sample_indexed_challenges_sequential_def by (rule fold.sequential_eq [OF new new])
  have reached: "worker_reached kc reserve accept d cfg prefix policy (ws prefix policy i)" if "par = Some ws" for ws i
    using assms(5) that by (simp add: schedule_ok_def)
  have ws: "collect_results (map (\<lambda>i. map_option (map_sum id fst) (worker_sample kc reserve accept (ws prefix policy i) (of_nat i) d cfg)) [0..<n])
      = collect_results (map (fold.drawn kc reserve accept d cfg ?w) [0..<n])" if "par = Some ws" for ws
    using fold.workers_eq [OF new worker_reached_ready [OF reached [OF that] new]] by (simp only: fold.drawn_def)
  show ?thesis using seq ws assms(2-4)
    by (cases "n = 0"; cases par) (simp_all add: sample_indexed_challenges_from_seed_def checked_mul_def)
qed



subsection \<open>Challenges of a transcript\<close>

lemma unrestricted_no_error:
  assumes "worker_ready reserve d cfg prefix Unrestricted w"
  shows "worker_sample kc reserve accept w i d cfg \<noteq> Some (Inl e)"
proof -
  let ?c = "reset_indexed_prefix kc (wk_cursor w) prefix i"
  have "signed_sparse_sample kc reserve (wk_scratch w) ?c d (count_pm1 cfg) (count_pm2 cfg) \<noteq> Some (Inl e)"
    using candidate_spec [OF reset_ok [of kc "wk_cursor w" prefix i], of reserve d cfg kc] assms
    by (auto simp: worker_ready_def split: option.splits)
  with assms show ?thesis by (auto simp: worker_sample_def worker_ready_def Let_def result_simps)
qed

text \<open>
  C35: The challenges a transcript yields.  On a bound transcript, for a ring dimension within the
  sampler's limit and a family that fits it, \<open>sample_sparse_challenges\<close> never reports an error: it
  returns as many challenges as asked, unless a rejection loop on the stream never accepts.  Every
  challenge passes its own validation, and its polynomial has exactly the family's number of
  coefficients \<open>\<plusminus>1\<close> and \<open>\<plusminus>2\<close> and no others, so that the entropy count of the family is about what
  is really sampled.
\<close>

theorem sampled_challenges_valid:
  assumes "chunked S" and "state t = Some st"
    and "d \<le> MAX_STACK_RING_DIM" and "config_validate_dyn cfg d = Inr ()" and "\<And>m. reserve m"
    and "n * config_weight cfg \<le> usize_max"
    and "\<And>prefix. schedule_ok kc reserve accept d cfg prefix Unrestricted par"
  shows "case sample_sparse_challenges S kc reserve accept table64 table128 par t label d n cfg nonce of
       None \<Rightarrow> True
     | Some (Inl e) \<Rightarrow> False
     | Some (Inr (chs, t')) \<Rightarrow> length chs = n
         \<and> (\<forall>ch \<in> set chs. challenge_validate_dyn reserve ch d = Inr () \<and> challenge_poly ch \<in> challenge_family d cfg)"
proof -
  let ?buf = "label @ to_le_bytes 8 (of_nat n :: u64) @ to_le_bytes 8 (of_nat d :: u64)
    @ config_domain_separator_bytes cfg @ to_le_bytes 4 nonce"
  obtain seed st' where sq: "verifier_message S (public_message S (framed_bytes ?buf) st) = (seed, st')" by fastforce
  have "length seed = 32" using assms(1) sq unfolding chunked_def SQUEEZE_CHUNK_LEN_def by (metis fst_conv)
  then obtain prefix where pre: "indexed_prefix_new seed = Inr prefix" by (simp add: indexed_prefix_new_def GROUP_ROOT_LEN_def)
  have new: "worker_ready reserve d cfg prefix Unrestricted (worker_new prefix cfg Unrestricted)"
    by (rule worker_new_ready [OF assms(3,4)]) (rule assms(5))
  let ?drawn = "fold.drawn kc reserve accept d cfg (worker_new prefix cfg Unrestricted)"
  have "sample_indexed_challenges_from_seed kc reserve accept table64 table128 par seed d n cfg None
      = collect_results (map ?drawn [0..<n])"
    by (rule from_seed_drawn [OF new _ pre assms(6,7)]) (simp add: sampling_policy_new_def)
  then have run: "sample_sparse_challenges S kc reserve accept table64 table128 par t label d n cfg nonce
      = map_option (\<lambda>res. bindE res (\<lambda>chs. Inr (chs, t\<lparr>state := Some st'\<rparr>))) (collect_results (map ?drawn [0..<n]))"
    using assms(2-4) sq by (simp add: sample_sparse_challenges_def absorb_bytes_def squeeze_block_def Let_def)
  have "?drawn i \<noteq> Some (Inl e)" for i e
    using unrestricted_no_error [OF new, of kc accept "of_nat i" e] by (auto simp: fold.drawn_def map_sum_def split: sum.splits)
  then have "collect_results (map ?drawn [0..<n]) \<noteq> Some (Inl e)" for e using fold.collected_error by blast
  moreover have "length chs = n \<and> (\<forall>ch \<in> set chs. challenge_validate_dyn reserve ch d = Inr () \<and> challenge_poly ch \<in> challenge_family d cfg)"
    if "collect_results (map ?drawn [0..<n]) = Some (Inr chs)" for chs
    using fold.collected_good [OF new that] validate_dyn_iff [of d reserve] assms(5) by (auto simp: good_challenge_def)
  ultimately show ?thesis unfolding run by (auto split: option.split sum.split simp: result_simps)
qed

theorem sampled_challenges_valid_witness:
  "\<exists>ch t'. sample_sparse_challenges recording_sponge id (\<lambda>_. True) (\<lambda>_ _ _ _. Inr True) (Inr ()) (Inr ()) None
      (new_prover recording_sponge [1] [2]) [3] 1 1 (pm1_only 1) 5 = Some (Inr ([ch], t'))
    \<and> challenge_validate_dyn (\<lambda>_. True) ch 1 = Inr ()"
proof -
  let ?t = "new_prover recording_sponge [1] [2]" and ?cfg = "pm1_only 1"
  obtain st where st: "state ?t = Some st" by (simp add: new_prover_def bind_instance_bytes_def)
  have dims: "1 \<le> MAX_STACK_RING_DIM" "config_validate_dyn ?cfg 1 = Inr ()" "1 * config_weight ?cfg \<le> usize_max"
    by (simp_all add: MAX_STACK_RING_DIM_def config_validate_dyn_def config_weight_def saturating_add_def checked_add_def
        usize_max_def pm1_only_def)
  have pos: "sample_distinct_positions_into id (\<lambda>_. True) c 1 1 s = Some (Inr ([0], c, s))" for c s
    by (simp add: sample_distinct_positions_into_def saturating_mul_def usize_max_def MAX_STACK_TIER_RING_DIM_def
        sample_distinct_positions_into_stack_def next_usize_mod_def swap_at_def)
  let ?run = "sample_sparse_challenges recording_sponge id (\<lambda>_. True) (\<lambda>_ _ _ _. Inr True) (Inr ()) (Inr ()) None ?t [3] 1 1 ?cfg 5"
  have draw: "worker_sample id (\<lambda>_. True) accept (worker_new prefix ?cfg Unrestricted) i 1 ?cfg \<noteq> None"
    for accept :: "unit \<Rightarrow> nat list \<Rightarrow> int list \<Rightarrow> u64 \<Rightarrow> bool result" and prefix i
    using pos by (simp add: worker_sample_def worker_new_def signed_sparse_sample_def signed_sparse_new_def pm1_only_def Let_def)
  have "length (fst (verifier_message recording_sponge s)) = 32" for s
    using recording_sponge_ok(1) unfolding chunked_def SQUEEZE_CHUNK_LEN_def by blast
  then have "?run \<noteq> None" using st dims(1,2) draw
    by (auto simp: sample_sparse_challenges_def absorb_bytes_def squeeze_block_def case_prod_unfold Let_def
        sample_indexed_challenges_from_seed_def sampling_policy_new_def indexed_prefix_new_def GROUP_ROOT_LEN_def
        sample_indexed_challenges_sequential_def split: option.splits sum.splits)
  with sampled_challenges_valid [OF recording_sponge_ok(1) st dims(1,2) TrueI dims(3), of id "\<lambda>_ _ _ _. Inr True" None "Inr ()" "Inr ()" "[3]" 5]
  show ?thesis by (auto simp: schedule_ok_def length_Suc_conv split: option.splits sum.splits)
qed

end
