(* ===== verification/OffsetEq.thy ===== *)
theory OffsetEq
  imports EqPoly
begin

text \<open>
  \<^verbatim>\<open>akita-algebra/src/offset_eq.rs\<close>, the bounded equality window: the scalar evaluation of the
  equality polynomial at an index, the window with its low and high tables, the amortised window,
  and the filling of an interval of indices.  \<open>parallel\<close> and \<open>elem_size\<close> are as in the theory of
  the equality tables.
\<close>

unbundle bit_operations_syntax

definition OFFSET_EQ_LOW_BITS_CAP :: nat where "OFFSET_EQ_LOW_BITS_CAP = 16"
definition OFFSET_EQ_HIGH_BITS_CAP :: nat where "OFFSET_EQ_HIGH_BITS_CAP = 16"

definition eq_eval_at_index :: "'e::field list \<Rightarrow> nat \<Rightarrow> 'e" where
  "eq_eval_at_index x_challenges index =
     (if length x_challenges < usize_bits \<and> 2 ^ length x_challenges \<le> index then 0
      else foldl (\<lambda>acc (bit_idx, r_t).
             let b = (if bit_idx < usize_bits then drop_bit bit_idx index AND 1 else 0)
             in acc * (if b = 1 then r_t else 1 - r_t)) 1 (enumerate 0 x_challenges))"

subsection \<open>The window\<close>

record 'e offset_eq_window =
  ow_low_bits :: nat
  ow_low_mask :: nat
  ow_eq_low :: "'e list"
  ow_eq_high :: "'e list option"
  ow_high_challenges :: "'e list"

definition split_low_bits :: "nat \<Rightarrow> nat \<Rightarrow> nat" where
  "split_low_bits challenge_count low_bits_cap =
     (let low_cap = min low_bits_cap OFFSET_EQ_LOW_BITS_CAP in
      if challenge_count \<le> low_cap + OFFSET_EQ_HIGH_BITS_CAP
      then min (max ((challenge_count + 1) div 2) (challenge_count - OFFSET_EQ_HIGH_BITS_CAP)) low_cap
      else min challenge_count low_cap)"

definition window_with_low_bits :: "bool \<Rightarrow> nat \<Rightarrow> 'e::field list \<Rightarrow> nat \<Rightarrow> 'e offset_eq_window result" where
  "window_with_low_bits parallel elem_size challenges low_bits_cap =
     (let low_bits = split_low_bits (length challenges) low_bits_cap in
      bindE (evals parallel elem_size (take low_bits challenges)) (\<lambda>eq_low.
        let low_mask = (if low_bits = 0 then 0 else 2 ^ low_bits - 1);
            high_challenges = drop low_bits challenges in
        bindE (if length high_challenges \<le> OFFSET_EQ_HIGH_BITS_CAP
               then bindE (evals parallel elem_size high_challenges) (\<lambda>table. Inr (Some table))
               else Inr None) (\<lambda>eq_high.
          Inr \<lparr>ow_low_bits = low_bits, ow_low_mask = low_mask, ow_eq_low = eq_low, ow_eq_high = eq_high,
               ow_high_challenges = high_challenges\<rparr>)))"

definition window_new :: "bool \<Rightarrow> nat \<Rightarrow> 'e::field list \<Rightarrow> 'e offset_eq_window result" where
  "window_new parallel elem_size challenges =
     window_with_low_bits parallel elem_size challenges OFFSET_EQ_LOW_BITS_CAP"

definition new_if_amortized :: "bool \<Rightarrow> nat \<Rightarrow> 'e::field list \<Rightarrow> nat \<Rightarrow> 'e offset_eq_window option result" where
  "new_if_amortized parallel elem_size challenges evaluation_count =
     (if challenges = [] then Inr None
      else let low_bits = split_low_bits (length challenges) OFFSET_EQ_LOW_BITS_CAP;
               high_bits = length challenges - low_bits;
               overflow = InvalidInput ''eq table dimension overflow'' in
        bindE (ok_or (pow2 low_bits) overflow) (\<lambda>low_len.
          bindE (if high_bits \<le> OFFSET_EQ_HIGH_BITS_CAP then ok_or (pow2 high_bits) overflow else Inr 0) (\<lambda>high_len.
            bindE (ok_or (sum_checked [low_len, high_len]) overflow) (\<lambda>materialized_values.
              if evaluation_count < materialized_values then Inr None
              else bindE (window_new parallel elem_size challenges) (\<lambda>w. Inr (Some w))))))"

definition variable_count :: "'e offset_eq_window \<Rightarrow> nat" where
  "variable_count w = ow_low_bits w + length (ow_high_challenges w)"

text \<open>\<open>slice::get\<close> with a default of zero.\<close>

definition get_or_zero :: "'e::zero list \<Rightarrow> nat \<Rightarrow> 'e" where
  "get_or_zero xs i = (if i < length xs then xs ! i else 0)"

definition window_eval :: "'e::field offset_eq_window \<Rightarrow> nat \<Rightarrow> 'e" where
  "window_eval w index =
     (let low = index AND ow_low_mask w; eq_low = get_or_zero (ow_eq_low w) low in
      if eq_low = 0 then 0
      else let high = drop_bit (ow_low_bits w) index;
               eq_high = (case ow_eq_high w of
                            Some table \<Rightarrow> get_or_zero table high
                          | None \<Rightarrow> eq_eval_at_index (ow_high_challenges w) high)
           in eq_low * eq_high)"

text \<open>
  \<open>fill_bounded_high_interval\<close> for the \<open>n\<close> values still to be written.  A low position beyond the low
  table is an error; at its very end the loop would make no progress.  The mask of a window is below
  the length of its low table (lemma \<open>window_shape\<close>), so that neither happens; both are the error here.
\<close>

function fill_bounded_high_interval ::
  "'e::field offset_eq_window \<Rightarrow> nat \<Rightarrow> nat \<Rightarrow> 'e list \<Rightarrow> 'e list result" where
  "fill_bounded_high_interval w start n eq_high =
     (if n = 0 then Inr []
      else let low = start AND ow_low_mask w in
        if length (ow_eq_low w) \<le> low then Inl InvalidProof
        else let available_low = length (ow_eq_low w) - low; tk = min available_low n;
                 low_values = take tk (drop low (ow_eq_low w)); high = drop_bit (ow_low_bits w) start in
          if length eq_high \<le> high then Inr (replicate n 0)
          else let scale = eq_high ! high;
                   destination = (if scale = 0 then replicate tk 0 else if scale = 1 then low_values
                                  else map (\<lambda>low_value. low_value * scale) low_values) in
            bindE (ok_or (checked_add start tk) (InvalidInput ''equality interval overflow'')) (\<lambda>start'.
              bindE (fill_bounded_high_interval w start' (n - tk) eq_high) (\<lambda>tail. Inr (destination @ tail))))"
  by pat_completeness auto
termination
  by (relation "measure (\<lambda>(_, _, n, _). n)") auto

declare fill_bounded_high_interval.simps [simp del]

definition FILL_PARALLEL_THRESHOLD :: nat where "FILL_PARALLEL_THRESHOLD = 2 ^ 14"

definition fill_interval :: "'e::field offset_eq_window \<Rightarrow> nat \<Rightarrow> nat \<Rightarrow> 'e list result" where
  "fill_interval w start n =
     bindE (ok_or (checked_add start n) (InvalidInput ''equality interval overflow'')) (\<lambda>_.
       case ow_eq_high w of
         Some eq_high \<Rightarrow>
           if FILL_PARALLEL_THRESHOLD \<le> n
           then bindE (collect_result (map (\<lambda>chunk_index.
                    bindE (ok_or (Option.bind (checked_mul chunk_index FILL_PARALLEL_THRESHOLD) (checked_add start))
                             (InvalidInput ''equality interval overflow''))
                      (\<lambda>chunk_start. fill_bounded_high_interval w chunk_start
                         (min FILL_PARALLEL_THRESHOLD (n - chunk_index * FILL_PARALLEL_THRESHOLD)) eq_high))
                  [0..<(n + FILL_PARALLEL_THRESHOLD - 1) div FILL_PARALLEL_THRESHOLD]))
                (\<lambda>chunks. Inr (concat chunks))
           else fill_bounded_high_interval w start n eq_high
       | None \<Rightarrow> Inr (map (\<lambda>offset. window_eval w (start + offset)) [0..<n]))"

subsection \<open>The amortised window\<close>

record 'e amortized_offset_eq =
  ao_challenges :: "'e list"
  ao_window :: "'e offset_eq_window option"

definition amortized_new :: "'e list \<Rightarrow> 'e amortized_offset_eq" where
  "amortized_new challenges = \<lparr>ao_challenges = challenges, ao_window = None\<rparr>"

definition prepare_for_product ::
  "bool \<Rightarrow> nat \<Rightarrow> 'e::field amortized_offset_eq \<Rightarrow> nat \<Rightarrow> nat \<Rightarrow> nat \<Rightarrow> 'e amortized_offset_eq result" where
  "prepare_for_product parallel elem_size a families rows carries =
     (if ao_window a = None
      then bindE (ok_or (product_checked [families, rows, carries]) (InvalidInput ''affine high work overflow''))
        (\<lambda>evaluations. bindE (new_if_amortized parallel elem_size (ao_challenges a) evaluations)
           (\<lambda>w. Inr (a\<lparr>ao_window := w\<rparr>)))
      else Inr a)"

definition amortized_eval :: "'e::field amortized_offset_eq \<Rightarrow> nat \<Rightarrow> 'e" where
  "amortized_eval a index =
     (case ao_window a of None \<Rightarrow> eq_eval_at_index (ao_challenges a) index | Some w \<Rightarrow> window_eval w index)"

subsection \<open>The equality polynomial at an index\<close>

text \<open>The reference: the point-wise equality polynomial inside the domain, zero outside.\<close>

definition eq_at :: "'e::field list \<Rightarrow> nat \<Rightarrow> 'e" where
  "eq_at r i = (if i < 2 ^ length r then eq_weight r i else 0)"

lemma foldl_eq_bits:
  "foldl (\<lambda>acc (bit_idx, r_t). let b = (if bit_idx < usize_bits then drop_bit bit_idx index AND 1 else 0)
      in acc * (if b = 1 then r_t else 1 - r_t)) acc (enumerate k r)
    = acc * eq_weight r (index div 2 ^ k)" if "index < 2 ^ usize_bits"
proof (induction r arbitrary: acc k)
  case (Cons c r)
  have "index div 2 ^ k = 0" if "\<not> k < usize_bits"
  proof -
    have "(2::nat) ^ usize_bits \<le> 2 ^ k" using that by (intro power_increasing) simp_all
    with \<open>index < 2 ^ usize_bits\<close> have "index < 2 ^ k" by linarith
    then show ?thesis by simp
  qed
  then have "(if k < usize_bits then drop_bit k index AND 1 else 0) = (index div 2 ^ k) mod 2"
    by (simp add: drop_bit_eq_div and_one_eq)
  moreover have "index div 2 ^ k div 2 = index div 2 ^ Suc k" by (simp add: div_mult2_eq mult.commute flip: div_mult2_eq)
  ultimately show ?case using Cons.IH [where k = "Suc k"] by (simp add: odd_iff_mod_2_eq_one mult.assoc)
qed simp

lemma eq_eval_at_index_eq: "index \<le> usize_max \<Longrightarrow> eq_eval_at_index r index = eq_at r index"
proof -
  assume "index \<le> usize_max"
  then have less: "index < 2 ^ usize_bits" by (simp add: usize_max_def usize_bits_def)
  have "index < 2 ^ length r" if "\<not> length r < usize_bits"
  proof -
    have "(2::nat) ^ usize_bits \<le> 2 ^ length r" using that by (intro power_increasing) simp_all
    with less show ?thesis by linarith
  qed
  with foldl_eq_bits [OF less, of 1 0 r] show ?thesis by (auto simp: eq_eval_at_index_def eq_at_def not_le)
qed

lemma eq_at_append: "eq_at (xs @ ys) i = eq_weight xs i * eq_at ys (i div 2 ^ length xs)"
proof -
  have "i < 2 ^ length (xs @ ys) \<longleftrightarrow> i div 2 ^ length xs < 2 ^ length ys"
    by (simp add: power_add div_less_iff_less_mult mult.commute)
  then show ?thesis by (simp add: eq_at_def eq_weight_append)
qed

lemma eq_weight_shift: "eq_weight xs (2 ^ length xs * k + i) = eq_weight xs i"
  using eq_weight_mod [of xs "2 ^ length xs * k + i"] eq_weight_mod [of xs i] by simp

lemma get_eq_table: "get_or_zero (eq_table r 1) i = eq_at r i"
  by (simp add: get_or_zero_def eq_at_def nth_eq_table)

subsection \<open>Windows\<close>

lemma split_low_bits_bounds: "split_low_bits n cap \<le> n" "split_low_bits n cap \<le> 16"
  by (auto simp: split_low_bits_def Let_def OFFSET_EQ_LOW_BITS_CAP_def OFFSET_EQ_HIGH_BITS_CAP_def)

lemma window_shape:
  assumes "window_with_low_bits par sz ch cap = Inr w"
  defines "lb \<equiv> split_low_bits (length ch) cap"
  shows "ow_low_bits w = lb" "ow_low_mask w = 2 ^ lb - 1" "ow_eq_low w = eq_table (take lb ch) 1"
    "ow_high_challenges w = drop lb ch" "ow_eq_high w = None \<or> ow_eq_high w = Some (eq_table (drop lb ch) 1)"
    "length (take lb ch) = lb"
  using assms(1) split_low_bits_bounds(1) [of "length ch" cap]
  by (auto simp: window_with_low_bits_def Let_def result_simps evals_Inr_iff lb_def split: if_splits)

lemma window_total:
  assumes "eq_budget_ok sz 16"
  shows "\<exists>w. window_with_low_bits par sz ch cap = Inr w"
proof -
  have low: "eq_budget_ok sz (length (take (split_low_bits (length ch) cap) ch))"
    using eq_budget_ok_mono [OF assms] split_low_bits_bounds [of "length ch" cap] by simp
  have high: "eq_budget_ok sz (length ch - split_low_bits (length ch) cap)"
    if "length ch - split_low_bits (length ch) cap \<le> OFFSET_EQ_HIGH_BITS_CAP"
    using eq_budget_ok_mono [OF assms] that by (simp add: OFFSET_EQ_HIGH_BITS_CAP_def)
  have evs: "evals par sz r = Inr (eq_table r 1)" if "eq_budget_ok sz (length r)" for r :: "'a list"
    using that by (simp add: evals_Inr_iff)
  show ?thesis using evs [OF low] evs [of "drop (split_low_bits (length ch) cap) ch"] high
    by (simp add: window_with_low_bits_def Let_def)
qed

lemma and_pow2_mask: "(i::nat) AND (2 ^ k - 1) = i mod 2 ^ k"
  by (simp only: take_bit_eq_mod flip: take_bit_eq_mask mask_eq_exp_minus_1)

lemma window_eval_eq:
  assumes "window_with_low_bits par sz ch cap = Inr w" and "i \<le> usize_max"
  shows "window_eval w i = eq_at ch i"
proof -
  define lb where "lb = split_low_bits (length ch) cap"
  note w = window_shape [OF assms(1), folded lb_def]
  have low: "get_or_zero (ow_eq_low w) (i AND ow_low_mask w) = eq_weight (take lb ch) i"
    using eq_weight_mod [of "take lb ch" i] unfolding w(2,3,6) and_pow2_mask get_eq_table eq_at_def by simp
  have "i div 2 ^ lb \<le> usize_max" using assms(2) div_le_dividend le_trans by blast
  then have "(case ow_eq_high w of Some table \<Rightarrow> get_or_zero table (drop_bit (ow_low_bits w) i)
      | None \<Rightarrow> eq_eval_at_index (ow_high_challenges w) (drop_bit (ow_low_bits w) i)) = eq_at (drop lb ch) (i div 2 ^ lb)"
    using w(5) by (auto simp: w(1,4) drop_bit_eq_div get_eq_table eq_eval_at_index_eq)
  moreover have "eq_at ch i = eq_weight (take lb ch) i * eq_at (drop lb ch) (i div 2 ^ lb)"
    using eq_at_append [of "take lb ch" "drop lb ch" i] w(6) by simp
  ultimately show ?thesis unfolding window_eval_def Let_def low by simp
qed

lemma amortized_eval_eq:
  assumes "new_if_amortized par sz ch n = Inr (Some w)" and "i \<le> usize_max"
  shows "window_eval w i = eq_at ch i"
  using assms window_eval_eq [OF _ assms(2)]
  by (auto simp: new_if_amortized_def window_new_def Let_def result_simps split: if_splits)

lemma low_row:
  assumes "length r = b" and "low + k \<le> 2 ^ b" and "start mod 2 ^ b = low"
  shows "take k (drop low (eq_table r 1)) = map (eq_weight r) [start..<start + k]"
    and "\<And>i. i < k \<Longrightarrow> (start + i) div 2 ^ b = start div 2 ^ b"
proof -
  have base: "start = 2 ^ b * (start div 2 ^ b) + low" using assms(3) mult_div_mod_eq by metis
  show "(start + i) div 2 ^ b = start div 2 ^ b" if "i < k" for i
  proof -
    have "low + i < 2 ^ b" using assms(2) that by linarith
    moreover have "start + i = 2 ^ b * (start div 2 ^ b) + (low + i)" using base by linarith
    ultimately show ?thesis by (metis div_mult_self4 div_less add_0_left zero_neq_numeral power_not_zero add.commute)
  qed
  have "eq_weight r (start + i) = eq_weight r (low + i)" for i
  proof -
    have "start + i = 2 ^ length r * (start div 2 ^ b) + (low + i)" unfolding assms(1) using base by linarith
    then show ?thesis by (simp only: eq_weight_shift)
  qed
  then show "take k (drop low (eq_table r 1)) = map (eq_weight r) [start..<start + k]"
    using assms(1,2) by (intro nth_equalityI) (simp_all add: nth_eq_table)
qed

lemma fill_bounded_eq:
  assumes win: "window_with_low_bits par sz ch cap = Inr w"
  defines "lb \<equiv> split_low_bits (length ch) cap"
  shows "start + n \<le> usize_max \<Longrightarrow> fill_bounded_high_interval w start n (eq_table (drop lb ch) 1)
    = Inr (map (eq_at ch) [start..<start + n])"
proof (induction n arbitrary: start rule: less_induct)
  case (less n)
  note w = window_shape [OF win, folded lb_def]
  show ?case
  proof (cases "n = 0")
    case False
    define low where "low = start mod 2 ^ lb"
    define k where "k = min (2 ^ lb - low) n"
    have low: "low < 2 ^ lb" by (simp add: low_def)
    have k: "0 < k" "k \<le> n" "low + k \<le> 2 ^ lb" using False low by (auto simp: k_def)
    have eq: "eq_at ch i = eq_weight (take lb ch) i * eq_at (drop lb ch) (i div 2 ^ lb)" for i
      using eq_at_append [of "take lb ch" "drop lb ch" i] w(6) by simp
    note row = low_row [OF w(6) k(3) low_def [symmetric]]
    let ?scale = "eq_at (drop lb ch) (start div 2 ^ lb)"
    have here: "map (eq_at ch) [start..<start + k] = map (\<lambda>v. v * ?scale) (take k (drop low (ow_eq_low w)))"
      unfolding w(3) row(1) by (intro nth_equalityI) (simp_all add: eq row(2))
    have rest: "fill_bounded_high_interval w (start + k) (n - k) (eq_table (drop lb ch) 1)
        = Inr (map (eq_at ch) [start + k..<start + n])"
      using less.IH [of "n - k" "start + k"] less.prems k by simp
    have split: "[start..<start + n] = [start..<start + k] @ [start + k..<start + n]"
      using k(2) by (metis le_add_diff_inverse upt_add_eq_append le_add1 add.assoc)
    have mask: "start AND ow_low_mask w = low" unfolding w(2) low_def by (rule and_pow2_mask)
    have len: "length (ow_eq_low w) = 2 ^ lb" by (simp only: w(3,6) length_eq_table)
    have unfold: "fill_bounded_high_interval w start n (eq_table (drop lb ch) 1)
      = (if 2 ^ length (drop lb ch) \<le> start div 2 ^ lb then Inr (replicate n 0)
         else let scale = ?scale;
                  destination = (if scale = 0 then replicate k 0 else if scale = 1 then take k (drop low (ow_eq_low w))
                                 else map (\<lambda>v. v * scale) (take k (drop low (ow_eq_low w)))) in
           Inr (destination @ map (eq_at ch) [start + k..<start + n]))"
      using False low rest less.prems k nth_eq_table [of "start div 2 ^ lb" "drop lb ch" 1]
      by (subst fill_bounded_high_interval.simps)
        (simp add: mask len w(1) drop_bit_eq_div checked_add_def eq_at_def Let_def flip: k_def)
    show ?thesis
    proof (cases "2 ^ length (drop lb ch) \<le> start div 2 ^ lb")
      case True
      have "eq_at ch i = 0" if "start \<le> i" for i
      proof -
        have "\<not> i div 2 ^ lb < 2 ^ length (drop lb ch)" using True div_le_mono [OF that, of "2 ^ lb"] by linarith
        then show ?thesis unfolding eq by (simp only: eq_at_def if_False mult_zero_right)
      qed
      then have "map (eq_at ch) [start..<start + n] = replicate n 0" by (intro nth_equalityI) simp_all
      with True show ?thesis by (simp only: unfold if_True)
    next
      case False
      have "(if ?scale = 0 then replicate k 0 else if ?scale = 1 then take k (drop low (ow_eq_low w))
          else map (\<lambda>v. v * ?scale) (take k (drop low (ow_eq_low w)))) = map (eq_at ch) [start..<start + k]"
        unfolding here using k(3) len by (auto intro: nth_equalityI)
      with False show ?thesis by (simp only: unfold if_False Let_def split map_append)
    qed
  qed (simp add: fill_bounded_high_interval.simps)
qed

lemma upt_chunks:
  fixes f :: "nat \<Rightarrow> 'a"
  assumes "0 < t"
  shows "concat (map (\<lambda>c. map f [start + c * t..<start + c * t + min t (n - c * t)]) [0..<(n + t - 1) div t])
    = map f [start..<start + n]"
proof -
  have "concat (map (\<lambda>c. map f [start + c * t..<start + c * t + min t (n - c * t)]) [0..<m])
      = map f [start..<start + min n (m * t)]" for m
  proof (induction m)
    case (Suc m)
    have "[start..<start + min n (m * t)] @ [start + m * t..<start + m * t + min t (n - m * t)]
        = [start..<start + min n (Suc m * t)]"
    proof (cases "m * t \<le> n")
      case True
      then have "start + min n (m * t) = start + m * t" "start + min n (Suc m * t) = start + m * t + min t (n - m * t)" by auto
      then show ?thesis by (metis le_add1 add.assoc upt_add_eq_append)
    qed simp
    then have "map f [start..<start + min n (m * t)] @ map f [start + m * t..<start + m * t + min t (n - m * t)]
        = map f [start..<start + min n (Suc m * t)]" by (metis map_append)
    with Suc show ?case by simp
  qed simp
  moreover have "n \<le> (n + t - 1) div t * t"
  proof -
    have "n + t - 1 < ((n + t - 1) div t + 1) * t" using assms by (simp add: dividend_less_div_times add.commute)
    then show ?thesis using assms by simp
  qed
  ultimately show ?thesis by (simp add: min_absorb1)
qed

lemma fill_interval_eq:
  assumes win: "window_with_low_bits par sz ch cap = Inr w" and range: "start + n \<le> usize_max"
  shows "fill_interval w start n = Inr (map (eq_at ch) [start..<start + n])"
proof (cases "ow_eq_high w")
  case None
  then show ?thesis using range window_eval_eq [OF win]
    by (auto simp: fill_interval_def checked_add_def intro!: nth_equalityI)
next
  case (Some table)
  define t where "t = FILL_PARALLEL_THRESHOLD"
  have t: "0 < t" by (simp add: t_def FILL_PARALLEL_THRESHOLD_def)
  have table: "table = eq_table (drop (split_low_bits (length ch) cap) ch) 1"
    using window_shape(5) [OF win] Some by simp
  have chunk: "bindE (ok_or (Option.bind (checked_mul c t) (checked_add start)) e)
      (\<lambda>chunk_start. fill_bounded_high_interval w chunk_start (min t (n - c * t)) table)
    = Inr (map (eq_at ch) [start + c * t..<start + c * t + min t (n - c * t)])" if "c < (n + t - 1) div t" for c e
  proof -
    have "Suc c * t \<le> (n + t - 1) div t * t" using that by (intro mult_le_mono1) simp
    also have "\<dots> \<le> n + t - 1" by (rule div_times_less_eq_dividend)
    finally have "c * t < n" using t by simp
    then have "start + c * t + min t (n - c * t) \<le> usize_max" "c * t \<le> usize_max" "start + c * t \<le> usize_max" using range by simp_all
    then show ?thesis using fill_bounded_eq [OF win] by (simp add: checked_mul_def checked_add_def table)
  qed
  have "collect_result (map (\<lambda>c. bindE (ok_or (Option.bind (checked_mul c t) (checked_add start)) e)
      (\<lambda>chunk_start. fill_bounded_high_interval w chunk_start (min t (n - c * t)) table)) [0..<(n + t - 1) div t])
    = collect_result (map (\<lambda>c. Inr (map (eq_at ch) [start + c * t..<start + c * t + min t (n - c * t)])) [0..<(n + t - 1) div t])" for e
    by (rule arg_cong [where f = collect_result], rule map_cong [OF refl], rule chunk) simp
  then show ?thesis using Some range fill_bounded_eq [OF win range] upt_chunks [OF t, of "eq_at ch" start n]
    by (simp add: fill_interval_def checked_add_def table flip: t_def)
qed



end
