(* ===== verification/AffineEval.thy ===== *)
theory AffineEval
  imports OffsetEq
begin

text \<open>
  \<^verbatim>\<open>akita-algebra/src/offset_eq.rs\<close>, the evaluator of affine digit intervals: the weight sources, the
  bit-aligned specialisation, the low carry summaries with their geometric shortcut, the bucketed
  high contraction, the contraction of rows by residue groups, and the entry point with its checks.
  The only implementation of the trait \<open>AffineWeight\<close> is the field itself, so that weights are field
  elements: \<open>zero_like\<close> is zero, \<open>add_scaled\<close> and \<open>add\<close> are additions, \<open>multiply\<close> is the product.
\<close>

unbundle bit_operations_syntax

definition MAX_COMPACT_STRIDE_TERMS :: nat where "MAX_COMPACT_STRIDE_TERMS = 2 ^ 28"
definition FAST_HIGH_ROWS_MIN :: nat where "FAST_HIGH_ROWS_MIN = 8"
definition PARALLEL_HIGH_ROWS_MIN :: nat where "PARALLEL_HIGH_ROWS_MIN = 2 ^ 12"

subsection \<open>Weight sources\<close>

text \<open>\<open>with_weight(i, f)\<close> applies \<open>f\<close> to \<open>ws_get i\<close>.\<close>

record 'e weight_source =
  ws_len :: nat
  ws_get :: "nat \<Rightarrow> 'e option"

definition slice_source :: "'e list \<Rightarrow> 'e weight_source" where
  "slice_source xs = \<lparr>ws_len = length xs, ws_get = get_index xs\<rparr>"

definition affine_weight_product :: "'e::field list \<Rightarrow> 'e list \<Rightarrow> 'e weight_source result" where
  "affine_weight_product outr inner =
     bindE (ok_or (checked_mul (length outr) (length inner)) (InvalidInput ''affine weight product overflow''))
       (\<lambda>len. Inr \<lparr>ws_len = len,
          ws_get = (\<lambda>index. if inner = [] then None
                      else Option.bind (get_index outr (index div length inner)) (\<lambda>x.
                             map_option (\<lambda>y. x * y) (get_index inner (index mod length inner))))\<rparr>)"

subsection \<open>The bit-aligned specialisation\<close>

definition aligned_digit ::
  "'e::field list \<Rightarrow> nat \<Rightarrow> nat \<Rightarrow> nat \<Rightarrow> 'e \<times> 'e \<Rightarrow> nat \<times> 'e \<Rightarrow> ('e \<times> 'e) result" where
  "aligned_digit low_challenges base_low outer_stride digit_stride = (\<lambda>(e0, e1) (digit, digit_weight).
     bindE (ok_or (Option.bind (checked_mul digit digit_stride) (checked_add base_low))
              (InvalidInput ''affine digit offset overflow'')) (\<lambda>shifted.
       let carry = shifted div outer_stride; low_index = shifted AND (outer_stride - 1);
           amount = digit_weight * eq_eval_at_index low_challenges low_index in
       if carry = 0 then Inr (e0 + amount, e1)
       else if carry = 1 then Inr (e0, e1 + amount)
       else Inl (InvalidInput ''affine aligned digit carry exceeds one'')))"

definition aligned_digits ::
  "'e::field list \<Rightarrow> nat \<Rightarrow> nat \<Rightarrow> nat \<Rightarrow> 'e list \<Rightarrow> ('e \<times> 'e) result" where
  "aligned_digits low_challenges base_low outer_stride digit_stride digit_weights =
     try_fold (aligned_digit low_challenges base_low outer_stride digit_stride) (0, 0) (enumerate 0 digit_weights)"

definition aligned_outer ::
  "'e::field offset_eq_window \<Rightarrow> 'e weight_source \<Rightarrow> nat \<Rightarrow> nat \<Rightarrow> nat \<Rightarrow> nat \<Rightarrow> 'e result" where
  "aligned_outer high_window high_weights base_high carry outer_start outer_end =
     try_fold (\<lambda>acc outr.
         bindE (ok_or (Option.bind (checked_add base_high carry) (\<lambda>base. checked_add base (outr - outer_start)))
                  (InvalidInput ''affine high address overflow'')) (\<lambda>high_index.
           let eq_high = window_eval high_window high_index in
           if eq_high \<noteq> 0
           then bindE (ok_or (ws_get high_weights outr) (InvalidInput ''affine high factor out of range''))
                  (\<lambda>weight. Inr (acc + weight * eq_high))
           else Inr acc))
       0 [outer_start..<outer_end]"

definition scaled_by :: "'e::field option \<Rightarrow> 'e \<Rightarrow> 'e" where
  "scaled_by scale x = (case scale of None \<Rightarrow> x | Some s \<Rightarrow> x * s)"

definition aligned_base ::
  "'e::field list \<Rightarrow> 'e offset_eq_window \<Rightarrow> 'e weight_source \<Rightarrow> nat \<Rightarrow> nat \<Rightarrow> nat \<Rightarrow> nat \<Rightarrow> 'e list \<Rightarrow> 'e list
    \<Rightarrow> 'e \<Rightarrow> nat \<times> nat \<Rightarrow> 'e result" where
  "aligned_base low_challenges high_window high_weights outer_start outer_end outer_stride digit_stride digit_weights
     base_scales out = (\<lambda>(base_index, base_offset).
     let low_mask = outer_stride - 1; base_low = base_offset AND low_mask;
         base_high = drop_bit (trailing_zeros outer_stride) base_offset in
     bindE (aligned_digits low_challenges base_low outer_stride digit_stride digit_weights) (\<lambda>(e0, e1).
       try_fold (\<lambda>out (carry, digit_evaluation).
           let digit_evaluation = scaled_by (get_index base_scales base_index) digit_evaluation in
           if digit_evaluation = 0 then Inr out
           else bindE (aligned_outer high_window high_weights base_high carry outer_start outer_end)
                  (\<lambda>outer_evaluation. Inr (out + outer_evaluation * digit_evaluation)))
         out [(0, e0), (1, e1)]))"

definition try_eval_bit_aligned_digit_intervals ::
  "bool \<Rightarrow> nat \<Rightarrow> 'e::field list \<Rightarrow> nat list \<Rightarrow> nat \<Rightarrow> nat \<Rightarrow> nat \<Rightarrow> nat \<Rightarrow> 'e list \<Rightarrow> 'e weight_source \<Rightarrow> 'e list
    \<Rightarrow> 'e list \<Rightarrow> 'e option result" where
  "try_eval_bit_aligned_digit_intervals parallel elem_size challenges base_offsets outer_start live_len outer_stride
     digit_stride digit_weights high_weights low_weights base_scales =
     (if low_weights \<noteq> [] \<or> \<not> is_power_of_two outer_stride then Inr None
      else let low_bits = trailing_zeros outer_stride in
      if length challenges < low_bits then Inr None
      else bindE (ok_or (Option.bind (checked_mul live_len 2) (\<lambda>rows. checked_add rows (length digit_weights)))
                    (InvalidInput ''affine aligned work overflow'')) (\<lambda>per_base.
        bindE (ok_or (checked_mul (length base_offsets) per_base) (InvalidInput ''affine aligned work overflow'')) (\<lambda>work.
        if MAX_COMPACT_STRIDE_TERMS < work then Inl (InvalidSize MAX_COMPACT_STRIDE_TERMS work)
        else bindE (window_new parallel elem_size (drop low_bits challenges)) (\<lambda>high_window.
          bindE (ok_or (ws_get high_weights outer_start) (InvalidInput ''affine high factor out of range'')) (\<lambda>_.
          bindE (ok_or (checked_add outer_start live_len) (InvalidInput ''affine outer window overflow'')) (\<lambda>outer_end.
          bindE (try_fold (aligned_base (take low_bits challenges) high_window high_weights outer_start outer_end
                             outer_stride digit_stride digit_weights base_scales) 0 (enumerate 0 base_offsets))
            (\<lambda>out. Inr (Some out))))))))"

subsection \<open>Low carry summaries\<close>

text \<open>The tables the code fills from the left, each entry from the one before.\<close>

definition running :: "(nat \<Rightarrow> 'a \<Rightarrow> 'a) \<Rightarrow> 'a \<Rightarrow> nat \<Rightarrow> 'a list" where
  "running f z n = foldl (\<lambda>xs k. xs @ [f k (last xs)]) [z] [0..<n]"

text \<open>\<open>get_mut(index)\<close> followed by an addition.\<close>

definition add_at :: "'e::field list \<Rightarrow> nat \<Rightarrow> 'e \<Rightarrow> 'e list result" where
  "add_at acc carry v =
     (if carry < length acc then Inr (acc[carry := acc ! carry + v])
      else Inl (InvalidInput ''affine carry out of range''))"

definition geometric_low ::
  "'e::field list \<Rightarrow> 'e list \<Rightarrow> 'e list \<Rightarrow> nat \<Rightarrow> nat \<Rightarrow> nat \<Rightarrow> nat \<Rightarrow> nat \<Rightarrow> 'e \<Rightarrow> 'e list \<Rightarrow> 'e list \<Rightarrow> nat \<Rightarrow> 'e list result" where
  "geometric_low rpow rinvpow pref address_low outer_stride low_len low_start delta d0 low_weights acc low =
     bindE (ok_or (get_index low_weights low) (InvalidInput ''affine low factor out of range'')) (\<lambda>low_factor.
     bindE (ok_or (Option.bind (checked_mul outer_stride (low - low_start)) (checked_add address_low))
              (InvalidInput ''affine low address overflow'')) (\<lambda>start.
       let carry = start div low_len; s = start AND (low_len - 1); count1 = min delta (low_len - s);
           seg = pref ! (s + count1) - pref ! s in
       bindE (add_at acc carry (low_factor * (d0 * rinvpow ! s * seg))) (\<lambda>acc'.
         if count1 < delta
         then bindE (ok_or (checked_add carry 1) (InvalidInput ''affine carry overflow''))
                (\<lambda>carry'. add_at acc' carry' (low_factor * (d0 * rpow ! count1 * pref ! (delta - count1))))
         else Inr acc')))"

definition build_geometric_low_summaries ::
  "'e::field list \<Rightarrow> nat \<Rightarrow> nat \<Rightarrow> nat \<Rightarrow> nat \<Rightarrow> nat \<Rightarrow> 'e list \<Rightarrow> 'e list \<Rightarrow> nat \<Rightarrow> 'e list option result" where
  "build_geometric_low_summaries eq_low address_low outer_stride low_len low_start low_end digit_weights low_weights
     carry_count =
     (let delta = length digit_weights in
      if delta = 0 \<or> low_len < delta \<or> length eq_low \<noteq> low_len \<or> saturating_mul (low_end - low_start) delta < low_len
      then Inr None
      else let d0 = digit_weights ! 0 in
      if d0 = 0 then Inr None
      else let r = (if 2 \<le> delta then digit_weights ! 1 * inverse d0 else 1) in
      if r = 0 then Inr None
      else let rpow = running (\<lambda>_ p. p * r) 1 low_len in
      if list_ex (\<lambda>(k, weight). weight \<noteq> d0 * rpow ! k) (enumerate 0 digit_weights) then Inr None
      else let rinvpow = running (\<lambda>_ p. p * inverse r) 1 (low_len - 1);
               pref = running (\<lambda>u p. p + rpow ! u * eq_low ! u) 0 low_len in
        bindE (try_fold (geometric_low rpow rinvpow pref address_low outer_stride low_len low_start delta d0 low_weights)
                 (replicate carry_count 0) [low_start..<low_end]) (\<lambda>acc. Inr (Some acc)))"

definition dense_digit ::
  "'e::field list \<Rightarrow> 'e list option \<Rightarrow> nat \<Rightarrow> nat \<Rightarrow> nat \<Rightarrow> nat \<Rightarrow> 'e \<Rightarrow> 'e list \<Rightarrow> nat \<times> 'e \<Rightarrow> 'e list result" where
  "dense_digit low_challenges eq_low_table address_low low_delta digit_stride low_len low_factor acc = (\<lambda>(digit, digit_weight).
     bindE (ok_or (checked_mul digit_stride digit) (InvalidInput ''affine digit offset overflow'')) (\<lambda>digit_offset.
     bindE (ok_or (Option.bind (checked_add address_low low_delta) (\<lambda>v. checked_add v digit_offset))
              (InvalidInput ''affine low address overflow'')) (\<lambda>shifted.
       let carry = shifted div low_len; low_index = shifted AND (low_len - 1) in
       bindE (case eq_low_table of
                Some table \<Rightarrow> ok_or (get_index table low_index) (InvalidInput ''affine low index out of range'')
              | None \<Rightarrow> Inr (eq_eval_at_index low_challenges low_index))
         (\<lambda>eq_low. add_at acc carry (low_factor * (digit_weight * eq_low))))))"

definition dense_low ::
  "'e::field list \<Rightarrow> 'e list option \<Rightarrow> nat \<Rightarrow> nat \<Rightarrow> nat \<Rightarrow> nat \<Rightarrow> nat \<Rightarrow> 'e list \<Rightarrow> 'e list \<Rightarrow> 'e list \<Rightarrow> nat \<Rightarrow> 'e list result" where
  "dense_low low_challenges eq_low_table address_low outer_stride digit_stride low_len low_start digit_weights low_weights
     acc low =
     bindE (ok_or (get_index low_weights low) (InvalidInput ''affine low factor out of range'')) (\<lambda>low_factor.
     bindE (ok_or (checked_mul outer_stride (low - low_start)) (InvalidInput ''affine low address overflow'')) (\<lambda>low_delta.
       try_fold (dense_digit low_challenges eq_low_table address_low low_delta digit_stride low_len low_factor)
         acc (enumerate 0 digit_weights)))"

definition build_affine_low_summaries ::
  "'e::field list \<Rightarrow> 'e list option \<Rightarrow> nat \<Rightarrow> nat \<Rightarrow> nat \<Rightarrow> nat \<Rightarrow> nat \<Rightarrow> nat \<Rightarrow> 'e list \<Rightarrow> 'e list \<Rightarrow> nat \<Rightarrow> 'e list result" where
  "build_affine_low_summaries low_challenges eq_low_table address_low outer_stride digit_stride low_len low_start low_end
     digit_weights low_weights carry_count =
     (if low_weights = []
      then if low_len \<noteq> 1 \<or> low_challenges \<noteq> [] \<or> address_low \<noteq> 0 \<or> low_start \<noteq> 0 \<or> low_end \<noteq> 1
        then Inl (InvalidInput ''affine identity low factor requires the unit low domain'')
        else try_fold (\<lambda>acc (digit, digit_weight).
               bindE (ok_or (checked_mul digit_stride digit) (InvalidInput ''affine digit offset overflow''))
                 (\<lambda>carry. add_at acc carry digit_weight))
             (replicate carry_count 0) (enumerate 0 digit_weights)
      else bindE (case eq_low_table of
              Some table \<Rightarrow>
                if digit_stride = 1
                then build_geometric_low_summaries table address_low outer_stride low_len low_start low_end digit_weights
                       low_weights carry_count
                else Inr None
            | None \<Rightarrow> Inr None)
        (\<lambda>geometric. case geometric of
              Some acc \<Rightarrow> Inr acc
            | None \<Rightarrow> try_fold (dense_low low_challenges eq_low_table address_low outer_stride digit_stride low_len low_start
                                 digit_weights low_weights) (replicate carry_count 0) [low_start..<low_end]))"

subsection \<open>The bucketed high contraction\<close>

record 'e affine_address =
  aa_first :: nat
  aa_scale :: "'e option"

definition bucketed_high_rows_plan :: "nat \<Rightarrow> nat \<Rightarrow> nat \<Rightarrow> nat option result" where
  "bucketed_high_rows_plan total_rows carry_count high_challenge_count =
     (if total_rows < FAST_HIGH_ROWS_MIN \<or> carry_count = 0 then Inr None
      else bindE (ok_or (checked_next_power_of_two carry_count) (InvalidInput ''affine bucket window overflow'')) (\<lambda>window.
        let window_bits = trailing_zeros window in
        if OFFSET_EQ_LOW_BITS_CAP < window_bits then Inr None
        else case checked_sub high_challenge_count window_bits of
          None \<Rightarrow> Inr None
        | Some split_bits \<Rightarrow>
            if 2 * OFFSET_EQ_HIGH_BITS_CAP < split_bits then Inr None
            else let split_low = split_bits div 2; split_high = split_bits - split_low in
              bindE (ok_or (Option.bind (pow2 split_low) (\<lambda>low. Option.bind (pow2 split_high) (checked_add low)))
                       (InvalidInput ''affine split table work overflow'')) (\<lambda>split_entries.
              bindE (ok_or (checked_mul total_rows carry_count) (InvalidInput ''affine fallback work overflow'')) (\<lambda>fallback_work.
              bindE (ok_or (Option.bind (Option.bind (Option.bind (checked_mul total_rows 2)
                                 (\<lambda>rows. Option.bind (checked_mul carry_count window) (checked_add rows)))
                               (\<lambda>work. Option.bind (checked_mul window 3) (checked_add work)))
                             (\<lambda>work. checked_add work split_entries))
                       (InvalidInput ''affine bucket work overflow'')) (\<lambda>bucket_work.
                if fallback_work \<le> bucket_work then Inr None
                else if MAX_COMPACT_STRIDE_TERMS < bucket_work then Inl (InvalidSize MAX_COMPACT_STRIDE_TERMS bucket_work)
                else Inr (Some window))))))"

definition eval_high :: "'e::field split_eq_evals \<Rightarrow> nat \<Rightarrow> nat \<Rightarrow> 'e result" where
  "eval_high split_high high_domain block = (if block < high_domain then split_eval_at split_high block else Inr 0)"

text \<open>One row of one family.  The bucket index is masked to the length of the buckets.\<close>

definition bucket_row ::
  "(nat \<Rightarrow> 'e::field result) \<Rightarrow> nat \<Rightarrow> nat \<Rightarrow> nat \<Rightarrow> 'e weight_source \<Rightarrow> nat \<Rightarrow> nat \<Rightarrow> 'e option
    \<Rightarrow> 'e list \<times> 'e list \<Rightarrow> nat \<Rightarrow> ('e list \<times> 'e list) result" where
  "bucket_row ev window window_bits outer_stride high_weights first_high h0 base_scale = (\<lambda>(bucket0, bucket1) row.
     bindE (ok_or (checked_add first_high row) (InvalidInput ''affine high index overflow'')) (\<lambda>high_index.
     bindE (ok_or (Option.bind (checked_mul outer_stride row) (checked_add h0)) (InvalidInput ''affine high address overflow''))
       (\<lambda>address_high.
       let low_pos = address_high AND (window - 1); block = drop_bit window_bits address_high in
       bindE (ev block) (\<lambda>eq_block0.
       bindE (ok_or (checked_add block 1) (InvalidInput ''affine high block overflow'')) (\<lambda>block1.
       bindE (ev block1) (\<lambda>eq_block1.
       bindE (ok_or (ws_get high_weights high_index) (InvalidInput ''affine high factor out of range'')) (\<lambda>high_factor.
         Inr (bucket0[low_pos := bucket0 ! low_pos + high_factor * scaled_by base_scale eq_block0],
              bucket1[low_pos := bucket1 ! low_pos + high_factor * scaled_by base_scale eq_block1])))))))) "

definition bucket_address ::
  "(nat \<Rightarrow> 'e::field result) \<Rightarrow> nat \<Rightarrow> nat \<Rightarrow> nat \<Rightarrow> nat \<Rightarrow> 'e weight_source \<Rightarrow> nat \<Rightarrow> nat
    \<Rightarrow> 'e list \<times> 'e list \<Rightarrow> 'e affine_address \<Rightarrow> ('e list \<times> 'e list) result" where
  "bucket_address ev window window_bits outer_stride low_bits high_weights first_high rows buckets address =
     try_fold (bucket_row ev window window_bits outer_stride high_weights first_high
                 (drop_bit low_bits (aa_first address)) (aa_scale address)) buckets [0..<rows]"

definition bucket_task ::
  "('b \<Rightarrow> 'e affine_address \<Rightarrow> 'b result) \<Rightarrow> 'e affine_address list \<Rightarrow> nat \<Rightarrow> 'b result \<Rightarrow> nat \<Rightarrow> 'b result" where
  "bucket_task step addresses addresses_per_task acc task =
     bindE acc (\<lambda>buckets.
     bindE (ok_or (checked_mul task addresses_per_task) (InvalidInput ''affine task range overflow'')) (\<lambda>start.
     bindE (ok_or (map_option (\<lambda>e. min e (length addresses)) (checked_add start addresses_per_task))
              (InvalidInput ''affine task range overflow'')) (\<lambda>end'.
       if start \<le> end' \<and> end' \<le> length addresses
       then try_fold step buckets (take (end' - start) (drop start addresses))
       else Inl (InvalidInput ''affine task range invalid''))))"

definition add_buckets ::
  "('e::field list \<times> 'e list) result \<Rightarrow> ('e list \<times> 'e list) result \<Rightarrow> ('e list \<times> 'e list) result" where
  "add_buckets lhs rhs = bindE lhs (\<lambda>(lhs0, lhs1). bindE rhs (\<lambda>(rhs0, rhs1). Inr (map2 (+) lhs0 rhs0, map2 (+) lhs1 rhs1)))"

text \<open>
  \<open>cfg_fold_reduce\<close>: the items are cut into consecutive pieces, each piece is folded from its own
  initial value and the results are reduced in order.  \<open>pieces\<close> is the cut the scheduler makes; a
  sequential build has one piece.
\<close>

definition fold_reduce :: "('a list \<Rightarrow> 'a list list) \<Rightarrow> 'b \<Rightarrow> ('b \<Rightarrow> 'a \<Rightarrow> 'b) \<Rightarrow> ('b \<Rightarrow> 'b \<Rightarrow> 'b) \<Rightarrow> 'a list \<Rightarrow> 'b" where
  "fold_reduce pieces z step reduce xs = foldl reduce z (map (foldl step z) (pieces xs))"

definition combine_carry ::
  "'e::field list \<Rightarrow> 'e list \<Rightarrow> 'e list \<Rightarrow> nat \<Rightarrow> nat \<Rightarrow> 'e" where
  "combine_carry eq_low_hi bucket0 bucket1 window carry =
     foldl (\<lambda>phi pos. let shifted = pos + carry in
         if shifted < window then phi + bucket0 ! pos * eq_low_hi ! shifted
         else phi + bucket1 ! pos * eq_low_hi ! (shifted - window)) 0 [0..<window]"

text \<open>The flag says whether the rows were handled; otherwise \<open>out\<close> is unchanged.\<close>

definition accumulate_high_rows_bucketed ::
  "bool \<Rightarrow> nat \<Rightarrow> (nat list \<Rightarrow> nat list list) \<Rightarrow> 'e::field \<Rightarrow> 'e list \<Rightarrow> 'e affine_address list \<Rightarrow> nat \<Rightarrow> nat
    \<Rightarrow> 'e weight_source \<Rightarrow> nat \<Rightarrow> nat \<Rightarrow> 'e list \<Rightarrow> ('e \<times> bool) result" where
  "accumulate_high_rows_bucketed parallel elem_size pieces out high_challenges addresses outer_stride low_bits high_weights
     first_high rows summaries =
     bindE (ok_or (checked_mul rows (length addresses)) (InvalidInput ''affine high row count overflow'')) (\<lambda>total_rows.
     bindE (bucketed_high_rows_plan total_rows (length summaries) (length high_challenges)) (\<lambda>plan. case plan of
       None \<Rightarrow> Inr (out, False)
     | Some window \<Rightarrow>
         if summaries = [] then Inl (InvalidInput ''affine summaries empty'')
         else let window_bits = trailing_zeros window;
                  low_hi = take window_bits high_challenges; high_hi = drop window_bits high_challenges in
           bindE (evals parallel elem_size low_hi) (\<lambda>eq_low_hi.
           bindE (split_new parallel elem_size high_hi) (\<lambda>split_high.
             let high_domain = (if usize_bits \<le> length high_hi then usize_max else 2 ^ length high_hi);
                 task_count = (if PARALLEL_HIGH_ROWS_MIN \<le> total_rows then length addresses else 1);
                 addresses_per_task = (length addresses + task_count - 1) div task_count in
             bindE (fold_reduce pieces (Inr (replicate window 0, replicate window 0))
                      (bucket_task (bucket_address (eval_high split_high high_domain) window window_bits outer_stride low_bits
                                      high_weights first_high rows) addresses addresses_per_task)
                      add_buckets [0..<task_count]) (\<lambda>(bucket0, bucket1).
               Inr (foldl (\<lambda>out (carry, summary). out + combine_carry eq_low_hi bucket0 bucket1 window carry * summary)
                      out (enumerate 0 summaries), True))))))"

subsection \<open>Rows of a residue group\<close>

definition carry_step ::
  "'e::field amortized_offset_eq \<Rightarrow> nat \<Rightarrow> 'e option \<Rightarrow> 'e \<Rightarrow> 'e \<Rightarrow> nat \<times> 'e \<Rightarrow> 'e result" where
  "carry_step high_equality address_high base_scale high_factor out = (\<lambda>(carry, summary).
     bindE (ok_or (checked_add address_high carry) (InvalidInput ''affine high address overflow'')) (\<lambda>index.
       let eq_high = amortized_eval high_equality index in
       if eq_high \<noteq> 0 then Inr (out + high_factor * summary * scaled_by base_scale eq_high) else Inr out))"

definition direct_row ::
  "'e::field amortized_offset_eq \<Rightarrow> nat \<Rightarrow> nat \<Rightarrow> nat \<Rightarrow> 'e weight_source \<Rightarrow> nat \<Rightarrow> 'e list \<Rightarrow> 'e affine_address
    \<Rightarrow> 'e \<Rightarrow> nat \<Rightarrow> 'e result" where
  "direct_row high_equality outer_stride low_len low_bits high_weights first_high summaries address out row =
     bindE (ok_or (checked_add first_high row) (InvalidInput ''affine high index overflow'')) (\<lambda>high_index.
     bindE (ok_or (Option.bind (Option.bind (checked_mul outer_stride low_len) (\<lambda>stride. checked_mul stride row))
                     (checked_add (aa_first address)))
              (InvalidInput ''affine high address overflow'')) (\<lambda>row_address.
     bindE (ok_or (ws_get high_weights high_index) (InvalidInput ''affine high factor out of range'')) (\<lambda>high_factor.
       try_fold (carry_step high_equality (drop_bit low_bits row_address) (aa_scale address) high_factor)
         out (enumerate 0 summaries))))"

definition accumulate_group ::
  "bool \<Rightarrow> nat \<Rightarrow> (nat list \<Rightarrow> nat list list) \<Rightarrow> 'e::field list \<Rightarrow> 'e list option \<Rightarrow> 'e list \<Rightarrow> nat \<Rightarrow> nat \<Rightarrow> 'e list
    \<Rightarrow> 'e weight_source \<Rightarrow> 'e list \<Rightarrow> nat \<Rightarrow> nat \<Rightarrow> nat \<Rightarrow> nat \<Rightarrow> nat
    \<Rightarrow> 'e \<times> 'e amortized_offset_eq \<Rightarrow> 'e affine_address list \<Rightarrow> ('e \<times> 'e amortized_offset_eq) result" where
  "accumulate_group parallel elem_size pieces low_challenges eq_low_table high_challenges outer_stride digit_stride
     digit_weights high_weights low_weights low_len first_high low_start low_end rows = (\<lambda>(out, high_equality) addresses.
     let address_low = aa_first (hd addresses) AND (low_len - 1) in
     bindE (ok_or (Option.bind (checked_sub low_end low_start) (\<lambda>span. checked_sub span 1))
              (InvalidInput ''affine low span is empty'')) (\<lambda>low_steps.
     bindE (ok_or (checked_sub (length digit_weights) 1) (InvalidInput ''affine digit span is empty'')) (\<lambda>digit_steps.
     bindE (ok_or (checked_mul outer_stride low_steps) (InvalidInput ''affine carry span overflow'')) (\<lambda>low_span.
     bindE (ok_or (Option.bind (checked_add address_low low_span)
                     (\<lambda>v. Option.bind (checked_mul digit_stride digit_steps) (checked_add v)))
              (InvalidInput ''affine carry span overflow'')) (\<lambda>max_carry_numerator.
     bindE (ok_or (Option.bind (checked_div max_carry_numerator low_len) (\<lambda>carry. checked_add carry 1))
              (InvalidInput ''affine carry count overflow'')) (\<lambda>carry_count.
     bindE (build_affine_low_summaries low_challenges eq_low_table address_low outer_stride digit_stride low_len low_start
              low_end digit_weights low_weights carry_count) (\<lambda>summaries.
     bindE (accumulate_high_rows_bucketed parallel elem_size pieces out high_challenges addresses outer_stride
              (length low_challenges) high_weights first_high rows summaries) (\<lambda>(out, handled).
       if handled then Inr (out, high_equality)
       else bindE (prepare_for_product parallel elem_size high_equality (length addresses) rows (length summaries))
         (\<lambda>high_equality.
            bindE (try_fold (\<lambda>out address. try_fold (direct_row high_equality outer_stride low_len (length low_challenges)
                               high_weights first_high summaries address) out [0..<rows]) out addresses)
              (\<lambda>out. Inr (out, high_equality))))))))))) "

text \<open>
  The addresses are sorted by their residue, so that \<open>partition_point\<close> is the longest prefix of equal
  residue.  \<open>sort_unstable_by_key\<close> leaves the order of equal residues open; the stable sort is one such
  order, and what a group adds does not depend on it.
\<close>

function residue_groups :: "('a \<Rightarrow> nat) \<Rightarrow> 'a list \<Rightarrow> 'a list list" where
  "residue_groups key [] = []"
| "residue_groups key (x # xs) =
     (x # takeWhile (\<lambda>y. key y = key x) xs) # residue_groups key (dropWhile (\<lambda>y. key y = key x) xs)"
  by pat_completeness auto
termination
  by (relation "measure (\<lambda>(_, xs). length xs)") (auto simp: length_dropWhile_le less_Suc_eq_le)

definition affine_addresses :: "nat list \<Rightarrow> 'e list \<Rightarrow> nat \<Rightarrow> 'e affine_address list result" where
  "affine_addresses base_offsets base_scales address_delta =
     collect_result (map (\<lambda>(base_index, base_offset).
       bindE (ok_or (checked_add base_offset address_delta) (InvalidInput ''affine row address overflow''))
         (\<lambda>first. Inr \<lparr>aa_first = first, aa_scale = get_index base_scales base_index\<rparr>)) (enumerate 0 base_offsets))"

definition accumulate_affine_rows ::
  "bool \<Rightarrow> nat \<Rightarrow> (nat list \<Rightarrow> nat list list) \<Rightarrow> 'e::field list \<Rightarrow> 'e list \<Rightarrow> nat list \<Rightarrow> nat \<Rightarrow> nat \<Rightarrow> nat \<Rightarrow> 'e list
    \<Rightarrow> 'e weight_source \<Rightarrow> 'e list \<Rightarrow> 'e list \<Rightarrow> 'e \<Rightarrow> nat \<Rightarrow> nat \<Rightarrow> nat \<Rightarrow> nat \<Rightarrow> 'e result" where
  "accumulate_affine_rows parallel elem_size pieces low_challenges high_challenges base_offsets outer_start outer_stride
     digit_stride digit_weights high_weights low_weights base_scales out first_high low_start low_end rows =
     (let low_len = max (length low_weights) 1 in
      bindE (ok_or (Option.bind (checked_mul first_high low_len) (\<lambda>base. checked_add base low_start))
               (InvalidInput ''affine row address overflow'')) (\<lambda>row_outer.
      bindE (ok_or (checked_sub row_outer outer_start) (InvalidInput ''affine row precedes outer window'')) (\<lambda>local_outer.
      bindE (ok_or (checked_mul outer_stride local_outer) (InvalidInput ''affine row address overflow'')) (\<lambda>address_delta.
      bindE (ok_or (ws_get high_weights first_high) (InvalidInput ''affine high factor out of range'')) (\<lambda>_.
      bindE (if low_weights = [] then Inr None
             else if length low_challenges \<le> OFFSET_EQ_LOW_BITS_CAP
             then bindE (evals parallel elem_size low_challenges) (\<lambda>table. Inr (Some table))
             else Inr None) (\<lambda>eq_low_table.
      bindE (affine_addresses base_offsets base_scales address_delta) (\<lambda>addresses.
        let residue = (\<lambda>address. aa_first address AND (low_len - 1));
            groups = (if length base_offsets = 1 then [addresses] else residue_groups residue (sort_key residue addresses)) in
        bindE (try_fold (accumulate_group parallel elem_size pieces low_challenges eq_low_table high_challenges outer_stride
                           digit_stride digit_weights high_weights low_weights low_len first_high low_start low_end rows)
                 (out, amortized_new high_challenges) groups)
          (\<lambda>(out, _). Inr out))))))))"

subsection \<open>The entry point\<close>

text \<open>The rows of the outer window: a partial first row, full rows, a partial last row.\<close>

record row_split =
  rs_prefix_span :: nat
  rs_full_start :: nat
  rs_full_rows :: nat
  rs_cursor :: nat
  rs_suffix_span :: nat

definition split_rows :: "nat \<Rightarrow> nat \<Rightarrow> nat \<Rightarrow> row_split result" where
  "split_rows low_len outer_start outer_end =
     bindE (if outer_start mod low_len = 0 then Inr outer_start
            else bindE (ok_or (checked_add outer_start (low_len - outer_start mod low_len))
                          (InvalidInput ''affine row boundary overflow'')) (\<lambda>boundary. Inr (min outer_end boundary)))
       (\<lambda>prefix_end.
         let suffix_start = outer_end - outer_end mod low_len;
             full_end = min (max suffix_start prefix_end) outer_end;
             full_rows = (full_end - prefix_end) div low_len in
         bindE (ok_or (Option.bind (checked_mul full_rows low_len) (checked_add prefix_end))
                  (InvalidInput ''affine full-row coverage overflow''))
           (\<lambda>cursor. Inr \<lparr>rs_prefix_span = prefix_end - outer_start, rs_full_start = prefix_end, rs_full_rows = full_rows,
                              rs_cursor = cursor, rs_suffix_span = outer_end - cursor\<rparr>))"

definition affine_work :: "nat \<Rightarrow> row_split \<Rightarrow> nat \<Rightarrow> nat \<Rightarrow> nat \<Rightarrow> nat result" where
  "affine_work low_len rs digit_count carry_count base_count =
     bindE (ok_or (Option.bind (checked_add (rs_prefix_span rs) (rs_suffix_span rs))
                     (\<lambda>span. checked_add span (if rs_full_rows rs = 0 then 0 else low_len)))
              (InvalidInput ''affine low work overflow'')) (\<lambda>summarized_low.
     bindE (ok_or (Option.bind (checked_add (if rs_prefix_span rs \<noteq> 0 then 1 else 0) (rs_full_rows rs))
                     (\<lambda>rows. checked_add rows (if rs_suffix_span rs \<noteq> 0 then 1 else 0)))
              (InvalidInput ''affine row work overflow'')) (\<lambda>row_count.
     bindE (ok_or (Option.bind (checked_mul digit_count summarized_low)
                     (\<lambda>low_work. Option.bind (checked_mul row_count carry_count) (checked_add low_work)))
              (InvalidInput ''affine work overflow'')) (\<lambda>work_per_family.
       ok_or (checked_mul work_per_family base_count) (InvalidInput ''affine family work overflow''))))"

definition check_address :: "nat \<Rightarrow> nat \<Rightarrow> unit \<Rightarrow> nat \<Rightarrow> unit result" where
  "check_address challenge_count address_span u base_offset =
     bindE (ok_or (checked_add base_offset address_span) (InvalidInput ''affine address overflow'')) (\<lambda>max_address.
       if challenge_count < usize_bits \<and> 2 ^ challenge_count \<le> max_address
       then Inl (InvalidSize (challenge_count + 1) challenge_count) else Inr ())"

text \<open>The general path, after the checks and the bit-aligned attempt.\<close>

definition eval_affine_general ::
  "bool \<Rightarrow> nat \<Rightarrow> (nat list \<Rightarrow> nat list list) \<Rightarrow> 'e::field list \<Rightarrow> nat list \<Rightarrow> nat \<Rightarrow> nat \<Rightarrow> nat \<Rightarrow> nat \<Rightarrow> nat \<Rightarrow> 'e list
    \<Rightarrow> 'e weight_source \<Rightarrow> 'e list \<Rightarrow> 'e list \<Rightarrow> 'e result" where
  "eval_affine_general parallel elem_size pieces challenges base_offsets outer_start outer_end carry_count outer_stride digit_stride
     digit_weights high_weights low_weights base_scales =
     (let low_len = max (length low_weights) 1; low_bits = trailing_zeros low_len in
      bindE (split_rows low_len outer_start outer_end) (\<lambda>rs.
      bindE (affine_work low_len rs (length digit_weights) carry_count (length base_offsets)) (\<lambda>work.
      if MAX_COMPACT_STRIDE_TERMS < work then Inl (InvalidSize MAX_COMPACT_STRIDE_TERMS work)
      else let rows = accumulate_affine_rows parallel elem_size pieces (take low_bits challenges) (drop low_bits challenges)
                        base_offsets outer_start outer_stride digit_stride digit_weights high_weights low_weights base_scales in
        bindE (if rs_prefix_span rs = 0 then Inr 0
               else rows 0 (outer_start div low_len) (outer_start mod low_len)
                      (outer_start mod low_len + rs_prefix_span rs) 1) (\<lambda>out.
        bindE (if rs_full_rows rs = 0 then Inr out
               else rows out (rs_full_start rs div low_len) 0 low_len (rs_full_rows rs)) (\<lambda>out.
          if rs_suffix_span rs = 0 then Inr out
          else rows out (rs_cursor rs div low_len) 0 (rs_suffix_span rs) 1)))))"

definition eval_affine_digit_intervals ::
  "bool \<Rightarrow> nat \<Rightarrow> (nat list \<Rightarrow> nat list list) \<Rightarrow> 'e::field list \<Rightarrow> nat list \<Rightarrow> nat \<Rightarrow> nat \<Rightarrow> nat \<Rightarrow> nat \<Rightarrow> 'e list
    \<Rightarrow> 'e weight_source \<Rightarrow> 'e list \<Rightarrow> 'e list \<Rightarrow> 'e result" where
  "eval_affine_digit_intervals parallel elem_size pieces challenges base_offsets outer_start live_len outer_stride digit_stride
     digit_weights high_weights low_weights base_scales =
     (if ws_get high_weights 0 = None \<and> low_weights = [] then Inl (InvalidInput ''affine factors must be non-empty'')
      else if live_len = 0 \<or> base_offsets = [] then Inr 0
      else if base_scales \<noteq> [] \<and> length base_scales \<noteq> length base_offsets
      then Inl (InvalidSize (length base_offsets) (length base_scales))
      else let low_len = max (length low_weights) 1 in
      bindE (ok_or (Option.bind (checked_sub (length digit_weights) 1) (\<lambda>count. checked_mul count digit_stride))
               (InvalidInput ''affine digit span overflow'')) (\<lambda>digit_span.
      if \<not> is_power_of_two low_len \<or> digit_weights = [] \<or> digit_stride = 0 \<or> outer_stride \<le> digit_span
      then Inl (InvalidInput ''affine digit geometry requires power-of-two low length and an outer stride covering every strided digit'')
      else let low_bits = trailing_zeros low_len in
      if length challenges < low_bits then Inl (InvalidSize low_bits (length challenges))
      else
      bindE (ok_or (checked_add outer_start live_len) (InvalidInput ''affine outer window overflow'')) (\<lambda>outer_end.
      bindE (ok_or (checked_mul (ws_len high_weights) low_len) (InvalidInput ''affine outer capacity overflow'')) (\<lambda>outer_capacity.
      if outer_capacity < outer_end then Inl (InvalidSize outer_capacity outer_end)
      else
      bindE (ok_or (checked_add outer_stride 1) (InvalidInput ''affine carry count overflow'')) (\<lambda>carry_count.
      bindE (ok_or (Option.bind (checked_mul outer_stride (live_len - 1)) (\<lambda>delta. checked_add delta digit_span))
               (InvalidInput ''affine address overflow'')) (\<lambda>address_span.
      bindE (try_fold (check_address (length challenges) address_span) () base_offsets) (\<lambda>_.
      bindE (try_eval_bit_aligned_digit_intervals parallel elem_size challenges base_offsets outer_start live_len outer_stride
               digit_stride digit_weights high_weights low_weights base_scales) (\<lambda>aligned. case aligned of
        Some v \<Rightarrow> Inr v
      | None \<Rightarrow> eval_affine_general parallel elem_size pieces challenges base_offsets outer_start outer_end carry_count outer_stride
                   digit_stride digit_weights high_weights low_weights base_scales))))))))"

end
