(* ===== verification/TensorPair.thy ===== *)
theory TensorPair
  imports AffineEval
begin

text \<open>
  \<^verbatim>\<open>akita-algebra/src/offset_eq/tensor_pair/\<close>: the axes and families of paired equality tensors with
  their normalisation (\<^verbatim>\<open>mod.rs\<close>), and the materialisation of the left weights against an equality
  window on the right (\<^verbatim>\<open>materialize.rs\<close>) on its three paths: disjoint unit intervals, one shared
  destination axis, and the visit of all coordinates.  \<open>reserve\<close> says whether the allocator grants a
  number of entries.
\<close>

unbundle bit_operations_syntax

subsection \<open>Axes and families\<close>

datatype 'e tensor_weights = UnitWeights | Dense "'e list" | BitProduct "('e \<times> 'e) list"

record 'e tensor_axis =
  ax_len :: nat
  ax_left :: nat
  ax_right :: nat
  ax_weights :: "'e tensor_weights"

definition axis_unit :: "nat \<Rightarrow> nat \<Rightarrow> nat \<Rightarrow> 'e tensor_axis" where
  "axis_unit len left_stride right_stride =
     \<lparr>ax_len = len, ax_left = left_stride, ax_right = right_stride, ax_weights = UnitWeights\<rparr>"

definition axis_dense :: "nat \<Rightarrow> nat \<Rightarrow> 'e list \<Rightarrow> 'e tensor_axis" where
  "axis_dense left_stride right_stride weights =
     \<lparr>ax_len = length weights, ax_left = left_stride, ax_right = right_stride, ax_weights = Dense weights\<rparr>"

definition axis_bit_product :: "nat \<Rightarrow> nat \<Rightarrow> ('e \<times> 'e) list \<Rightarrow> 'e tensor_axis result" where
  "axis_bit_product left_stride right_stride bit_factors =
     (if 2 ^ 32 \<le> length bit_factors then Inl (InvalidInput ''paired tensor bit-product arity overflow'')
      else bindE (ok_or (pow2 (length bit_factors)) (InvalidInput ''paired tensor bit-product length overflow''))
        (\<lambda>len. Inr \<lparr>ax_len = len, ax_left = left_stride, ax_right = right_stride, ax_weights = BitProduct bit_factors\<rparr>))"

definition coordinate_weight :: "'e::field tensor_axis \<Rightarrow> nat \<Rightarrow> 'e option" where
  "coordinate_weight axis coordinate =
     (if ax_len axis \<le> coordinate then None
      else case ax_weights axis of
        UnitWeights \<Rightarrow> Some 1
      | Dense weights \<Rightarrow> get_index weights coordinate
      | BitProduct factors \<Rightarrow> Some (foldl (\<lambda>weight (b, f0, f1).
            weight * (if drop_bit b coordinate AND 1 = 0 then f0 else f1)) 1 (enumerate 0 factors)))"

definition supports_bit_recurrence :: "'e tensor_axis \<Rightarrow> bool" where
  "supports_bit_recurrence axis \<longleftrightarrow>
     (case ax_weights axis of Dense _ \<Rightarrow> False | _ \<Rightarrow> True) \<and> is_power_of_two (ax_len axis)"

definition axis_bit_factors :: "'e::field tensor_axis \<Rightarrow> nat \<Rightarrow> ('e \<times> 'e) option" where
  "axis_bit_factors axis b =
     (case ax_weights axis of
        UnitWeights \<Rightarrow> if b < trailing_zeros (ax_len axis) then Some (1, 1) else None
      | BitProduct factors \<Rightarrow> get_index factors b
      | Dense _ \<Rightarrow> None)"

record 'e tensor_family =
  tf_left :: nat
  tf_right :: nat
  tf_scalar :: 'e
  tf_axes :: "'e tensor_axis list"

definition checked_axis_offset :: "nat \<Rightarrow> nat \<Rightarrow> nat \<Rightarrow> string \<Rightarrow> nat result" where
  "checked_axis_offset base stride coordinate side =
     ok_or (mul_add stride coordinate base) (InvalidInput (''paired tensor '' @ side @ '' address overflow''))"

definition charge_work :: "nat \<Rightarrow> nat \<Rightarrow> nat result" where
  "charge_work work additional =
     bindE (ok_or (checked_add work additional) (InvalidInput ''paired tensor work overflow''))
       (\<lambda>work. if MAX_COMPACT_STRIDE_TERMS < work then Inl (InvalidSize MAX_COMPACT_STRIDE_TERMS work) else Inr work)"

definition check_axis_weights :: "'e tensor_axis \<Rightarrow> unit result" where
  "check_axis_weights axis =
     (case ax_weights axis of
        UnitWeights \<Rightarrow> Inr ()
      | Dense weights \<Rightarrow> if length weights = ax_len axis then Inr ()
          else Inl (InvalidInput ''paired tensor axis weight length mismatch'')
      | BitProduct factors \<Rightarrow> if pow2 (length factors) = Some (ax_len axis) then Inr ()
          else Inl (InvalidInput ''paired tensor bit-product length mismatch''))"

definition unit_axis :: "'e tensor_axis \<Rightarrow> bool" where
  "unit_axis axis \<longleftrightarrow> (case ax_weights axis of UnitWeights \<Rightarrow> True | _ \<Rightarrow> False)"

definition mergeable :: "'e tensor_axis \<Rightarrow> 'e tensor_axis \<Rightarrow> bool" where
  "mergeable inner axis \<longleftrightarrow> unit_axis inner \<and> unit_axis axis
     \<and> checked_mul (ax_left inner) (ax_len inner) = Some (ax_left axis)
     \<and> checked_mul (ax_right inner) (ax_len inner) = Some (ax_right axis)"

fun normalize_axes ::
  "nat \<Rightarrow> nat \<Rightarrow> 'e::field \<Rightarrow> 'e tensor_axis list \<Rightarrow> 'e tensor_axis list \<Rightarrow> 'e tensor_family result" where
  "normalize_axes left_offset right_offset scalar normalized [] =
     Inr \<lparr>tf_left = left_offset, tf_right = right_offset, tf_scalar = scalar, tf_axes = normalized\<rparr>"
| "normalize_axes left_offset right_offset scalar normalized (axis # axes) =
     bindE (check_axis_weights axis) (\<lambda>_.
     if ax_len axis = 0 then Inl (InvalidInput ''paired tensor axes must be non-empty'')
     else
     bindE (checked_axis_offset 0 (ax_left axis) (ax_len axis - 1) ''left'') (\<lambda>_.
     bindE (checked_axis_offset 0 (ax_right axis) (ax_len axis - 1) ''right'') (\<lambda>_.
     if ax_len axis = 1
     then if unit_axis axis then normalize_axes left_offset right_offset scalar normalized axes
       else bindE (ok_or (coordinate_weight axis 0) InvalidProof) (\<lambda>weight.
         if weight = 0
         then Inr \<lparr>tf_left = left_offset, tf_right = right_offset, tf_scalar = 0, tf_axes = []\<rparr>
         else normalize_axes left_offset right_offset (if weight \<noteq> 1 then scalar * weight else scalar) normalized axes)
     else if normalized \<noteq> [] \<and> mergeable (last normalized) axis
     then bindE (ok_or (checked_mul (ax_len (last normalized)) (ax_len axis))
                   (InvalidInput ''paired tensor merged length overflow''))
       (\<lambda>len. normalize_axes left_offset right_offset scalar (butlast normalized @ [(last normalized)\<lparr>ax_len := len\<rparr>]) axes)
     else normalize_axes left_offset right_offset scalar (normalized @ [axis]) axes)))"

definition family_new :: "nat \<Rightarrow> nat \<Rightarrow> 'e::field \<Rightarrow> 'e tensor_axis list \<Rightarrow> 'e tensor_family result" where
  "family_new left_offset right_offset scalar axes = normalize_axes left_offset right_offset scalar [] axes"

subsection \<open>Visiting all coordinates\<close>

definition next_weight :: "'e::field \<Rightarrow> 'e \<Rightarrow> 'e" where
  "next_weight weight axis_weight =
     (if axis_weight = 1 then weight else if weight = 1 then axis_weight else weight * axis_weight)"

text \<open>\<open>visit\<close> acts on a state of its own; \<open>axes\<close> are the axes from \<open>axis_index\<close> on.\<close>

fun visit_tensor_coordinates ::
  "('s \<Rightarrow> nat \<Rightarrow> nat \<Rightarrow> 'e::field \<Rightarrow> 's result) \<Rightarrow> 'e tensor_axis list \<Rightarrow> nat \<Rightarrow> nat \<Rightarrow> 'e \<Rightarrow> nat \<times> 's \<Rightarrow> (nat \<times> 's) result" where
  "visit_tensor_coordinates visit [] left_offset right_offset weight (work, s) =
     (if weight = 0 then Inr (work, s)
      else bindE (charge_work work 1) (\<lambda>work. bindE (visit s left_offset right_offset weight) (\<lambda>s. Inr (work, s))))"
| "visit_tensor_coordinates visit (axis # axes) left_offset right_offset weight st =
     (if weight = 0 then Inr st
      else try_fold (\<lambda>st coordinate.
        bindE (ok_or (coordinate_weight axis coordinate) InvalidProof) (\<lambda>axis_weight.
        if axis_weight = 0 then Inr st
        else
        bindE (checked_axis_offset left_offset (ax_left axis) coordinate ''left'') (\<lambda>left.
        bindE (checked_axis_offset right_offset (ax_right axis) coordinate ''right'') (\<lambda>right.
          visit_tensor_coordinates visit axes left right (next_weight weight axis_weight) st))))
        st [0..<ax_len axis])"

definition add_equality :: "'e::field offset_eq_window \<Rightarrow> 'e list \<Rightarrow> nat \<Rightarrow> nat \<Rightarrow> 'e \<Rightarrow> 'e list result" where
  "add_equality equality output left right weight =
     (if left < length output
      then let eq = window_eval equality right in
        Inr (output[left := output ! left + (if weight = 1 then eq else weight * eq)])
      else Inl (InvalidInput ''paired tensor left address out of range''))"

text \<open>\<open>output[a..b]\<close> overwritten by \<open>fill_interval\<close>.\<close>

definition overwrite :: "'e list \<Rightarrow> nat \<Rightarrow> 'e list \<Rightarrow> 'e list" where
  "overwrite output a vs = take a output @ vs @ drop (a + length vs) output"

definition family_step ::
  "'e::field offset_eq_window \<Rightarrow> nat \<times> 'e list \<Rightarrow> 'e tensor_family \<Rightarrow> (nat \<times> 'e list) result" where
  "family_step equality = (\<lambda>(work, output) family.
     let visit = visit_tensor_coordinates (add_equality equality) (tf_axes family) (tf_left family) (tf_right family)
                   (tf_scalar family) (work, output) in
     if tf_scalar family = 1
     then case tf_axes family of
       [axis] \<Rightarrow>
         if unit_axis axis \<and> ax_left axis = 1 \<and> ax_right axis = 1
         then bindE (ok_or (checked_add (tf_left family) (ax_len axis)) (InvalidInput ''paired tensor left span overflow'')) (\<lambda>end'.
           if length output < end' then Inl (InvalidInput ''paired tensor left address out of range'')
           else if list_all (\<lambda>v. v = 0) (take (ax_len axis) (drop (tf_left family) output))
           then bindE (charge_work work (ax_len axis)) (\<lambda>work.
             bindE (fill_interval equality (tf_right family) (ax_len axis)) (\<lambda>vs.
               Inr (work, overwrite output (tf_left family) vs)))
           else visit)
         else visit
     | _ \<Rightarrow> visit
     else visit)"

subsection \<open>Disjoint unit intervals\<close>

type_synonym interval = "nat \<times> nat \<times> nat"

text \<open>The intervals of the families, or \<open>None\<close> when a family has another shape.\<close>

fun collect_intervals :: "nat \<Rightarrow> nat \<Rightarrow> 'e::field tensor_family list \<Rightarrow> interval list \<Rightarrow> interval list option result" where
  "collect_intervals output_len work [] intervals = Inr (Some intervals)"
| "collect_intervals output_len work (family # families) intervals =
     (if tf_scalar family = 0 then collect_intervals output_len work families intervals
      else case tf_axes family of
        [axis] \<Rightarrow>
          if tf_scalar family \<noteq> 1 \<or> \<not> unit_axis axis \<or> ax_left axis \<noteq> 1 \<or> ax_right axis \<noteq> 1 then Inr None
          else bindE (ok_or (checked_add (tf_left family) (ax_len axis)) (InvalidInput ''paired tensor left span overflow''))
            (\<lambda>left_end.
              if output_len < left_end then Inl (InvalidInput ''paired tensor left address out of range'')
              else bindE (charge_work work (ax_len axis)) (\<lambda>work.
                collect_intervals output_len work families (intervals @ [(tf_left family, left_end, tf_right family)])))
      | _ \<Rightarrow> Inr None)"

text \<open>
  The compaction of the sorted intervals in place; the entry last written is the head of the second
  list.  The read position never falls behind the write position.  Among intervals with the same start
  the unstable sort may choose any order; the model keeps the order of the families.
\<close>

fun merge_intervals :: "interval list \<Rightarrow> interval list \<Rightarrow> interval list option result" where
  "merge_intervals [] merged = Inr (Some (rev merged))"
| "merge_intervals ((left_start, left_end, right_start) # intervals) [] =
     merge_intervals intervals [(left_start, left_end, right_start)]"
| "merge_intervals ((left_start, left_end, right_start) # intervals) ((prev_start, prev_end, prev_right) # merged) =
     (if left_start < prev_end then Inr None
      else bindE (ok_or (checked_sub prev_end prev_start) InvalidProof) (\<lambda>prev_len.
        bindE (ok_or (checked_add prev_right prev_len) (InvalidInput ''paired tensor right span overflow'')) (\<lambda>prev_right_end.
          if left_start = prev_end \<and> right_start = prev_right_end
          then merge_intervals intervals ((prev_start, left_end, prev_right) # merged)
          else merge_intervals intervals ((left_start, left_end, right_start) # (prev_start, prev_end, prev_right) # merged))))"

definition fill_one :: "'e::field offset_eq_window \<Rightarrow> 'e list \<Rightarrow> interval \<Rightarrow> 'e list result" where
  "fill_one equality output = (\<lambda>(left_start, left_end, right_start).
     if left_start \<le> left_end \<and> left_end \<le> length output
     then bindE (fill_interval equality right_start (left_end - left_start)) (\<lambda>vs. Inr (overwrite output left_start vs))
     else Inl InvalidProof)"

definition materialize_disjoint_unit_intervals ::
  "(nat \<Rightarrow> bool) \<Rightarrow> 'e::field offset_eq_window \<Rightarrow> 'e tensor_family list \<Rightarrow> nat \<Rightarrow> 'e list option result" where
  "materialize_disjoint_unit_intervals reserve equality families output_len =
     (if \<not> reserve (length families) then Inl (InvalidInput ''paired tensor interval allocation failed'')
      else bindE (collect_intervals output_len 0 families []) (\<lambda>collected. case collected of
        None \<Rightarrow> Inr None
      | Some intervals \<Rightarrow>
          bindE (merge_intervals (sort_key fst intervals) []) (\<lambda>merged. case merged of
            None \<Rightarrow> Inr None
          | Some intervals \<Rightarrow>
              bindE (try_fold (fill_one equality) (replicate output_len 0) intervals) (\<lambda>output. Inr (Some output)))))"

subsection \<open>One shared destination axis\<close>

fun destination_from :: "nat \<Rightarrow> 'e tensor_axis list \<Rightarrow> nat option \<Rightarrow> nat option" where
  "destination_from index [] destination = destination"
| "destination_from index (axis # axes) destination =
     (if ax_left axis = 1 \<and> unit_axis axis
      then if destination \<noteq> None then None else destination_from (index + 1) axes (Some index)
      else if ax_left axis \<noteq> 0 then None
      else destination_from (index + 1) axes destination)"

definition dense_left_destination_axis :: "'e tensor_family \<Rightarrow> nat option" where
  "dense_left_destination_axis family = destination_from 0 (tf_axes family) None"

fun contract_residual_tensor_axes ::
  "'e::field offset_eq_window \<Rightarrow> nat \<Rightarrow> nat \<Rightarrow> 'e tensor_axis list \<Rightarrow> nat \<Rightarrow> 'e \<Rightarrow> 'e result" where
  "contract_residual_tensor_axes equality destination_axis axis_index [] right_offset weight =
     (if weight = 0 then Inr 0
      else let eq = window_eval equality right_offset in Inr (if weight = 1 then eq else weight * eq))"
| "contract_residual_tensor_axes equality destination_axis axis_index (axis # axes) right_offset weight =
     (if weight = 0 then Inr 0
      else if axis_index = destination_axis
      then contract_residual_tensor_axes equality destination_axis (axis_index + 1) axes right_offset weight
      else try_fold (\<lambda>acc coordinate.
        bindE (ok_or (coordinate_weight axis coordinate) InvalidProof) (\<lambda>axis_weight.
        if axis_weight = 0 then Inr acc
        else
        bindE (checked_axis_offset right_offset (ax_right axis) coordinate ''right'') (\<lambda>right.
        bindE (contract_residual_tensor_axes equality destination_axis (axis_index + 1) axes right
                 (next_weight weight axis_weight)) (\<lambda>v. Inr (acc + v)))))
        0 [0..<ax_len axis])"

definition residual_coordinates :: "'e tensor_family \<Rightarrow> nat \<Rightarrow> nat result" where
  "residual_coordinates family destination_axis =
     try_fold (\<lambda>product (index, axis).
         if index = destination_axis then Inr product
         else ok_or (checked_mul product (ax_len axis)) (InvalidInput ''paired tensor coordinate count overflow''))
       1 (enumerate 0 (tf_axes family))"

text \<open>The destination axes of the families, with the number of residual coordinates so far.\<close>

fun dense_left_views ::
  "nat \<Rightarrow> nat \<Rightarrow> 'e tensor_family list \<Rightarrow> nat \<Rightarrow> (nat \<times> ('e tensor_family \<times> nat) list) option result" where
  "dense_left_views destination_start destination_len [] residual = Inr (Some (residual, []))"
| "dense_left_views destination_start destination_len (family # families) residual =
     (case dense_left_destination_axis family of
        None \<Rightarrow> Inr None
      | Some destination_axis \<Rightarrow>
          bindE (ok_or (get_index (tf_axes family) destination_axis) InvalidProof) (\<lambda>axis.
          if tf_left family \<noteq> destination_start \<or> ax_len axis \<noteq> destination_len then Inr None
          else bindE (residual_coordinates family destination_axis) (\<lambda>family_residual.
            bindE (ok_or (checked_add residual family_residual) (InvalidInput ''paired tensor coordinate count overflow'')) (\<lambda>residual.
            bindE (dense_left_views destination_start destination_len families residual) (\<lambda>views. case views of
              None \<Rightarrow> Inr None
            | Some (residual, views) \<Rightarrow> Inr (Some (residual, (family, destination_axis) # views)))))))"

definition evaluate_coordinate ::
  "'e::field offset_eq_window \<Rightarrow> ('e tensor_family \<times> nat) list \<Rightarrow> nat \<Rightarrow> 'e result" where
  "evaluate_coordinate equality views coordinate =
     try_fold (\<lambda>acc (family, destination_axis).
       bindE (ok_or (get_index (tf_axes family) destination_axis) InvalidProof) (\<lambda>axis.
       bindE (checked_axis_offset (tf_right family) (ax_right axis) coordinate ''right'') (\<lambda>right_offset.
       bindE (contract_residual_tensor_axes equality destination_axis 0 (tf_axes family) right_offset (tf_scalar family))
         (\<lambda>v. Inr (acc + v))))) 0 views"

text \<open>The coordinates of the destination are independent, so that the parallel loop is the loop in order.\<close>

definition materialize_dense_left_overlap ::
  "'e::field offset_eq_window \<Rightarrow> 'e tensor_family list \<Rightarrow> nat \<Rightarrow> 'e list option result" where
  "materialize_dense_left_overlap equality families output_len =
     (case families of
        [] \<Rightarrow> Inr (Some (replicate output_len 0))
      | first # _ \<Rightarrow>
          (case dense_left_destination_axis first of
             None \<Rightarrow> Inr None
           | Some first_destination_axis \<Rightarrow>
               bindE (ok_or (get_index (tf_axes first) first_destination_axis) InvalidProof) (\<lambda>first_axis.
               bindE (ok_or (checked_add (tf_left first) (ax_len first_axis)) (InvalidInput ''paired tensor left span overflow''))
                 (\<lambda>destination_end.
               if output_len < destination_end then Inl (InvalidInput ''paired tensor left address out of range'')
               else bindE (dense_left_views (tf_left first) (ax_len first_axis) families 0) (\<lambda>found. case found of
                 None \<Rightarrow> Inr None
               | Some (residual, views) \<Rightarrow>
                   bindE (ok_or (checked_mul (ax_len first_axis) residual) (InvalidInput ''paired tensor work overflow'')) (\<lambda>work.
                   if MAX_COMPACT_STRIDE_TERMS < work then Inl (InvalidSize MAX_COMPACT_STRIDE_TERMS work)
                   else bindE (collect_result (map (evaluate_coordinate equality views) [0..<ax_len first_axis])) (\<lambda>vs.
                     Inr (Some (overwrite (replicate output_len 0) (tf_left first) vs)))))))))"

definition materialize_eq_tensor_left ::
  "(nat \<Rightarrow> bool) \<Rightarrow> 'e::field offset_eq_window \<Rightarrow> 'e tensor_family list \<Rightarrow> nat \<Rightarrow> 'e list result" where
  "materialize_eq_tensor_left reserve equality families output_len =
     bindE (materialize_disjoint_unit_intervals reserve equality families output_len) (\<lambda>disjoint. case disjoint of
       Some output \<Rightarrow> Inr output
     | None \<Rightarrow> bindE (materialize_dense_left_overlap equality families output_len) (\<lambda>dense. case dense of
         Some output \<Rightarrow> Inr output
       | None \<Rightarrow> bindE (try_fold (family_step equality) (0, replicate output_len 0) families) (\<lambda>(_, output). Inr output)))"

end
