(* ===== verification/AffineLow.thy ===== *)
theory AffineLow
  imports AffineEval
begin

text \<open>
  The evaluator of affine digit intervals, first half of its correctness: the reference sum, the
  bit-aligned path, and the low carry summaries, whose geometric shortcut, dense loop and identity case
  all stand for the same functional of the carry.
\<close>

unbundle bit_operations_syntax

subsection \<open>Accumulating steps\<close>

text \<open>
  Every loop of the evaluator adds a known amount to what its accumulator stands for.  \<open>reads s g\<close> is
  the value of the accumulator \<open>s\<close> against the test function \<open>g\<close>, \<open>ok\<close> its shape.
\<close>

definition adds :: "('s \<Rightarrow> bool) \<Rightarrow> ('s \<Rightarrow> 'g \<Rightarrow> 'e::comm_monoid_add) \<Rightarrow> ('s \<Rightarrow> 's result) \<Rightarrow> ('g \<Rightarrow> 'e) \<Rightarrow> bool" where
  "adds ok reads step amount \<longleftrightarrow>
     (\<forall>s. ok s \<longrightarrow> (\<exists>s'. step s = Inr s' \<and> ok s' \<and> (\<forall>g. reads s' g = reads s g + amount g)))"

lemma addsI:
  "(\<And>s. ok s \<Longrightarrow> \<exists>s'. step s = Inr s' \<and> ok s' \<and> (\<forall>g. reads s' g = reads s g + amount g)) \<Longrightarrow> adds ok reads step amount"
  by (simp add: adds_def)

lemma addsE:
  assumes "adds ok reads step amount" and "ok s"
  obtains s' where "step s = Inr s'" "ok s'" "\<And>g. reads s' g = reads s g + amount g"
  using assms by (auto simp: adds_def)

lemma adds_skip: "adds ok reads Inr (\<lambda>_. 0)"
  by (rule addsI) simp

lemma adds_bind:
  assumes "adds ok reads f t" and "adds ok reads f' t'"
  shows "adds ok reads (\<lambda>s. bindE (f s) f') (\<lambda>g. t g + t' g)"
proof (rule addsI)
  fix s assume "ok s"
  then obtain s1 where s1: "f s = Inr s1" "ok s1" "\<And>g. reads s1 g = reads s g + t g" by (rule addsE [OF assms(1)]) blast
  obtain s2 where "f' s1 = Inr s2" "ok s2" "\<And>g. reads s2 g = reads s1 g + t' g" by (rule addsE [OF assms(2) s1(2)]) blast
  with s1 show "\<exists>s'. bindE (f s) f' = Inr s' \<and> ok s' \<and> (\<forall>g. reads s' g = reads s g + (t g + t' g))"
    by (simp add: add.assoc)
qed

lemma adds_try_fold:
  assumes "\<And>x. x \<in> set xs \<Longrightarrow> adds ok reads (\<lambda>s. f s x) (t x)"
  shows "adds ok reads (\<lambda>s. try_fold f s xs) (\<lambda>g. \<Sum>x\<leftarrow>xs. t x g)"
  using assms
proof (induction xs)
  case (Cons x xs)
  have "adds ok reads (\<lambda>s. bindE (f s x) (\<lambda>s. try_fold f s xs)) (\<lambda>g. t x g + (\<Sum>x\<leftarrow>xs. t x g))"
    by (rule adds_bind) (use Cons in simp_all)
  then show ?case by simp
qed (simp add: adds_skip)

lemma adds_run:
  assumes "\<And>x. x \<in> set xs \<Longrightarrow> adds ok reads (\<lambda>s. f s x) (t x)" and "ok s"
  shows "\<exists>s'. try_fold f s xs = Inr s' \<and> ok s' \<and> (\<forall>g. reads s' g = reads s g + (\<Sum>x\<leftarrow>xs. t x g))"
proof -
  have "adds ok reads (\<lambda>s. try_fold f s xs) (\<lambda>g. \<Sum>x\<leftarrow>xs. t x g)" using assms(1) by (rule adds_try_fold)
  with assms(2) show ?thesis by (simp add: adds_def)
qed

lemma adds_cong:
  assumes "adds ok reads f t" and "\<And>s. ok s \<Longrightarrow> f' s = f s" and "\<And>g. t g = t' g"
  shows "adds ok reads f' t'"
  using assms by (auto simp: adds_def)

text \<open>Plain accumulators, and lists read against a function on their positions.\<close>

definition plain :: "'e \<Rightarrow> unit \<Rightarrow> 'e" where "plain s g = s"

definition weighted :: "'e::field list \<Rightarrow> (nat \<Rightarrow> 'e) \<Rightarrow> 'e" where
  "weighted xs g = (\<Sum>i < length xs. xs ! i * g i)"

abbreviation adds_plain :: "('e::field \<Rightarrow> 'e result) \<Rightarrow> 'e \<Rightarrow> bool" where
  "adds_plain step amount \<equiv> adds (\<lambda>_. True) plain step (\<lambda>_. amount)"

lemma adds_plain_iff: "adds_plain step amount \<longleftrightarrow> (\<forall>s. step s = Inr (s + amount))"
  by (simp add: adds_def plain_def)

lemma weighted_replicate [simp]: "weighted (replicate n 0) g = 0"
  by (simp add: weighted_def)

lemma weighted_update:
  assumes "i < length xs"
  shows "weighted (xs[i := xs ! i + v]) g = weighted xs g + v * g i"
proof -
  have "weighted (xs[i := xs ! i + v]) g = (\<Sum>j < length xs. xs ! j * g j + (if j = i then v * g i else 0))"
    unfolding weighted_def length_list_update by (rule sum.cong) (auto simp: nth_list_update algebra_simps)
  also have "\<dots> = weighted xs g + v * g i" using assms by (simp add: sum.distrib weighted_def)
  finally show ?thesis .
qed

lemma adds_add_at:
  "carry < n \<Longrightarrow> adds (\<lambda>acc. length acc = n) weighted (\<lambda>acc. add_at acc carry v) (\<lambda>g. v * g carry)"
  by (rule addsI) (simp add: add_at_def weighted_update)

lemma in_enumerate: "(k, x) \<in> set (enumerate 0 xs) \<longleftrightarrow> k < length xs \<and> x = xs ! k"
  by (auto simp: in_set_enumerate_eq)

lemma scaled_by_add: "scaled_by s (x + y) = scaled_by s x + scaled_by s y"
  by (cases s) (simp_all add: scaled_by_def distrib_right)

lemma scaled_by_mult: "scaled_by s (x * y) = x * scaled_by s y"
  by (cases s) (simp_all add: scaled_by_def)

lemma scaled_by_0 [simp]: "scaled_by s 0 = 0"
  by (cases s) (simp_all add: scaled_by_def)

lemma scaled_by_sum: "scaled_by s (sum f A) = (\<Sum>x\<in>A. scaled_by s (f x))"
  by (cases s) (simp_all add: scaled_by_def sum_distrib_right)

lemma sum_enumerate: "(\<Sum>x\<leftarrow>enumerate 0 xs. f (fst x) (snd x)) = (\<Sum>i < length xs. f i (xs ! i))"
  by (induction xs rule: rev_induct) (simp_all add: enumerate_append_eq nth_append)

lemma sum_upt: "(\<Sum>i\<leftarrow>[m..<n]. f i) = sum f {m..<n}"
  by (simp add: interv_sum_list_conv_sum_set_nat)

lemma try_fold_plain:
  fixes t :: "'a \<Rightarrow> 'e::field"
  assumes "\<And>x s. x \<in> set xs \<Longrightarrow> f s x = Inr (s + t x)"
  shows "try_fold f s xs = Inr (s + (\<Sum>x\<leftarrow>xs. t x))"
  using assms by (induction xs arbitrary: s) (simp_all add: add.assoc)

subsection \<open>The reference sum\<close>

text \<open>
  The documented value: the digits against the equality polynomial at the affine addresses of one
  outer index, weighted with the factored outer weights over the window, scaled and summed over the bases.
\<close>

definition affine_point :: "'e::field list \<Rightarrow> nat \<Rightarrow> nat \<Rightarrow> nat \<Rightarrow> 'e list \<Rightarrow> nat \<Rightarrow> nat \<Rightarrow> 'e" where
  "affine_point challenges outer_start outer_stride digit_stride digit_weights base i =
     (\<Sum>d < length digit_weights.
        digit_weights ! d * eq_at challenges (base + outer_stride * (i - outer_start) + digit_stride * d))"

definition outer_weight :: "'e::field weight_source \<Rightarrow> 'e list \<Rightarrow> nat \<Rightarrow> 'e" where
  "outer_weight high low i =
     (let q = max (length low) 1 in the (ws_get high (i div q)) * (if low = [] then 1 else low ! (i mod q)))"

definition affine_range ::
  "'e::field list \<Rightarrow> nat \<Rightarrow> nat \<Rightarrow> nat \<Rightarrow> 'e list \<Rightarrow> 'e weight_source \<Rightarrow> 'e list \<Rightarrow> nat set \<Rightarrow> nat \<Rightarrow> 'e" where
  "affine_range challenges outer_start outer_stride digit_stride digit_weights high low indices base =
     (\<Sum>i\<in>indices. outer_weight high low i
       * affine_point challenges outer_start outer_stride digit_stride digit_weights base i)"

definition affine_sum ::
  "'e::field list \<Rightarrow> nat list \<Rightarrow> nat \<Rightarrow> nat \<Rightarrow> nat \<Rightarrow> 'e list \<Rightarrow> 'e weight_source \<Rightarrow> 'e list \<Rightarrow> 'e list \<Rightarrow> nat set \<Rightarrow> 'e" where
  "affine_sum challenges base_offsets outer_start outer_stride digit_stride digit_weights high low base_scales indices =
     (\<Sum>k < length base_offsets. scaled_by (get_index base_scales k)
        (affine_range challenges outer_start outer_stride digit_stride digit_weights high low indices (base_offsets ! k)))"

subsection \<open>The bit-aligned path\<close>

definition source_total :: "'e weight_source \<Rightarrow> bool" where
  "source_total source \<longleftrightarrow> (\<forall>i < ws_len source. ws_get source i \<noteq> None)"

lemma source_get: "source_total source \<Longrightarrow> i < ws_len source \<Longrightarrow> ws_get source i = Some (the (ws_get source i))"
  by (auto simp: source_total_def)

lemma source_total_slice: "source_total (slice_source xs)"
  by (simp add: source_total_def slice_source_def get_index_def)

lemma source_total_product: "affine_weight_product outr inner = Inr s \<Longrightarrow> source_total s"
  by (auto simp: affine_weight_product_def source_total_def get_index_def checked_mul_def result_simps less_mult_imp_div_less
      split: if_splits)

lemma digit_bound: "d < length ws \<Longrightarrow> (ds::nat) * d \<le> (length ws - 1) * ds"
  unfolding mult.commute [of ds] by (rule mult_le_mono1) simp

lemma eq_at_split:
  assumes "k \<le> length ch"
  shows "eq_at ch (2 ^ k * h + i) = eq_weight (take k ch) i * eq_at (drop k ch) (h + i div 2 ^ k)"
  using eq_at_append [of "take k ch" "drop k ch" "2 ^ k * h + i"] eq_weight_shift [of "take k ch" h i] assms
  by simp

lemma eq_eval_low:
  assumes "k \<le> length ch" and "i \<le> usize_max"
  shows "eq_eval_at_index (take k ch) (i AND (2 ^ k - 1)) = eq_weight (take k ch) i"
proof -
  have "i mod 2 ^ k \<le> usize_max" using assms(2) mod_less_eq_dividend le_trans by blast
  then show ?thesis using assms(1) eq_weight_mod [of "take k ch" i]
    by (simp only: and_pow2_mask eq_eval_at_index_eq eq_at_def) simp
qed

text \<open>Two carry classes, read against a function of the carry.\<close>

definition carry_pair :: "'e::field \<times> 'e \<Rightarrow> (nat \<Rightarrow> 'e) \<Rightarrow> 'e" where
  "carry_pair e g = fst e * g 0 + snd e * g 1"

lemma aligned_digits_adds:
  assumes k: "k \<le> length ch" and span: "(length dws - 1) * ds < 2 ^ k" and bl: "bl < 2 ^ k"
    and fits: "bl + (length dws - 1) * ds \<le> usize_max"
  shows "\<exists>e. aligned_digits (take k ch) bl (2 ^ k) ds dws = Inr e \<and> (k = 0 \<longrightarrow> snd e = 0)
    \<and> (\<forall>g. carry_pair e g = (\<Sum>d < length dws.
          dws ! d * eq_weight (take k ch) (bl + ds * d) * g ((bl + ds * d) div 2 ^ k)))"
proof -
  let ?ok = "\<lambda>e. k = 0 \<longrightarrow> snd e = (0 :: 'a)"
  let ?t = "\<lambda>d w g. w * eq_weight (take k ch) (bl + ds * d) * g ((bl + ds * d) div 2 ^ k)"
  have step: "adds ?ok carry_pair (\<lambda>e. aligned_digit (take k ch) bl (2 ^ k) ds e x) (?t (fst x) (snd x))"
    if x: "x \<in> set (enumerate 0 dws)" for x
  proof -
    obtain d w where xd: "x = (d, w)" by (cases x)
    then have "d < length dws" using x by (simp add: in_enumerate)
    then have d: "ds * d \<le> (length dws - 1) * ds" by (rule digit_bound)
    then have le: "d * ds \<le> usize_max" "bl + ds * d \<le> usize_max" using fits mult.commute [of d ds] by linarith+
    have "bl + ds * d < 2 * 2 ^ k" using d span bl by linarith
    then have "(bl + ds * d) div 2 ^ k < 2" by (simp add: div_less_iff_less_mult)
    then have c: "(bl + ds * d) div 2 ^ k = 0 \<or> (bl + ds * d) div 2 ^ k = 1" by linarith
    have z: "(bl + ds * d) div 2 ^ k = 0" if "k = 0"
    proof -
      have "(2::nat) ^ k = 1" using that by simp
      then have "bl + ds * d = 0" using span bl d by linarith
      then show ?thesis by (simp only: div_0)
    qed
    have "eq_eval_at_index (take k ch) ((bl + ds * d) AND (2 ^ k - 1)) = eq_weight (take k ch) (bl + ds * d)"
      using k le(2) by (rule eq_eval_low)
    then show ?thesis using le c z unfolding xd
      by (intro addsI) (auto simp: aligned_digit_def Let_def checked_mul_def checked_add_def carry_pair_def mult.commute [of d]
        distrib_right)
  qed
  then have "\<exists>e. aligned_digits (take k ch) bl (2 ^ k) ds dws = Inr e \<and> ?ok e
      \<and> (\<forall>g. carry_pair e g = carry_pair (0, 0) g + (\<Sum>x\<leftarrow>enumerate 0 dws. ?t (fst x) (snd x) g))"
    unfolding aligned_digits_def by (intro adds_run) simp_all
  then show ?thesis unfolding sum_enumerate [of "\<lambda>d w. ?t d w _"] by (simp add: carry_pair_def)
qed

lemma aligned_outer_eq:
  assumes w: "window_new par sz hi = Inr w" and src: "source_total hw" "oe \<le> ws_len hw"
    and fits: "\<And>i. i < oe - os \<Longrightarrow> bh + c + i \<le> usize_max"
  shows "aligned_outer w hw bh c os oe = Inr (\<Sum>i\<in>{os..<oe}. the (ws_get hw i) * eq_at hi (bh + c + (i - os)))"
proof -
  have "\<exists>v. ws_get hw i = Some v" if "i \<in> set [os..<oe]" for i using src that by (auto simp: source_total_def)
  moreover have "bh + c + (i - os) \<le> usize_max" if "i \<in> set [os..<oe]" for i using fits [of "i - os"] that by fastforce
  ultimately show ?thesis unfolding aligned_outer_def
    by (subst sum_upt [symmetric], subst try_fold_plain [where t = "\<lambda>i. the (ws_get hw i) * eq_at hi (bh + c + (i - os))"])
      (fastforce simp: checked_add_def window_eval_eq [OF w [unfolded window_new_def]] Let_def)+
qed

lemma aligned_base_eq:
  fixes ch :: "'e::field list"
  assumes w: "window_new par sz (drop k ch) = Inr w" and src: "source_total hw" "oe \<le> ws_len hw" and k: "k \<le> length ch"
    and span: "(length dws - 1) * ds < 2 ^ k" and win: "os < oe"
    and fits: "b + 2 ^ k * (oe - os - 1) + (length dws - 1) * ds \<le> usize_max"
  shows "aligned_base (take k ch) w hw os oe (2 ^ k) ds dws scales out (j, b)
    = Inr (out + scaled_by (get_index scales j) (affine_range ch os (2 ^ k) ds dws hw [] {os..<oe} b))"
proof -
  define bl bh where "bl = b mod 2 ^ k" and "bh = b div 2 ^ k"
  have b: "b = 2 ^ k * bh + bl" and bl: "bl < 2 ^ k" by (simp_all add: bl_def bh_def)
  have "bl + (length dws - 1) * ds \<le> usize_max" using fits b by linarith
  then obtain e where e: "aligned_digits (take k ch) bl (2 ^ k) ds dws = Inr e" "k = 0 \<longrightarrow> snd e = 0"
    and sums: "\<And>g. carry_pair e g = (\<Sum>d < length dws.
          dws ! d * eq_weight (take k ch) (bl + ds * d) * g ((bl + ds * d) div 2 ^ k))"
    using aligned_digits_adds [OF k span bl] by blast
  define G where "G c = (\<Sum>i\<in>{os..<oe}. the (ws_get hw i) * eq_at (drop k ch) (bh + c + (i - os)))" for c
  have G: "aligned_outer w hw bh c os oe = Inr (G c)" if "c = 0 \<or> c = 1 \<and> k \<noteq> 0" for c
    unfolding G_def
  proof (rule aligned_outer_eq [OF w src])
    fix i assume i: "i < oe - os"
    have "2 ^ k * (bh + i) \<le> 2 ^ k * bh + 2 ^ k * (oe - os - 1)" using i by (simp add: distrib_left)
    then have le: "2 ^ k * (bh + i) \<le> usize_max" using fits b by linarith
    show "bh + c + i \<le> usize_max"
    proof (cases "k = 0")
      case False
      then have "2 * (bh + i) \<le> 2 ^ k * (bh + i)" by (intro mult_le_mono1) (cases k, simp_all)
      then show ?thesis using le that by (auto simp: usize_max_def)
    qed (use le that in simp)
  qed
  let ?s = "scaled_by (get_index scales j)"
  have "aligned_base (take k ch) w hw os oe (2 ^ k) ds dws scales out (j, b) = Inr (out + ?s (carry_pair e G))"
  proof -
    have mask: "b AND (2 ^ k - 1) = bl" "drop_bit k b = bh" by (simp_all only: and_pow2_mask drop_bit_eq_div bl_def bh_def)
    obtain e0 e1 where e01: "e = (e0, e1)" by (cases e)
    have "?s (carry_pair e G) = G 0 * ?s e0 + G 1 * ?s e1"
      by (simp add: e01 carry_pair_def scaled_by_add scaled_by_mult mult.commute [of _ "G _"])
    then show ?thesis using e(2) G [of 0] G [of 1]
      by (auto simp: aligned_base_def Let_def mask e(1) e01 add.assoc simp del: One_nat_def)
  qed
  also have "carry_pair e G = (\<Sum>i\<in>{os..<oe}. outer_weight hw [] i * affine_point ch os (2 ^ k) ds dws b i)"
  proof -
    have at: "eq_at ch (b + 2 ^ k * (i - os) + ds * d)
        = eq_weight (take k ch) (bl + ds * d) * eq_at (drop k ch) (bh + (bl + ds * d) div 2 ^ k + (i - os))" for i d
    proof -
      have "b + 2 ^ k * (i - os) + ds * d = 2 ^ k * (bh + (i - os)) + (bl + ds * d)" using b by (simp add: distrib_left)
      then show ?thesis using eq_at_split [OF k, of "bh + (i - os)" "bl + ds * d"] by (simp only: ac_simps)
    qed
    show ?thesis unfolding sums G_def outer_weight_def affine_point_def Let_def at
      by (simp add: sum_distrib_left sum.swap [of _ "{..<length dws}"] ac_simps)
  qed
  finally show ?thesis by (simp add: affine_range_def)
qed

lemma max_terms_usize: "MAX_COMPACT_STRIDE_TERMS \<le> usize_max"
  by (simp add: MAX_COMPACT_STRIDE_TERMS_def usize_max_def)

lemma try_fold_enumerate:
  fixes t :: "nat \<Rightarrow> 'a \<Rightarrow> 'e::field"
  assumes "\<And>k s. k < length xs \<Longrightarrow> f s (k, xs ! k) = Inr (s + t k (xs ! k))"
  shows "try_fold f s (enumerate 0 xs) = Inr (s + (\<Sum>k < length xs. t k (xs ! k)))"
proof -
  have "try_fold f s (enumerate 0 xs) = Inr (s + (\<Sum>x\<leftarrow>enumerate 0 xs. t (fst x) (snd x)))"
    using assms by (intro try_fold_plain) (auto simp: in_enumerate)
  then show ?thesis by (simp only: sum_enumerate)
qed

lemma aligned_eval_eq:
  fixes ch :: "'e::field list"
  assumes budget: "eq_budget_ok sz 16" and src: "source_total hw" "os + n \<le> ws_len hw" "os + n \<le> usize_max"
    and k: "k \<le> length ch" and span: "(length dws - 1) * ds < 2 ^ k" and n: "0 < n" and ne: "bases \<noteq> []"
    and fits: "\<And>b. b \<in> set bases \<Longrightarrow> b + 2 ^ k * (n - 1) + (length dws - 1) * ds \<le> usize_max"
  shows "try_eval_bit_aligned_digit_intervals par sz ch bases os n (2 ^ k) ds dws hw [] scales = Inr r
    \<longleftrightarrow> length bases * (2 * n + length dws) \<le> MAX_COMPACT_STRIDE_TERMS
      \<and> r = Some (affine_sum ch bases os (2 ^ k) ds dws hw [] scales {os..<os + n})"
proof -
  let ?work = "length bases * (2 * n + length dws)"
  obtain w where w: "window_new par sz (drop k ch) = Inr w"
    using window_total [OF budget] unfolding window_new_def by blast
  have total': "try_fold (aligned_base (take k ch) w hw os (os + n) (2 ^ k) ds dws scales) 0 (enumerate 0 bases)
      = Inr (0 + affine_sum ch bases os (2 ^ k) ds dws hw [] scales {os..<os + n})"
    unfolding affine_sum_def
    by (rule try_fold_enumerate, rule aligned_base_eq [OF w src(1,2) k span]) (use n fits in auto)
  have get: "\<exists>v. ws_get hw os = Some v" using src n by (auto simp: source_total_def)
  have pow: "is_power_of_two (2 ^ k)" by (auto simp: is_power_of_two_iff)
  have per: "n * 2 + length dws \<le> ?work" using ne by (cases bases) (simp_all add: mult.commute)
  have checked: "Option.bind (checked_mul n 2) (\<lambda>rows. checked_add rows (length dws)) = Some (2 * n + length dws)"
      "checked_mul (length bases) (2 * n + length dws) = Some ?work" if "?work \<le> MAX_COMPACT_STRIDE_TERMS"
  proof -
    have "n * 2 + length dws \<le> usize_max" "?work \<le> usize_max" using that per max_terms_usize by linarith+
    then show "Option.bind (checked_mul n 2) (\<lambda>rows. checked_add rows (length dws)) = Some (2 * n + length dws)"
      "checked_mul (length bases) (2 * n + length dws) = Some ?work"
      by (simp_all add: checked_mul_def checked_add_def mult.commute)
  qed
  show ?thesis
  proof (cases "?work \<le> MAX_COMPACT_STRIDE_TERMS")
    case True
    with get src(3) k show ?thesis
      by (auto simp: try_eval_bit_aligned_digit_intervals_def pow checked w total' Let_def checked_add_def [of os] not_less)
  next
    case False
    with k show ?thesis
      by (auto simp: try_eval_bit_aligned_digit_intervals_def pow Let_def result_simps checked_mul_def checked_add_def
        mult.commute [of _ 2])
  qed
qed

subsection \<open>Low carry summaries\<close>

text \<open>The shifted low address, and what one low position adds to the summaries.\<close>

definition low_shift :: "nat \<Rightarrow> nat \<Rightarrow> nat \<Rightarrow> nat \<Rightarrow> nat \<Rightarrow> nat \<Rightarrow> nat" where
  "low_shift A S ds ls low d = A + S * (low - ls) + ds * d"

definition low_value :: "'e::field list \<Rightarrow> nat \<Rightarrow> 'e" where
  "low_value lws low = (if lws = [] then 1 else lws ! low)"

definition low_amount ::
  "'e::field list \<Rightarrow> nat \<Rightarrow> nat \<Rightarrow> nat \<Rightarrow> nat \<Rightarrow> 'e list \<Rightarrow> 'e list \<Rightarrow> nat \<Rightarrow> (nat \<Rightarrow> 'e) \<Rightarrow> 'e" where
  "low_amount lo A S ds ls dws lws low g =
     (\<Sum>d < length dws. low_value lws low * (dws ! d * eq_weight lo (low_shift A S ds ls low d))
        * g (low_shift A S ds ls low d div 2 ^ length lo))"

lemma low_shift_le:
  assumes "low < le" and "d < length dws"
  shows "low_shift A S ds ls low d \<le> A + S * (le - 1 - ls) + (length dws - 1) * ds"
proof -
  have "S * (low - ls) \<le> S * (le - 1 - ls)" using assms(1) by (intro mult_le_mono2) linarith
  with digit_bound [OF assms(2), of ds] show ?thesis unfolding low_shift_def by linarith
qed

lemma running_eq:
  assumes "F 0 = z" and "\<And>k. k < n \<Longrightarrow> F (Suc k) = f k (F k)"
  shows "running f z n = map F [0..<Suc n]"
  using assms(2)
proof (induction n)
  case (Suc n)
  then have "running f z n = map F [0..<Suc n]" by simp
  then show ?case using Suc.prems [of n] by (simp add: running_def)
qed (simp add: running_def assms(1))

lemma dense_low_adds:
  assumes lo: "length lws = 2 ^ length lo" and low: "ls \<le> low" "low < le" "le \<le> 2 ^ length lo"
    and fits: "A + S * (le - 1 - ls) + (length dws - 1) * ds \<le> usize_max"
    and cc: "cc = (A + S * (le - 1 - ls) + (length dws - 1) * ds) div 2 ^ length lo + 1"
    and table: "tbl = None \<or> tbl = Some (eq_table lo 1)"
  shows "adds (\<lambda>acc. length acc = cc) weighted (\<lambda>acc. dense_low lo tbl A S ds (2 ^ length lo) ls dws lws acc low)
    (low_amount lo A S ds ls dws lws low)"
proof -
  let ?sh = "low_shift A S ds ls low"
  let ?t = "\<lambda>d w g. lws ! low * (w * eq_weight lo (?sh d)) * g (?sh d div 2 ^ length lo)"
  have ne: "lws \<noteq> []" using lo by auto
  have get: "get_index lws low = Some (lws ! low)" using lo low by (simp add: get_index_def)
  have bound: "?sh d \<le> usize_max" "?sh d div 2 ^ length lo < cc" if "d < length dws" for d
    using low_shift_le [OF low(2) that, of A S ds ls] fits div_le_mono [OF low_shift_le [OF low(2) that, of A S ds ls]]
    unfolding cc by (linarith, simp add: less_Suc_eq_le)
  have eq: "(case tbl of Some table \<Rightarrow> ok_or (get_index table (?sh d AND (2 ^ length lo - 1))) e
        | None \<Rightarrow> Inr (eq_eval_at_index lo (?sh d AND (2 ^ length lo - 1)))) = Inr (eq_weight lo (?sh d))"
    if "d < length dws" for d and e :: akita_error
    using table eq_eval_low [of "length lo" lo "?sh d"] bound(1) [OF that] eq_weight_mod [of lo "?sh d"]
    by (elim disjE) (simp_all only: and_pow2_mask get_index_def nth_eq_table option.case length_eq_table, simp_all add: nth_eq_table)
  have delta: "checked_mul S (low - ls) = Some (S * (low - ls))"
  proof -
    have "S * (low - ls) \<le> S * (le - 1 - ls)" using low by (intro mult_le_mono2) linarith
    then have "S * (low - ls) \<le> usize_max" using fits by linarith
    then show ?thesis by (simp only: checked_mul_def if_True)
  qed
  have step: "adds (\<lambda>acc. length acc = cc) weighted
      (\<lambda>acc. dense_digit lo tbl A (S * (low - ls)) ds (2 ^ length lo) (lws ! low) acc x) (?t (fst x) (snd x))"
    if x: "x \<in> set (enumerate 0 dws)" for x
  proof -
    obtain d w where xd: "x = (d, w)" by (cases x)
    then have d: "d < length dws" using x by (simp add: in_enumerate)
    have "ds * d \<le> usize_max" "A + S * (low - ls) \<le> usize_max" "A + S * (low - ls) + ds * d \<le> usize_max"
      using bound(1) [OF d] by (simp_all add: low_shift_def)
    then have "checked_mul ds d = Some (ds * d)" "checked_add A (S * (low - ls)) = Some (A + S * (low - ls))"
      "checked_add (A + S * (low - ls)) (ds * d) = Some (?sh d)" by (simp_all add: checked_mul_def checked_add_def low_shift_def)
    then have "dense_digit lo tbl A (S * (low - ls)) ds (2 ^ length lo) (lws ! low) acc x
        = add_at acc (?sh d div 2 ^ length lo) (lws ! low * (w * eq_weight lo (?sh d)))" for acc
      using eq [OF d] by (simp add: xd dense_digit_def Let_def del: One_nat_def)
    then show ?thesis by (simp add: xd adds_add_at [OF bound(2) [OF d]])
  qed
  have "adds (\<lambda>acc. length acc = cc) weighted (\<lambda>acc. dense_low lo tbl A S ds (2 ^ length lo) ls dws lws acc low)
      (\<lambda>g. \<Sum>x\<leftarrow>enumerate 0 dws. ?t (fst x) (snd x) g)"
    unfolding dense_low_def get delta ok_or_simps bindE_simps by (rule adds_try_fold) (rule step)
  then show ?thesis
    by (rule adds_cong) (simp_all only: sum_enumerate [of "\<lambda>d w. ?t d w _"] low_amount_def low_value_def ne if_False)
qed

lemma geometric_segment:
  fixes r :: "'e::field"
  assumes "r \<noteq> 0"
  shows "d0 * inverse r ^ s * ((\<Sum>u < s + c. r ^ u * e u) - (\<Sum>u < s. r ^ u * e u)) = (\<Sum>d < c. d0 * r ^ d * e (s + d))"
proof -
  have "(\<Sum>u < s + c. r ^ u * e u) - (\<Sum>u < s. r ^ u * e u) = r ^ s * (\<Sum>d < c. r ^ d * e (s + d))"
    by (simp add: sum_lessThan_add power_add sum_distrib_left mult.assoc)
  then have "d0 * inverse r ^ s * ((\<Sum>u < s + c. r ^ u * e u) - (\<Sum>u < s. r ^ u * e u))
      = d0 * (inverse r ^ s * r ^ s) * (\<Sum>d < c. r ^ d * e (s + d))" by (simp only: mult.assoc)
  also have "inverse r ^ s * r ^ s = 1" using assms by (simp add: power_inverse)
  finally show ?thesis by (simp add: sum_distrib_left mult.assoc)
qed

lemma block_split: "(x::nat) < Q \<Longrightarrow> (x + Q * k) div Q = k \<and> (x + Q * k) mod Q = x"
  by simp

lemma low_split:
  fixes start d :: nat
  assumes "d < Q - start mod Q" and "0 < Q"
  shows "(start + d) div Q = start div Q" and "(start + d) mod Q = start mod Q + d"
proof -
  have "start + d = start mod Q + d + Q * (start div Q)" using mod_mult_div_eq [of start Q] by linarith
  then show "(start + d) div Q = start div Q" "(start + d) mod Q = start mod Q + d"
    using block_split [of "start mod Q + d" Q "start div Q"] assms by simp_all
qed

lemma low_wrap:
  fixes start u :: nat
  assumes "u < Q"
  shows "(start + (Q - start mod Q + u)) div Q = start div Q + 1" and "(start + (Q - start mod Q + u)) mod Q = u"
proof -
  have "start mod Q < Q" using assms by simp
  moreover have "Q * (start div Q + 1) = Q + Q * (start div Q)" by simp
  ultimately have "start + (Q - start mod Q + u) = u + Q * (start div Q + 1)" using mod_mult_div_eq [of start Q] by linarith
  then show "(start + (Q - start mod Q + u)) div Q = start div Q + 1" "(start + (Q - start mod Q + u)) mod Q = u"
    using block_split [OF assms, of "start div Q + 1"] by (simp_all only:)
qed

text \<open>The digits before and after the end of the block.\<close>

lemma geometric_head:
  fixes r :: "'e::field"
  assumes "r \<noteq> 0" and "\<And>k. k < c \<Longrightarrow> dws ! k = d0 * r ^ k" and "c \<le> 2 ^ length lo - start mod 2 ^ length lo"
  defines "s \<equiv> start mod 2 ^ length lo"
  shows "(\<Sum>d < c. f * (dws ! d * eq_weight lo (start + d)) * g ((start + d) div 2 ^ length lo))
    = f * (d0 * inverse r ^ s * ((\<Sum>u < s + c. r ^ u * eq_weight lo u) - (\<Sum>u < s. r ^ u * eq_weight lo u)))
      * g (start div 2 ^ length lo)"
proof -
  have "(\<Sum>d < c. f * (dws ! d * eq_weight lo (start + d)) * g ((start + d) div 2 ^ length lo))
      = (\<Sum>d < c. f * (d0 * r ^ d * eq_weight lo (s + d)) * g (start div 2 ^ length lo))"
  proof (rule sum.cong [OF refl])
    fix d assume "d \<in> {..<c}"
    then have "d < 2 ^ length lo - start mod 2 ^ length lo" "dws ! d = d0 * r ^ d" using assms(2,3) by auto
    then show "f * (dws ! d * eq_weight lo (start + d)) * g ((start + d) div 2 ^ length lo)
        = f * (d0 * r ^ d * eq_weight lo (s + d)) * g (start div 2 ^ length lo)"
      using low_split [of d "2 ^ length lo" start] eq_weight_mod [of lo "start + d"] by (simp add: s_def)
  qed
  then show ?thesis unfolding geometric_segment [OF assms(1)] by (simp add: sum_distrib_left sum_distrib_right)
qed

lemma geometric_tail:
  fixes r :: "'e::field"
  assumes "\<And>k. k < c + m \<Longrightarrow> dws ! k = d0 * r ^ k" and "c = 2 ^ length lo - start mod 2 ^ length lo" and "m \<le> 2 ^ length lo"
  shows "(\<Sum>u < m. f * (dws ! (c + u) * eq_weight lo (start + (c + u))) * g ((start + (c + u)) div 2 ^ length lo))
    = f * (d0 * r ^ c * (\<Sum>u < m. r ^ u * eq_weight lo u)) * g (start div 2 ^ length lo + 1)"
proof -
  have "(\<Sum>u < m. f * (dws ! (c + u) * eq_weight lo (start + (c + u))) * g ((start + (c + u)) div 2 ^ length lo))
      = (\<Sum>u < m. f * (d0 * r ^ c * (r ^ u * eq_weight lo u)) * g (start div 2 ^ length lo + 1))"
  proof (rule sum.cong [OF refl])
    fix u assume "u \<in> {..<m}"
    then have "u < 2 ^ length lo" "dws ! (c + u) = d0 * r ^ (c + u)" using assms(1,3) by auto
    then show "f * (dws ! (c + u) * eq_weight lo (start + (c + u))) * g ((start + (c + u)) div 2 ^ length lo)
        = f * (d0 * r ^ c * (r ^ u * eq_weight lo u)) * g (start div 2 ^ length lo + 1)"
      using low_wrap [of u "2 ^ length lo" start, folded assms(2)] eq_weight_mod [of lo "start + (c + u)"]
      by (simp add: power_add mult.assoc)
  qed
  then show ?thesis by (simp add: sum_distrib_left sum_distrib_right)
qed

lemma geometric_amount:
  fixes r :: "'e::field" and start :: nat
  assumes r: "r \<noteq> 0" and dws: "length dws \<le> 2 ^ length lo" "\<And>k. k < length dws \<Longrightarrow> dws ! k = d0 * r ^ k"
  defines "Q \<equiv> (2::nat) ^ length lo" and "P \<equiv> \<lambda>t. \<Sum>u < t. r ^ u * eq_weight lo u"
  defines "s \<equiv> start mod Q"
  defines "c \<equiv> min (length dws) (Q - s)"
  shows "(\<Sum>d < length dws. f * (dws ! d * eq_weight lo (start + d)) * g ((start + d) div Q))
    = f * (d0 * inverse r ^ s * (P (s + c) - P s)) * g (start div Q)
      + (if c < length dws then f * (d0 * r ^ c * P (length dws - c)) * g (start div Q + 1) else 0)"
proof -
  let ?h = "\<lambda>d. f * (dws ! d * eq_weight lo (start + d)) * g ((start + d) div Q)"
  have c: "c \<le> Q - s" "c \<le> length dws" by (simp_all add: c_def)
  have "(\<Sum>d < length dws. ?h d) = (\<Sum>d < c + (length dws - c). ?h d)" using c(2) by simp
  also have "\<dots> = (\<Sum>d < c. ?h d) + (\<Sum>u < length dws - c. ?h (c + u))" by (rule sum_lessThan_add)
  also have "(\<Sum>d < c. ?h d) = f * (d0 * inverse r ^ s * (P (s + c) - P s)) * g (start div Q)"
    unfolding P_def Q_def s_def by (rule geometric_head [OF r]) (use dws(2) c in \<open>simp_all add: Q_def s_def\<close>)
  also have "(\<Sum>u < length dws - c. ?h (c + u))
      = (if c < length dws then f * (d0 * r ^ c * P (length dws - c)) * g (start div Q + 1) else 0)"
  proof (cases "c < length dws")
    case True
    then have cs: "c = 2 ^ length lo - start mod 2 ^ length lo" by (auto simp: c_def Q_def s_def)
    have m: "length dws - c \<le> 2 ^ length lo" using dws(1) by simp
    have "(\<Sum>u < length dws - c. ?h (c + u)) = f * (d0 * r ^ c * P (length dws - c)) * g (start div Q + 1)"
      unfolding P_def Q_def by (rule geometric_tail [OF _ cs m]) (use dws(2) c(2) in simp)
    with True show ?thesis by (simp only: if_True)
  qed simp
  finally show ?thesis .
qed

lemma geometric_low_adds:
  fixes r :: "'e::field"
  assumes lo: "length lws = 2 ^ length lo" and low: "ls \<le> low" "low < le" "le \<le> 2 ^ length lo"
    and fits: "A + S * (le - 1 - ls) + (length dws - 1) * 1 \<le> usize_max"
    and cc: "cc = (A + S * (le - 1 - ls) + (length dws - 1) * 1) div 2 ^ length lo + 1"
    and r: "r \<noteq> 0" and dws: "dws \<noteq> []" "length dws \<le> 2 ^ length lo" "\<And>k. k < length dws \<Longrightarrow> dws ! k = d0 * r ^ k"
    and rpow: "rpow = map (\<lambda>k. r ^ k) [0..<Suc (2 ^ length lo)]"
    and rinvpow: "rinvpow = map (\<lambda>k. inverse r ^ k) [0..<2 ^ length lo]"
    and pref: "pref = map (\<lambda>t. \<Sum>u < t. r ^ u * eq_weight lo u) [0..<Suc (2 ^ length lo)]"
  shows "adds (\<lambda>acc. length acc = cc) weighted
    (\<lambda>acc. geometric_low rpow rinvpow pref A S (2 ^ length lo) ls (length dws) d0 lws acc low) (low_amount lo A S 1 ls dws lws low)"
proof -
  define Q start where "Q = (2::nat) ^ length lo" and "start = A + S * (low - ls)"
  define s where "s = start mod Q"
  define c1 where "c1 = min (length dws) (Q - s)"
  define f where "f = lws ! low"
  have s: "s < Q" by (simp add: Q_def s_def)
  have c1: "c1 \<le> Q - s" "c1 \<le> length dws" and wrap: "c1 < length dws \<Longrightarrow> c1 = Q - s" by (auto simp: c1_def)
  have get: "get_index lws low = Some f" "low_value lws low = f" using lo low by (auto simp: get_index_def low_value_def f_def)
  have sh: "low_shift A S 1 ls low d = start + d" for d by (simp only: low_shift_def start_def mult_1)
  have bound: "start + d \<le> usize_max" "(start + d) div Q < cc" if "d < length dws" for d
    using low_shift_le [OF low(2) that, of A S 1 ls] fits div_le_mono [OF low_shift_le [OF low(2) that, of A S 1 ls]]
    unfolding cc sh Q_def by (linarith, simp add: less_Suc_eq_le)
  have addr: "Option.bind (checked_mul S (low - ls)) (checked_add A) = Some start"
    using bound(1) [of 0] dws(1) by (simp add: checked_mul_def checked_add_def start_def)
  have carry1: "start div Q < cc" using bound(2) [of 0] dws(1) by simp
  have carry2: "start div Q + 1 < cc" if "c1 < length dws"
    using bound(2) [OF that] low_wrap(1) [of 0 Q start] wrap [OF that] s by (simp add: s_def)
  define v1 where "v1 = f * (d0 * rinvpow ! s * (pref ! (s + c1) - pref ! s))"
  define v2 where "v2 = f * (d0 * rpow ! c1 * pref ! (length dws - c1))"
  have nth: "rinvpow ! s = inverse r ^ s" "rpow ! c1 = r ^ c1" "\<And>t. t \<le> Q \<Longrightarrow> pref ! t = (\<Sum>u < t. r ^ u * eq_weight lo u)"
    using s c1 unfolding rinvpow rpow pref Q_def [symmetric] by (simp_all del: upt_Suc)
  have amount: "low_amount lo A S 1 ls dws lws low g
      = v1 * g (start div Q) + (if c1 < length dws then v2 * g (start div Q + 1) else 0)" for g
  proof -
    have le: "length dws - c1 \<le> Q" "s \<le> Q" "s + c1 \<le> Q" using dws(2) s c1(1) by (simp_all add: Q_def)
    show ?thesis
      unfolding low_amount_def get(2) sh Q_def [symmetric] v1_def v2_def nth(1,2) nth(3) [OF le(1)] nth(3) [OF le(2)] nth(3) [OF le(3)]
      using geometric_amount [OF r dws(2,3), where start = start and f = f and g = g, folded Q_def, folded s_def, folded c1_def] by simp
  qed
  have mask: "start AND (Q - 1) = s" by (simp only: Q_def s_def and_pow2_mask)
  have up: "checked_add (start div Q) 1 = Some (start div Q + 1)" if "c1 < length dws"
  proof -
    have "start div Q + 1 \<le> (A + S * (le - 1 - ls) + (length dws - 1) * 1) div 2 ^ length lo"
      using carry2 [OF that] unfolding cc by linarith
    then have "start div Q + 1 \<le> usize_max" using fits div_le_dividend le_trans by blast
    then show ?thesis by (simp only: checked_add_def if_True)
  qed
  have unfold: "geometric_low rpow rinvpow pref A S Q ls (length dws) d0 lws acc low
    = bindE (add_at acc (start div Q) v1) (\<lambda>acc'. if c1 < length dws then add_at acc' (start div Q + 1) v2 else Inr acc')" for acc
    unfolding geometric_low_def get addr ok_or_simps bindE_simps Let_def mask c1_def [symmetric] v1_def v2_def
    by (intro bindE_cong refl if_cong) (simp_all only: up ok_or_simps bindE_simps)
  have "adds (\<lambda>acc. length acc = cc) weighted
      (\<lambda>acc. bindE (add_at acc (start div Q) v1) (\<lambda>acc'. if c1 < length dws then add_at acc' (start div Q + 1) v2 else Inr acc'))
      (\<lambda>g. v1 * g (start div Q) + (if c1 < length dws then v2 * g (start div Q + 1) else 0))"
    by (rule adds_bind [OF adds_add_at [OF carry1]], cases "c1 < length dws")
      (simp_all only: if_True if_False adds_skip adds_add_at carry2)
  then show ?thesis unfolding Q_def [symmetric] by (rule adds_cong) (simp_all only: unfold amount)
qed

lemma geometric_summaries:
  fixes dws :: "'e::field list"
  assumes lo: "length lws = 2 ^ length lo" and le: "le \<le> 2 ^ length lo"
    and fits: "A + S * (le - 1 - ls) + (length dws - 1) * 1 \<le> usize_max"
    and cc: "cc = (A + S * (le - 1 - ls) + (length dws - 1) * 1) div 2 ^ length lo + 1"
  shows "build_geometric_low_summaries (eq_table lo 1) A S (2 ^ length lo) ls le dws lws cc = Inr None
    \<or> (\<exists>acc. build_geometric_low_summaries (eq_table lo 1) A S (2 ^ length lo) ls le dws lws cc = Inr (Some acc)
       \<and> length acc = cc \<and> (\<forall>g. weighted acc g = (\<Sum>low\<in>{ls..<le}. low_amount lo A S 1 ls dws lws low g)))"
    (is "?b = Inr None \<or> ?good")
proof (cases "?b = Inr None")
  case some: False
  define Q where "Q = (2::nat) ^ length lo"
  define d0 where "d0 = dws ! 0"
  define r where "r = (if 2 \<le> length dws then dws ! 1 * inverse d0 else 1)"
  have rpow: "running (\<lambda>_ p. p * r) 1 Q = map (\<lambda>k. r ^ k) [0..<Suc Q]" by (rule running_eq) simp_all
  have rinv: "running (\<lambda>_ p. p * inverse r) 1 (Q - 1) = map (\<lambda>k. inverse r ^ k) [0..<Suc (Q - 1)]"
    by (rule running_eq) simp_all
  have pref: "running (\<lambda>u p. p + running (\<lambda>_ p. p * r) 1 Q ! u * eq_table lo 1 ! u) 0 Q
      = map (\<lambda>t. \<Sum>u < t. r ^ u * eq_weight lo u) [0..<Suc Q]"
    by (rule running_eq) (simp_all add: rpow [unfolded Q_def] nth_eq_table Q_def del: upt_Suc)
  have Q: "Suc (Q - 1) = Q" by (simp add: Q_def)
  have cond: "length dws \<noteq> 0" "length dws \<le> Q" "r \<noteq> 0"
    and geo: "\<not> list_ex (\<lambda>(k, weight). weight \<noteq> d0 * running (\<lambda>_ p. p * r) 1 Q ! k) (enumerate 0 dws)"
    using some unfolding build_geometric_low_summaries_def Let_def
    by (auto simp: Q_def d0_def r_def split: if_splits)
  have dws: "dws ! k = d0 * r ^ k" if "k < length dws" for k
  proof -
    have "(k, dws ! k) \<in> set (enumerate 0 dws)" using that by (simp add: in_enumerate)
    then have "dws ! k = d0 * running (\<lambda>_ p. p * r) 1 Q ! k" using geo by (auto simp: list_ex_iff)
    then show ?thesis using that cond by (simp add: rpow del: upt_Suc)
  qed
  let ?f = "geometric_low (running (\<lambda>_ p. p * r) 1 Q) (running (\<lambda>_ p. p * inverse r) 1 (Q - 1))
    (running (\<lambda>u p. p + running (\<lambda>_ p. p * r) 1 Q ! u * eq_table lo 1 ! u) 0 Q) A S Q ls (length dws) d0 lws"
  have b: "?b = bindE (try_fold ?f (replicate cc 0) [ls..<le]) (\<lambda>acc. Inr (Some acc))"
    using some unfolding build_geometric_low_summaries_def Let_def Q_def [symmetric] d0_def [symmetric] r_def [symmetric]
    by (simp split: if_splits)
  have "adds (\<lambda>acc. length acc = cc) weighted (\<lambda>acc. ?f acc low) (low_amount lo A S 1 ls dws lws low)"
    if "low \<in> set [ls..<le]" for low
    using that le unfolding Q_def
    by (intro geometric_low_adds [OF lo _ _ le fits cc cond(3)])
      (use cond dws rpow rinv pref Q in \<open>auto simp: Q_def\<close>)
  then have "\<exists>acc. try_fold ?f (replicate cc 0) [ls..<le] = Inr acc \<and> length acc = cc
      \<and> (\<forall>g. weighted acc g = weighted (replicate cc 0) g + (\<Sum>low\<leftarrow>[ls..<le]. low_amount lo A S 1 ls dws lws low g))"
    by (intro adds_run) simp_all
  then show ?thesis unfolding b by (auto simp: sum_upt)
qed simp

lemma identity_summaries:
  assumes fits: "(length dws - 1) * ds \<le> usize_max" and cc: "cc = (length dws - 1) * ds + 1"
  shows "\<exists>acc. build_affine_low_summaries [] tbl 0 S ds 1 0 1 dws [] cc = Inr acc \<and> length acc = cc
    \<and> (\<forall>g. weighted acc g = (\<Sum>low\<in>{0..<1}. low_amount [] 0 S ds 0 dws [] low g))"
proof -
  let ?f = "\<lambda>acc. \<lambda>(digit, digit_weight). bindE (ok_or (checked_mul ds digit) (InvalidInput ''affine digit offset overflow''))
                 (\<lambda>carry. add_at acc carry digit_weight)"
  let ?t = "\<lambda>d w g. w * g (ds * d)"
  have "adds (\<lambda>acc. length acc = cc) weighted (\<lambda>acc. ?f acc x) (?t (fst x) (snd x))" if x: "x \<in> set (enumerate 0 dws)" for x
  proof -
    obtain d w where xd: "x = (d, w)" by (cases x)
    then have "d < length dws" using x by (simp add: in_enumerate)
    then have "ds * d \<le> (length dws - 1) * ds" by (rule digit_bound)
    then have d: "ds * d < cc" "ds * d \<le> usize_max" using fits cc by linarith+
    show ?thesis using adds_add_at [OF d(1), of w] d(2) by (simp add: xd checked_mul_def)
  qed
  then have "\<exists>acc. try_fold ?f (replicate cc 0) (enumerate 0 dws) = Inr acc \<and> length acc = cc
      \<and> (\<forall>g. weighted acc g = weighted (replicate cc 0) g + (\<Sum>x\<leftarrow>enumerate 0 dws. ?t (fst x) (snd x) g))"
    by (intro adds_run) simp_all
  then show ?thesis unfolding sum_enumerate [of "\<lambda>d w. ?t d w _"]
    by (simp add: build_affine_low_summaries_def low_amount_def low_value_def low_shift_def)
qed

lemma low_summaries:
  fixes lo :: "'e::field list"
  assumes lo: "lws = [] \<and> lo = [] \<or> length lws = 2 ^ length lo"
    and low: "ls < le" "le \<le> 2 ^ length lo" "A < 2 ^ length lo"
    and fits: "A + S * (le - 1 - ls) + (length dws - 1) * ds \<le> usize_max"
    and cc: "cc = (A + S * (le - 1 - ls) + (length dws - 1) * ds) div 2 ^ length lo + 1"
    and table: "tbl = None \<or> tbl = Some (eq_table lo 1)"
  shows "\<exists>acc. build_affine_low_summaries lo tbl A S ds (2 ^ length lo) ls le dws lws cc = Inr acc \<and> length acc = cc
    \<and> (\<forall>g. weighted acc g = (\<Sum>low\<in>{ls..<le}. low_amount lo A S ds ls dws lws low g))"
proof (cases "lws = []")
  case True
  then have unit: "lo = []" "A = 0" "ls = 0" "le = 1" "lws = []" using lo low by auto
  show ?thesis using identity_summaries [of dws ds cc tbl S] fits cc unfolding unit by simp
next
  case False
  then have lws: "length lws = 2 ^ length lo" using lo by auto
  let ?dense = "try_fold (dense_low lo tbl A S ds (2 ^ length lo) ls dws lws) (replicate cc 0) [ls..<le]"
  let ?geo = "build_geometric_low_summaries (eq_table lo 1) A S (2 ^ length lo) ls le dws lws cc"
  have "\<exists>acc. ?dense = Inr acc \<and> length acc = cc
      \<and> (\<forall>g. weighted acc g = weighted (replicate cc 0) g + (\<Sum>low\<leftarrow>[ls..<le]. low_amount lo A S ds ls dws lws low g))"
    by (intro adds_run dense_low_adds [OF lws _ _ low(2) fits cc table]) simp_all
  then have dense: "\<exists>acc. ?dense = Inr acc \<and> length acc = cc
      \<and> (\<forall>g. weighted acc g = (\<Sum>low\<in>{ls..<le}. low_amount lo A S ds ls dws lws low g))" by (simp add: sum_upt)
  show ?thesis
  proof (cases "tbl = Some (eq_table lo 1) \<and> ds = 1 \<and> ?geo \<noteq> Inr None")
    case True
    then have "\<exists>acc. ?geo = Inr (Some acc) \<and> length acc = cc
        \<and> (\<forall>g. weighted acc g = (\<Sum>low\<in>{ls..<le}. low_amount lo A S ds ls dws lws low g))"
      using geometric_summaries [OF lws low(2)] fits cc by metis
    with True False show ?thesis by (auto simp: build_affine_low_summaries_def)
  next
    case no: False
    have "build_affine_low_summaries lo tbl A S ds (2 ^ length lo) ls le dws lws cc = ?dense"
      using table no False by (auto simp: build_affine_low_summaries_def)
    with dense show ?thesis by simp
  qed
qed

end
