(* ===== verification/AffineHigh.thy ===== *)
theory AffineHigh
  imports AffineLow
begin

text \<open>
  The evaluator of affine digit intervals, the high contraction: the direct loop over rows and carries,
  and the bucketed kernel with its plan, its tasks and the pieces of the scheduler.  Both add the rows
  weighted with the low summaries at the equality polynomial of the high address.
\<close>

unbundle bit_operations_syntax

subsection \<open>The direct row loop\<close>

text \<open>What a group of addresses adds, given the low summaries.\<close>

definition row_amount :: "'e::field list \<Rightarrow> nat \<Rightarrow> nat \<Rightarrow> 'e weight_source \<Rightarrow> nat \<Rightarrow> 'e list \<Rightarrow> 'e affine_address \<Rightarrow> nat \<Rightarrow> 'e" where
  "row_amount hi S lb hw fh sm a row =
     the (ws_get hw (fh + row)) * weighted sm (\<lambda>c. eq_at hi (aa_first a div 2 ^ lb + S * row + c))"

definition high_amount ::
  "'e::field list \<Rightarrow> nat \<Rightarrow> nat \<Rightarrow> 'e weight_source \<Rightarrow> nat \<Rightarrow> nat \<Rightarrow> 'e list \<Rightarrow> 'e affine_address \<Rightarrow> 'e" where
  "high_amount hi S lb hw fh rows sm a = scaled_by (aa_scale a) (\<Sum>row < rows. row_amount hi S lb hw fh sm a row)"

definition amortized_ok :: "'e::field list \<Rightarrow> 'e amortized_offset_eq \<Rightarrow> bool" where
  "amortized_ok hi a \<longleftrightarrow> ao_challenges a = hi \<and> (\<forall>i \<le> usize_max. amortized_eval a i = eq_at hi i)"

lemma amortized_ok_new [simp]: "amortized_ok hi (amortized_new hi)"
  by (simp add: amortized_ok_def amortized_new_def amortized_eval_def eq_eval_at_index_eq)

lemma prepare_ok:
  assumes "eq_budget_ok sz 16" and "amortized_ok hi a" and "families * rows * carries \<le> usize_max" "families * rows \<le> usize_max"
    "families \<le> usize_max"
  shows "\<exists>a'. prepare_for_product par sz a families rows carries = Inr a' \<and> amortized_ok hi a'"
proof (cases "ao_window a")
  case None
  let ?n = "families * rows * carries"
  have prod: "product_checked [families, rows, carries] = Some ?n"
    using assms(3,4,5) by (simp add: product_checked_def checked_mul_def)
  have ch: "ao_challenges a = hi" using assms(2) by (simp add: amortized_ok_def)
  have small: "pow2 b = Some (2 ^ b)" if "b \<le> 16" for b using that by (simp add: pow2_def usize_bits_def)
  have pow: "(2::nat) ^ b \<le> 65536" if "b \<le> 16" for b
    using power_increasing [OF that, of "2::nat"] by simp
  have caps: "OFFSET_EQ_LOW_BITS_CAP = 16" "OFFSET_EQ_HIGH_BITS_CAP = 16"
    by (simp_all add: OFFSET_EQ_LOW_BITS_CAP_def OFFSET_EQ_HIGH_BITS_CAP_def)
  obtain win where win: "window_new par sz hi = Inr win" using window_total [OF assms(1)] unfolding window_new_def by blast
  have "\<exists>w. new_if_amortized par sz hi ?n = Inr w"
    using split_low_bits_bounds(2) [of "length hi" 16] pow [of "split_low_bits (length hi) 16"]
      pow [of "length hi - split_low_bits (length hi) 16"] win
    by (auto simp: new_if_amortized_def Let_def small caps sum_checked_def checked_add_def usize_max_def)
  then obtain w where w: "new_if_amortized par sz hi ?n = Inr w" by blast
  have "amortized_ok hi (a\<lparr>ao_window := w\<rparr>)"
    using w amortized_eval_eq [of par sz hi ?n]
    by (cases w) (simp_all add: amortized_ok_def amortized_eval_def ch eq_eval_at_index_eq)
  with None prod w ch show ?thesis by (simp add: prepare_for_product_def)
qed (use assms(2) in \<open>simp add: prepare_for_product_def\<close>)

lemma carry_steps:
  assumes "amortized_ok hi heq" and "ah + (length sm - 1) \<le> usize_max"
  shows "try_fold (carry_step heq ah scale hf) out (enumerate 0 sm)
    = Inr (out + hf * scaled_by scale (weighted sm (\<lambda>c. eq_at hi (ah + c))))"
proof -
  have "try_fold (carry_step heq ah scale hf) out (enumerate 0 sm)
      = Inr (out + (\<Sum>c < length sm. hf * (sm ! c * scaled_by scale (eq_at hi (ah + c)))))"
  proof (rule try_fold_enumerate)
    fix c s assume "c < length sm"
    then have "ah + c \<le> usize_max" using assms(2) by linarith
    then show "carry_step heq ah scale hf s (c, sm ! c) = Inr (s + hf * (sm ! c * scaled_by scale (eq_at hi (ah + c))))"
      using assms(1) by (simp add: carry_step_def checked_add_def amortized_ok_def Let_def mult.assoc)
  qed
  then show ?thesis by (simp add: weighted_def scaled_by_sum scaled_by_mult sum_distrib_left)
qed

lemma direct_rows:
  assumes heq: "amortized_ok hi heq" and src: "source_total hw" "fh + rows \<le> ws_len hw" "fh + rows \<le> usize_max"
    and stride: "S * 2 ^ lb \<le> usize_max"
    and first: "aa_first a + S * 2 ^ lb * (rows - 1) \<le> usize_max"
    and carry: "aa_first a div 2 ^ lb + S * (rows - 1) + (length sm - 1) \<le> usize_max"
  shows "try_fold (direct_row heq S (2 ^ lb) lb hw fh sm a) out [0..<rows] = Inr (out + high_amount hi S lb hw fh rows sm a)"
proof -
  have "direct_row heq S (2 ^ lb) lb hw fh sm a s row
      = Inr (s + scaled_by (aa_scale a) (row_amount hi S lb hw fh sm a row))" if row: "row < rows" for s row
  proof -
    have "ws_get hw (fh + row) = Some (the (ws_get hw (fh + row)))" using src row by (intro source_get) simp_all
    then obtain v where v: "ws_get hw (fh + row) = Some v" by blast
    have "S * 2 ^ lb * row \<le> S * 2 ^ lb * (rows - 1)" "S * row \<le> S * (rows - 1)" using row by auto
    then have le: "aa_first a + S * 2 ^ lb * row \<le> usize_max" "aa_first a div 2 ^ lb + S * row + (length sm - 1) \<le> usize_max"
      using first carry by linarith+
    have "(aa_first a + S * 2 ^ lb * row) div 2 ^ lb = aa_first a div 2 ^ lb + S * row"
      using div_mult_self2 [of "2 ^ lb" "aa_first a" "S * row"] by (simp add: ac_simps)
    then show ?thesis using row v le stride src(3) carry_steps [OF heq le(2)]
      by (simp add: direct_row_def checked_add_def checked_mul_def drop_bit_eq_div row_amount_def scaled_by_mult)
  qed
  then have "try_fold (direct_row heq S (2 ^ lb) lb hw fh sm a) out [0..<rows]
      = Inr (out + (\<Sum>row\<leftarrow>[0..<rows]. scaled_by (aa_scale a) (row_amount hi S lb hw fh sm a row)))"
    by (intro try_fold_plain) simp
  then show ?thesis by (simp add: high_amount_def scaled_by_sum sum_upt atLeast0LessThan)
qed

subsection \<open>The bucketed contraction\<close>

lemma next_pow2_bound:
  assumes "n \<le> 2 ^ 63"
  shows "\<exists>e. checked_next_power_of_two n = Some (2 ^ e) \<and> n \<le> 2 ^ e"
proof -
  obtain e where e: "next_pow2_from 1 n = 2 ^ e" "n \<le> 2 ^ e" "0 < e \<longrightarrow> 2 ^ (e - 1) < n"
    using next_pow2_from_pow [of 0 n] by auto
  have "(2::nat) ^ e \<le> 2 ^ 63"
  proof (cases e)
    case (Suc k)
    then have "(2::nat) ^ k < 2 ^ 63" using e(3) assms by simp
    then have "Suc k \<le> 63" using power_less_imp_less_exp [of "2::nat" k 63] by simp
    then show ?thesis unfolding Suc by (intro power_increasing) simp_all
  qed simp
  then show ?thesis using e by (simp add: checked_next_power_of_two_def usize_max_def)
qed

lemma bucket_plan:
  assumes work: "rows * cc \<le> MAX_COMPACT_STRIDE_TERMS"
  shows "bucketed_high_rows_plan rows cc hcc = Inr None
    \<or> (\<exists>wb. bucketed_high_rows_plan rows cc hcc = Inr (Some (2 ^ wb))
        \<and> 0 < cc \<and> cc \<le> 2 ^ wb \<and> 0 < wb \<and> wb \<le> 16 \<and> wb \<le> hcc \<and> hcc - wb \<le> 32)"
proof (cases "rows < FAST_HIGH_ROWS_MIN \<or> cc = 0")
  case False
  then have pos: "8 \<le> rows" "0 < cc" by (simp_all add: FAST_HIGH_ROWS_MIN_def)
  then have le: "rows \<le> rows * cc" "cc \<le> rows * cc" by simp_all
  then have small: "rows \<le> 2 ^ 28" "cc \<le> 2 ^ 28" using work by (simp_all only: MAX_COMPACT_STRIDE_TERMS_def)
  have "(2::nat) ^ 28 \<le> 2 ^ 63" by (rule power_increasing) simp_all
  then obtain wb where wb: "checked_next_power_of_two cc = Some (2 ^ wb)" "cc \<le> 2 ^ wb"
    using next_pow2_bound [of cc] small(2) by (metis le_trans)
  have caps: "OFFSET_EQ_LOW_BITS_CAP = 16" "OFFSET_EQ_HIGH_BITS_CAP = 16"
    by (simp_all add: OFFSET_EQ_LOW_BITS_CAP_def OFFSET_EQ_HIGH_BITS_CAP_def)
  show ?thesis
  proof (cases "wb \<le> 16 \<and> wb \<le> hcc \<and> hcc - wb \<le> 32")
    case True
    define sl sh where "sl = (hcc - wb) div 2" and "sh = hcc - wb - sl"
    have bits: "sl \<le> 16" "sh \<le> 16" using True by (auto simp: sl_def sh_def)
    have pow: "(2::nat) ^ b \<le> 65536" if "b \<le> 16" for b using power_increasing [OF that, of "2::nat"] by simp
    have pow2s: "pow2 sl = Some (2 ^ sl)" "pow2 sh = Some (2 ^ sh)" using bits by (simp_all add: pow2_def usize_bits_def)
    have sh: "hcc - (wb + sl) = sh" by (simp add: sh_def)
    have entries: "checked_add (2 ^ sl) (2 ^ sh) = Some (2 ^ sl + 2 ^ sh)"
      using pow [OF bits(1)] pow [OF bits(2)] by (simp add: checked_add_def usize_max_def)
    have W: "(2::nat) ^ wb \<le> 65536" using pow True by blast
    then have combine: "cc * 2 ^ wb \<le> 65536 * 65536" using wb(2) by (intro mult_le_mono) linarith+
    let ?bw = "2 * rows + cc * 2 ^ wb + 3 * 2 ^ wb + (2 ^ sl + 2 ^ sh)"
    have plan: "bucketed_high_rows_plan rows cc hcc = (if rows * cc \<le> ?bw then Inr None
        else if MAX_COMPACT_STRIDE_TERMS < ?bw then Inl (InvalidSize MAX_COMPACT_STRIDE_TERMS ?bw) else Inr (Some (2 ^ wb)))"
    proof -
      have "?bw \<le> usize_max" using small combine W pow [OF bits(1)] pow [OF bits(2)] by (simp add: usize_max_def)
      then show ?thesis using False True wb work max_terms_usize pow2s entries
        by (simp add: bucketed_high_rows_plan_def caps checked_sub_def checked_add_def [of "_ + _"] checked_add_def [of "_ * _"] checked_mul_def sh mult.commute
          flip: sl_def)
    qed
    show ?thesis
    proof (cases "rows * cc \<le> ?bw")
      case less: False
      then have "rows * 2 < rows * cc" by linarith
      then have "2 < cc" by simp
      with wb(2) have "0 < wb" by (cases wb) simp_all
      moreover have "?bw \<le> MAX_COMPACT_STRIDE_TERMS" using less work by linarith
      ultimately show ?thesis using plan less True wb(2) pos by auto
    qed (simp add: plan)
  next
    case no: False
    then have "bucketed_high_rows_plan rows cc hcc = Inr None"
      using False wb(1) by (auto simp: bucketed_high_rows_plan_def caps checked_sub_def)
    then show ?thesis ..
  qed
qed (auto simp: bucketed_high_rows_plan_def)

text \<open>A pair of buckets, read against a pair of functions of the low position.\<close>

definition bucket_read :: "'e::field list \<times> 'e list \<Rightarrow> (nat \<Rightarrow> 'e) \<times> (nat \<Rightarrow> 'e) \<Rightarrow> 'e" where
  "bucket_read b g = weighted (fst b) (fst g) + weighted (snd b) (snd g)"

abbreviation bucket_ok :: "nat \<Rightarrow> 'e list \<times> 'e list \<Rightarrow> bool" where
  "bucket_ok W b \<equiv> length (fst b) = W \<and> length (snd b) = W"

definition bucket_amount ::
  "'e::field list \<Rightarrow> nat \<Rightarrow> nat \<Rightarrow> nat \<Rightarrow> 'e weight_source \<Rightarrow> nat \<Rightarrow> 'e affine_address \<Rightarrow> nat \<Rightarrow> (nat \<Rightarrow> 'e) \<times> (nat \<Rightarrow> 'e) \<Rightarrow> 'e" where
  "bucket_amount hihi wb S lb hw fh a row g =
     (let ah = aa_first a div 2 ^ lb + S * row; pos = ah mod 2 ^ wb; block = ah div 2 ^ wb in
      the (ws_get hw (fh + row)) * scaled_by (aa_scale a)
        (eq_at hihi block * fst g pos + eq_at hihi (block + 1) * snd g pos))"

lemma bucket_row_adds:
  assumes ev: "\<And>i. ev i = Inr (eq_at hihi i)" and src: "source_total hw" "fh + rows \<le> ws_len hw" "fh + rows \<le> usize_max"
    and wb: "0 < wb" and first: "aa_first a div 2 ^ lb + S * (rows - 1) \<le> usize_max" and row: "row < rows"
  shows "adds (bucket_ok (2 ^ wb)) bucket_read
    (\<lambda>b. bucket_row ev (2 ^ wb) wb S hw fh (drop_bit lb (aa_first a)) (aa_scale a) b row) (bucket_amount hihi wb S lb hw fh a row)"
proof -
  define ah where "ah = aa_first a div 2 ^ lb + S * row"
  have "S * row \<le> S * (rows - 1)" using row by (intro mult_le_mono2) linarith
  then have ah: "ah \<le> usize_max" "S * row \<le> usize_max" using first unfolding ah_def by linarith+
  have block: "ah div 2 ^ wb + 1 \<le> usize_max"
  proof -
    obtain w where "wb = Suc w" using wb by (cases wb) auto
    then have "ah div 2 ^ wb \<le> ah div 2" by (simp add: div_mult2_eq)
    also have "\<dots> \<le> usize_max div 2" using ah(1) by (rule div_le_mono)
    finally show ?thesis by (simp add: usize_max_def)
  qed
  have "ws_get hw (fh + row) = Some (the (ws_get hw (fh + row)))" using src row by (intro source_get) simp_all
  then obtain v where v: "ws_get hw (fh + row) = Some v" by blast
  have mask: "ah AND (2 ^ wb - 1) = ah mod 2 ^ wb" "drop_bit wb ah = ah div 2 ^ wb"
    by (rule and_pow2_mask, simp add: drop_bit_eq_div)
  have chk: "checked_add fh row = Some (fh + row)" "Option.bind (checked_mul S row) (checked_add (drop_bit lb (aa_first a))) = Some ah"
      "checked_add (ah div 2 ^ wb) 1 = Some (ah div 2 ^ wb + 1)"
    using row src(3) ah block by (simp_all add: checked_add_def checked_mul_def drop_bit_eq_div ah_def)
  let ?e0 = "scaled_by (aa_scale a) (eq_at hihi (ah div 2 ^ wb))"
  let ?e1 = "scaled_by (aa_scale a) (eq_at hihi (ah div 2 ^ wb + 1))"
  let ?p = "ah mod 2 ^ wb"
  have unfold: "bucket_row ev (2 ^ wb) wb S hw fh (drop_bit lb (aa_first a)) (aa_scale a) (b0, b1) row
      = Inr (b0[?p := b0 ! ?p + v * ?e0], b1[?p := b1 ! ?p + v * ?e1])" for b0 b1
    unfolding bucket_row_def prod.case chk ok_or_simps bindE_simps Let_def mask ev v ..
  have amount: "bucket_amount hihi wb S lb hw fh a row g = v * ?e0 * fst g ?p + v * ?e1 * snd g ?p" for g
    unfolding bucket_amount_def ah_def [symmetric] Let_def v option.sel
    by (cases "aa_scale a") (simp_all add: scaled_by_def algebra_simps)
  show ?thesis
  proof (rule addsI)
    fix b :: "'a list \<times> 'a list" assume b: "bucket_ok (2 ^ wb) b"
    obtain b0 b1 where bb: "b = (b0, b1)" by (cases b)
    have p: "?p < length b0" "?p < length b1" using b by (simp_all add: bb)
    show "\<exists>b'. bucket_row ev (2 ^ wb) wb S hw fh (drop_bit lb (aa_first a)) (aa_scale a) b row = Inr b' \<and> bucket_ok (2 ^ wb) b'
        \<and> (\<forall>g. bucket_read b' g = bucket_read b g + bucket_amount hihi wb S lb hw fh a row g)"
      unfolding bb unfold amount using b by (simp add: bb bucket_read_def weighted_update [OF p(1)] weighted_update [OF p(2)] add.assoc add.left_commute)
  qed
qed

lemma bucket_address_adds:
  assumes ev: "\<And>i. ev i = Inr (eq_at hihi i)" and src: "source_total hw" "fh + rows \<le> ws_len hw" "fh + rows \<le> usize_max"
    and wb: "0 < wb" and first: "aa_first a div 2 ^ lb + S * (rows - 1) \<le> usize_max"
  shows "adds (bucket_ok (2 ^ wb)) bucket_read (\<lambda>b. bucket_address ev (2 ^ wb) wb S lb hw fh rows b a)
    (\<lambda>g. \<Sum>row < rows. bucket_amount hihi wb S lb hw fh a row g)"
proof -
  have "adds (bucket_ok (2 ^ wb)) bucket_read (\<lambda>b. bucket_address ev (2 ^ wb) wb S lb hw fh rows b a)
      (\<lambda>g. \<Sum>row\<leftarrow>[0..<rows]. bucket_amount hihi wb S lb hw fh a row g)"
    unfolding bucket_address_def by (intro adds_try_fold bucket_row_adds [OF ev src wb first]) simp_all
  then show ?thesis by (simp add: sum_upt atLeast0LessThan)
qed

lemma sum_concat: "(\<Sum>x\<leftarrow>concat xss. f x) = (\<Sum>xs\<leftarrow>xss. \<Sum>x\<leftarrow>xs. (f x :: 'e::comm_monoid_add))"
  by (induction xss) simp_all

text \<open>The tasks partition the addresses; the pieces of the scheduler partition the tasks.\<close>

lemma concat_slices: "concat (map (\<lambda>t. take p (drop (t * p) xs)) [0..<n]) = take (n * p) xs"
  by (induction n) (simp_all add: add.commute [of p] take_add)

lemma task_adds:
  assumes step: "\<And>a. a \<in> set as \<Longrightarrow> adds ok reads (\<lambda>b. step b a) (amount a)"
    and range: "task * p \<le> length as" "task * p + p \<le> usize_max"
  shows "adds ok reads (\<lambda>b. bucket_task step as p (Inr b) task) (\<lambda>g. \<Sum>a\<leftarrow>take p (drop (task * p) as). amount a g)"
proof -
  have "bucket_task step as p (Inr b) task = try_fold step b (take p (drop (task * p) as))" for b
    using range by (auto simp: bucket_task_def checked_mul_def checked_add_def min_def)
  moreover have "adds ok reads (\<lambda>b. step b a) (amount a)" if "a \<in> set (take p (drop (task * p) as))" for a
    using that step in_set_takeD in_set_dropD by metis
  ultimately show ?thesis by (simp add: adds_try_fold)
qed

lemma foldl_adds:
  assumes "\<And>x. x \<in> set xs \<Longrightarrow> adds ok reads (\<lambda>b. f (Inr b) x) (t x)" and "ok b"
  shows "\<exists>b'. foldl f (Inr b) xs = Inr b' \<and> ok b' \<and> (\<forall>g. reads b' g = reads b g + (\<Sum>x\<leftarrow>xs. t x g))"
  using assms
proof (induction xs arbitrary: b)
  case (Cons x xs)
  obtain b1 where "f (Inr b) x = Inr b1" "ok b1" "\<And>g. reads b1 g = reads b g + t x g"
    by (rule addsE [OF Cons.prems(1) [of x] Cons.prems(2)]) simp_all
  with Cons.IH [of b1] Cons.prems(1) show ?case by (auto simp: add.assoc)
qed auto

lemma add_buckets_read:
  assumes "bucket_ok W b" and "bucket_ok W b'"
  shows "\<exists>c. add_buckets (Inr b) (Inr b') = Inr c \<and> bucket_ok W c \<and> (\<forall>g. bucket_read c g = bucket_read b g + bucket_read b' g)"
  using assms
  by (cases b; cases b') (auto simp: add_buckets_def bucket_read_def weighted_def sum.distrib distrib_right algebra_simps)

lemma fold_reduce_adds:
  fixes t :: "nat \<Rightarrow> (nat \<Rightarrow> 'e) \<times> (nat \<Rightarrow> 'e) \<Rightarrow> 'e::field"
  assumes step: "\<And>x. x \<in> set xs \<Longrightarrow> adds (bucket_ok W) bucket_read (\<lambda>b. f (Inr b) x) (t x)" and pieces: "concat (pieces xs) = xs"
  shows "\<exists>b. fold_reduce pieces (Inr (replicate W 0, replicate W 0)) f add_buckets xs = Inr b \<and> bucket_ok W b
    \<and> (\<forall>g. bucket_read b g = (\<Sum>x\<leftarrow>xs. t x g))"
proof -
  let ?z = "(replicate W 0, replicate W (0 :: 'e))"
  have z: "bucket_ok W ?z" "\<And>g. bucket_read ?z g = 0" by (simp_all add: bucket_read_def)
  have piece: "adds (bucket_ok W) bucket_read (\<lambda>b. add_buckets (Inr b) (foldl f (Inr ?z) p)) (\<lambda>g. \<Sum>x\<leftarrow>p. t x g)"
    if "p \<in> set (pieces xs)" for p
  proof -
    have "set p \<subseteq> set xs" using that arg_cong [OF pieces, of set] by auto
    then obtain b where b: "foldl f (Inr ?z) p = Inr b" "bucket_ok W b" "\<forall>g. bucket_read b g = bucket_read ?z g + (\<Sum>x\<leftarrow>p. t x g)"
      using foldl_adds [of p "bucket_ok W" bucket_read f t ?z] step z(1) by blast
    show ?thesis using add_buckets_read [OF _ b(2)] b z(2) by (intro addsI) (simp only: b(1), metis add_0)
  qed
  have "\<exists>b. foldl (\<lambda>acc p. add_buckets acc (foldl f (Inr ?z) p)) (Inr ?z) (pieces xs) = Inr b \<and> bucket_ok W b
      \<and> (\<forall>g. bucket_read b g = bucket_read ?z g + (\<Sum>p\<leftarrow>pieces xs. \<Sum>x\<leftarrow>p. t x g))"
    by (rule foldl_adds) (use piece z(1) in auto)
  moreover have "(\<Sum>p\<leftarrow>pieces xs. \<Sum>x\<leftarrow>p. t x g) = (\<Sum>x\<leftarrow>xs. t x g)" for g
    using sum_concat [of "\<lambda>x. t x g" "pieces xs"] unfolding pieces by simp
  ultimately show ?thesis by (simp add: fold_reduce_def foldl_map z(2))
qed

text \<open>The functions of the position that the combination of one carry applies to the two buckets.\<close>

definition carry_window :: "'e::field list \<Rightarrow> nat \<Rightarrow> (nat \<Rightarrow> 'e) \<times> (nat \<Rightarrow> 'e)" where
  "carry_window low_hi c =
     (\<lambda>pos. if pos + c < 2 ^ length low_hi then eq_weight low_hi (pos + c) else 0,
      \<lambda>pos. if pos + c < 2 ^ length low_hi then 0 else eq_weight low_hi (pos + c - 2 ^ length low_hi))"

lemma combine_carry_read:
  assumes "bucket_ok (2 ^ length low_hi) b" and c: "c < 2 ^ length low_hi"
  shows "combine_carry (eq_table low_hi 1) (fst b) (snd b) (2 ^ length low_hi) c = bucket_read b (carry_window low_hi c)"
proof -
  define W where "W = (2::nat) ^ length low_hi"
  have fold: "foldl (\<lambda>phi pos. let shifted = pos + c in
        if shifted < W then phi + fst b ! pos * eq_table low_hi 1 ! shifted
        else phi + snd b ! pos * eq_table low_hi 1 ! (shifted - W)) z xs
      = foldl (\<lambda>phi pos. phi + (if pos + c < W then fst b ! pos * eq_table low_hi 1 ! (pos + c)
        else snd b ! pos * eq_table low_hi 1 ! (pos + c - W))) z xs" for z xs
    by (rule foldl_cong) (simp_all add: Let_def)
  have "combine_carry (eq_table low_hi 1) (fst b) (snd b) W c
      = (\<Sum>pos < W. if pos + c < W then fst b ! pos * eq_table low_hi 1 ! (pos + c)
           else snd b ! pos * eq_table low_hi 1 ! (pos + c - W))"
    unfolding combine_carry_def fold foldl_plus_sum_list by (simp add: sum_upt atLeast0LessThan)
  also have "\<dots> = (\<Sum>pos < W. fst b ! pos * fst (carry_window low_hi c) pos + snd b ! pos * snd (carry_window low_hi c) pos)"
  proof (rule sum.cong [OF refl])
    fix pos assume "pos \<in> {..<W}"
    then have "pos + c - W < W" using c by (simp add: W_def)
    then show "(if pos + c < W then fst b ! pos * eq_table low_hi 1 ! (pos + c) else snd b ! pos * eq_table low_hi 1 ! (pos + c - W))
        = fst b ! pos * fst (carry_window low_hi c) pos + snd b ! pos * snd (carry_window low_hi c) pos"
      by (simp add: carry_window_def W_def nth_eq_table)
  qed
  also have "\<dots> = bucket_read b (carry_window low_hi c)"
    using assms(1) by (simp add: bucket_read_def weighted_def sum.distrib W_def)
  finally show ?thesis by (simp only: W_def)
qed

lemma bucket_amount_carry:
  assumes wb: "wb \<le> length hi" and c: "c < 2 ^ wb"
  shows "bucket_amount (drop wb hi) wb S lb hw fh a row (carry_window (take wb hi) c)
    = the (ws_get hw (fh + row)) * scaled_by (aa_scale a) (eq_at hi (aa_first a div 2 ^ lb + S * row + c))"
proof -
  define ah where "ah = aa_first a div 2 ^ lb + S * row"
  define pos where "pos = ah mod 2 ^ wb"
  have ah: "ah = 2 ^ wb * (ah div 2 ^ wb) + pos" by (simp add: pos_def)
  have pos: "pos < 2 ^ wb" by (simp add: pos_def)
  have "eq_at hi (ah + c) = eq_at (drop wb hi) (ah div 2 ^ wb) * fst (carry_window (take wb hi) c) pos
      + eq_at (drop wb hi) (ah div 2 ^ wb + 1) * snd (carry_window (take wb hi) c) pos"
  proof (cases "pos + c < 2 ^ wb")
    case True
    have "ah + c = 2 ^ wb * (ah div 2 ^ wb) + (pos + c)" using ah by linarith
    then have "eq_at hi (ah + c) = eq_weight (take wb hi) (pos + c) * eq_at (drop wb hi) (ah div 2 ^ wb)"
      using eq_at_split [OF wb, of "ah div 2 ^ wb" "pos + c"] True by (simp only: div_less add_0_right)
    with True show ?thesis by (simp add: carry_window_def min_absorb2 [OF wb] mult.commute)
  next
    case False
    have less: "pos + c - 2 ^ wb < 2 ^ wb" using pos c by linarith
    have "2 ^ wb * (ah div 2 ^ wb + 1) = 2 ^ wb * (ah div 2 ^ wb) + 2 ^ wb" by simp
    then have "ah + c = 2 ^ wb * (ah div 2 ^ wb + 1) + (pos + c - 2 ^ wb)" using ah False by linarith
    then have "eq_at hi (ah + c) = eq_weight (take wb hi) (pos + c - 2 ^ wb) * eq_at (drop wb hi) (ah div 2 ^ wb + 1)"
      using eq_at_split [OF wb, of "ah div 2 ^ wb + 1" "pos + c - 2 ^ wb"] less by (simp only: div_less add_0_right)
    with False show ?thesis by (simp add: carry_window_def min_absorb2 [OF wb] mult.commute)
  qed
  then show ?thesis unfolding bucket_amount_def Let_def ah_def [symmetric] pos_def [symmetric] by simp
qed

lemma high_tables:
  assumes "eq_budget_ok sz 16" and "wb \<le> 16" "wb \<le> length hi" "length hi - wb \<le> 32"
  shows "evals par sz (take wb hi) = Inr (eq_table (take wb hi) 1)"
    and "\<exists>sp. split_new par sz (drop wb hi) = Inr sp
      \<and> (\<forall>i. eval_high sp (if usize_bits \<le> length (drop wb hi) then usize_max else 2 ^ length (drop wb hi)) i = Inr (eq_at (drop wb hi) i))"
proof -
  show "evals par sz (take wb hi) = Inr (eq_table (take wb hi) 1)"
    using assms eq_budget_ok_mono [OF assms(1,2)] by (simp add: evals_Inr_iff)
  have "eq_budget_ok sz (length (drop wb hi) - length (drop wb hi) div 2)"
    using eq_budget_ok_mono [OF assms(1)] assms(4) by simp
  then obtain sp where sp: "split_new par sz (drop wb hi) = Inr sp" by (auto simp: split_new_Inr_iff)
  have "eval_high sp (2 ^ length (drop wb hi)) i = Inr (eq_at (drop wb hi) i)" for i
    using split_eval_at_correct [OF sp, of i] by (auto simp: eval_high_def eq_at_def)
  with sp assms(4) show "\<exists>sp. split_new par sz (drop wb hi) = Inr sp
      \<and> (\<forall>i. eval_high sp (if usize_bits \<le> length (drop wb hi) then usize_max else 2 ^ length (drop wb hi)) i = Inr (eq_at (drop wb hi) i))"
    by (auto simp: usize_bits_def)
qed

lemma task_ranges:
  fixes n :: nat
  assumes "0 < n" and "tc = 1 \<or> tc = n" and "t < tc"
  shows "t * ((n + tc - 1) div tc) \<le> n" "(n + tc - 1) div tc \<le> n" "n \<le> tc * ((n + tc - 1) div tc)"
proof -
  have "(n + n - 1) div n = 1" using assms(1) by (intro div_nat_eqI) simp_all
  then show "t * ((n + tc - 1) div tc) \<le> n" "(n + tc - 1) div tc \<le> n" "n \<le> tc * ((n + tc - 1) div tc)"
    using assms by auto
qed

lemma sum_sum_list_swap: "(\<Sum>c\<in>C. \<Sum>a\<leftarrow>as. (f a c :: 'e::comm_monoid_add)) = (\<Sum>a\<leftarrow>as. \<Sum>c\<in>C. f a c)"
  by (induction as) (simp_all add: sum.distrib)

lemma combine_total:
  fixes hi :: "'e::field list"
  assumes wb: "wb \<le> length hi" "length sm \<le> 2 ^ wb" and ok: "bucket_ok (2 ^ wb) b"
    and reads: "\<And>g. bucket_read b g = (\<Sum>a\<leftarrow>as. \<Sum>row < rows. bucket_amount (drop wb hi) wb S lb hw fh a row g)"
  shows "foldl (\<lambda>out (carry, summary). out + combine_carry (eq_table (take wb hi) 1) (fst b) (snd b) (2 ^ wb) carry * summary)
      out (enumerate 0 sm) = out + (\<Sum>a\<leftarrow>as. high_amount hi S lb hw fh rows sm a)"
proof -
  let ?phi = "combine_carry (eq_table (take wb hi) 1) (fst b) (snd b) (2 ^ wb)"
  let ?t = "\<lambda>a c. \<Sum>row < rows. the (ws_get hw (fh + row)) * scaled_by (aa_scale a) (eq_at hi (aa_first a div 2 ^ lb + S * row + c))"
  have len: "length (take wb hi) = wb" using wb(1) by simp
  have phi: "?phi c = (\<Sum>a\<leftarrow>as. ?t a c)" if "c < length sm" for c
  proof -
    have c: "c < 2 ^ wb" using that wb(2) by linarith
    show ?thesis using combine_carry_read [of b "take wb hi" c, unfolded len, OF ok c]
      by (simp only: reads bucket_amount_carry [OF wb(1) c])
  qed
  have "foldl (\<lambda>out (carry, summary). out + ?phi carry * summary) out (enumerate 0 sm)
      = out + (\<Sum>x\<leftarrow>enumerate 0 sm. ?phi (fst x) * snd x)"
    using foldl_plus_sum_list [of "\<lambda>x. ?phi (fst x) * snd x" out "enumerate 0 sm"] by (simp only: case_prod_unfold)
  also have "(\<Sum>x\<leftarrow>enumerate 0 sm. ?phi (fst x) * snd x) = (\<Sum>c < length sm. (\<Sum>a\<leftarrow>as. ?t a c) * sm ! c)"
    unfolding sum_enumerate [of "\<lambda>c v. ?phi c * v"] by (rule sum.cong) (simp_all add: phi)
  also have "\<dots> = (\<Sum>a\<leftarrow>as. \<Sum>c < length sm. ?t a c * sm ! c)"
    by (simp add: sum_sum_list_swap flip: sum_list_mult_const)
  also have "(\<lambda>a. \<Sum>c < length sm. ?t a c * sm ! c) = high_amount hi S lb hw fh rows sm"
    unfolding high_amount_def row_amount_def weighted_def scaled_by_sum scaled_by_mult sum_distrib_right sum_distrib_left
    by (rule ext, subst sum.swap) (simp add: ac_simps)
  finally show ?thesis .
qed

lemma bucket_totals:
  assumes ev: "\<And>i. ev i = Inr (eq_at hihi i)" and pieces: "concat (pieces [0..<tc]) = [0..<tc]"
    and src: "source_total hw" "fh + rows \<le> ws_len hw" "fh + rows \<le> usize_max" and wb: "0 < wb"
    and first: "\<And>a. a \<in> set as \<Longrightarrow> aa_first a div 2 ^ lb + S * (rows - 1) \<le> usize_max"
    and tc: "tc = 1 \<or> tc = length as" and as: "0 < length as" "length as \<le> MAX_COMPACT_STRIDE_TERMS"
  defines "p \<equiv> (length as + tc - 1) div tc"
  shows "\<exists>b. fold_reduce pieces (Inr (replicate (2 ^ wb) 0, replicate (2 ^ wb) 0))
        (bucket_task (bucket_address ev (2 ^ wb) wb S lb hw fh rows) as p) add_buckets [0..<tc] = Inr b
      \<and> bucket_ok (2 ^ wb) b
      \<and> (\<forall>g. bucket_read b g = (\<Sum>a\<leftarrow>as. \<Sum>row < rows. bucket_amount hihi wb S lb hw fh a row g))"
proof -
  let ?step = "bucket_address ev (2 ^ wb) wb S lb hw fh rows"
  let ?amount = "\<lambda>a g. \<Sum>row < rows. bucket_amount hihi wb S lb hw fh a row g"
  have task: "adds (bucket_ok (2 ^ wb)) bucket_read (\<lambda>b. bucket_task ?step as p (Inr b) t)
      (\<lambda>g. \<Sum>a\<leftarrow>take p (drop (t * p) as). ?amount a g)" if "t \<in> set [0..<tc]" for t
  proof (rule task_adds)
    show "adds (bucket_ok (2 ^ wb)) bucket_read (\<lambda>b. ?step b a) (?amount a)" if "a \<in> set as" for a
      by (rule bucket_address_adds [OF ev src wb first [OF that]])
    have t: "t < tc" using that by simp
    note r = task_ranges [OF as(1) tc t, folded p_def]
    show "t * p \<le> length as" by (rule r)
    show "t * p + p \<le> usize_max" using r(1,2) as(2) by (simp add: MAX_COMPACT_STRIDE_TERMS_def usize_max_def)
  qed
  have slices: "(\<Sum>t\<leftarrow>[0..<tc]. \<Sum>a\<leftarrow>take p (drop (t * p) as). ?amount a g) = (\<Sum>a\<leftarrow>as. ?amount a g)" for g
  proof -
    have "0 < tc" using tc as(1) by auto
    then have "length as \<le> tc * p" using task_ranges(3) [OF as(1) tc] by (simp add: p_def)
    then have "concat (map (\<lambda>t. take p (drop (t * p) as)) [0..<tc]) = as" by (simp add: concat_slices)
    then show ?thesis using sum_concat [of "\<lambda>a. ?amount a g" "map (\<lambda>t. take p (drop (t * p) as)) [0..<tc]"]
      by (simp add: comp_def)
  qed
  show ?thesis
    using fold_reduce_adds [of "[0..<tc]" "2 ^ wb" "bucket_task ?step as p" _ pieces, OF task pieces] unfolding slices by blast
qed

lemma bucketed_rows:
  fixes hi :: "'e::field list"
  assumes budget: "eq_budget_ok sz 16" and pieces: "\<And>xs. concat (pieces xs) = xs"
    and src: "source_total hw" "fh + rows \<le> ws_len hw" "fh + rows \<le> usize_max"
    and work: "rows * length as * length sm \<le> MAX_COMPACT_STRIDE_TERMS" "rows * length as \<le> MAX_COMPACT_STRIDE_TERMS"
    and first: "\<And>a. a \<in> set as \<Longrightarrow> aa_first a div 2 ^ lb + S * (rows - 1) \<le> usize_max"
  shows "accumulate_high_rows_bucketed par sz pieces out hi as S lb hw fh rows sm = Inr (out, False)
    \<or> accumulate_high_rows_bucketed par sz pieces out hi as S lb hw fh rows sm
       = Inr (out + (\<Sum>a\<leftarrow>as. high_amount hi S lb hw fh rows sm a), True)"
proof -
  have total': "checked_mul rows (length as) = Some (rows * length as)" using work(2) max_terms_usize by (simp add: checked_mul_def)
  show ?thesis
  proof (cases "bucketed_high_rows_plan (rows * length as) (length sm) (length hi) = Inr None")
    case True
    then show ?thesis by (simp add: accumulate_high_rows_bucketed_def total')
  next
    case False
    obtain wb where plan: "bucketed_high_rows_plan (rows * length as) (length sm) (length hi) = Inr (Some (2 ^ wb))"
      and sm: "0 < length sm" "length sm \<le> 2 ^ wb" and wb: "0 < wb" "wb \<le> 16" "wb \<le> length hi" "length hi - wb \<le> 32"
      using bucket_plan [OF work(1), of "length hi"] False by blast
    define tc where "tc = (if PARALLEL_HIGH_ROWS_MIN \<le> rows * length as then length as else 1)"
    have tc: "tc = 1 \<or> tc = length as" by (simp add: tc_def)
    have pos: "0 < rows * length as" using False by (cases "rows * length as") (auto simp: bucketed_high_rows_plan_def FAST_HIGH_ROWS_MIN_def)
    then have as: "0 < length as" "length as \<le> MAX_COMPACT_STRIDE_TERMS"
      using work(2) by (simp, metis le_trans mult_le_mono1 mult_1 nat_0_less_mult_iff Suc_leI One_nat_def)
    obtain sp where sp: "split_new par sz (drop wb hi) = Inr sp"
      and ev: "\<And>i. eval_high sp (if usize_bits \<le> length (drop wb hi) then usize_max else 2 ^ length (drop wb hi)) i
        = Inr (eq_at (drop wb hi) i)"
      using high_tables(2) [OF budget wb(2,3,4), of par] by blast
    obtain b where b: "fold_reduce pieces (Inr (replicate (2 ^ wb) 0, replicate (2 ^ wb) 0))
        (bucket_task (bucket_address (eval_high sp (if usize_bits \<le> length (drop wb hi) then usize_max else 2 ^ length (drop wb hi)))
           (2 ^ wb) wb S lb hw fh rows) as ((length as + tc - 1) div tc)) add_buckets [0..<tc] = Inr b"
      and read: "bucket_ok (2 ^ wb) b"
        "\<And>g. bucket_read b g = (\<Sum>a\<leftarrow>as. \<Sum>row < rows. bucket_amount (drop wb hi) wb S lb hw fh a row g)"
      using bucket_totals [where ev = "eval_high sp (if usize_bits \<le> length (drop wb hi) then usize_max else 2 ^ length (drop wb hi))"
          and hihi = "drop wb hi" and pieces = pieces and as = as and lb = lb and S = S, OF ev pieces src wb(1) first tc as]
      by blast
    show ?thesis using sm(1) b combine_total [OF wb(3) sm(2) read, of out]
      by (auto simp: accumulate_high_rows_bucketed_def total' plan Let_def high_tables(1) [OF budget wb(2,3,4)] sp case_prod_beta
        simp flip: tc_def)
  qed
qed

end
