(* ===== verification/AffineCorrect.thy ===== *)
theory AffineCorrect
  imports AffineHigh "HOL-Library.Multiset"
begin

text \<open>
  The evaluator of affine digit intervals, correctness: groups of addresses with one residue, the row
  blocks of a window, and the theorem that the evaluator computes its documented sum exactly when its
  documented conditions hold.
\<close>

unbundle bit_operations_syntax

subsection \<open>Groups of addresses with one residue\<close>

definition address_amount ::
  "'e::field list \<Rightarrow> 'e list \<Rightarrow> nat \<Rightarrow> nat \<Rightarrow> 'e list \<Rightarrow> 'e weight_source \<Rightarrow> 'e list \<Rightarrow> nat \<Rightarrow> nat \<Rightarrow> nat \<Rightarrow> nat \<Rightarrow> 'e affine_address \<Rightarrow> 'e" where
  "address_amount lo hi S ds dws hw lws fh ls le rows a = scaled_by (aa_scale a)
     (\<Sum>row < rows. \<Sum>low\<in>{ls..<le}. the (ws_get hw (fh + row)) * low_value lws low
        * (\<Sum>d < length dws. dws ! d * eq_at (lo @ hi) (aa_first a + S * (2 ^ length lo * row + (low - ls)) + ds * d)))"

lemma high_amount_eq:
  assumes sm: "\<And>g. weighted sm g = (\<Sum>low\<in>{ls..<le}. low_amount lo (aa_first a mod 2 ^ length lo) S ds ls dws lws low g)"
  shows "high_amount hi S (length lo) hw fh rows sm a = address_amount lo hi S ds dws hw lws fh ls le rows a"
proof -
  define Q where "Q = (2::nat) ^ length lo"
  define h where "h = aa_first a div Q"
  let ?sh = "low_shift (aa_first a mod Q) S ds ls"
  have at: "eq_at (lo @ hi) (aa_first a + S * (Q * row + (low - ls)) + ds * d)
      = eq_weight lo (?sh low d) * eq_at hi (h + S * row + ?sh low d div Q)" for row low d
  proof -
    have "aa_first a = Q * h + aa_first a mod Q" by (simp add: h_def)
    then have "aa_first a + S * (Q * row + (low - ls)) + ds * d = 2 ^ length lo * (h + S * row) + ?sh low d"
      unfolding low_shift_def Q_def [symmetric] by (simp add: distrib_left ac_simps)
    then show ?thesis using eq_at_split [of "length lo" "lo @ hi" "h + S * row" "?sh low d"] by (simp flip: Q_def)
  qed
  show ?thesis
    unfolding high_amount_def row_amount_def address_amount_def sm low_amount_def Q_def [symmetric] at h_def [symmetric]
    by (simp add: sum_distrib_left ac_simps)
qed

lemma carry_count_le:
  assumes "A < Q" and "le - 1 - ls < Q" and "dspan < (S::nat)"
  shows "(A + S * (le - 1 - ls) + dspan) div Q + 1 \<le> S + 1"
proof -
  have "le - 1 - ls \<le> Q - 1" using assms(2) by linarith
  then have "S * (le - 1 - ls) \<le> S * (Q - 1)" by (rule mult_le_mono2)
  also have "S * (Q - 1) = S * Q - S" by (simp add: diff_mult_distrib2)
  finally have "S * (le - 1 - ls) \<le> S * Q - S" .
  moreover have "S \<le> S * Q" using assms(1) by simp
  ultimately have "A + S * (le - 1 - ls) + dspan < Q + S * Q" using assms by linarith
  then have "(A + S * (le - 1 - ls) + dspan) div Q < S + 1" using assms(1) by (simp add: div_less_iff_less_mult)
  then show ?thesis by simp
qed

lemma carry_span_le:
  fixes f :: nat
  assumes "0 < Q"
  shows "f div Q + S * r + (f mod Q + s) div Q \<le> f + S * (Q * r) + s"
proof -
  have "f + S * (Q * r) + s = Q * (f div Q + S * r) + (f mod Q + s)"
    using mult_div_mod_eq [of Q f] by (simp add: distrib_left ac_simps)
  moreover have "f div Q + S * r \<le> Q * (f div Q + S * r)" using assms by simp
  moreover have "(f mod Q + s) div Q \<le> f mod Q + s" by (rule div_le_dividend)
  ultimately show ?thesis by linarith
qed

text \<open>The conditions under which the rows of a row block are contracted without an error.\<close>

definition group_fits ::
  "nat \<Rightarrow> nat \<Rightarrow> 'e::field list \<Rightarrow> 'e list \<Rightarrow> 'e list \<Rightarrow> 'e weight_source \<Rightarrow> nat \<Rightarrow> nat \<Rightarrow> nat \<Rightarrow> nat \<Rightarrow> nat \<Rightarrow> bool" where
  "group_fits S ds dws lo lws hw fh ls le rows bases_n \<longleftrightarrow>
     source_total hw \<and> fh + rows \<le> ws_len hw \<and> fh + rows \<le> usize_max \<and> 0 < rows
     \<and> (lws = [] \<and> lo = [] \<or> length lws = 2 ^ length lo) \<and> ls < le \<and> le \<le> 2 ^ length lo \<and> dws \<noteq> []
     \<and> S * 2 ^ length lo \<le> usize_max \<and> (length dws - 1) * ds < S \<and> rows * bases_n * (S + 1) \<le> MAX_COMPACT_STRIDE_TERMS"

definition address_fits :: "nat \<Rightarrow> nat \<Rightarrow> 'e::field list \<Rightarrow> 'e list \<Rightarrow> nat \<Rightarrow> nat \<Rightarrow> nat \<Rightarrow> nat \<Rightarrow> bool" where
  "address_fits S ds dws lo ls le rows first \<longleftrightarrow>
     first + S * (2 ^ length lo * (rows - 1) + (le - 1 - ls)) + (length dws - 1) * ds \<le> usize_max"

lemma contract_rows:
  fixes hi :: "'e::field list"
  assumes budget: "eq_budget_ok sz 16" and pieces: "\<And>xs. concat (pieces xs) = xs"
    and src: "source_total hw" "fh + rows \<le> ws_len hw" "fh + rows \<le> usize_max" and stride: "S * 2 ^ lb \<le> usize_max"
    and first: "\<And>a. a \<in> set as \<Longrightarrow> aa_first a + S * 2 ^ lb * (rows - 1) \<le> usize_max"
    and carry: "\<And>a. a \<in> set as \<Longrightarrow> aa_first a div 2 ^ lb + S * (rows - 1) + (length sm - 1) \<le> usize_max"
    and work: "rows * length as * length sm \<le> MAX_COMPACT_STRIDE_TERMS" "rows * length as \<le> MAX_COMPACT_STRIDE_TERMS" "0 < rows"
    and heq: "amortized_ok hi heq"
  shows "\<exists>heq'. bindE (accumulate_high_rows_bucketed par sz pieces out hi as S lb hw fh rows sm) (\<lambda>(out, handled).
       if handled then Inr (out, heq)
       else bindE (prepare_for_product par sz heq (length as) rows (length sm)) (\<lambda>heq.
            bindE (try_fold (\<lambda>out address. try_fold (direct_row heq S (2 ^ lb) lb hw fh sm address) out [0..<rows]) out as)
              (\<lambda>out. Inr (out, heq)))) = Inr (out + (\<Sum>a\<leftarrow>as. high_amount hi S lb hw fh rows sm a), heq')
    \<and> amortized_ok hi heq'"
proof -
  have bucketed: "accumulate_high_rows_bucketed par sz pieces out hi as S lb hw fh rows sm = Inr (out, False)
    \<or> accumulate_high_rows_bucketed par sz pieces out hi as S lb hw fh rows sm
       = Inr (out + (\<Sum>a\<leftarrow>as. high_amount hi S lb hw fh rows sm a), True)"
    by (rule bucketed_rows [OF budget pieces src work(1,2)]) (drule carry, linarith)
  have le: "length as \<le> rows * length as" using work(3) by simp
  have bounds: "length as * rows * length sm \<le> usize_max" "length as * rows \<le> usize_max" "length as \<le> usize_max"
    unfolding mult.commute [of "length as"] using le work max_terms_usize by linarith+
  obtain heq' where heq': "prepare_for_product par sz heq (length as) rows (length sm) = Inr heq'" "amortized_ok hi heq'"
    using prepare_ok [OF budget heq bounds] by blast
  have "try_fold (\<lambda>out address. try_fold (direct_row heq' S (2 ^ lb) lb hw fh sm address) out [0..<rows]) out as
      = Inr (out + (\<Sum>a\<leftarrow>as. high_amount hi S lb hw fh rows sm a))"
    by (rule try_fold_plain, rule direct_rows [OF heq'(2) src stride]) (erule first, erule carry)
  with bucketed heq heq' show ?thesis by (elim disjE) simp_all
qed

lemma group_adds:
  fixes lo :: "'e::field list"
  assumes budget: "eq_budget_ok sz 16" and pieces: "\<And>xs. concat (pieces xs) = xs"
    and group: "group_fits S ds dws lo lws hw fh ls le rows (length as)" and as: "as \<noteq> []"
    and fits: "\<And>a. a \<in> set as \<Longrightarrow> address_fits S ds dws lo ls le rows (aa_first a)"
    and residue: "\<And>a. a \<in> set as \<Longrightarrow> aa_first a mod 2 ^ length lo = aa_first (hd as) mod 2 ^ length lo"
    and table: "tbl = None \<or> tbl = Some (eq_table lo 1)"
  shows "adds (\<lambda>s. amortized_ok hi (snd s)) (\<lambda>s (_ :: unit). fst s)
    (\<lambda>s. accumulate_group par sz pieces lo tbl hi S ds dws hw lws (2 ^ length lo) fh ls le rows s as)
    (\<lambda>_. \<Sum>a\<leftarrow>as. address_amount lo hi S ds dws hw lws fh ls le rows a)"
proof -
  define Q A dspan M where "Q = (2::nat) ^ length lo" and "A = aa_first (hd as) mod Q" and "dspan = (length dws - 1) * ds"
    and "M = A + S * (le - 1 - ls) + dspan"
  note g = group [unfolded group_fits_def]
  have low: "ls < le" "le \<le> Q" "A < Q" using g by (simp_all add: Q_def A_def)
  have cc: "M div Q + 1 \<le> S + 1" unfolding M_def using low g by (intro carry_count_le) (auto simp: dspan_def)
  have each: "aa_first a + S * (Q * (rows - 1)) + (S * (le - 1 - ls) + dspan) \<le> usize_max" if "a \<in> set as" for a
    using fits [OF that] by (simp add: address_fits_def Q_def dspan_def distrib_left add.assoc)
  have "A + S * (le - 1 - ls) + dspan \<le> aa_first (hd as) + S * (Q * (rows - 1)) + (S * (le - 1 - ls) + dspan)"
    using mod_less_eq_dividend [of "aa_first (hd as)" Q] by (simp add: A_def trans_le_add1)
  then have M: "M \<le> usize_max" using each [of "hd as"] as unfolding M_def by (meson hd_in_set le_trans)
  obtain sm where sm: "build_affine_low_summaries lo tbl A S ds Q ls le dws lws (M div Q + 1) = Inr sm" "length sm = M div Q + 1"
    "\<And>gg. weighted sm gg = (\<Sum>low\<in>{ls..<le}. low_amount lo A S ds ls dws lws low gg)"
    using low_summaries [of lws lo ls le A S dws ds "M div Q + 1" tbl] g low table M
    by (auto simp: Q_def M_def dspan_def)
  have gw: "rows * length as * (S + 1) \<le> MAX_COMPACT_STRIDE_TERMS" using g by blast
  have one: "1 \<le> rows * length as" using as g by (simp add: Suc_le_eq)
  have "rows * length as * length sm \<le> rows * length as * (S + 1)" using cc sm(2) by (intro mult_le_mono2) simp
  then have work: "rows * length as * length sm \<le> MAX_COMPACT_STRIDE_TERMS" using g by linarith
  have "rows * length as * 1 \<le> rows * length as * length sm" using sm(2) by (intro mult_le_mono2) simp
  then have work': "rows * length as \<le> MAX_COMPACT_STRIDE_TERMS" using work by linarith
  have "1 * (S + 1) \<le> rows * length as * (S + 1)" using one by (rule mult_le_mono1)
  then have "S + 1 \<le> MAX_COMPACT_STRIDE_TERMS" using gw by (simp only: mult_1)
  then have up: "M div Q + 1 \<le> usize_max" using cc max_terms_usize by linarith
  have carry: "aa_first a div Q + S * (rows - 1) + (length sm - 1) \<le> usize_max" if "a \<in> set as" for a
    using carry_span_le [of Q "aa_first a" S "rows - 1" "S * (le - 1 - ls) + dspan"] each [OF that] residue [OF that]
    by (simp add: sm(2) M_def A_def Q_def add.assoc)
  have first: "aa_first a + S * Q * (rows - 1) \<le> usize_max" if "a \<in> set as" for a using each [OF that] by (simp add: mult.assoc)
  have total': "(\<Sum>a\<leftarrow>as. high_amount hi S (length lo) hw fh rows sm a)
      = (\<Sum>a\<leftarrow>as. address_amount lo hi S ds dws hw lws fh ls le rows a)"
    by (rule arg_cong [where f = sum_list], rule map_cong [OF refl], rule high_amount_eq)
      (simp add: sm(3) A_def Q_def residue)
  have mask: "aa_first (hd as) AND (Q - 1) = A" by (simp only: Q_def A_def and_pow2_mask)
  have chk: "Option.bind (checked_sub le ls) (\<lambda>v. checked_sub v 1) = Some (le - 1 - ls)" "checked_sub (length dws) 1 = Some (length dws - 1)"
      "checked_mul S (le - 1 - ls) = Some (S * (le - 1 - ls))"
      "Option.bind (checked_add A (S * (le - 1 - ls))) (\<lambda>v. Option.bind (checked_mul ds (length dws - 1)) (checked_add v)) = Some M"
      "Option.bind (checked_div M Q) (\<lambda>c. checked_add c 1) = Some (M div Q + 1)"
    using low g M up unfolding M_def dspan_def
    by (auto simp: checked_sub_def checked_mul_def checked_add_def checked_div_def Suc_le_eq Q_def mult.commute [of ds])
  show ?thesis
  proof (rule addsI)
    fix s :: "'e \<times> 'e amortized_offset_eq" assume s: "amortized_ok hi (snd s)"
    obtain out heq where s2: "s = (out, heq)" by (cases s)
    have ctx: "source_total hw" "fh + rows \<le> ws_len hw" "fh + rows \<le> usize_max" "S * 2 ^ length lo \<le> usize_max" "0 < rows"
      using g by blast+
    obtain heq' where "accumulate_group par sz pieces lo tbl hi S ds dws hw lws Q fh ls le rows (out, heq) as
        = Inr (out + (\<Sum>a\<leftarrow>as. high_amount hi S (length lo) hw fh rows sm a), heq')" "amortized_ok hi heq'"
      using contract_rows [where as = as and lb = "length lo" and S = S and sm = sm and heq = heq and out = out and par = par,
          OF budget pieces ctx(1-4) first [unfolded Q_def] carry [unfolded Q_def] work work' ctx(5)] s
      unfolding s2 accumulate_group_def prod.case Let_def mask chk ok_or_simps bindE_simps sm(1) Q_def [symmetric] by auto
    then show "\<exists>s'. accumulate_group par sz pieces lo tbl hi S ds dws hw lws (2 ^ length lo) fh ls le rows s as = Inr s' \<and> amortized_ok hi (snd s')
        \<and> (\<forall>_ :: unit. fst s' = fst s + (\<Sum>a\<leftarrow>as. address_amount lo hi S ds dws hw lws fh ls le rows a))"
      unfolding s2 total' Q_def by auto
  qed
qed

subsection \<open>All addresses of a row block\<close>

lemma concat_residue_groups: "concat (residue_groups key xs) = xs"
  by (induction key xs rule: residue_groups.induct) simp_all

lemma residue_groups_same:
  "grp \<in> set (residue_groups key xs) \<Longrightarrow> grp \<noteq> [] \<and> set grp \<subseteq> set xs \<and> length grp \<le> length xs \<and> (\<forall>a \<in> set grp. key a = key (hd grp))"
proof (induction key xs rule: residue_groups.induct)
  case (2 key x xs)
  show ?case
  proof (cases "grp = x # takeWhile (\<lambda>y. key y = key x) xs")
    case True
    then show ?thesis using length_takeWhile_le [of "\<lambda>y. key y = key x" xs] by (auto dest: set_takeWhileD)
  next
    case False
    then have "grp \<in> set (residue_groups key (dropWhile (\<lambda>y. key y = key x) xs))" using "2.prems" by simp
    from "2.IH" [OF this] show ?thesis
      using set_dropWhileD [of _ "\<lambda>y. key y = key x" xs] length_dropWhile_le [of "\<lambda>y. key y = key x" xs] by fastforce
  qed
qed simp

lemma sum_list_sort_key: "(\<Sum>x\<leftarrow>sort_key key xs. f x) = (\<Sum>x\<leftarrow>xs. (f x :: 'e::comm_monoid_add))"
  by (metis mset_map mset_sort sum_mset_sum_list)

text \<open>The terms of the reference sum that a row block covers, for one base.\<close>

definition block_amount ::
  "'e::field list \<Rightarrow> nat \<Rightarrow> nat \<Rightarrow> nat \<Rightarrow> nat \<Rightarrow> 'e list \<Rightarrow> 'e weight_source \<Rightarrow> 'e list \<Rightarrow> nat \<Rightarrow> nat \<Rightarrow> nat \<Rightarrow> nat \<Rightarrow> nat \<Rightarrow> 'e" where
  "block_amount ch Q os S ds dws hw lws fh ls le rows base =
     (\<Sum>row < rows. \<Sum>low\<in>{ls..<le}. outer_weight hw lws ((fh + row) * Q + low)
        * affine_point ch os S ds dws base ((fh + row) * Q + low))"

lemma low_len_eq: "lws = [] \<and> lo = [] \<or> length lws = 2 ^ length lo \<Longrightarrow> max (length lws) 1 = 2 ^ length lo"
  by (auto simp: max_absorb1)

lemma address_amount_eq:
  assumes lo: "lws = [] \<and> lo = [] \<or> length lws = 2 ^ length lo" and le: "le \<le> 2 ^ length lo"
    and os: "os \<le> fh * 2 ^ length lo + ls"
  shows "address_amount lo hi S ds dws hw lws fh ls le rows
      \<lparr>aa_first = base + S * (fh * 2 ^ length lo + ls - os), aa_scale = scale\<rparr>
    = scaled_by scale (block_amount (lo @ hi) (2 ^ length lo) os S ds dws hw lws fh ls le rows base)"
proof -
  define Q where "Q = (2::nat) ^ length lo"
  have weight: "outer_weight hw lws ((fh + row) * Q + low) = the (ws_get hw (fh + row)) * low_value lws low" if "low \<in> {ls..<le}" for row low
  proof -
    have "low < Q" using that le by (simp add: Q_def)
    then have "((fh + row) * Q + low) div Q = fh + row" "((fh + row) * Q + low) mod Q = low" by simp_all
    then show ?thesis unfolding outer_weight_def low_len_eq [OF lo] Q_def [symmetric] Let_def low_value_def by simp
  qed
  have point: "base + S * (fh * Q + ls - os) + S * (Q * row + (low - ls)) = base + S * ((fh + row) * Q + low - os)"
    if "low \<in> {ls..<le}" for row low
  proof -
    have "fh * Q + ls - os + (Q * row + (low - ls)) = (fh + row) * Q + low - os"
      using os that by (simp add: Q_def [symmetric] distrib_right mult.commute [of Q])
    then show ?thesis by (metis add.assoc distrib_left)
  qed
  show ?thesis unfolding address_amount_def block_amount_def Q_def [symmetric] affine_point_def affine_address.simps
    by (intro arg_cong [where f = "scaled_by scale"] sum.cong refl) (simp only: weight point)
qed

lemma affine_addresses_eq:
  assumes "\<And>b. b \<in> set bases \<Longrightarrow> b + delta \<le> usize_max"
  shows "affine_addresses bases scales delta
    = Inr (map (\<lambda>x. \<lparr>aa_first = snd x + delta, aa_scale = get_index scales (fst x)\<rparr>) (enumerate 0 bases))"
proof -
  have "map (\<lambda>(k, b). bindE (ok_or (checked_add b delta) (InvalidInput ''affine row address overflow''))
        (\<lambda>first. Inr \<lparr>aa_first = first, aa_scale = get_index scales k\<rparr>)) (enumerate 0 bases)
      = map (\<lambda>x. Inr \<lparr>aa_first = snd x + delta, aa_scale = get_index scales (fst x)\<rparr>) (enumerate 0 bases)"
    using assms by (intro map_cong) (auto simp: in_enumerate checked_add_def)
  then show ?thesis by (simp only: affine_addresses_def collect_result_map_Inr)
qed

lemma group_fits_mono:
  assumes "group_fits S ds dws lo lws hw fh ls le rows n" and "rows * m * (S + 1) \<le> rows * n * (S + 1)"
  shows "group_fits S ds dws lo lws hw fh ls le rows m"
proof -
  have "rows * n * (S + 1) \<le> MAX_COMPACT_STRIDE_TERMS" using assms(1) unfolding group_fits_def by blast
  with assms(2) have "rows * m * (S + 1) \<le> MAX_COMPACT_STRIDE_TERMS" by (rule le_trans)
  with assms(1) show ?thesis unfolding group_fits_def by blast
qed

lemma groups_adds:
  fixes lo :: "'e::field list"
  assumes budget: "eq_budget_ok sz 16" and pieces: "\<And>xs. concat (pieces xs) = xs"
    and group: "group_fits S ds dws lo lws hw fh ls le rows (length as)" and ne: "as \<noteq> []"
    and fits: "\<And>a. a \<in> set as \<Longrightarrow> address_fits S ds dws lo ls le rows (aa_first a)"
    and table: "tbl = None \<or> tbl = Some (eq_table lo 1)"
    and residue: "residue = (\<lambda>a. aa_first a AND (2 ^ length lo - 1))"
    and groups: "groups = (if length as = 1 then [as] else residue_groups residue (sort_key residue as))"
  shows "adds (\<lambda>s. amortized_ok hi (snd s)) (\<lambda>s (_ :: unit). fst s)
    (\<lambda>s. try_fold (accumulate_group par sz pieces lo tbl hi S ds dws hw lws (2 ^ length lo) fh ls le rows) s groups)
    (\<lambda>_. \<Sum>a\<leftarrow>as. address_amount lo hi S ds dws hw lws fh ls le rows a)"
proof -
  have same: "grp \<noteq> [] \<and> set grp \<subseteq> set as \<and> length grp \<le> length as
      \<and> (\<forall>a \<in> set grp. aa_first a mod 2 ^ length lo = aa_first (hd grp) mod 2 ^ length lo)" if "grp \<in> set groups" for grp
  proof (cases "length as = 1")
    case True
    then show ?thesis using that groups ne by (cases as) auto
  next
    case False
    then have "grp \<in> set (residue_groups residue (sort_key residue as))" using that groups by simp
    from residue_groups_same [OF this, unfolded residue and_pow2_mask set_sort length_sort] show ?thesis .
  qed
  have "adds (\<lambda>s. amortized_ok hi (snd s)) (\<lambda>s (_ :: unit). fst s)
      (\<lambda>s. try_fold (accumulate_group par sz pieces lo tbl hi S ds dws hw lws (2 ^ length lo) fh ls le rows) s groups)
      (\<lambda>_. \<Sum>grp\<leftarrow>groups. \<Sum>a\<leftarrow>grp. address_amount lo hi S ds dws hw lws fh ls le rows a)"
  proof (rule adds_try_fold)
    fix grp assume "grp \<in> set groups"
    note s = same [OF this]
    have "rows * length grp * (S + 1) \<le> rows * length as * (S + 1)" using s by (intro mult_le_mono mult_le_mono2) auto
    then have gf: "group_fits S ds dws lo lws hw fh ls le rows (length grp)" by (rule group_fits_mono [OF group])
    show "adds (\<lambda>s. amortized_ok hi (snd s)) (\<lambda>s (_ :: unit). fst s)
        (\<lambda>s. accumulate_group par sz pieces lo tbl hi S ds dws hw lws (2 ^ length lo) fh ls le rows s grp)
        (\<lambda>_. \<Sum>a\<leftarrow>grp. address_amount lo hi S ds dws hw lws fh ls le rows a)"
    proof (rule group_adds [OF budget pieces gf _ _ _ table])
      show "grp \<noteq> []" using s by blast
      show "address_fits S ds dws lo ls le rows (aa_first a)" if "a \<in> set grp" for a using s that fits by blast
      show "aa_first a mod 2 ^ length lo = aa_first (hd grp) mod 2 ^ length lo" if "a \<in> set grp" for a using s that by blast
    qed
  qed
  moreover have "(\<Sum>grp\<leftarrow>groups. \<Sum>a\<leftarrow>grp. f a) = (\<Sum>a\<leftarrow>as. f a)" for f :: "_ \<Rightarrow> 'e"
    unfolding sum_concat [symmetric] by (simp add: groups concat_residue_groups sum_list_sort_key)
  ultimately show ?thesis by simp
qed

lemma affine_rows_eq:
  fixes lo :: "'e::field list"
  assumes budget: "eq_budget_ok sz 16" and pieces: "\<And>xs. concat (pieces xs) = xs"
    and group: "group_fits S ds dws lo lws hw fh ls le rows (length bases)" and ne: "bases \<noteq> []"
    and os: "os \<le> fh * 2 ^ length lo + ls" "fh * 2 ^ length lo + ls \<le> usize_max"
    and fits: "\<And>b. b \<in> set bases \<Longrightarrow> address_fits S ds dws lo ls le rows (b + S * (fh * 2 ^ length lo + ls - os))"
  shows "accumulate_affine_rows par sz pieces lo hi bases os S ds dws hw lws scales out fh ls le rows
    = Inr (out + (\<Sum>k < length bases. scaled_by (get_index scales k)
        (block_amount (lo @ hi) (2 ^ length lo) os S ds dws hw lws fh ls le rows (bases ! k))))"
proof -
  define Q delta where "Q = (2::nat) ^ length lo" and "delta = S * (fh * Q + ls - os)"
  note g = group [unfolded group_fits_def]
  define tbl where "tbl = (if lws = [] then None else if length lo \<le> OFFSET_EQ_LOW_BITS_CAP then Some (eq_table lo 1) else None)"
  have len: "max (length lws) 1 = Q" using low_len_eq [of lws lo] g by (auto simp: Q_def)
  let ?as = "map (\<lambda>x. \<lparr>aa_first = snd x + delta, aa_scale = get_index scales (fst x)\<rparr>) (enumerate 0 bases)"
  let ?residue = "\<lambda>a :: 'e affine_address. aa_first a AND (Q - 1)"
  let ?groups = "if length bases = 1 then [?as] else residue_groups ?residue (sort_key ?residue ?as)"
  have first: "address_fits S ds dws lo ls le rows (aa_first a)" if "a \<in> set ?as" for a
    using that fits by (auto simp: in_enumerate delta_def Q_def)
  have addrs: "affine_addresses bases scales delta = Inr ?as"
    by (rule affine_addresses_eq, drule fits) (simp add: address_fits_def delta_def Q_def)
  have delta: "delta \<le> usize_max" using fits [of "hd bases"] ne by (simp add: address_fits_def delta_def Q_def)
  have tables: "(if lws = [] then Inr None else if length lo \<le> OFFSET_EQ_LOW_BITS_CAP
      then bindE (evals par sz lo) (\<lambda>table. Inr (Some table)) else Inr None) = Inr tbl"
    using eq_budget_ok_mono [OF budget, of "length lo"] evals_Inr_iff [of par sz lo "eq_table lo 1"]
    by (auto simp: tbl_def OFFSET_EQ_LOW_BITS_CAP_def)
  have get: "\<exists>v. ws_get hw fh = Some v" using g by (auto simp: source_total_def)
  have "adds (\<lambda>s. amortized_ok hi (snd s)) (\<lambda>s (_ :: unit). fst s)
      (\<lambda>s. try_fold (accumulate_group par sz pieces lo tbl hi S ds dws hw lws (2 ^ length lo) fh ls le rows) s ?groups)
      (\<lambda>_. \<Sum>a\<leftarrow>?as. address_amount lo hi S ds dws hw lws fh ls le rows a)"
    by (rule groups_adds [OF budget pieces _ _ first]) (use group ne in \<open>simp_all add: tbl_def Q_def enumerate_eq_zip zip_eq_Nil_iff\<close>)
  then obtain heq where "try_fold (accumulate_group par sz pieces lo tbl hi S ds dws hw lws Q fh ls le rows) (out, amortized_new hi) ?groups
      = Inr (out + (\<Sum>a\<leftarrow>?as. address_amount lo hi S ds dws hw lws fh ls le rows a), heq)"
    unfolding Q_def [symmetric] by (rule addsE [where s = "(out, amortized_new hi)"]) auto
  moreover have "(\<Sum>a\<leftarrow>?as. address_amount lo hi S ds dws hw lws fh ls le rows a)
      = (\<Sum>k < length bases. scaled_by (get_index scales k) (block_amount (lo @ hi) Q os S ds dws hw lws fh ls le rows (bases ! k)))"
    using g os address_amount_eq [of lws lo le os fh ls hi S ds dws hw rows]
      sum_enumerate [of "\<lambda>k b. scaled_by (get_index scales k) (block_amount (lo @ hi) Q os S ds dws hw lws fh ls le rows b)" bases]
    by (simp add: comp_def delta_def Q_def)
  ultimately show ?thesis using get addrs tables os delta
    unfolding accumulate_affine_rows_def len Let_def Q_def [symmetric]
    by (auto simp: checked_mul_def checked_add_def checked_sub_def delta_def [symmetric] simp flip: Q_def)
qed

subsection \<open>The rows of a window\<close>

lemma split_aligned:
  fixes a e Q :: nat
  assumes "a mod Q = 0" and "a \<le> e" and "0 < Q"
  shows "min (max (e - e mod Q) a) e = e - e mod Q" "(e - e mod Q - a) div Q = (e - a) div Q"
proof -
  obtain k where a: "a = Q * k" using assms(1) by auto
  obtain n where e: "e = Q * k + n" using assms(2) a le_Suc_ex by blast
  have m: "e mod Q = n mod Q" by (simp add: e)
  have "n mod Q \<le> n" by simp
  then have le: "a \<le> e - e mod Q" using m unfolding a e by linarith
  then show "min (max (e - e mod Q) a) e = e - e mod Q" by (simp add: max_absorb1)
  have "e - e mod Q - a = Q * (n div Q)" unfolding m using \<open>n mod Q \<le> n\<close> by (simp add: e a minus_mod_eq_mult_div)
  then show "(e - e mod Q - a) div Q = (e - a) div Q" using assms(3) by (simp add: e a)
qed

definition prefix_len :: "nat \<Rightarrow> nat \<Rightarrow> nat \<Rightarrow> nat" where
  "prefix_len Q os n = min n ((Q - os mod Q) mod Q)"

lemma prefix_len_facts:
  assumes "0 < Q"
  shows "prefix_len Q os n \<le> n" "os mod Q + prefix_len Q os n \<le> Q"
    "prefix_len Q os n < n \<Longrightarrow> (os + prefix_len Q os n) mod Q = 0"
proof -
  show "prefix_len Q os n \<le> n" by (simp add: prefix_len_def)
  have "os mod Q + (Q - os mod Q) mod Q \<le> Q"
    using assms mod_less_eq_dividend [of "Q - os mod Q" Q] mod_less_divisor [OF assms, of os] by linarith
  then show "os mod Q + prefix_len Q os n \<le> Q" by (simp add: prefix_len_def min_def)
  assume "prefix_len Q os n < n"
  then have "prefix_len Q os n = (Q - os mod Q) mod Q" by (simp add: prefix_len_def min_def split: if_splits)
  then have "(os + prefix_len Q os n) mod Q = (os mod Q + (Q - os mod Q)) mod Q" by (simp add: mod_simps)
  also have "\<dots> = 0" using mod_less_divisor [OF assms, of os] by simp
  finally show "(os + prefix_len Q os n) mod Q = 0" .
qed

lemma split_rows_eq:
  assumes "0 < Q" and "0 < n" and "os + n \<le> cap * Q" and "cap * Q \<le> usize_max"
  defines "p \<equiv> prefix_len Q os n"
  shows "split_rows Q os (os + n) = Inr \<lparr>rs_prefix_span = p, rs_full_start = os + p, rs_full_rows = (n - p) div Q,
    rs_cursor = os + p + (n - p) div Q * Q, rs_suffix_span = (n - p) mod Q\<rparr>"
proof -
  have p: "p \<le> n" "p < n \<Longrightarrow> (os + p) mod Q = 0" using prefix_len_facts(1,3) [OF assms(1)] by (simp_all add: p_def)
  have start: "(if os mod Q = 0 then Inr os else bindE (ok_or (checked_add os (Q - os mod Q)) e) (\<lambda>boundary. Inr (min (os + n) boundary)))
      = Inr (os + p)" for e
  proof (cases "os mod Q = 0")
    case False
    have m: "os mod Q < Q" using assms(1) by simp
    then have p': "p = min n (Q - os mod Q)" using False by (simp add: p_def prefix_len_def)
    have "os div Q < cap" using assms(1,2,3) by (simp add: div_less_iff_less_mult)
    then have "(os div Q + 1) * Q \<le> cap * Q" by (intro mult_le_mono1) simp
    moreover have "os + (Q - os mod Q) = (os div Q + 1) * Q" 
    proof -
      have "(os div Q + 1) * Q = os div Q * Q + Q" by simp
      then show ?thesis using m div_mult_mod_eq [of os Q] by linarith
    qed
    ultimately have "checked_add os (Q - os mod Q) = Some (os + (Q - os mod Q))" using assms(4) by (simp add: checked_add_def)
    then show ?thesis using False by (simp add: p')
  qed (simp add: p_def prefix_len_def)
  have full: "(min (max (os + n - (os + n) mod Q) (os + p)) (os + n) - (os + p)) div Q = (n - p) div Q"
  proof (cases "p < n")
    case True
    then show ?thesis using split_aligned [OF p(2) _ assms(1), of "os + n"] p(1) by simp
  qed (use p(1) in simp)
  have "(n - p) div Q * Q \<le> n - p" by (rule div_times_less_eq_dividend)
  then have cur: "(n - p) div Q * Q \<le> usize_max" "os + p + (n - p) div Q * Q \<le> usize_max" using assms(3,4) p(1) by linarith+
  have suf: "os + n - (os + p + (n - p) div Q * Q) = (n - p) mod Q"
    using p(1) by (simp add: minus_div_mult_eq_mod diff_diff_left [symmetric])
  show ?thesis unfolding split_rows_def start bindE_simps Let_def full using cur suf
    by (simp add: checked_mul_def checked_add_def)
qed

lemma checked_add3:
  "Option.bind (checked_add a b) (\<lambda>s. checked_add s c) = (if a + b + c \<le> usize_max then Some (a + b + c) else None)"
  by (simp add: checked_add_def)

lemma checked_mul_add:
  "Option.bind (checked_mul a b) (\<lambda>x. Option.bind (checked_mul c d) (checked_add x))
    = (if a * b + c * d \<le> usize_max then Some (a * b + c * d) else None)"
  by (simp add: checked_add_def checked_mul_def)

lemma affine_work_iff:
  assumes "0 < dn" and "0 < cc" and "0 < nb"
  shows "affine_work Q rs dn cc nb = Inr w \<longleftrightarrow>
     w = (dn * (rs_prefix_span rs + rs_suffix_span rs + (if rs_full_rows rs = 0 then 0 else Q))
        + ((if rs_prefix_span rs \<noteq> 0 then 1 else 0) + rs_full_rows rs + (if rs_suffix_span rs \<noteq> 0 then 1 else 0)) * cc) * nb
     \<and> w \<le> usize_max"
proof -
  define l r where "l = rs_prefix_span rs + rs_suffix_span rs + (if rs_full_rows rs = 0 then 0 else Q)"
    and "r = (if rs_prefix_span rs \<noteq> 0 then 1 else 0) + rs_full_rows rs + (if rs_suffix_span rs \<noteq> 0 then 1 else 0)"
  have le: "l \<le> dn * l" "r \<le> r * cc" "dn * l + r * cc \<le> (dn * l + r * cc) * nb" using assms by simp_all
  have "affine_work Q rs dn cc nb = Inr w \<longleftrightarrow> w = (dn * l + r * cc) * nb \<and> w \<le> usize_max"
  proof (cases "(dn * l + r * cc) * nb \<le> usize_max")
    case True
    then have "l \<le> usize_max" "r \<le> usize_max" "dn * l + r * cc \<le> usize_max" using le by linarith+
    with True show ?thesis
      unfolding affine_work_def checked_add3 l_def [symmetric] r_def [symmetric] checked_mul_add
      by (simp only: if_True ok_or_simps bindE_simps checked_mul_add) (auto simp: checked_mul_def)
  next
    case False
    then show ?thesis
      unfolding affine_work_def checked_add3 l_def [symmetric] r_def [symmetric]
      by (auto simp: result_simps checked_mul_add checked_mul_def [of _ nb] simp del: mult_cancel2)
  qed
  then show ?thesis by (simp only: l_def r_def)
qed

subsection \<open>The general path\<close>

lemma affine_sum_concat:
  assumes "a \<le> b" and "b \<le> c"
  shows "affine_sum ch bases os S ds dws hw lws scales {a..<b} + affine_sum ch bases os S ds dws hw lws scales {b..<c}
    = affine_sum ch bases os S ds dws hw lws scales {a..<c}"
  using assms by (simp add: affine_sum_def affine_range_def scaled_by_add [symmetric] sum.distrib [symmetric] sum.atLeastLessThan_concat)

lemma affine_sum_empty [simp]: "affine_sum ch bases os S ds dws hw lws scales {} = 0"
  by (simp add: affine_sum_def affine_range_def)

lemma affine_sum_no_bases [simp]: "affine_sum ch [] os S ds dws hw lws scales I = 0"
  by (simp add: affine_sum_def)

lemma partial_row: "(\<Sum>row < 1. \<Sum>low\<in>{ls..<le}. F ((fh + row) * Q + low)) = sum F {fh * Q + ls..<fh * Q + le}"
  for F :: "nat \<Rightarrow> 'e::comm_monoid_add"
  using sum.shift_bounds_nat_ivl [of F ls "fh * Q" le] by (simp add: add.commute)

lemma full_rows: "(\<Sum>row < r. \<Sum>low\<in>{0..<Q}. F ((fh + row) * Q + low)) = sum F {fh * Q..<(fh + r) * Q}"
  for F :: "nat \<Rightarrow> 'e::comm_monoid_add"
proof (induction r)
  case (Suc r)
  have "(\<Sum>low\<in>{0..<Q}. F ((fh + r) * Q + low)) = sum F {(fh + r) * Q..<(fh + Suc r) * Q}"
    using partial_row [where F = F and ls = 0 and le = Q and fh = "fh + r" and Q = Q] by (simp add: add.commute)
  moreover have "sum F {fh * Q..<(fh + r) * Q} + sum F {(fh + r) * Q..<(fh + Suc r) * Q} = sum F {fh * Q..<(fh + Suc r) * Q}"
    by (rule sum.atLeastLessThan_concat) (simp_all add: distrib_right)
  ultimately show ?case using Suc by simp
qed simp

text \<open>The conditions of the general path, with the address bound of every base.\<close>

definition general_fits ::
  "nat \<Rightarrow> nat \<Rightarrow> 'e::field list \<Rightarrow> 'e list \<Rightarrow> 'e list \<Rightarrow> 'e weight_source \<Rightarrow> nat \<Rightarrow> nat \<Rightarrow> nat list \<Rightarrow> bool" where
  "general_fits S ds dws lo lws hw os n bases \<longleftrightarrow>
     source_total hw \<and> os + n \<le> ws_len hw * 2 ^ length lo \<and> ws_len hw * 2 ^ length lo \<le> usize_max \<and> bases \<noteq> []
     \<and> (lws = [] \<and> lo = [] \<or> length lws = 2 ^ length lo) \<and> dws \<noteq> []
     \<and> S * 2 ^ length lo \<le> usize_max \<and> (length dws - 1) * ds < S
     \<and> (\<forall>b \<in> set bases. b + S * (n - 1) + (length dws - 1) * ds \<le> usize_max)"

lemma segment_eq:
  fixes lo :: "'e::field list"
  assumes budget: "eq_budget_ok sz 16" and pieces: "\<And>xs. concat (pieces xs) = xs"
    and gen: "general_fits S ds dws lo lws hw os n bases"
    and seg: "ls < le" "le \<le> 2 ^ length lo" "0 < rows" "os \<le> fh * 2 ^ length lo + ls" "(fh + rows - 1) * 2 ^ length lo + le \<le> os + n"
    and work: "rows * length bases * (S + 1) \<le> MAX_COMPACT_STRIDE_TERMS"
    and cover: "\<And>F :: nat \<Rightarrow> 'e. (\<Sum>row < rows. \<Sum>low\<in>{ls..<le}. F ((fh + row) * 2 ^ length lo + low)) = sum F I"
  shows "accumulate_affine_rows par sz pieces lo hi bases os S ds dws hw lws scales out fh ls le rows
    = Inr (out + affine_sum (lo @ hi) bases os S ds dws hw lws scales I)"
proof -
  define Q where "Q = (2::nat) ^ length lo"
  note g = gen [unfolded general_fits_def, folded Q_def] and s = seg [folded Q_def]
  have Q: "0 < Q" by (simp add: Q_def)
  have "(fh + rows - 1) * Q < ws_len hw * Q" using g s by linarith
  then have "fh + rows - 1 < ws_len hw" by simp
  then have fh: "fh + rows \<le> ws_len hw" by linarith
  have "ws_len hw * 1 \<le> ws_len hw * Q" using Q by (intro mult_le_mono2) simp
  then have "fh + rows \<le> usize_max" using fh g by linarith
  then have group: "group_fits S ds dws lo lws hw fh ls le rows (length bases)"
    unfolding group_fits_def Q_def [symmetric] using g s work fh by blast
  have split: "(fh + rows - 1) * Q = fh * Q + Q * (rows - 1)" using s(3) by (cases rows) (simp_all add: algebra_simps)
  have addr: "address_fits S ds dws lo ls le rows (b + S * (fh * Q + ls - os))" if "b \<in> set bases" for b
  proof -
    have "fh * Q + ls - os + (Q * (rows - 1) + (le - 1 - ls)) \<le> n - 1" using s split by linarith
    then have "S * (fh * Q + ls - os + (Q * (rows - 1) + (le - 1 - ls))) \<le> S * (n - 1)" by (rule mult_le_mono2)
    moreover have "b + S * (n - 1) + (length dws - 1) * ds \<le> usize_max" using g that by blast
    ultimately show ?thesis unfolding address_fits_def Q_def [symmetric] distrib_left [of S "fh * Q + ls - os"] by linarith
  qed
  have block: "block_amount (lo @ hi) Q os S ds dws hw lws fh ls le rows b = affine_range (lo @ hi) os S ds dws hw lws I b" for b
    unfolding block_amount_def affine_range_def Q_def by (rule cover)
  have "fh * Q + ls \<le> usize_max" using g s split by linarith
  then show ?thesis
    using affine_rows_eq [where hi = hi and scales = scales and par = par and out = out, OF budget pieces group _ seg(4), folded Q_def, OF _ _ addr] g
    by (simp add: affine_sum_def block)
qed

definition general_cost :: "nat \<Rightarrow> nat \<Rightarrow> nat \<Rightarrow> nat \<Rightarrow> nat \<Rightarrow> nat \<Rightarrow> nat" where
  "general_cost low_len outer_start live_len outer_stride digit_count base_count =
     (let p = prefix_len low_len outer_start live_len; f = (live_len - p) div low_len; s = (live_len - p) mod low_len in
      (digit_count * (p + s + (if f = 0 then 0 else low_len))
        + ((if p \<noteq> 0 then 1 else 0) + f + (if s \<noteq> 0 then 1 else 0)) * (outer_stride + 1)) * base_count)"

lemma cost_rows:
  assumes "p = prefix_len Q os n" "f = (n - p) div Q" "s = (n - p) mod Q"
    and "r \<le> (if p \<noteq> 0 then 1 else 0) + f + (if s \<noteq> 0 then 1 else 0)"
  shows "r * nb * (S + 1) \<le> general_cost Q os n S dn nb"
proof -
  let ?r = "(if p \<noteq> 0 then 1 else 0) + f + (if s \<noteq> 0 then 1 else 0)"
  have "r * nb * (S + 1) = r * (S + 1) * nb" by (simp only: ac_simps)
  also have "\<dots> \<le> ?r * (S + 1) * nb" using assms(4) by (intro mult_le_mono1)
  also have "\<dots> \<le> general_cost Q os n S dn nb"
    unfolding general_cost_def Let_def assms(1-3) by (intro mult_le_mono1) (rule le_add2)
  finally show ?thesis .
qed

text \<open>The three row blocks of a window add its three parts.\<close>

lemma blocks_eq:
  fixes lo hi scales :: "'e::field list" and par :: bool
  assumes budget: "eq_budget_ok sz 16" and pieces: "\<And>xs. concat (pieces xs) = xs"
    and gen: "general_fits S ds dws lo lws hw os n bases" and n: "0 < n"
    and cost: "general_cost (2 ^ length lo) os n S (length dws) (length bases) \<le> MAX_COMPACT_STRIDE_TERMS"
  defines "Q \<equiv> (2::nat) ^ length lo"
  defines "p \<equiv> prefix_len Q os n"
  defines "f \<equiv> (n - p) div Q" and "s \<equiv> (n - p) mod Q"
  defines "rows \<equiv> accumulate_affine_rows par sz pieces lo hi bases os S ds dws hw lws scales"
    and "part \<equiv> affine_sum (lo @ hi) bases os S ds dws hw lws scales"
  shows "p \<noteq> 0 \<Longrightarrow> rows out (os div Q) (os mod Q) (os mod Q + p) 1 = Inr (out + part {os..<os + p})"
    and "f \<noteq> 0 \<Longrightarrow> rows out ((os + p) div Q) 0 Q f = Inr (out + part {os + p..<os + p + f * Q})"
    and "s \<noteq> 0 \<Longrightarrow> rows out ((os + p + f * Q) div Q) 0 s 1 = Inr (out + part {os + p + f * Q..<os + n})"
proof -
  have Q: "0 < Q" by (simp add: Q_def)
  note pl = prefix_len_facts [OF Q, of os n, folded p_def]
  have n_split: "p + f * Q + s = n" using pl(1) div_mult_mod_eq [of "n - p" Q] by (simp add: f_def s_def)
  have aligned: "(os + p) div Q * Q = os + p" if "p < n" using pl(3) [OF that] by (metis add_0_right div_mult_mod_eq)
  have work: "r * length bases * (S + 1) \<le> MAX_COMPACT_STRIDE_TERMS"
    if "r \<le> (if p \<noteq> 0 then 1 else 0) + f + (if s \<noteq> 0 then 1 else 0)" for r
    using cost_rows [OF p_def [THEN meta_eq_to_obj_eq] f_def [THEN meta_eq_to_obj_eq] s_def [THEN meta_eq_to_obj_eq] that] cost
    unfolding Q_def by (rule le_trans)
  have os: "os div Q * Q + os mod Q = os" by simp
  note seg = segment_eq [where hi = hi and scales = scales and par = par and out = out, OF budget pieces gen, folded Q_def part_def rows_def]
  show "rows out (os div Q) (os mod Q) (os mod Q + p) 1 = Inr (out + part {os..<os + p})" if "p \<noteq> 0"
  proof (rule seg)
    show "(\<Sum>row < 1. \<Sum>low\<in>{os mod Q..<os mod Q + p}. F ((os div Q + row) * Q + low)) = sum F {os..<os + p}" for F :: "nat \<Rightarrow> 'e"
      using partial_row [where F = F and fh = "os div Q" and ls = "os mod Q" and le = "os mod Q + p" and Q = Q] os
      by (simp add: add.assoc [symmetric])
    show "(os div Q + 1 - 1) * Q + (os mod Q + p) \<le> os + n" using os pl(1) by simp
  qed (use that pl(2) work [of 1] in simp_all)
  show "rows out ((os + p) div Q) 0 Q f = Inr (out + part {os + p..<os + p + f * Q})" if "f \<noteq> 0"
  proof (rule seg)
    have "p < n" using that by (cases "p < n") (simp_all add: f_def)
    note a = aligned [OF this]
    show "(\<Sum>row < f. \<Sum>low\<in>{0..<Q}. F (((os + p) div Q + row) * Q + low)) = sum F {os + p..<os + p + f * Q}" for F :: "nat \<Rightarrow> 'e"
      using full_rows [where F = F and fh = "(os + p) div Q" and Q = Q and r = f] by (simp only: distrib_right a)
    show "os \<le> (os + p) div Q * Q + 0" by (simp add: a)
    have "((os + p) div Q + f - 1) * Q + Q = ((os + p) div Q + f) * Q" using that by (cases f) (simp_all add: algebra_simps)
    also have "\<dots> = os + p + f * Q" by (simp only: distrib_right a)
    finally show "((os + p) div Q + f - 1) * Q + Q \<le> os + n" using n_split by linarith
  qed (use that Q work [of f] in simp_all)
  show "rows out ((os + p + f * Q) div Q) 0 s 1 = Inr (out + part {os + p + f * Q..<os + n})" if "s \<noteq> 0"
  proof (rule seg)
    have "p < n" using that by (cases "p < n") (simp_all add: s_def)
    then have a: "(os + p + f * Q) div Q * Q = os + p + f * Q" using aligned Q by (simp add: distrib_right)
    have e: "os + p + f * Q + s = os + n" using n_split by linarith
    show "(\<Sum>row < 1. \<Sum>low\<in>{0..<s}. F (((os + p + f * Q) div Q + row) * Q + low)) = sum F {os + p + f * Q..<os + n}" for F :: "nat \<Rightarrow> 'e"
      using partial_row [where F = F and fh = "(os + p + f * Q) div Q" and ls = 0 and le = s and Q = Q] unfolding a e by simp
    show "os \<le> (os + p + f * Q) div Q * Q + 0" unfolding a by simp
    show "((os + p + f * Q) div Q + 1 - 1) * Q + s \<le> os + n" unfolding add_diff_cancel_right' a e ..
    show "s \<le> Q" using Q by (simp add: s_def less_imp_le)
  qed (use that work [of 1] in simp_all)
qed

lemma cost_stride:
  assumes "0 < n" and "0 < nb" and "0 < Q" "Q \<le> 2 ^ 36" and cost: "general_cost Q os n S dn nb \<le> MAX_COMPACT_STRIDE_TERMS"
  shows "S * Q \<le> usize_max"
proof -
  define p where "p = prefix_len Q os n"
  define f s where "f = (n - p) div Q" and "s = (n - p) mod Q"
  have "p + f * Q + s = n" using prefix_len_facts(1) [OF assms(3), of os n] div_mult_mod_eq [of "n - p" Q] by (simp add: p_def f_def s_def)
  then have "1 \<le> (if p \<noteq> 0 then 1 else 0) + f + (if s \<noteq> 0 then 1 else 0)"
    using assms(1) by (cases "p = 0"; cases "f = 0"; cases "s = 0") auto
  from cost_rows [OF p_def f_def s_def this, of nb S dn] cost
  have "1 * nb * (S + 1) \<le> MAX_COMPACT_STRIDE_TERMS" by (rule le_trans)
  moreover have "1 * (S + 1) \<le> 1 * nb * (S + 1)" using assms(2) by (intro mult_le_mono1) (simp add: Suc_le_eq)
  ultimately have "S + 1 \<le> 2 ^ 28" unfolding MAX_COMPACT_STRIDE_TERMS_def mult_1 by (rule le_trans [rotated])
  then have "S \<le> 2 ^ 28 - 1" by simp
  then have "S * Q \<le> (2 ^ 28 - 1) * 2 ^ 36" using assms(4) by (intro mult_le_mono)
  then show ?thesis by (simp add: usize_max_def)
qed

lemma low_factor_shape:
  assumes "max (length lws) 1 = (2::nat) ^ length lo"
  shows "lws = [] \<and> lo = [] \<or> length lws = 2 ^ length lo"
proof (cases "lws = []")
  case True
  then have "length lo = 0" using assms by (cases "length lo") simp_all
  with True show ?thesis by simp
next
  case False
  then have "max (length lws) 1 = length lws" by (intro max_absorb1) (simp add: Suc_le_eq)
  with assms show ?thesis by simp
qed

lemma general_eq:
  fixes ch :: "'e::field list"
  assumes budget: "eq_budget_ok sz 16" and pieces: "\<And>xs. concat (pieces xs) = xs"
    and q: "max (length lws) 1 = 2 ^ q" "q \<le> length ch" "length lws \<le> 2 ^ 36" and n: "0 < n" and ne: "bases \<noteq> []" "dws \<noteq> []"
    and src: "source_total hw" "os + n \<le> ws_len hw * 2 ^ q" "ws_len hw * 2 ^ q \<le> usize_max"
    and span': "(length dws - 1) * ds < S"
    and fits: "\<forall>b \<in> set bases. b + S * (n - 1) + (length dws - 1) * ds \<le> usize_max"
  shows "eval_affine_general par sz pieces ch bases os (os + n) (S + 1) S ds dws hw lws scales = Inr v
    \<longleftrightarrow> general_cost (2 ^ q) os n S (length dws) (length bases) \<le> MAX_COMPACT_STRIDE_TERMS
      \<and> v = affine_sum ch bases os S ds dws hw lws scales {os..<os + n}"
proof -
  define Q lo hi where "Q = (2::nat) ^ q" and "lo = take q ch" and "hi = drop q ch"
  have lo: "length lo = q" "lo @ hi = ch" using q(2) by (simp_all add: lo_def hi_def)
  define p where "p = prefix_len Q os n"
  define f s where "f = (n - p) div Q" and "s = (n - p) mod Q"
  let ?cost = "general_cost Q os n S (length dws) (length bases)"
  have Q: "0 < Q" by (simp add: Q_def)
  have rs: "split_rows Q os (os + n) = Inr \<lparr>rs_prefix_span = p, rs_full_start = os + p, rs_full_rows = f,
      rs_cursor = os + p + f * Q, rs_suffix_span = s\<rparr>" (is "_ = Inr ?rs")
    using split_rows_eq [OF Q n src(2,3) [folded Q_def]] by (simp add: p_def f_def s_def)
  have work: "affine_work Q ?rs (length dws) (S + 1) (length bases) = Inr w \<longleftrightarrow> w = ?cost \<and> w \<le> usize_max" for w
    using affine_work_iff [of "length dws" "S + 1" "length bases" Q ?rs w] ne
    by (simp add: general_cost_def Let_def p_def [symmetric] f_def [symmetric] s_def [symmetric] del: One_nat_def)
  show ?thesis
  proof (cases "?cost \<le> MAX_COMPACT_STRIDE_TERMS")
    case False
    then have "affine_work Q ?rs (length dws) (S + 1) (length bases) = Inr w \<Longrightarrow> MAX_COMPACT_STRIDE_TERMS < w" for w
      by (auto simp only: work not_le)
    then show ?thesis using False unfolding eval_affine_general_def q(1) Q_def [symmetric] Let_def rs
      by (auto simp: result_simps)
  next
    case True
    have pn: "p \<le> n" using prefix_len_facts(1) [OF Q] by (simp add: p_def)
    have n_split: "p + f * Q + s = n" using pn div_mult_mod_eq [of "n - p" Q] by (simp add: f_def s_def)
    have "Q \<le> 2 ^ 36" using q(1,3) unfolding Q_def [symmetric] by simp
    then have stride: "S * Q \<le> usize_max" using cost_stride [OF n _ Q _ True] ne by simp
    have "lws = [] \<and> lo = [] \<or> length lws = Q" using low_factor_shape [of lws lo] q(1) by (simp only: lo(1) Q_def)
    then have gen: "general_fits S ds dws lo lws hw os n bases"
      unfolding general_fits_def lo(1) Q_def [symmetric] using src [folded Q_def] ne span' fits stride by blast
    note blocks = blocks_eq [where hi = hi and par = par and scales = scales, OF budget pieces gen n, unfolded lo, folded Q_def, OF True,
      folded p_def, folded f_def s_def]
    let ?sum = "affine_sum ch bases os S ds dws hw lws scales"
    have w: "affine_work Q ?rs (length dws) (S + 1) (length bases) = Inr ?cost" using work True max_terms_usize by simp
    have "eval_affine_general par sz pieces ch bases os (os + n) (S + 1) S ds dws hw lws scales
        = Inr (?sum {os..<os + p} + ?sum {os + p..<os + p + f * Q} + ?sum {os + p + f * Q..<os + n})"
      unfolding eval_affine_general_def q(1) Q_def [symmetric] Let_def rs bindE_simps w row_split.simps
      using True blocks n_split
      by (auto simp: Q_def [symmetric] trailing_zeros_pow2 [of q, folded Q_def] lo_def [symmetric] hi_def [symmetric] not_less
        simp del: One_nat_def)
    also have "?sum {os..<os + p} + ?sum {os + p..<os + p + f * Q} = ?sum {os..<os + p + f * Q}" by (rule affine_sum_concat) simp_all
    also have "?sum {os..<os + p + f * Q} + ?sum {os + p + f * Q..<os + n} = ?sum {os..<os + n}"
      by (rule affine_sum_concat) (use n_split in linarith)+
    finally show ?thesis using True by (auto simp: Q_def)
  qed
qed

subsection \<open>The evaluator\<close>

text \<open>
  The documented conditions, over the natural numbers: matching scales, a low length that is a power
  of two within the challenges, digits that fit below the outer stride, a window inside the weights,
  addresses inside the equality domain, and the work bound of the path taken.
\<close>

definition affine_geometry ::
  "'e::field list \<Rightarrow> nat list \<Rightarrow> nat \<Rightarrow> nat \<Rightarrow> nat \<Rightarrow> nat \<Rightarrow> 'e list \<Rightarrow> 'e weight_source \<Rightarrow> 'e list \<Rightarrow> 'e list \<Rightarrow> bool" where
  "affine_geometry challenges base_offsets outer_start live_len outer_stride digit_stride digit_weights high low base_scales \<longleftrightarrow>
     (let low_len = max (length low) 1; digit_span = (length digit_weights - 1) * digit_stride in
      (base_scales = [] \<or> length base_scales = length base_offsets)
      \<and> digit_weights \<noteq> [] \<and> 0 < digit_stride \<and> digit_span < outer_stride \<and> outer_stride < usize_max
      \<and> is_power_of_two low_len \<and> trailing_zeros low_len \<le> length challenges
      \<and> outer_start + live_len \<le> ws_len high * low_len \<and> ws_len high * low_len \<le> usize_max
      \<and> (\<forall>base \<in> set base_offsets.
           base + outer_stride * (live_len - 1) + digit_span \<le> usize_max
           \<and> (length challenges < usize_bits \<longrightarrow> base + outer_stride * (live_len - 1) + digit_span < 2 ^ length challenges)))"

definition affine_cost :: "'e::field list \<Rightarrow> nat list \<Rightarrow> nat \<Rightarrow> nat \<Rightarrow> nat \<Rightarrow> 'e list \<Rightarrow> 'e list \<Rightarrow> nat" where
  "affine_cost challenges base_offsets outer_start live_len outer_stride digit_weights low =
     (if low = [] \<and> is_power_of_two outer_stride \<and> trailing_zeros outer_stride \<le> length challenges
      then length base_offsets * (2 * live_len + length digit_weights)
      else general_cost (max (length low) 1) outer_start live_len outer_stride (length digit_weights) (length base_offsets))"

definition affine_accepts ::
  "'e::field list \<Rightarrow> nat list \<Rightarrow> nat \<Rightarrow> nat \<Rightarrow> nat \<Rightarrow> nat \<Rightarrow> 'e list \<Rightarrow> 'e weight_source \<Rightarrow> 'e list \<Rightarrow> 'e list \<Rightarrow> bool" where
  "affine_accepts challenges base_offsets outer_start live_len outer_stride digit_stride digit_weights high low base_scales \<longleftrightarrow>
     (ws_get high 0 \<noteq> None \<or> low \<noteq> [])
     \<and> (live_len = 0 \<or> base_offsets = []
        \<or> affine_geometry challenges base_offsets outer_start live_len outer_stride digit_stride digit_weights high low base_scales
          \<and> affine_cost challenges base_offsets outer_start live_len outer_stride digit_weights low \<le> MAX_COMPACT_STRIDE_TERMS)"

lemma check_addresses:
  "try_fold (check_address c addr_span) () bases = Inr () \<longleftrightarrow>
     (\<forall>b \<in> set bases. b + addr_span \<le> usize_max \<and> (c < usize_bits \<longrightarrow> b + addr_span < 2 ^ c))"
  by (induction bases) (auto simp: check_address_def checked_add_def result_simps not_le)

lemma affine_preamble:
  assumes "ws_get hw 0 \<noteq> None \<or> lws \<noteq> []" and "n \<noteq> 0" and "bases \<noteq> []"
  shows "eval_affine_digit_intervals par sz pieces ch bases os n S ds dws hw lws scales = Inr v \<longleftrightarrow>
    affine_geometry ch bases os n S ds dws hw lws scales
    \<and> bindE (try_eval_bit_aligned_digit_intervals par sz ch bases os n S ds dws hw lws scales) (\<lambda>aligned. case aligned of
        Some v \<Rightarrow> Inr v
      | None \<Rightarrow> eval_affine_general par sz pieces ch bases os (os + n) (S + 1) S ds dws hw lws scales) = Inr v"
    (is "_ \<longleftrightarrow> ?geo \<and> ?rest = Inr v")
proof (cases ?geo)
  case True
  obtain b where b: "b \<in> set bases" using assms(3) by (cases bases) auto
  note g = True [unfolded affine_geometry_def Let_def]
  let ?Q = "max (length lws) 1" and ?dspan = "(length dws - 1) * ds"
  have fits: "?dspan \<le> usize_max" "S + 1 \<le> usize_max" "os + n \<le> usize_max" using g by auto
  have "b + S * (n - 1) + ?dspan \<le> usize_max" using g b by blast
  then have fits': "S * (n - 1) \<le> usize_max" "S * (n - 1) + ?dspan \<le> usize_max" by linarith+
  have chk: "checked_sub (length dws) 1 = Some (length dws - 1)" "checked_mul (length dws - 1) ds = Some ?dspan"
      "checked_add os n = Some (os + n)" "checked_mul (ws_len hw) ?Q = Some (ws_len hw * ?Q)" "checked_add S 1 = Some (S + 1)"
      "checked_mul S (n - 1) = Some (S * (n - 1))" "checked_add (S * (n - 1)) ?dspan = Some (S * (n - 1) + ?dspan)"
    using g fits fits' by (auto simp: checked_sub_def checked_mul_def checked_add_def Suc_le_eq)
  have addrs: "try_fold (check_address (length ch) (S * (n - 1) + ?dspan)) () bases = Inr ()"
    unfolding check_addresses using g by (simp add: add.assoc)
  have "eval_affine_digit_intervals par sz pieces ch bases os n S ds dws hw lws scales = ?rest"
    unfolding eval_affine_digit_intervals_def Let_def using assms g
    by (auto simp: chk addrs not_le simp del: One_nat_def)
  with True show ?thesis by simp
next
  case False
  have "eval_affine_digit_intervals par sz pieces ch bases os n S ds dws hw lws scales \<noteq> Inr v"
  proof
    assume "eval_affine_digit_intervals par sz pieces ch bases os n S ds dws hw lws scales = Inr v"
    then have ?geo using assms
      unfolding eval_affine_digit_intervals_def affine_geometry_def Let_def
      by (auto simp: result_simps bind_eq_Some_conv checked_sub_def checked_mul_def checked_add_def check_addresses not_less not_le
        add.assoc split: if_splits)
    with False show False by contradiction
  qed
  with False show ?thesis by simp
qed

lemma aligned_none:
  assumes "\<not> (lws = [] \<and> is_power_of_two S \<and> trailing_zeros S \<le> length ch)"
  shows "try_eval_bit_aligned_digit_intervals par sz ch bases os n S ds dws hw lws scales = Inr None"
  using assms by (auto simp: try_eval_bit_aligned_digit_intervals_def Let_def not_less)

lemma affine_paths:
  fixes ch :: "'e::field list"
  assumes budget: "eq_budget_ok sz 16" and pieces: "\<And>xs. concat (pieces xs) = xs" and src: "source_total hw"
    and lws: "length lws \<le> 2 ^ 36" and n: "n \<noteq> 0" and ne: "bases \<noteq> []"
    and geo: "affine_geometry ch bases os n S ds dws hw lws scales"
  shows "bindE (try_eval_bit_aligned_digit_intervals par sz ch bases os n S ds dws hw lws scales) (\<lambda>aligned. case aligned of
        Some v \<Rightarrow> Inr v
      | None \<Rightarrow> eval_affine_general par sz pieces ch bases os (os + n) (S + 1) S ds dws hw lws scales) = Inr v
    \<longleftrightarrow> affine_cost ch bases os n S dws lws \<le> MAX_COMPACT_STRIDE_TERMS
      \<and> v = affine_sum ch bases os S ds dws hw lws scales {os..<os + n}"
proof -
  note g = geo [unfolded affine_geometry_def Let_def]
  obtain q where q: "max (length lws) 1 = 2 ^ q" using g is_power_of_two_iff by blast
  have qle: "q \<le> length ch" using g unfolding q by simp
  have ws: "os + n \<le> ws_len hw * 2 ^ q" "ws_len hw * 2 ^ q \<le> usize_max" using g unfolding q by blast+
  have base: "\<forall>b \<in> set bases. b + S * (n - 1) + (length dws - 1) * ds \<le> usize_max" using g by blast
  show ?thesis
  proof (cases "lws = [] \<and> is_power_of_two S \<and> trailing_zeros S \<le> length ch")
    case True
    then obtain k where S: "S = 2 ^ k" using is_power_of_two_iff by blast
    have k: "k \<le> length ch" and empty: "lws = []" using True by (simp_all add: S)
    have "q = 0" using q empty by (cases q) simp_all
    then have "os + n \<le> ws_len hw" "os + n \<le> usize_max" using ws by simp_all
    note aligned = aligned_eval_eq [OF budget src this k, where dws = dws and ds = ds and bases = bases and scales = scales and par = par]
    show ?thesis using aligned True n ne g base unfolding S empty
      by (auto simp: result_simps affine_cost_def split: option.splits)
  next
    case False
    show ?thesis
      using general_eq [where par = par and scales = scales and v = v, OF budget pieces q qle lws _ ne _ src ws _ base] n g False
      unfolding aligned_none [OF False] affine_cost_def q by auto
  qed
qed



end
