(* ===== verification/TensorPairCorrect.thy ===== *)
theory TensorPairCorrect
  imports TensorPair AffineCorrect
begin

text \<open>
  The materialisation of paired equality tensors, correctness: the value of a family as the documented sum
  over all coordinates, its invariance under normalisation, each of the three paths of the code against it,
  and the theorem that composes the constructor with the materialisation.
\<close>

unbundle bit_operations_syntax

subsection \<open>The value of a family\<close>

definition axis_weight :: "'e::field tensor_axis \<Rightarrow> nat \<Rightarrow> 'e" where
  "axis_weight axis c = (case coordinate_weight axis c of None \<Rightarrow> 0 | Some w \<Rightarrow> w)"

text \<open>The documented sum over all coordinates, of a function of the two addresses.\<close>

fun axes_value :: "'e::field tensor_axis list \<Rightarrow> nat \<Rightarrow> nat \<Rightarrow> (nat \<Rightarrow> nat \<Rightarrow> 'e) \<Rightarrow> 'e" where
  "axes_value [] l r G = G l r"
| "axes_value (axis # axes) l r G =
     (\<Sum>c < ax_len axis. axis_weight axis c * axes_value axes (l + ax_left axis * c) (r + ax_right axis * c) G)"

lemma axes_value_append: "axes_value (xs @ ys) l r G = axes_value xs l r (\<lambda>l r. axes_value ys l r G)"
  by (induction xs arbitrary: l r) simp_all

lemma axes_value_scale: "axes_value xs l r (\<lambda>l r. k * G l r) = k * axes_value xs l r G"
  by (induction xs arbitrary: l r) (simp_all add: sum_distrib_left mult.left_commute)

lemma axes_value_zero [simp]: "axes_value xs l r (\<lambda>l r. 0) = 0"
  using axes_value_scale [of xs l r 0] by simp

lemma axis_weight_unit: "unit_axis axis \<Longrightarrow> c < ax_len axis \<Longrightarrow> axis_weight axis c = 1"
  by (auto simp: unit_axis_def axis_weight_def coordinate_weight_def split: tensor_weights.splits)

lemma sum_blocks: "(\<Sum>i < m * k. f i) = (\<Sum>b < k. \<Sum>a < m. f (a + m * b))" for f :: "nat \<Rightarrow> 'e::comm_monoid_add"
proof (induction k)
  case (Suc k)
  have "(\<Sum>i < m * Suc k. f i) = (\<Sum>i < m * k + m. f i)" by (simp add: add.commute)
  also have "\<dots> = (\<Sum>i < m * k. f i) + (\<Sum>a < m. f (m * k + a))" by (rule sum_lessThan_add)
  finally show ?case using Suc by (simp add: add.commute [of "m * k"])
qed simp

lemma merged_value:
  assumes "mergeable inner axis"
  shows "axes_value (inner\<lparr>ax_len := ax_len inner * ax_len axis\<rparr> # axes) l r G = axes_value (inner # axis # axes) l r G"
proof -
  let ?m = "ax_len inner" and ?k = "ax_len axis"
  have unit: "unit_axis inner" "unit_axis axis" and strides: "ax_left axis = ax_left inner * ?m" "ax_right axis = ax_right inner * ?m"
    using assms by (auto simp: mergeable_def checked_mul_def split: if_splits)
  let ?F = "\<lambda>c. axes_value axes (l + ax_left inner * c) (r + ax_right inner * c) G"
  have "unit_axis (inner\<lparr>ax_len := ?m * ?k\<rparr>)" using unit(1) by (simp add: unit_axis_def)
  then have "axes_value (inner\<lparr>ax_len := ?m * ?k\<rparr> # axes) l r G = (\<Sum>c < ?m * ?k. ?F c)"
    by (simp add: axis_weight_unit)
  also have "\<dots> = (\<Sum>a < ?m. \<Sum>b < ?k. ?F (a + ?m * b))" unfolding sum_blocks by (rule sum.swap)
  also have "\<dots> = axes_value (inner # axis # axes) l r G"
    using unit by (simp add: axis_weight_unit strides distrib_left add.assoc mult.assoc)
  finally show ?thesis .
qed

definition axis_ok :: "'e::field tensor_axis \<Rightarrow> bool" where
  "axis_ok axis \<longleftrightarrow> 0 < ax_len axis \<and> (\<forall>c < ax_len axis. coordinate_weight axis c \<noteq> None)"

lemma checked_axis_ok: "check_axis_weights axis = Inr u \<Longrightarrow> 0 < ax_len axis \<Longrightarrow> axis_ok axis"
  by (auto simp: check_axis_weights_def axis_ok_def coordinate_weight_def get_index_def split: tensor_weights.splits if_splits)

lemma singleton_value:
  "ax_len axis = 1 \<Longrightarrow> axes_value (nz @ axis # axes) l r G = axis_weight axis 0 * axes_value (nz @ axes) l r G"
  by (simp add: axes_value_append axes_value_scale)

lemma normalize_axes_Cons:
  assumes "normalize_axes l r s nz (axis # axes) = Inr fam"
  shows "check_axis_weights axis = Inr () \<and> 0 < ax_len axis
    \<and> (if ax_len axis = 1
        then if unit_axis axis then normalize_axes l r s nz axes = Inr fam
          else \<exists>w. coordinate_weight axis 0 = Some w
            \<and> (if w = 0 then fam = \<lparr>tf_left = l, tf_right = r, tf_scalar = 0, tf_axes = []\<rparr>
                else normalize_axes l r (s * w) nz axes = Inr fam)
        else if nz \<noteq> [] \<and> mergeable (last nz) axis
        then normalize_axes l r s (butlast nz @ [(last nz)\<lparr>ax_len := ax_len (last nz) * ax_len axis\<rparr>]) axes = Inr fam
        else normalize_axes l r s (nz @ [axis]) axes = Inr fam)"
proof -
  have scale: "(if w \<noteq> 1 then s * w else s) = s * w" for w by simp
  show ?thesis using assms unfolding normalize_axes.simps scale
    by (auto simp: result_simps checked_mul_def split: if_splits)
qed

lemma merged_last:
  assumes "nz \<noteq> []" and "mergeable (last nz) axis" and "list_all axis_ok nz" and "0 < ax_len axis"
  defines "nz' \<equiv> butlast nz @ [(last nz)\<lparr>ax_len := ax_len (last nz) * ax_len axis\<rparr>]"
  shows "list_all axis_ok nz'" and "axes_value (nz' @ axes) l r G = axes_value (nz @ axis # axes) l r G"
proof -
  have unit: "unit_axis (last nz)" and last: "axis_ok (last nz)" using assms(1-3) by (simp_all add: mergeable_def list_all_iff)
  then have "axis_ok ((last nz)\<lparr>ax_len := ax_len (last nz) * ax_len axis\<rparr>)"
    using assms(4) by (auto simp: axis_ok_def coordinate_weight_def unit_axis_def split: tensor_weights.splits)
  then show "list_all axis_ok nz'" using assms(3) by (auto simp: nz'_def list_all_iff dest: in_set_butlastD)
  have "axes_value (nz @ axis # axes) l r G = axes_value (butlast nz @ last nz # axis # axes) l r G"
    using append_butlast_last_id [OF assms(1)] by (metis append.assoc append_Cons append_Nil)
  then show "axes_value (nz' @ axes) l r G = axes_value (nz @ axis # axes) l r G"
    using merged_value [OF assms(2)] by (simp only: nz'_def axes_value_append append.assoc append_Cons append_Nil)
qed

lemma normalize_axes_value:
  "normalize_axes l r s nz axes = Inr fam \<Longrightarrow> list_all axis_ok nz \<Longrightarrow>
     tf_left fam = l \<and> tf_right fam = r \<and> list_all axis_ok (tf_axes fam)
     \<and> (\<forall>G. tf_scalar fam * axes_value (tf_axes fam) l r G = s * axes_value (nz @ axes) l r G)"
proof (induction axes arbitrary: s nz)
  case (Cons axis axes)
  note c = normalize_axes_Cons [OF Cons.prems(1)]
  have ok: "axis_ok axis" using c checked_axis_ok by blast
  show ?case
  proof (cases "ax_len axis = 1")
    case one: True
    note single = singleton_value [OF one, of nz axes l r]
    show ?thesis
    proof (cases "unit_axis axis")
      case True
      then have "axis_weight axis 0 = 1" using one by (simp add: axis_weight_unit)
      then show ?thesis using Cons.IH [OF _ Cons.prems(2), of s] c one True single by simp
    next
      case False
      then obtain w where w: "coordinate_weight axis 0 = Some w" "if w = 0 then fam = \<lparr>tf_left = l, tf_right = r, tf_scalar = 0, tf_axes = []\<rparr>
          else normalize_axes l r (s * w) nz axes = Inr fam" using c one by auto
      then have "axis_weight axis 0 = w" by (simp add: axis_weight_def)
      then show ?thesis using Cons.IH [OF _ Cons.prems(2), of "s * w"] w(2) single by (cases "w = 0") (simp_all add: mult.assoc)
    qed
  next
    case many: False
    show ?thesis
    proof (cases "nz \<noteq> [] \<and> mergeable (last nz) axis")
      case True
      then have "normalize_axes l r s (butlast nz @ [(last nz)\<lparr>ax_len := ax_len (last nz) * ax_len axis\<rparr>]) axes = Inr fam"
        using c many by simp
      from Cons.IH [OF this] show ?thesis using merged_last [of nz axis] True Cons.prems(2) c by simp
    next
      case False
      then have "normalize_axes l r s (nz @ [axis]) axes = Inr fam" using c many by (auto split: if_splits)
      from Cons.IH [OF this] show ?thesis using Cons.prems(2) ok by simp
    qed
  qed
qed auto

subsection \<open>Steps that charge work\<close>

text \<open>A step on the work counter and the output that charges at most \<open>cost\<close> and adds \<open>amount\<close> to every entry.\<close>

definition charges ::
  "nat \<Rightarrow> (nat \<times> 'e::field list \<Rightarrow> (nat \<times> 'e list) result) \<Rightarrow> nat \<Rightarrow> (nat \<Rightarrow> 'e) \<Rightarrow> bool" where
  "charges n step cost amount \<longleftrightarrow> (\<forall>work out. length out = n \<longrightarrow> work + cost \<le> MAX_COMPACT_STRIDE_TERMS \<longrightarrow>
     (\<exists>work' out'. step (work, out) = Inr (work', out') \<and> work' \<le> work + cost \<and> length out' = n
       \<and> (\<forall>i < n. out' ! i = out ! i + amount i)))"

lemma chargesI:
  "(\<And>work out. length out = n \<Longrightarrow> work + cost \<le> MAX_COMPACT_STRIDE_TERMS \<Longrightarrow>
     \<exists>work' out'. step (work, out) = Inr (work', out') \<and> work' \<le> work + cost \<and> length out' = n
       \<and> (\<forall>i < n. out' ! i = out ! i + amount i)) \<Longrightarrow> charges n step cost amount"
  by (simp add: charges_def)

lemma chargesE:
  assumes "charges n step cost amount" and "length out = n" and "work + cost \<le> MAX_COMPACT_STRIDE_TERMS"
  obtains work' out' where "step (work, out) = Inr (work', out')" "work' \<le> work + cost" "length out' = n"
    "\<And>i. i < n \<Longrightarrow> out' ! i = out ! i + amount i"
  using assms unfolding charges_def by blast

lemma charges_skip: "charges n Inr cost (\<lambda>_. 0)"
  by (rule chargesI) simp

lemma charges_try_fold:
  assumes "\<And>x. x \<in> set xs \<Longrightarrow> charges n (\<lambda>s. f s x) (c x) (t x)"
  shows "charges n (\<lambda>s. try_fold f s xs) (\<Sum>x\<leftarrow>xs. c x) (\<lambda>i. \<Sum>x\<leftarrow>xs. t x i)"
  using assms
proof (induction xs)
  case (Cons x xs)
  have head: "charges n (\<lambda>s. f s x) (c x) (t x)"
    and tail: "charges n (\<lambda>s. try_fold f s xs) (\<Sum>x\<leftarrow>xs. c x) (\<lambda>i. \<Sum>x\<leftarrow>xs. t x i)" using Cons by simp_all
  show ?case
  proof (rule chargesI)
    fix work :: nat and out :: "'b list"
    assume len: "length out = n" and work: "work + (\<Sum>x\<leftarrow>x # xs. c x) \<le> MAX_COMPACT_STRIDE_TERMS"
    then obtain w1 o1 where 1: "f (work, out) x = Inr (w1, o1)" "w1 \<le> work + c x" "length o1 = n"
      "\<And>i. i < n \<Longrightarrow> o1 ! i = out ! i + t x i"
      using chargesE [OF head len, of work] by auto
    have "w1 + (\<Sum>x\<leftarrow>xs. c x) \<le> MAX_COMPACT_STRIDE_TERMS" using 1(2) work by simp
    then obtain w2 o2 where "try_fold f (w1, o1) xs = Inr (w2, o2)" "w2 \<le> w1 + (\<Sum>x\<leftarrow>xs. c x)" "length o2 = n"
      "\<And>i. i < n \<Longrightarrow> o2 ! i = o1 ! i + (\<Sum>x\<leftarrow>xs. t x i)"
      using chargesE [OF tail 1(3), of w1] by auto
    with 1 show "\<exists>work' out'. try_fold f (work, out) (x # xs) = Inr (work', out') \<and> work' \<le> work + (\<Sum>x\<leftarrow>x # xs. c x)
        \<and> length out' = n \<and> (\<forall>i < n. out' ! i = out ! i + (\<Sum>x\<leftarrow>x # xs. t x i))"
      by (auto simp: add.assoc)
  qed
qed (simp add: charges_skip)

lemma charge_work_ok: "work + c \<le> MAX_COMPACT_STRIDE_TERMS \<Longrightarrow> charge_work work c = Inr (work + c)"
  using max_terms_usize by (simp add: charge_work_def checked_add_def)

subsection \<open>Visiting all coordinates\<close>

definition delta_at :: "'e::field list \<Rightarrow> nat \<Rightarrow> nat \<Rightarrow> nat \<Rightarrow> 'e" where
  "delta_at ch i l r = (if l = i then eq_at ch r else 0)"

definition left_span :: "'e tensor_axis list \<Rightarrow> nat" where
  "left_span axes = (\<Sum>a\<leftarrow>axes. ax_left a * (ax_len a - 1))"

definition right_span :: "'e tensor_axis list \<Rightarrow> nat" where
  "right_span axes = (\<Sum>a\<leftarrow>axes. ax_right a * (ax_len a - 1))"

definition coordinate_count :: "'e tensor_axis list \<Rightarrow> nat" where
  "coordinate_count axes = prod_list (map ax_len axes)"

lemma span_Cons:
  "left_span (a # axes) = ax_left a * (ax_len a - 1) + left_span axes"
  "right_span (a # axes) = ax_right a * (ax_len a - 1) + right_span axes"
  by (simp_all add: left_span_def right_span_def)

lemma checked_axis_offset_ok:
  assumes "base + stride * coordinate \<le> usize_max"
  shows "checked_axis_offset base stride coordinate side = Inr (base + stride * coordinate)"
  using assms by (simp add: checked_axis_offset_def mul_add_def checked_mul_def checked_add_def add.commute)

lemma next_weight_eq: "next_weight w a = w * a"
  by (simp add: next_weight_def)

lemma add_equality_charges:
  assumes win: "window_with_low_bits par sz ch cap = Inr w" and l: "l < n" and r: "r \<le> usize_max"
  shows "charges n (visit_tensor_coordinates (add_equality w) [] l r wt) 1 (\<lambda>i. wt * delta_at ch i l r)"
proof (cases "wt = 0")
  case True
  then show ?thesis by (intro chargesI) simp
next
  case False
  have eq: "(if wt = 1 then eq_at ch r else wt * eq_at ch r) = wt * eq_at ch r" by simp
  show ?thesis using False l unfolding delta_at_def
    by (intro chargesI) (auto simp: charge_work_ok add_equality_def Let_def window_eval_eq [OF win r] nth_list_update eq simp del: eq)
qed

lemma visit_charges:
  assumes win: "window_with_low_bits par sz ch cap = Inr w"
  shows "list_all axis_ok axes \<Longrightarrow> l + left_span axes < n \<Longrightarrow> r + right_span axes \<le> usize_max \<Longrightarrow> n \<le> usize_max \<Longrightarrow>
    charges n (visit_tensor_coordinates (add_equality w) axes l r wt) (coordinate_count axes)
      (\<lambda>i. wt * axes_value axes l r (delta_at ch i))"
proof (induction axes arbitrary: l r wt)
  case Nil
  then show ?case using add_equality_charges [OF win, of l n r wt] by (simp add: left_span_def right_span_def coordinate_count_def)
next
  case (Cons axis axes)
  show ?case
  proof (cases "wt = 0")
    case True
    then show ?thesis by (intro chargesI) simp
  next
    case False
    let ?step = "\<lambda>st coordinate.
        bindE (ok_or (coordinate_weight axis coordinate) InvalidProof) (\<lambda>axis_weight.
        if axis_weight = 0 then Inr st
        else bindE (checked_axis_offset l (ax_left axis) coordinate ''left'') (\<lambda>left.
          bindE (checked_axis_offset r (ax_right axis) coordinate ''right'') (\<lambda>right.
            visit_tensor_coordinates (add_equality w) axes left right (next_weight wt axis_weight) st)))"
    let ?t = "\<lambda>c i. wt * (axis_weight axis c * axes_value axes (l + ax_left axis * c) (r + ax_right axis * c) (delta_at ch i))"
    have "charges n (\<lambda>st. ?step st c) (coordinate_count axes) (?t c)" if "c \<in> set [0..<ax_len axis]" for c
    proof -
      have c: "c < ax_len axis" using that by simp
      obtain aw where aw: "coordinate_weight axis c = Some aw" using Cons.prems(1) c by (auto simp: axis_ok_def)
      have "ax_left axis * c \<le> ax_left axis * (ax_len axis - 1)" "ax_right axis * c \<le> ax_right axis * (ax_len axis - 1)"
        using c by (intro mult_le_mono2; linarith)+
      then have fits: "l + ax_left axis * c + left_span axes < n" "r + ax_right axis * c + right_span axes \<le> usize_max"
        using Cons.prems(2,3) unfolding span_Cons by linarith+
      have off: "checked_axis_offset l (ax_left axis) c side = Inr (l + ax_left axis * c)"
          "checked_axis_offset r (ax_right axis) c side = Inr (r + ax_right axis * c)" for side
        using fits Cons.prems(4) by (auto intro!: checked_axis_offset_ok)
      note IH = Cons.IH [of "l + ax_left axis * c" "r + ax_right axis * c" "wt * aw"]
      show ?thesis
      proof (cases "aw = 0")
        case True
        then show ?thesis using aw by (intro chargesI) (simp add: axis_weight_def)
      next
        case False
        then show ?thesis using IH aw fits Cons.prems(1,4) by (simp add: off next_weight_eq axis_weight_def mult.assoc)
      qed
    qed
    then have "charges n (\<lambda>st. try_fold ?step st [0..<ax_len axis]) (\<Sum>c\<leftarrow>[0..<ax_len axis]. coordinate_count axes)
        (\<lambda>i. \<Sum>c\<leftarrow>[0..<ax_len axis]. ?t c i)" by (rule charges_try_fold)
    then show ?thesis using False
      by (simp add: sum_upt atLeast0LessThan sum_distrib_left coordinate_count_def charges_def)
  qed
qed

definition family_value :: "'e::field list \<Rightarrow> 'e tensor_family \<Rightarrow> nat \<Rightarrow> 'e" where
  "family_value ch fam i = tf_scalar fam * axes_value (tf_axes fam) (tf_left fam) (tf_right fam) (delta_at ch i)"

definition family_fits :: "nat \<Rightarrow> 'e::field tensor_family \<Rightarrow> bool" where
  "family_fits n fam \<longleftrightarrow> list_all axis_ok (tf_axes fam) \<and> tf_left fam + left_span (tf_axes fam) < n
     \<and> tf_right fam + right_span (tf_axes fam) < usize_max"

lemma length_overwrite: "a + length vs \<le> length out \<Longrightarrow> length (overwrite out a vs) = length out"
  by (simp add: overwrite_def)

lemma nth_overwrite:
  assumes "a + length vs \<le> length out" and "i < length out"
  shows "overwrite out a vs ! i = (if a \<le> i \<and> i < a + length vs then vs ! (i - a) else out ! i)"
  using assms by (auto simp: overwrite_def nth_append)

text \<open>A unit axis with unit strides is an interval.\<close>

definition unit_interval :: "'e tensor_axis \<Rightarrow> bool" where
  "unit_interval axis \<longleftrightarrow> unit_axis axis \<and> ax_left axis = 1 \<and> ax_right axis = 1"

lemma unit_interval_value:
  assumes "unit_interval axis"
  shows "axes_value [axis] l r (delta_at ch i) = (if l \<le> i \<and> i < l + ax_len axis then eq_at ch (r + (i - l)) else 0)"
proof -
  have "axes_value [axis] l r (delta_at ch i) = (\<Sum>c < ax_len axis. if c = i - l \<and> l \<le> i then eq_at ch (r + (i - l)) else 0)"
    using assms by (auto simp: unit_interval_def axis_weight_unit delta_at_def intro!: sum.cong)
  then show ?thesis by (cases "l \<le> i") auto
qed

lemma unit_interval_fits:
  assumes "family_fits n fam" and "tf_axes fam = [axis]" and "unit_interval axis"
  shows "0 < ax_len axis" "tf_left fam + ax_len axis \<le> n" "tf_right fam + ax_len axis \<le> usize_max"
  using assms by (auto simp: family_fits_def axis_ok_def unit_interval_def left_span_def right_span_def)

lemma fill_charges:
  assumes win: "window_with_low_bits par sz ch cap = Inr w" and fits: "family_fits n fam"
    and axis: "tf_axes fam = [axis]" "unit_interval axis" and scalar: "tf_scalar fam = 1"
    and out: "length out = n" "list_all (\<lambda>v. v = 0) (take (ax_len axis) (drop (tf_left fam) out))" and i: "i < n"
  shows "overwrite out (tf_left fam) (map (eq_at ch) [tf_right fam..<tf_right fam + ax_len axis]) ! i = out ! i + family_value ch fam i"
proof -
  note f = unit_interval_fits [OF fits axis]
  have zero: "out ! i = 0" if "tf_left fam \<le> i" "i < tf_left fam + ax_len axis"
  proof -
    have "\<forall>k < ax_len axis. out ! (tf_left fam + k) = 0" using out f by (simp add: list_all_length)
    moreover have "i - tf_left fam < ax_len axis" "tf_left fam + (i - tf_left fam) = i" using that by linarith+
    ultimately show ?thesis by metis
  qed
  have "family_value ch fam i = (if tf_left fam \<le> i \<and> i < tf_left fam + ax_len axis then eq_at ch (tf_right fam + (i - tf_left fam)) else 0)"
    by (simp only: family_value_def scalar axis(1) unit_interval_value [OF axis(2)] mult_1)
  then show ?thesis using zero f(2) out(1) i by (auto simp: nth_overwrite)
qed

lemma family_step_charges:
  assumes win: "window_with_low_bits par sz ch cap = Inr w" and fits: "family_fits n fam" and n: "n \<le> usize_max"
  shows "charges n (\<lambda>s. family_step w s fam) (coordinate_count (tf_axes fam)) (family_value ch fam)"
proof (rule chargesI)
  fix work and out :: "'a list"
  assume len: "length out = n" and work: "work + coordinate_count (tf_axes fam) \<le> MAX_COMPACT_STRIDE_TERMS"
  let ?visit = "visit_tensor_coordinates (add_equality w) (tf_axes fam) (tf_left fam) (tf_right fam) (tf_scalar fam)"
  let ?goal = "\<lambda>res. \<exists>work' out'. res = Inr (work', out') \<and> work' \<le> work + coordinate_count (tf_axes fam) \<and> length out' = n
    \<and> (\<forall>i < n. out' ! i = out ! i + family_value ch fam i)"
  have "charges n ?visit (coordinate_count (tf_axes fam)) (family_value ch fam)"
    unfolding family_value_def using fits n by (intro visit_charges [OF win]) (simp_all add: family_fits_def)
  then have visit: "?goal (?visit (work, out))" using len work unfolding charges_def by blast
  show "?goal (family_step w (work, out) fam)"
  proof (cases "\<exists>axis. tf_scalar fam = 1 \<and> tf_axes fam = [axis] \<and> unit_interval axis
      \<and> list_all (\<lambda>v. v = 0) (take (ax_len axis) (drop (tf_left fam) out))")
    case True
    then obtain axis where s: "tf_scalar fam = 1" and axis: "tf_axes fam = [axis]" "unit_interval axis"
      and z: "list_all (\<lambda>v. v = 0) (take (ax_len axis) (drop (tf_left fam) out))" by blast
    note f = unit_interval_fits [OF fits axis]
    have cost: "coordinate_count (tf_axes fam) = ax_len axis" by (simp add: axis coordinate_count_def)
    have charge: "charge_work work (ax_len axis) = Inr (work + ax_len axis)" using work by (intro charge_work_ok) (simp only: cost)
    have step: "family_step w (work, out) fam
        = Inr (work + ax_len axis, overwrite out (tf_left fam) (map (eq_at ch) [tf_right fam..<tf_right fam + ax_len axis]))"
      using s axis z f n len work fill_interval_eq [OF win f(3)]
      by (simp add: family_step_def unit_interval_def checked_add_def charge)
    show ?thesis unfolding step using fill_charges [OF win fits axis s len z] f len by (auto simp: cost length_overwrite)
  next
    case False
    have "family_step w (work, out) fam = ?visit (work, out)"
    proof (cases "\<exists>axis. tf_scalar fam = 1 \<and> tf_axes fam = [axis] \<and> unit_interval axis")
      case True
      then obtain axis where s: "tf_scalar fam = 1" and axis: "tf_axes fam = [axis]" "unit_interval axis" by blast
      with False unit_interval_fits [OF fits axis] n len show ?thesis
        by (auto simp: family_step_def unit_interval_def checked_add_def)
    next
      case False
      then show ?thesis by (auto simp: family_step_def unit_interval_def Let_def split: list.splits)
    qed
    with visit show ?thesis by simp
  qed
qed

definition left_weight :: "'e::field list \<Rightarrow> 'e tensor_family list \<Rightarrow> nat \<Rightarrow> 'e" where
  "left_weight ch families i = (\<Sum>fam\<leftarrow>families. family_value ch fam i)"

lemma general_families:
  assumes win: "window_with_low_bits par sz ch cap = Inr w" and fits: "\<And>fam. fam \<in> set families \<Longrightarrow> family_fits n fam"
    and n: "n \<le> usize_max" and work: "(\<Sum>fam\<leftarrow>families. coordinate_count (tf_axes fam)) \<le> MAX_COMPACT_STRIDE_TERMS"
  shows "\<exists>work'. try_fold (family_step w) (0, replicate n 0) families = Inr (work', map (left_weight ch families) [0..<n])"
proof -
  have "charges n (\<lambda>s. try_fold (family_step w) s families) (\<Sum>fam\<leftarrow>families. coordinate_count (tf_axes fam))
      (\<lambda>i. \<Sum>fam\<leftarrow>families. family_value ch fam i)"
    using fits n by (intro charges_try_fold family_step_charges [OF win])
  then obtain work' out' where "try_fold (family_step w) (0, replicate n 0) families = Inr (work', out')" "length out' = n"
    "\<And>i. i < n \<Longrightarrow> out' ! i = replicate n 0 ! i + (\<Sum>fam\<leftarrow>families. family_value ch fam i)"
    using work unfolding charges_def by (metis add_0 length_replicate)
  moreover from this(2,3) have "out' = map (left_weight ch families) [0..<n]"
    by (intro nth_equalityI) (simp_all add: left_weight_def)
  ultimately show ?thesis by auto
qed

subsection \<open>Disjoint unit intervals\<close>

definition interval_value :: "'e::field list \<Rightarrow> nat \<Rightarrow> interval \<Rightarrow> 'e" where
  "interval_value ch i = (\<lambda>(a, b, r). if a \<le> i \<and> i < b then eq_at ch (r + (i - a)) else 0)"

definition cover :: "'e::field list \<Rightarrow> interval list \<Rightarrow> nat \<Rightarrow> 'e" where
  "cover ch ivs i = (\<Sum>v\<leftarrow>ivs. interval_value ch i v)"

definition interval_ok :: "nat \<Rightarrow> interval \<Rightarrow> bool" where
  "interval_ok n = (\<lambda>(a, b, r). a \<le> b \<and> b \<le> n \<and> r + (b - a) \<le> usize_max)"

abbreviation apart :: "interval \<Rightarrow> interval \<Rightarrow> bool" where
  "apart v v' \<equiv> fst (snd v) \<le> fst v'"

lemma cover_append: "cover ch (xs @ ys) i = cover ch xs i + cover ch ys i"
  by (simp add: cover_def)

lemma cover_sort: "cover ch (sort_key key ivs) i = cover ch ivs i"
  by (simp add: cover_def sum_list_sort_key)

lemma collect_intervals_ok:
  assumes "\<And>fam. fam \<in> set families \<Longrightarrow> family_fits n fam" and n: "n \<le> usize_max"
    and "work + (\<Sum>fam\<leftarrow>families. coordinate_count (tf_axes fam)) \<le> MAX_COMPACT_STRIDE_TERMS"
  shows "collect_intervals n work families acc = Inr None
    \<or> (\<exists>ivs. collect_intervals n work families acc = Inr (Some (acc @ ivs)) \<and> list_all (interval_ok n) ivs
        \<and> (\<forall>i. cover ch ivs i = left_weight ch families i))"
  using assms(1,3)
proof (induction families arbitrary: work acc)
  case Nil
  then show ?case by (simp add: cover_def left_weight_def)
next
  case (Cons fam families)
  have rest: "work' + (\<Sum>fam\<leftarrow>families. coordinate_count (tf_axes fam)) \<le> MAX_COMPACT_STRIDE_TERMS"
    if "work' \<le> work + coordinate_count (tf_axes fam)" for work' using Cons.prems(2) that by simp
  have split: "left_weight ch (fam # families) i = family_value ch fam i + left_weight ch families i" for i
    by (simp add: left_weight_def)
  show ?case
  proof (cases "tf_scalar fam = 0")
    case True
    then have "left_weight ch (fam # families) i = left_weight ch families i" for i by (simp add: split family_value_def)
    then show ?thesis using Cons.IH [OF _ rest, of work acc] Cons.prems(1) True by simp
  next
    case nz: False
    show ?thesis
    proof (cases "\<exists>axis. tf_scalar fam = 1 \<and> tf_axes fam = [axis] \<and> unit_interval axis")
      case False
      then have "collect_intervals n work (fam # families) acc = Inr None"
        using nz by (auto simp: unit_interval_def split: list.splits)
      then show ?thesis ..
    next
      case True
      then obtain axis where s: "tf_scalar fam = 1" and axis: "tf_axes fam = [axis]" "unit_interval axis" by blast
      have f: "0 < ax_len axis" "tf_left fam + ax_len axis \<le> n" "tf_right fam + ax_len axis \<le> usize_max"
        using unit_interval_fits [OF _ axis] Cons.prems(1) by auto
      let ?v = "(tf_left fam, tf_left fam + ax_len axis, tf_right fam)"
      have cost: "coordinate_count (tf_axes fam) = ax_len axis" by (simp add: axis coordinate_count_def)
      have "work + ax_len axis \<le> MAX_COMPACT_STRIDE_TERMS" using rest [of "work + ax_len axis"] cost by simp
      then have step: "collect_intervals n work (fam # families) acc = collect_intervals n (work + ax_len axis) families (acc @ [?v])"
        using nz s axis f n by (simp add: unit_interval_def checked_add_def charge_work_ok)
      have "interval_value ch i ?v = family_value ch fam i" for i
        by (simp only: family_value_def s axis(1) unit_interval_value [OF axis(2)] mult_1 interval_value_def prod.case)
      then have "cover ch (?v # ivs) i = family_value ch fam i + cover ch ivs i" for ivs i by (simp add: cover_def)
      moreover have "interval_ok n ?v" using f by (simp add: interval_ok_def)
      ultimately show ?thesis using Cons.IH [OF _ rest, of "work + ax_len axis" "acc @ [?v]"] Cons.prems(1) cost
        unfolding step split by fastforce
    qed
  qed
qed

lemma merge_intervals_ok:
  "list_all (interval_ok n) ivs \<Longrightarrow> list_all (interval_ok n) merged \<Longrightarrow> sorted_wrt apart (rev merged) \<Longrightarrow>
    merge_intervals ivs merged = Inr None
    \<or> (\<exists>out. merge_intervals ivs merged = Inr (Some out) \<and> list_all (interval_ok n) out \<and> sorted_wrt apart out
        \<and> (\<forall>i. cover ch out i = cover ch merged i + cover ch ivs i))"
proof (induction ivs merged rule: merge_intervals.induct)
  case (1 merged)
  have "cover ch (rev merged) i = cover ch merged i + cover ch [] i" for i
    by (simp add: cover_def rev_map [symmetric] sum_list_rev)
  with 1 show ?case by (simp add: list_all_iff)
next
  case (2 a b r ivs)
  then show ?case by (simp add: cover_def)
next
  case (3 a b r ivs pa pb pr merged)
  have ok: "pa \<le> pb" "pr + (pb - pa) \<le> usize_max" "a \<le> b" "b \<le> n" "r + (b - a) \<le> usize_max"
    and apart: "\<And>v. v \<in> set merged \<Longrightarrow> fst (snd v) \<le> pa"
    using "3.prems" by (auto simp: interval_ok_def sorted_wrt_append)
  show ?case
  proof (cases "a < pb")
    case False
    then have le: "pb \<le> a" by simp
    have chk: "checked_sub pb pa = Some (pb - pa)" "checked_add pr (pb - pa) = Some (pr + (pb - pa))"
      using ok by (simp_all add: checked_sub_def checked_add_def)
    show ?thesis
    proof (cases "a = pb \<and> r = pr + (pb - pa)")
      case True
      have "interval_value ch i (pa, b, pr) = interval_value ch i (pa, pb, pr) + interval_value ch i (a, b, r)" for i
        using True ok(1,3) by (auto simp: interval_value_def)
      then have cov: "cover ch ((pa, b, pr) # merged) i = cover ch ((pa, pb, pr) # merged) i + interval_value ch i (a, b, r)" for i
        by (simp add: cover_def)
      have sum: "x + interval_value ch i (a, b, r) + cover ch ivs i = x + cover ch ((a, b, r) # ivs) i" for x i
        by (simp add: cover_def add.assoc)
      have next_step: "merge_intervals ((a, b, r) # ivs) ((pa, pb, pr) # merged) = merge_intervals ivs ((pa, b, pr) # merged)"
        using False chk True by simp
      have "list_all (interval_ok n) ((pa, b, pr) # merged)" "sorted_wrt apart (rev ((pa, b, pr) # merged))"
        using "3.prems" True ok by (auto simp: interval_ok_def sorted_wrt_append)
      with "3.IH"(1) [OF False chk(1) [THEN ok_or_Inr_iff [THEN iffD2]] chk(2) [THEN ok_or_Inr_iff [THEN iffD2]] True] "3.prems"(1)
      show ?thesis unfolding next_step cov sum by simp
    next
      case no: False
      have "sorted_wrt apart (rev ((a, b, r) # (pa, pb, pr) # merged))"
        using "3.prems"(3) le apart ok(1) by (fastforce simp: sorted_wrt_append)
      moreover have "list_all (interval_ok n) ((a, b, r) # (pa, pb, pr) # merged)" using "3.prems"(1,2) by simp
      ultimately show ?thesis
        using "3.IH"(2) [OF False chk(1) [THEN ok_or_Inr_iff [THEN iffD2]] chk(2) [THEN ok_or_Inr_iff [THEN iffD2]] no] "3.prems"(1) False chk no
        by (auto simp: cover_def ac_simps)
    qed
  qed simp
qed

lemma fill_intervals_ok:
  assumes win: "window_with_low_bits par sz ch cap = Inr w"
  shows "list_all (interval_ok n) ivs \<Longrightarrow> sorted_wrt apart ivs \<Longrightarrow> length out = n \<Longrightarrow>
    (\<And>v i. v \<in> set ivs \<Longrightarrow> fst v \<le> i \<Longrightarrow> i < fst (snd v) \<Longrightarrow> out ! i = 0) \<Longrightarrow>
    \<exists>out'. try_fold (fill_one w) out ivs = Inr out' \<and> length out' = n \<and> (\<forall>i < n. out' ! i = out ! i + cover ch ivs i)"
proof (induction ivs arbitrary: out)
  case Nil
  then show ?case by (simp add: cover_def)
next
  case (Cons v ivs)
  obtain a b r where v: "v = (a, b, r)" by (cases v)
  have ok: "a \<le> b" "b \<le> n" "r + (b - a) \<le> usize_max" using Cons.prems(1) by (auto simp: v interval_ok_def)
  let ?vs = "map (eq_at ch) [r..<r + (b - a)]"
  let ?out = "overwrite out a ?vs"
  have len: "a + length ?vs \<le> length out" "a + length ?vs = b" using ok Cons.prems(3) by simp_all
  have step: "fill_one w out v = Inr ?out"
    unfolding fill_one_def v prod.case fill_interval_eq [OF win ok(3)] using ok(1,2) Cons.prems(3) by simp
  have nth: "?out ! i = out ! i + interval_value ch i v" if "i < n" for i
    using that ok Cons.prems(3) Cons.prems(4) [of v i] nth_overwrite [OF len(1), of i] by (auto simp: v interval_value_def)
  have "?out ! i = 0" if "v' \<in> set ivs" "fst v' \<le> i" "i < fst (snd v')" for v' i
  proof -
    have "b \<le> fst v'" using Cons.prems(2) that(1) by (auto simp: v)
    moreover have "fst (snd v') \<le> n" using Cons.prems(1) that(1) by (auto simp: list_all_iff interval_ok_def)
    ultimately show ?thesis using that Cons.prems(3) Cons.prems(4) [of v' i] nth_overwrite [OF len(1), of i] len(2) by auto
  qed
  then obtain out' where "try_fold (fill_one w) ?out ivs = Inr out'" "length out' = n" "\<forall>i < n. out' ! i = ?out ! i + cover ch ivs i"
    using Cons.IH [of ?out] Cons.prems(1-3) length_overwrite [OF len(1)] by auto
  then show ?case using nth by (auto simp: step cover_def add.assoc)
qed

lemma disjoint_families:
  assumes win: "window_with_low_bits par sz ch cap = Inr w" and fits: "\<And>fam. fam \<in> set families \<Longrightarrow> family_fits n fam"
    and n: "n \<le> usize_max" and work: "(\<Sum>fam\<leftarrow>families. coordinate_count (tf_axes fam)) \<le> MAX_COMPACT_STRIDE_TERMS"
    and reserve: "reserve (length families)"
  shows "materialize_disjoint_unit_intervals reserve w families n = Inr None
    \<or> materialize_disjoint_unit_intervals reserve w families n = Inr (Some (map (left_weight ch families) [0..<n]))"
proof (cases "collect_intervals n 0 families [] = Inr None")
  case False
  obtain ivs where ivs: "collect_intervals n 0 families [] = Inr (Some ivs)" "list_all (interval_ok n) ivs"
    "\<And>i. cover ch ivs i = left_weight ch families i"
    using collect_intervals_ok [OF fits n, of families 0 "[]" ch] work False by auto
  let ?m = "merge_intervals (sort_key fst ivs) []"
  show ?thesis
  proof (cases "?m = Inr None")
    case False
    have "list_all (interval_ok n) (sort_key fst ivs)" using ivs(2) by (simp add: list_all_iff)
    then obtain out where m: "?m = Inr (Some out)" "list_all (interval_ok n) out" "sorted_wrt apart out"
      "\<And>i. cover ch out i = left_weight ch families i"
      using merge_intervals_ok [of n "sort_key fst ivs" "[]" ch] False ivs(3)
      by (auto simp: cover_sort) (simp add: cover_def)
    have "\<exists>out'. try_fold (fill_one w) (replicate n 0) out = Inr out' \<and> length out' = n
        \<and> (\<forall>i < n. out' ! i = replicate n 0 ! i + cover ch out i)"
    proof (rule fill_intervals_ok [OF win m(2,3)])
      fix v i assume "v \<in> set out" "fst v \<le> i" "i < fst (snd v)"
      then have "i < n" using m(2) by (auto simp: list_all_iff interval_ok_def)
      then show "replicate n 0 ! i = (0 :: 'a)" by simp
    qed simp
    then obtain out' where "try_fold (fill_one w) (replicate n 0) out = Inr out'" "length out' = n"
      "\<forall>i < n. out' ! i = left_weight ch families i" by (auto simp: m(4))
    moreover from this(2,3) have "out' = map (left_weight ch families) [0..<n]" by (intro nth_equalityI) simp_all
    ultimately show ?thesis using reserve ivs(1) m(1) by (simp add: materialize_disjoint_unit_intervals_def)
  qed (use reserve ivs(1) in \<open>simp add: materialize_disjoint_unit_intervals_def\<close>)
qed (use reserve in \<open>simp add: materialize_disjoint_unit_intervals_def\<close>)

subsection \<open>One shared destination axis\<close>

text \<open>The axes other than the destination, the axes counted from \<open>k\<close>, and the sum over their coordinates.\<close>

fun without :: "nat \<Rightarrow> nat \<Rightarrow> 'e tensor_axis list \<Rightarrow> 'e tensor_axis list" where
  "without d k [] = []"
| "without d k (axis # axes) = (if k = d then without d (k + 1) axes else axis # without d (k + 1) axes)"

definition residual_value :: "'e::field list \<Rightarrow> 'e tensor_axis list \<Rightarrow> nat \<Rightarrow> 'e" where
  "residual_value ch axes r = axes_value axes 0 r (\<lambda>_. eq_at ch)"

lemma axes_value_left_free: "axes_value axes l r (\<lambda>_. g) = axes_value axes l' r (\<lambda>_. g)"
  by (induction axes arbitrary: l l' r) (auto intro!: sum.cong arg_cong2 [where f = times])

lemma residual_value_simps:
  "residual_value ch [] r = eq_at ch r"
  "residual_value ch (axis # axes) r = (\<Sum>c < ax_len axis. axis_weight axis c * residual_value ch axes (r + ax_right axis * c))"
  unfolding residual_value_def axes_value.simps
  by (rule refl, intro sum.cong refl arg_cong2 [where f = times] axes_value_left_free)

lemma axes_value_shift: "axes_value axes l r (\<lambda>l r. G l (r + k)) = axes_value axes l (r + k) G"
  by (induction axes arbitrary: l r) (simp_all add: add.assoc add.commute add.left_commute)

lemma axes_value_fixed_left:
  "(\<And>a. a \<in> set axes \<Longrightarrow> ax_left a = 0) \<Longrightarrow> axes_value axes l r G = axes_value axes 0 r (\<lambda>_. G l)"
  by (induction axes arbitrary: l r) simp_all

lemma destination_rest:
  "destination_from k axes (Some d0) = Some d \<Longrightarrow> d = d0 \<and> (\<forall>a \<in> set axes. ax_left a = 0)"
  by (induction axes arbitrary: k) (auto split: if_splits)

lemma without_past: "d < k \<Longrightarrow> without d k axes = axes"
  by (induction axes arbitrary: k) simp_all

lemma destination_split:
  "destination_from k axes None = Some d \<Longrightarrow>
    \<exists>pre axis post. axes = pre @ axis # post \<and> d = k + length pre \<and> without d k axes = pre @ post
      \<and> ax_left axis = 1 \<and> unit_axis axis \<and> (\<forall>a \<in> set pre \<union> set post. ax_left a = 0)"
proof (induction axes arbitrary: k)
  case (Cons axis axes)
  show ?case
  proof (cases "ax_left axis = 1 \<and> unit_axis axis")
    case True
    then have "d = k" "\<forall>a \<in> set axes. ax_left a = 0" using Cons.prems destination_rest [of "k + 1" axes k d] by simp_all
    then show ?thesis using True by (intro exI [of _ "[]"] exI [of _ axis] exI [of _ axes]) (simp add: without_past)
  next
    case False
    then have zero: "ax_left axis = 0" and rest: "destination_from (k + 1) axes None = Some d"
      using Cons.prems by (auto split: if_splits)
    from Cons.IH [OF rest] obtain pre a post where
      "axes = pre @ a # post" "d = k + 1 + length pre" "without d (k + 1) axes = pre @ post"
      "ax_left a = 1" "unit_axis a" "\<forall>a \<in> set pre \<union> set post. ax_left a = 0" by blast
    then show ?thesis using zero by (intro exI [of _ "axis # pre"] exI [of _ a] exI [of _ post]) simp
  qed
qed simp

lemma destination_value:
  assumes "unit_axis axis" and "ax_left axis = 1" and zero: "\<And>a. a \<in> set pre \<union> set post \<Longrightarrow> ax_left a = 0"
  shows "axes_value (pre @ axis # post) l r (delta_at ch i)
    = (if l \<le> i \<and> i < l + ax_len axis then residual_value ch (pre @ post) (r + ax_right axis * (i - l)) else 0)"
proof -
  let ?in = "l \<le> i \<and> i < l + ax_len axis" and ?s = "ax_right axis * (i - l)"
  let ?P = "\<lambda>r. residual_value ch post r"
  have "delta_at ch i l = (if l = i then eq_at ch else (\<lambda>_. 0))" for l by (auto simp: delta_at_def)
  then have post: "axes_value post l r (delta_at ch i) = (if l = i then ?P r else 0)" for l r
    using axes_value_fixed_left [of post l r "delta_at ch i"] zero by (simp add: residual_value_def)
  have inner: "axes_value (axis # post) l r (delta_at ch i) = (if ?in then ?P (r + ?s) else 0)" for r
  proof -
    have "axes_value (axis # post) l r (delta_at ch i) = (\<Sum>c < ax_len axis. if l + c = i then ?P (r + ax_right axis * c) else 0)"
      using assms(1,2) by (simp add: axis_weight_unit post)
    also have "\<dots> = (\<Sum>c < ax_len axis. if c = i - l then if l \<le> i then ?P (r + ?s) else 0 else 0)"
      by (rule sum.cong) auto
    finally show ?thesis by auto
  qed
  have "axes_value (pre @ axis # post) l r (delta_at ch i) = axes_value pre 0 r (\<lambda>_ r. if ?in then ?P (r + ?s) else 0)"
    using axes_value_fixed_left [of pre l r "\<lambda>l r. axes_value (axis # post) l r (delta_at ch i)"] zero
    unfolding axes_value_append inner by simp
  also have "\<dots> = (if ?in then axes_value pre 0 (r + ?s) (\<lambda>_ r. ?P r) else 0)"
    using axes_value_shift [of pre 0 r "\<lambda>_ r. ?P r" ?s] by (cases ?in) (simp_all only: if_True if_False axes_value_zero conj_absorb simp_thms)
  also have "axes_value pre 0 (r + ?s) (\<lambda>_ r. ?P r) = residual_value ch (pre @ post) (r + ?s)"
    unfolding residual_value_def axes_value_append
    by (intro arg_cong [where f = "axes_value pre 0 (r + ?s)"] ext axes_value_left_free)
  finally show ?thesis .
qed

lemma contract_residual_ok:
  assumes win: "window_with_low_bits par sz ch cap = Inr w"
  shows "list_all axis_ok (without d k axes) \<Longrightarrow> r + right_span (without d k axes) \<le> usize_max \<Longrightarrow>
    contract_residual_tensor_axes w d k axes r wt = Inr (wt * residual_value ch (without d k axes) r)"
proof (induction axes arbitrary: k r wt)
  case Nil
  then show ?case by (simp add: right_span_def Let_def window_eval_eq [OF win] residual_value_simps)
next
  case (Cons axis axes)
  show ?case
  proof (cases "wt = 0 \<or> k = d")
    case True
    then show ?thesis using Cons by auto
  next
    case False
    let ?V = "\<lambda>c. residual_value ch (without d (k + 1) axes) (r + ax_right axis * c)"
    let ?step = "\<lambda>acc coordinate.
        bindE (ok_or (coordinate_weight axis coordinate) InvalidProof) (\<lambda>axis_weight.
        if axis_weight = 0 then Inr acc
        else bindE (checked_axis_offset r (ax_right axis) coordinate ''right'') (\<lambda>right.
          bindE (contract_residual_tensor_axes w d (k + 1) axes right (next_weight wt axis_weight)) (\<lambda>v. Inr (acc + v))))"
    have "?step acc c = Inr (acc + wt * (axis_weight axis c * ?V c))" if "c \<in> set [0..<ax_len axis]" for c acc
    proof -
      have c: "c < ax_len axis" using that by simp
      obtain aw where aw: "coordinate_weight axis c = Some aw" using Cons.prems(1) False c by (auto simp: axis_ok_def)
      have "ax_right axis * c \<le> ax_right axis * (ax_len axis - 1)" using c by (intro mult_le_mono2) linarith
      then have fits: "r + ax_right axis * c + right_span (without d (k + 1) axes) \<le> usize_max"
        using Cons.prems(2) False by (simp only: without.simps if_False span_Cons de_Morgan_disj)
      then have "checked_axis_offset r (ax_right axis) c ''right'' = Inr (r + ax_right axis * c)"
        by (intro checked_axis_offset_ok) linarith
      then show ?thesis using aw Cons.IH [OF _ fits] Cons.prems(1) False
        by (simp add: axis_weight_def next_weight_eq mult.assoc)
    qed
    then have "try_fold ?step 0 [0..<ax_len axis] = Inr (0 + (\<Sum>c\<leftarrow>[0..<ax_len axis]. wt * (axis_weight axis c * ?V c)))"
      by (rule try_fold_plain)
    then show ?thesis using False by (simp add: residual_value_simps sum_distrib_left sum_upt atLeast0LessThan)
  qed
qed

lemma coordinate_count_Cons [simp]:
  "coordinate_count [] = 1" "coordinate_count (a # axes) = ax_len a * coordinate_count axes"
  "coordinate_count (xs @ ys) = coordinate_count xs * coordinate_count ys"
  by (simp_all add: coordinate_count_def)

lemma coordinate_count_pos: "list_all axis_ok axes \<Longrightarrow> 0 < coordinate_count axes"
  by (induction axes) (simp_all add: axis_ok_def)

lemma residual_fold_ok:
  assumes "list_all axis_ok axes" and "p * coordinate_count axes \<le> usize_max"
  shows "try_fold (\<lambda>product (index, axis). if index = d then Inr product
      else ok_or (checked_mul product (ax_len axis)) e) p (enumerate k axes) = Inr (p * coordinate_count (without d k axes))"
  using assms
proof (induction axes arbitrary: p k)
  case (Cons axis axes)
  have pos: "0 < ax_len axis" "0 < coordinate_count axes"
    using Cons.prems(1) coordinate_count_pos [of axes] by (simp_all add: axis_ok_def [of axis])
  have le: "p * ax_len axis * coordinate_count axes \<le> usize_max" using Cons.prems(2) by (simp add: mult.assoc)
  have "p * ax_len axis * 1 \<le> p * ax_len axis * coordinate_count axes" using pos(2) by (intro mult_le_mono2) linarith
  then have "p * ax_len axis \<le> usize_max" using le by (simp only: mult_1_right)
  then have mul: "checked_mul p (ax_len axis) = Some (p * ax_len axis)" by (simp add: checked_mul_def)
  have "p * 1 * coordinate_count axes \<le> p * ax_len axis * coordinate_count axes"
    using pos(1) by (intro mult_le_mono1 mult_le_mono2) linarith
  then have skip: "p * coordinate_count axes \<le> usize_max" using le by (simp only: mult_1_right)
  have "list_all axis_ok axes" using Cons.prems(1) by simp
  note IH = Cons.IH [OF this skip, of "Suc k"] Cons.IH [OF this le, of "Suc k"]
  show ?case using IH mul by (cases "k = d") (simp_all add: mult.assoc)
qed simp

text \<open>What the search for destination axes finds out about a family.\<close>

lemma destination_family:
  assumes "dense_left_destination_axis fam = Some d" and fits: "family_fits n fam"
  obtains axis where "get_index (tf_axes fam) d = Some axis" "tf_left fam + ax_len axis \<le> n"
    "coordinate_count (tf_axes fam) = ax_len axis * coordinate_count (without d 0 (tf_axes fam))"
    "list_all axis_ok (without d 0 (tf_axes fam))" "0 < ax_len axis"
    "\<And>c. c < ax_len axis \<Longrightarrow> tf_right fam + ax_right axis * c + right_span (without d 0 (tf_axes fam)) \<le> usize_max"
    "\<And>ch i. family_value ch fam i = (if tf_left fam \<le> i \<and> i < tf_left fam + ax_len axis
        then tf_scalar fam * residual_value ch (without d 0 (tf_axes fam)) (tf_right fam + ax_right axis * (i - tf_left fam)) else 0)"
proof -
  obtain pre axis post where s: "tf_axes fam = pre @ axis # post" "d = length pre" "without d 0 (tf_axes fam) = pre @ post"
    "ax_left axis = 1" "unit_axis axis" "\<forall>a \<in> set pre \<union> set post. ax_left a = 0"
    using destination_split [of 0 "tf_axes fam" d] assms(1) by (auto simp: dense_left_destination_axis_def)
  have ok: "list_all axis_ok (pre @ axis # post)" and l: "tf_left fam + left_span (pre @ axis # post) < n"
    and r: "tf_right fam + right_span (pre @ axis # post) < usize_max" using fits by (simp_all add: family_fits_def s(1))
  have pos: "0 < ax_len axis" using ok by (simp add: axis_ok_def)
  show thesis
  proof
    show "get_index (tf_axes fam) d = Some axis" by (simp add: get_index_def s(1,2))
    show "tf_left fam + ax_len axis \<le> n" using l pos by (simp add: left_span_def s(4))
    show "coordinate_count (tf_axes fam) = ax_len axis * coordinate_count (without d 0 (tf_axes fam))"
      unfolding s(3) by (simp add: s(1))
    show "list_all axis_ok (without d 0 (tf_axes fam))" using ok s(3) by simp
    show "0 < ax_len axis" by (rule pos)
    show "tf_right fam + ax_right axis * c + right_span (without d 0 (tf_axes fam)) \<le> usize_max" if "c < ax_len axis" for c
    proof -
      have "ax_right axis * c \<le> ax_right axis * (ax_len axis - 1)" using that by (intro mult_le_mono2) linarith
      then show ?thesis using r unfolding s(3) right_span_def map_append list.map sum_list_append sum_list.Cons by linarith
    qed
    show "family_value ch fam i = (if tf_left fam \<le> i \<and> i < tf_left fam + ax_len axis
        then tf_scalar fam * residual_value ch (without d 0 (tf_axes fam)) (tf_right fam + ax_right axis * (i - tf_left fam)) else 0)" for ch i
      unfolding family_value_def s(3) using destination_value [of axis pre post] s by simp
  qed
qed

text \<open>A view: a family with its destination axis, at the common destination.\<close>

definition view_ok :: "nat \<Rightarrow> nat \<Rightarrow> nat \<Rightarrow> 'e::field tensor_family \<times> nat \<Rightarrow> bool" where
  "view_ok n start len = (\<lambda>(fam, d). family_fits n fam \<and> dense_left_destination_axis fam = Some d \<and> tf_left fam = start
     \<and> map_option ax_len (get_index (tf_axes fam) d) = Some len)"

lemma dense_left_views_ok:
  assumes "\<And>fam. fam \<in> set families \<Longrightarrow> family_fits n fam"
    and "residual + (\<Sum>fam\<leftarrow>families. coordinate_count (tf_axes fam)) \<le> usize_max"
  shows "dense_left_views start len families residual = Inr None
    \<or> (\<exists>residual' views. dense_left_views start len families residual = Inr (Some (residual', views))
        \<and> map fst views = families \<and> list_all (view_ok n start len) views
        \<and> len * residual' = len * residual + (\<Sum>fam\<leftarrow>families. coordinate_count (tf_axes fam)))"
  using assms
proof (induction families arbitrary: residual)
  case (Cons fam families)
  show ?case
  proof (cases "dense_left_destination_axis fam")
    case (Some d)
    have fits: "family_fits n fam" using Cons.prems(1) by simp
    obtain axis where axis: "get_index (tf_axes fam) d = Some axis" "0 < ax_len axis"
      and count: "coordinate_count (tf_axes fam) = ax_len axis * coordinate_count (without d 0 (tf_axes fam))"
      by (rule destination_family [OF Some fits])
    let ?res = "coordinate_count (without d 0 (tf_axes fam))"
    show ?thesis
    proof (cases "tf_left fam \<noteq> start \<or> ax_len axis \<noteq> len")
      case False
      have "1 * ?res \<le> ax_len axis * ?res" using axis(2) by (intro mult_le_mono1) linarith
      then have le: "?res \<le> coordinate_count (tf_axes fam)" unfolding count by simp
      then have sum: "residual + ?res + (\<Sum>fam\<leftarrow>families. coordinate_count (tf_axes fam)) \<le> usize_max"
        using Cons.prems(2) by simp
      have "residual_coordinates fam d = Inr ?res"
        using residual_fold_ok [of "tf_axes fam" 1 d _ 0] fits Cons.prems(2) by (simp add: residual_coordinates_def family_fits_def)
      then have step: "dense_left_views start len (fam # families) residual
          = bindE (dense_left_views start len families (residual + ?res)) (\<lambda>views. case views of None \<Rightarrow> Inr None
              | Some (residual, views) \<Rightarrow> Inr (Some (residual, (fam, d) # views)))"
        using Some axis(1) False sum by (simp add: checked_add_def)
      have view: "view_ok n start len (fam, d)" using fits Some axis(1) False by (simp add: view_ok_def)
      show ?thesis
      proof (cases "dense_left_views start len families (residual + ?res) = Inr None")
        case more: False
        have fam: "\<And>fam. fam \<in> set families \<Longrightarrow> family_fits n fam" using Cons.prems(1) by simp
        obtain res' views where "dense_left_views start len families (residual + ?res) = Inr (Some (res', views))"
          "map fst views = families" "list_all (view_ok n start len) views"
          "len * res' = len * (residual + ?res) + (\<Sum>fam\<leftarrow>families. coordinate_count (tf_axes fam))"
          using Cons.IH [OF fam sum] more by blast
        then show ?thesis unfolding step using view count False by (simp add: distrib_left)
      qed (simp add: step del: dense_left_views.simps)
    qed (use Some axis(1) in simp)
  qed simp
qed simp

lemma evaluate_coordinate_ok:
  assumes win: "window_with_low_bits par sz ch cap = Inr w" and views: "list_all (view_ok n start len) views" and c: "c < len"
  shows "evaluate_coordinate w views c = Inr (\<Sum>v\<leftarrow>views. family_value ch (fst v) (start + c))"
proof -
  let ?step = "\<lambda>acc (family, destination_axis).
       bindE (ok_or (get_index (tf_axes family) destination_axis) InvalidProof) (\<lambda>axis.
       bindE (checked_axis_offset (tf_right family) (ax_right axis) c ''right'') (\<lambda>right_offset.
       bindE (contract_residual_tensor_axes w destination_axis 0 (tf_axes family) right_offset (tf_scalar family))
         (\<lambda>v. Inr (acc + v))))"
  have "?step acc v = Inr (acc + family_value ch (fst v) (start + c))" if "v \<in> set views" for v acc
  proof -
    obtain fam d where v: "v = (fam, d)" by (cases v)
    have "view_ok n start len (fam, d)" using views that v by (auto simp: list_all_iff)
    then have f: "family_fits n fam" "dense_left_destination_axis fam = Some d" "tf_left fam = start"
      and len: "map_option ax_len (get_index (tf_axes fam) d) = Some len" by (auto simp: view_ok_def)
    obtain axis where axis: "get_index (tf_axes fam) d = Some axis" and ok: "list_all axis_ok (without d 0 (tf_axes fam))"
      and right: "\<And>c. c < ax_len axis \<Longrightarrow> tf_right fam + ax_right axis * c + right_span (without d 0 (tf_axes fam)) \<le> usize_max"
      and "value": "\<And>ch i. family_value ch fam i = (if tf_left fam \<le> i \<and> i < tf_left fam + ax_len axis
        then tf_scalar fam * residual_value ch (without d 0 (tf_axes fam)) (tf_right fam + ax_right axis * (i - tf_left fam)) else 0)"
      using destination_family [OF f(2,1)] by metis
    have l: "ax_len axis = len" using len axis by simp
    have r: "tf_right fam + ax_right axis * c + right_span (without d 0 (tf_axes fam)) \<le> usize_max" using right c l by simp
    then have off: "checked_axis_offset (tf_right fam) (ax_right axis) c ''right'' = Inr (tf_right fam + ax_right axis * c)"
      by (intro checked_axis_offset_ok) linarith
    show ?thesis using contract_residual_ok [OF win ok r, of "tf_scalar fam"] c f(3)
      by (simp add: v axis off "value" l)
  qed
  then have "try_fold ?step 0 views = Inr (0 + (\<Sum>v\<leftarrow>views. family_value ch (fst v) (start + c)))" by (rule try_fold_plain)
  then show ?thesis by (simp add: evaluate_coordinate_def)
qed

lemma view_outside:
  assumes "list_all (view_ok n start len) views" and "\<not> (start \<le> i \<and> i < start + len)" and "v \<in> set views"
  shows "family_value ch (fst v) i = 0"
proof -
  obtain fam d where v: "v = (fam, d)" by (cases v)
  have ok: "view_ok n start len (fam, d)" using assms(1,3) v by (auto simp: list_all_iff)
  then have d: "dense_left_destination_axis fam = Some d" and fits: "family_fits n fam" by (simp_all add: view_ok_def)
  show ?thesis by (rule destination_family [OF d fits]) (use ok assms(2) in \<open>auto simp: v view_ok_def\<close>)
qed

lemma dense_families:
  assumes win: "window_with_low_bits par sz ch cap = Inr w" and fits: "\<And>fam. fam \<in> set families \<Longrightarrow> family_fits n fam"
    and n: "n \<le> usize_max" and work: "(\<Sum>fam\<leftarrow>families. coordinate_count (tf_axes fam)) \<le> MAX_COMPACT_STRIDE_TERMS"
  shows "materialize_dense_left_overlap w families n = Inr None
    \<or> materialize_dense_left_overlap w families n = Inr (Some (map (left_weight ch families) [0..<n]))"
proof (cases families)
  case Nil
  have "map (left_weight ch []) [0..<n] = replicate n 0" by (intro nth_equalityI) (simp_all add: left_weight_def)
  then show ?thesis by (simp add: Nil materialize_dense_left_overlap_def)
next
  case (Cons first rest)
  show ?thesis
  proof (cases "dense_left_destination_axis first")
    case None
    then show ?thesis by (simp add: Cons materialize_dense_left_overlap_def)
  next
    case (Some d)
    have "family_fits n first" using fits Cons by simp
    then obtain axis where axis: "get_index (tf_axes first) d = Some axis" "tf_left first + ax_len axis \<le> n"
      using destination_family [OF Some] by metis
    let ?start = "tf_left first" and ?len = "ax_len axis"
    have usize: "0 + (\<Sum>fam\<leftarrow>families. coordinate_count (tf_axes fam)) \<le> usize_max" using work max_terms_usize by simp
    have head: "materialize_dense_left_overlap w families n = bindE (dense_left_views ?start ?len families 0) (\<lambda>found. case found of
          None \<Rightarrow> Inr None
        | Some (residual, views) \<Rightarrow>
            bindE (ok_or (checked_mul ?len residual) (InvalidInput ''paired tensor work overflow'')) (\<lambda>work.
            if MAX_COMPACT_STRIDE_TERMS < work then Inl (InvalidSize MAX_COMPACT_STRIDE_TERMS work)
            else bindE (collect_result (map (evaluate_coordinate w views) [0..<?len])) (\<lambda>vs.
              Inr (Some (overwrite (replicate n 0) ?start vs)))))"
      using Some axis n by (simp add: Cons materialize_dense_left_overlap_def checked_add_def del: dense_left_views.simps)
    show ?thesis
    proof (cases "dense_left_views ?start ?len families 0 = Inr None")
      case False
      then obtain residual views where views: "dense_left_views ?start ?len families 0 = Inr (Some (residual, views))"
        "map fst views = families" "list_all (view_ok n ?start ?len) views"
        "?len * residual = (\<Sum>fam\<leftarrow>families. coordinate_count (tf_axes fam))"
        using dense_left_views_ok [OF fits usize, of ?start ?len] by auto
      have sum: "(\<Sum>v\<leftarrow>views. family_value ch (fst v) i) = left_weight ch families i" for i
        unfolding left_weight_def views(2) [symmetric] by (simp add: o_def)
      have outside: "left_weight ch families i = 0" if "\<not> (?start \<le> i \<and> i < ?start + ?len)" for i
        unfolding sum [symmetric] using view_outside [OF views(3) that] by (simp cong: map_cong)
      let ?vs = "map (\<lambda>c. left_weight ch families (?start + c)) [0..<?len]"
      have "map (evaluate_coordinate w views) [0..<?len] = map (\<lambda>c. Inr (left_weight ch families (?start + c))) [0..<?len]"
        using evaluate_coordinate_ok [OF win views(3)] by (simp add: sum)
      then have all: "collect_result (map (evaluate_coordinate w views) [0..<?len]) = Inr ?vs"
        by (simp only: collect_result_map_Inr)
      have "materialize_dense_left_overlap w families n = Inr (Some (overwrite (replicate n 0) ?start ?vs))"
        unfolding head using views(1,4) work usize by (simp add: checked_mul_def all del: dense_left_views.simps)
      moreover have "overwrite (replicate n 0) ?start ?vs = map (left_weight ch families) [0..<n]"
      proof (rule nth_equalityI)
        show len: "length (overwrite (replicate n 0) ?start ?vs) = length (map (left_weight ch families) [0..<n])"
          using axis(2) by (simp add: length_overwrite)
        fix i assume "i < length (overwrite (replicate n 0) ?start ?vs)"
        then have i: "i < n" using len by simp
        show "overwrite (replicate n 0) ?start ?vs ! i = map (left_weight ch families) [0..<n] ! i"
          using i axis(2) outside [of i] by (auto simp: nth_overwrite)
      qed
      ultimately show ?thesis by simp
    qed (simp add: head)
  qed
qed

subsection \<open>Normalisation loses nothing\<close>

definition axis_valid :: "'e::field tensor_axis \<Rightarrow> bool" where
  "axis_valid axis \<longleftrightarrow> check_axis_weights axis = Inr () \<and> 0 < ax_len axis"

text \<open>The spans and the number of coordinates that the checks and the work counter look at.\<close>

definition smaller :: "'e tensor_axis list \<Rightarrow> 'e tensor_axis list \<Rightarrow> bool" where
  "smaller xs ys \<longleftrightarrow> left_span xs \<le> left_span ys \<and> right_span xs \<le> right_span ys \<and> coordinate_count xs \<le> coordinate_count ys"

lemma span_append: "left_span (xs @ ys) = left_span xs + left_span ys" "right_span (xs @ ys) = right_span xs + right_span ys"
  by (simp_all add: left_span_def right_span_def)

lemma merged_stride: "0 < m \<Longrightarrow> 0 < k \<Longrightarrow> s * (m * k - 1) = s * (m - 1) + s * m * (k - 1)" for s :: nat
  by (cases m; cases k) (simp_all add: distrib_left distrib_right)

lemma merged_spans:
  assumes "nz \<noteq> []" and "mergeable (last nz) axis" and "0 < ax_len (last nz)" and "0 < ax_len axis"
  defines "nz' \<equiv> butlast nz @ [(last nz)\<lparr>ax_len := ax_len (last nz) * ax_len axis\<rparr>]"
  shows "left_span (nz' @ axes) = left_span (nz @ axis # axes)" "right_span (nz' @ axes) = right_span (nz @ axis # axes)"
    "coordinate_count (nz' @ axes) = coordinate_count (nz @ axis # axes)"
proof -
  have strides: "ax_left axis = ax_left (last nz) * ax_len (last nz)" "ax_right axis = ax_right (last nz) * ax_len (last nz)"
    using assms(2) by (auto simp: mergeable_def checked_mul_def split: if_splits)
  have nz: "nz @ axis # axes = butlast nz @ last nz # axis # axes"
    using append_butlast_last_id [OF assms(1)] by (metis append.assoc append_Cons append_Nil)
  note ms = merged_stride [OF assms(3,4)]
  show "left_span (nz' @ axes) = left_span (nz @ axis # axes)"
    unfolding nz nz'_def by (simp add: span_append span_Cons strides ms [simplified])
  show "right_span (nz' @ axes) = right_span (nz @ axis # axes)"
    unfolding nz nz'_def by (simp add: span_append span_Cons strides ms [simplified])
  show "coordinate_count (nz' @ axes) = coordinate_count (nz @ axis # axes)"
    unfolding nz nz'_def by simp
qed

lemma smaller_drop:
  "ax_len axis = 1 \<Longrightarrow> smaller xs (nz @ axes) \<Longrightarrow> smaller xs (nz @ axis # axes)"
  by (simp add: smaller_def span_append span_Cons)

lemma smaller_empty: "0 < coordinate_count ys \<Longrightarrow> smaller [] ys"
  by (simp add: smaller_def left_span_def right_span_def Suc_le_eq)

lemma coordinate_count_pos': "list_all (\<lambda>a. 0 < ax_len a) axes \<Longrightarrow> 0 < coordinate_count axes"
  by (induction axes) simp_all

lemma axis_valid_weight: "axis_valid axis \<Longrightarrow> \<exists>v. coordinate_weight axis 0 = Some v"
  using checked_axis_ok [of axis] by (auto simp: axis_valid_def axis_ok_def)

lemma merged_length_fits:
  assumes "nz \<noteq> []" and "list_all (\<lambda>a. 0 < ax_len a) (nz @ axis # axes)" and "coordinate_count (nz @ axis # axes) \<le> usize_max"
  shows "checked_mul (ax_len (last nz)) (ax_len axis) = Some (ax_len (last nz) * ax_len axis)"
proof -
  have nz: "nz = butlast nz @ [last nz]" using assms(1) by simp
  have "0 < coordinate_count (butlast nz)" "0 < coordinate_count axes"
    using assms(2) by (auto intro!: coordinate_count_pos' simp: list_all_iff dest!: in_set_butlastD)
  then have "1 \<le> coordinate_count (butlast nz) * coordinate_count axes" by (simp add: Suc_le_eq)
  then have "ax_len (last nz) * ax_len axis * 1 \<le> ax_len (last nz) * ax_len axis * (coordinate_count (butlast nz) * coordinate_count axes)"
    by (rule mult_le_mono2)
  also have "\<dots> = coordinate_count (nz @ axis # axes)" by (subst (3) nz) (simp add: ac_simps)
  finally have "ax_len (last nz) * ax_len axis \<le> usize_max" using assms(3) unfolding mult_1_right by (rule order_trans)
  then show ?thesis by (simp add: checked_mul_def)
qed

lemma normalize_axes_total:
  "list_all axis_valid axes \<Longrightarrow> list_all (\<lambda>a. 0 < ax_len a) nz \<Longrightarrow> left_span axes \<le> usize_max \<Longrightarrow> right_span axes \<le> usize_max \<Longrightarrow>
    coordinate_count (nz @ axes) \<le> usize_max \<Longrightarrow>
    \<exists>fam. normalize_axes l r s nz axes = Inr fam \<and> smaller (tf_axes fam) (nz @ axes)"
proof (induction axes arbitrary: s nz)
  case Nil
  then show ?case by (simp add: smaller_def)
next
  case (Cons axis axes)
  have valid: "check_axis_weights axis = Inr ()" "0 < ax_len axis" "axis_valid axis" "list_all axis_valid axes"
    using Cons.prems(1) by (simp_all add: axis_valid_def [of axis])
  have lens: "list_all (\<lambda>a. 0 < ax_len a) (nz @ axis # axes)"
    using Cons.prems(1,2) by (auto simp: list_all_iff axis_valid_def)
  have spans: "left_span axes \<le> usize_max" "right_span axes \<le> usize_max"
    and "0 + ax_left axis * (ax_len axis - 1) \<le> usize_max" "0 + ax_right axis * (ax_len axis - 1) \<le> usize_max"
    using Cons.prems(3,4) unfolding span_Cons by linarith+
  note offsets = this(3,4) [THEN checked_axis_offset_ok]
  note IH = Cons.IH [OF valid(4) _ spans]
  have scale: "(if w \<noteq> 1 then s * w else s) = s * w" for w by simp
  obtain v where v: "coordinate_weight axis 0 = Some v" using axis_valid_weight [OF valid(3)] ..
  note head = normalize_axes.simps(2) [of l r s nz axis axes, unfolded valid(1) offsets scale v bindE_simps ok_or_simps]
  show ?case
  proof (cases "ax_len axis = 1")
    case one: True
    have count: "coordinate_count (nz @ axes) \<le> usize_max" using Cons.prems(5) one by simp
    obtain fam1 where fam1: "normalize_axes l r s nz axes = Inr fam1" "smaller (tf_axes fam1) (nz @ axis # axes)"
      using IH [OF Cons.prems(2) count, of s] smaller_drop [OF one] by blast
    obtain fam2 where fam2: "normalize_axes l r (s * v) nz axes = Inr fam2" "smaller (tf_axes fam2) (nz @ axis # axes)"
      using IH [OF Cons.prems(2) count, of "s * v"] smaller_drop [OF one] by blast
    have empty: "smaller [] (nz @ axis # axes)" using coordinate_count_pos' [OF lens] by (rule smaller_empty)
    show ?thesis unfolding head using one fam1 fam2 empty by simp
  next
    case many: False
    show ?thesis
    proof (cases "nz \<noteq> [] \<and> mergeable (last nz) axis")
      case True
      let ?nz = "butlast nz @ [(last nz)\<lparr>ax_len := ax_len (last nz) * ax_len axis\<rparr>]"
      have last: "0 < ax_len (last nz)" using True Cons.prems(2) by (simp add: list_all_iff)
      note m = merged_spans [of nz axis, OF _ _ last valid(2), of axes]
      have pos: "list_all (\<lambda>a. 0 < ax_len a) ?nz" using Cons.prems(2) last valid(2) by (auto simp: list_all_iff dest: in_set_butlastD)
      have "coordinate_count (?nz @ axes) \<le> usize_max" using m(3) True Cons.prems(5) by metis
      from IH [OF pos this, of s] obtain fam where fam: "normalize_axes l r s ?nz axes = Inr fam" "smaller (tf_axes fam) (?nz @ axes)" by blast
      have "smaller (tf_axes fam) (nz @ axis # axes)" using fam(2) m True unfolding smaller_def by metis
      moreover have "normalize_axes l r s nz (axis # axes) = Inr fam"
        unfolding head using valid(2) many True fam(1) merged_length_fits [OF _ lens Cons.prems(5)] by simp
      ultimately show ?thesis by blast
    next
      case False
      then show ?thesis unfolding head using IH [of "nz @ [axis]" s] Cons.prems(2,5) valid(2) many by auto
    qed
  qed
qed

text \<open>A weight zero on a one-point axis ends the construction before the axes behind it are looked at.\<close>

lemma zero_weight_skips_validation:
  "family_new l r (1 :: rat) [axis_dense 1 1 [0], axis_unit 0 1 1] = Inr \<lparr>tf_left = l, tf_right = r, tf_scalar = 0, tf_axes = []\<rparr>"
  "family_new l r (1 :: rat) [axis_unit 0 1 1] = Inl (InvalidInput ''paired tensor axes must be non-empty'')"
  by (simp_all add: family_new_def axis_dense_def axis_unit_def check_axis_weights_def checked_axis_offset_ok unit_axis_def
    coordinate_weight_def get_index_def usize_max_def)

subsection \<open>The materialised weights\<close>

lemma materialize_families:
  assumes win: "window_with_low_bits par sz ch cap = Inr w" and fits: "\<And>fam. fam \<in> set families \<Longrightarrow> family_fits n fam"
    and n: "n \<le> usize_max" and work: "(\<Sum>fam\<leftarrow>families. coordinate_count (tf_axes fam)) \<le> MAX_COMPACT_STRIDE_TERMS"
    and reserve: "reserve (length families)"
  shows "materialize_eq_tensor_left reserve w families n = Inr (map (left_weight ch families) [0..<n])"
proof -
  obtain work' where gen: "try_fold (family_step w) (0, replicate n 0) families = Inr (work', map (left_weight ch families) [0..<n])"
    using general_families [OF win fits n work] by blast
  show ?thesis
    using disjoint_families [where reserve = reserve, OF win fits n work reserve] dense_families [OF win fits n work]
    by (auto simp: materialize_eq_tensor_left_def gen)
qed

text \<open>
  The arguments of the constructor, the weight that the documented sum gives to the left address \<open>i\<close>, and
  the bounds under which a family is accepted.
\<close>

type_synonym 'e raw_family = "nat \<times> nat \<times> 'e \<times> 'e tensor_axis list"

definition build_family :: "'e::field raw_family \<Rightarrow> 'e tensor_family result" where
  "build_family = (\<lambda>(left_offset, right_offset, scalar, axes). family_new left_offset right_offset scalar axes)"

definition raw_value :: "'e::field list \<Rightarrow> nat \<Rightarrow> 'e raw_family \<Rightarrow> 'e" where
  "raw_value ch i = (\<lambda>(l, r, s, axes). s * axes_value axes l r (delta_at ch i))"

definition raw_count :: "'e raw_family \<Rightarrow> nat" where
  "raw_count = (\<lambda>(l, r, s, axes). coordinate_count axes)"

definition raw_fits :: "nat \<Rightarrow> 'e::field raw_family \<Rightarrow> bool" where
  "raw_fits n = (\<lambda>(l, r, s, axes). list_all axis_valid axes \<and> l + left_span axes < n \<and> r + right_span axes < usize_max)"

lemma build_family_ok:
  assumes "raw_fits n raw" and "n \<le> usize_max" and "raw_count raw \<le> usize_max"
  shows "\<exists>fam. build_family raw = Inr fam \<and> family_fits n fam \<and> coordinate_count (tf_axes fam) \<le> raw_count raw
    \<and> (\<forall>ch i. family_value ch fam i = raw_value ch i raw)"
proof -
  obtain l r s axes where raw: "raw = (l, r, s, axes)" by (cases raw)
  have f: "list_all axis_valid axes" "l + left_span axes < n" "r + right_span axes < usize_max" "coordinate_count axes \<le> usize_max"
    using assms(1,3) by (simp_all add: raw raw_fits_def raw_count_def)
  then obtain fam where fam: "normalize_axes l r s [] axes = Inr fam" "smaller (tf_axes fam) axes"
    using normalize_axes_total [of axes "[]" l r s] assms(2) by auto
  have "tf_left fam = l \<and> tf_right fam = r \<and> list_all axis_ok (tf_axes fam)
     \<and> (\<forall>G. tf_scalar fam * axes_value (tf_axes fam) l r G = s * axes_value ([] @ axes) l r G)"
    by (rule normalize_axes_value [OF fam(1)]) simp
  then show ?thesis using fam f
    by (auto simp: raw build_family_def family_new_def family_fits_def family_value_def raw_value_def raw_count_def smaller_def)
qed

lemma build_families_ok:
  assumes "list_all (raw_fits n) raws" and "n \<le> usize_max" and "(\<Sum>raw\<leftarrow>raws. raw_count raw) \<le> usize_max"
  shows "\<exists>fams. collect_result (map build_family raws) = Inr fams \<and> (\<forall>fam \<in> set fams. family_fits n fam) \<and> length fams = length raws
    \<and> (\<Sum>fam\<leftarrow>fams. coordinate_count (tf_axes fam)) \<le> (\<Sum>raw\<leftarrow>raws. raw_count raw)
    \<and> (\<forall>ch i. left_weight ch fams i = (\<Sum>raw\<leftarrow>raws. raw_value ch i raw))"
  using assms
proof (induction raws)
  case (Cons raw raws)
  obtain fam where "build_family raw = Inr fam" "family_fits n fam" "coordinate_count (tf_axes fam) \<le> raw_count raw"
    "\<forall>ch i. family_value ch fam i = raw_value ch i raw" using build_family_ok [of n raw] Cons.prems by auto
  moreover obtain fams where "collect_result (map build_family raws) = Inr fams" "\<forall>fam \<in> set fams. family_fits n fam"
    "length fams = length raws" "(\<Sum>fam\<leftarrow>fams. coordinate_count (tf_axes fam)) \<le> (\<Sum>raw\<leftarrow>raws. raw_count raw)"
    "\<forall>ch i. left_weight ch fams i = (\<Sum>raw\<leftarrow>raws. raw_value ch i raw)" using Cons by auto
  ultimately show ?case by (auto simp: left_weight_def)
qed (simp add: left_weight_def)

text \<open>
  C15: families of paired equality tensors whose axes are valid, whose addresses fit the output and the
  machine word and whose coordinates fit the work bound are all accepted by the constructor, and the left
  weights materialised from the normalised families against a bounded equality window are, at every left
  address, the documented sum over all coordinates of the given axes.  This holds on each of the three
  paths of the code.
\<close>

theorem tensor_left_exact:
  assumes "window_with_low_bits par sz ch cap = Inr w" and "list_all (raw_fits n) raws" and "n \<le> usize_max"
    and "(\<Sum>raw\<leftarrow>raws. raw_count raw) \<le> MAX_COMPACT_STRIDE_TERMS" and "reserve (length raws)"
  shows "bindE (collect_result (map build_family raws)) (\<lambda>families. materialize_eq_tensor_left reserve w families n)
    = Inr (map (\<lambda>i. \<Sum>raw\<leftarrow>raws. raw_value ch i raw) [0..<n])"
proof -
  have "(\<Sum>raw\<leftarrow>raws. raw_count raw) \<le> usize_max" using assms(4) max_terms_usize by simp
  then obtain fams where fams: "collect_result (map build_family raws) = Inr fams" "\<forall>fam \<in> set fams. family_fits n fam" "length fams = length raws"
    "(\<Sum>fam\<leftarrow>fams. coordinate_count (tf_axes fam)) \<le> (\<Sum>raw\<leftarrow>raws. raw_count raw)"
    "\<forall>ch i. left_weight ch fams i = (\<Sum>raw\<leftarrow>raws. raw_value ch i raw)"
    using build_families_ok [OF assms(2,3)] by blast
  have "materialize_eq_tensor_left reserve w fams n = Inr (map (left_weight ch fams) [0..<n])"
    using fams assms(3-5) by (intro materialize_families [OF assms(1)]) auto
  then show ?thesis using fams(1,5) by simp
qed

theorem tensor_left_exact_witness:
  "\<exists>w. window_with_low_bits False 8 [2, 3, 5 :: rat] 1 = Inr w
    \<and> bindE (collect_result (map build_family
          [(0, 1, 2, [axis_unit 2 1 1, axis_dense 0 2 [4, 7]]), (1, 0, 1, [axis_unit 2 1 3])]))
        (\<lambda>families. materialize_eq_tensor_left (\<lambda>_. True) w families 4) = Inr [- 208, 228, - 24, 0]"
proof -
  let ?raws = "[(0, 1, 2, [axis_unit 2 1 1, axis_dense 0 2 [4, 7]]), (1, 0, 1, [axis_unit 2 1 3])] :: rat raw_family list"
  obtain w where w: "window_with_low_bits False 8 [2, 3, 5 :: rat] 1 = Inr w"
    using window_total [of 8 False "[2, 3, 5]" 1] by (auto simp: eq_budget_ok_def MAX_MATERIALIZED_EQ_TABLE_BYTES_def)
  have two: "{..<2 :: nat} = {0, 1}" by auto
  have "list_all (raw_fits 4) ?raws"
    by (simp add: raw_fits_def axis_valid_def check_axis_weights_def axis_unit_def axis_dense_def left_span_def right_span_def usize_max_def)
  moreover have "(\<Sum>raw\<leftarrow>?raws. raw_count raw) \<le> MAX_COMPACT_STRIDE_TERMS"
    by (simp add: raw_count_def axis_unit_def axis_dense_def MAX_COMPACT_STRIDE_TERMS_def)
  moreover have "map (\<lambda>i. \<Sum>raw\<leftarrow>?raws. raw_value [2, 3, 5] i raw) [0..<4] = [- 208, 228, - 24, 0]"
    by (simp add: raw_value_def axis_unit_def axis_dense_def axis_weight_def coordinate_weight_def get_index_def delta_at_def eq_at_def
      two lessThan_Suc upt_rec)
  ultimately show ?thesis using tensor_left_exact [OF w, of 4 ?raws "\<lambda>_. True"] w by (auto simp: usize_max_def)
qed

end
