(* ===== verification/Spec2Isabelle.thy ===== *)
theory Spec2Isabelle
  imports BatchedCorrect GrindingReplay Stage1Sound GolombRiceCorrect Sampler TensorPairCorrect
begin

text \<open>
  Akita is a lattice-based polynomial commitment scheme.  A prover folds a committed witness level by
  level; every level is a chain of sumchecks over multilinear tables whose challenges, sparse ring
  elements and field elements alike, come from one Fiat-Shamir transcript that also carries a
  proof-of-work schedule.  This development models the parts of the Rust workspace under
  \<^verbatim>\<open>src/crates\<close> that carry this logic, as executable functions over explicit states, and proves
  what makes each of them correct.

  \<^bold>\<open>How the parts fit.\<close>  Size arithmetic (\<^verbatim>\<open>akita-error\<close>) and the wire codec
  (\<^verbatim>\<open>akita-serialization\<close>) are used everywhere.  Polynomials and equality tables
  (\<^verbatim>\<open>akita-algebra\<close>) give the round messages and folds of the sumcheck drivers
  (\<^verbatim>\<open>akita-sumcheck\<close>), whose challenges come from the transcript (\<^verbatim>\<open>akita-transcript\<close>).  The
  extension opening reduction (\<^verbatim>\<open>akita-prover\<close>) and the digit-range check
  (\<^verbatim>\<open>akita-types\<close>, \<^verbatim>\<open>akita-verifier\<close>) are clients of the drivers; the grinding plan and its nonce replay
  (\<^verbatim>\<open>akita-types\<close>) wrap the transcript; the fold-challenge sampler (\<^verbatim>\<open>akita-challenges\<close>) expands one
  transcript block into sparse challenges; the Golomb-Rice codec (\<^verbatim>\<open>akita-types\<close>) is the wire form of the
  last response.

  \<^bold>\<open>Conventions.\<close>  \<open>AkitaError\<close> and \<open>SerializationError\<close> are datatypes, a \<open>Result\<close> is a sum with the
  error on the left, and \<open>?\<close> is \<open>bindE\<close> (theory Prelude).  A panic, an overflow the code does not
  check, or a loop that never ends is \<open>None\<close>.  A \<open>usize\<close> is a natural number with its bound written out
  where the code can meet it; \<open>u8\<close>, \<open>u32\<close> and \<open>u64\<close> values are words where wrap-around or bits matter.
  A field is any type of the class \<open>field\<close>; a structure is a record with the source's fields; a trait
  object is a record of its methods.  Data parallelism (rayon) is the loop over the same indices; where
  the outcome could depend on the schedule, the schedule is a parameter (for a fold that is reduced, the
  cut of its items into consecutive pieces).

  \<^bold>\<open>Parameters for code outside the repository.\<close>  The sponge of \<^verbatim>\<open>spongefish\<close> (record \<open>sponge_ops\<close>,
  with the hypotheses \<open>chunked\<close>: blocks of 32 bytes, and \<open>duplex_faithful\<close>: a copy of the sponge behaves
  as the original), the permutation \<open>keccak::f1600\<close>, the prime-field arithmetic of \<^verbatim>\<open>jolt-field\<close>, and the
  success of an allocation.  Each theorem with such a hypothesis has a witness with a concrete instance.

  \<^bold>\<open>The theories.\<close>

  \<^item> \<^verbatim>\<open>Prelude\<close>: errors, results, integer types, folds that stop at an error, and their lemmas.
  \<^item> \<^verbatim>\<open>Checked\<close> (\<^verbatim>\<open>akita-error/src/checked.rs\<close>): checked sums, products, powers, alignment, logarithm,
    quotient; each is exact or fails exactly when the value does not fit.
  \<^item> \<^verbatim>\<open>UniPoly\<close> (\<^verbatim>\<open>akita-algebra/src/uni_poly.rs\<close>): Newton interpolation, the compressed round message
    without its linear term, and the evaluation from the hint; they agree.
  \<^item> \<^verbatim>\<open>EqPoly\<close> (\<^verbatim>\<open>eq_poly.rs\<close>): the serial, slab-parallel, layer-parallel, cached and prefix builders of
    the equality table and its prefix sums; all are the pointwise equality polynomial.
  \<^item> \<^verbatim>\<open>OffsetEq\<close> (\<^verbatim>\<open>offset_eq.rs\<close>): the bounded equality window with its low and high tables; it is the
    equality polynomial at every index, inside and outside the domain.
  \<^item> \<^verbatim>\<open>AffineEval\<close>, \<^verbatim>\<open>AffineLow\<close>, \<^verbatim>\<open>AffineHigh\<close>, \<^verbatim>\<open>AffineCorrect\<close>
    (\<^verbatim>\<open>offset_eq.rs\<close>): the evaluator of affine digit intervals.  Its bit-aligned path, its geometric and dense low
    summaries, its direct and bucketed high contractions and its row blocks all compute the
    documented sum; it fails exactly when a documented condition does.
  \<^item> \<^verbatim>\<open>TensorPair\<close>, \<^verbatim>\<open>TensorPairCorrect\<close> (\<^verbatim>\<open>offset_eq/tensor_pair/mod.rs\<close>, \<^verbatim>\<open>materialize.rs\<close>): families of
    paired tensor axes and the left weights they induce.  Normalisation keeps the documented sum, and
    the interval path, the shared destination path and the visit of all coordinates all compute it.
  \<^item> \<^verbatim>\<open>Multilinear\<close> (\<^verbatim>\<open>poly.rs\<close>): evaluation and in-place folding of tables; folding is partial evaluation.
  \<^item> \<^verbatim>\<open>SplitEq\<close> (\<^verbatim>\<open>split_eq.rs\<close>): Gruen's split state refines the folded dense table.
  \<^item> \<^verbatim>\<open>Serialization\<close> (\<^verbatim>\<open>akita-serialization\<close>): codecs as records; canonical decoding, round trips,
    length limits.
  \<^item> \<^verbatim>\<open>Transcript\<close> (\<^verbatim>\<open>akita-transcript\<close>): binding, framing, squeezing, limb labels, proof-of-work search; the
    absorbed stream determines the messages, and a nonce that is found is accepted on replay.
  \<^item> \<^verbatim>\<open>Sumcheck\<close>, \<^verbatim>\<open>SumcheckCorrect\<close>, \<^verbatim>\<open>BatchedCorrect\<close>, \<^verbatim>\<open>EqFactored\<close> (\<^verbatim>\<open>akita-sumcheck\<close>): the standard, batched
    and equality-factored drivers; completeness, and soundness as a statement on the bad challenges.
  \<^item> \<^verbatim>\<open>EorProver\<close>, \<^verbatim>\<open>EorCorrect\<close>
    (\<^verbatim>\<open>akita-prover/src/protocol/extension_opening_reduction\<close>): the fused prover refines a dense
    specification and its proof is accepted.
  \<^item> \<^verbatim>\<open>GrindingPlan\<close>, \<^verbatim>\<open>GrindingReplay\<close> (\<^verbatim>\<open>akita-types/src/transcript_grinding.rs\<close> and its
    \<^verbatim>\<open>replay.rs\<close>): priced and validated plan, bit-packed nonce stream, prover and verifier replay.
  \<^item> \<^verbatim>\<open>DigitRange\<close>, \<^verbatim>\<open>Stage1Verifier\<close>, \<^verbatim>\<open>Stage1Sound\<close> (\<^verbatim>\<open>akita-types/src/proof/stage1.rs\<close>,
    \<^verbatim>\<open>akita-verifier/src/stages/stage1.rs\<close>): the product tree of the range polynomial and the
    soundness of its verifier.
  \<^item> \<^verbatim>\<open>GolombRice\<close>, \<^verbatim>\<open>GolombRiceCorrect\<close> (\<^verbatim>\<open>akita-types/src/golomb_rice.rs\<close>): the codec accepts exactly
    the encodings; admission and length bounds.
  \<^item> \<^verbatim>\<open>Xof\<close>, \<^verbatim>\<open>PositionSample\<close>, \<^verbatim>\<open>SparseChallenge\<close>, \<^verbatim>\<open>Sampler\<close> (\<^verbatim>\<open>akita-challenges/src\<close>): the stream of a
    coordinate, the shuffle that picks positions and its hash table, the challenge families with their
    entropy, and the batches: every schedule gives the challenges of independent coordinate draws, all
    of them members of the family.

  \<^bold>\<open>Interfaces.\<close>  Where a component relies on another, the contract is a locale and the provider interprets it
  on its own definitions, for instance \<open>byte_source\<close> (a cursor as a stream), \<open>position_table\<close> (a
  table as a finite map) and \<open>coordinate_worker\<close> (draws independent of the worker's past).

  \<^bold>\<open>Loops and bounds.\<close>  Loops with a decreasing measure are functions with a termination proof.  The squeeze
  loop and the rejection loops are partial functions into \<open>option\<close>; squeezing is shown to end, and a
  rejection loop to return at the first accepted byte.  The attempts of the operator-norm rejection and
  of the nonce search are bounded by the constants of the code.  The position table is probed at most as
  often as it has slots, which suffices because four slots are kept for every position drawn.

  \<^bold>\<open>Not modelled.\<close>  The contraction of tensor pairs at two points (\<^verbatim>\<open>tensor_pair/evaluate.rs\<close>), the NTT, CRT and FFT kernels (word-level SIMD), the lattice
  estimator (floating point), the planner and the generated schedules, setup and persistence, the
  presets, the prover's kernels and memory layouts, the verifier's stages 2 and 3 and the fold
  protocol with the relation layouts they need, the operator-norm table (its predicate is a parameter
  of the sampler), the logging decorator and the facade.
\<close>

end
